(* ===== verification/Cove_Prelude.thy ===== *)
theory Cove_Prelude
  imports Main "HOL-Library.AList"
begin

text \<open>
  Shared vocabulary of the development.

  \<^item> Numbers. The program's counters, sequence numbers and byte counts are JavaScript Numbers that
    the code keeps integral and below 2^53. They are modelled as \<^typ>\<open>int\<close>;
    \<open>isSafeInteger\<close> is the range test of \<open>Number.isSafeInteger\<close> on an integral value. Fractions,
    NaN and the infinities, which every such guard refuses first, are outside the model.
  \<^item> Containers. A JavaScript \<open>Map\<close> iterates in insertion order and \<open>set\<close> on a present key keeps
    its place: exactly \<^const>\<open>AList.update\<close> on an association list with distinct keys; \<open>delete\<close> is
    \<^const>\<open>AList.delete\<close>, \<open>get\<close> is \<^const>\<open>map_of\<close>, \<open>size\<close> is \<^const>\<open>length\<close>.
  \<^item> Objects and closures. An object shared by reference, and a closure with private mutable
    variables (a byte lease, a replay pin), is a cell of a list used as a heap: creation appends the
    cell, the handle is its index, a mutation is a list update.

  The lemmas below are the arithmetic of such heaps and association lists: what a sum or a count
  over the cells becomes when one cell is appended or overwritten.
\<close>

type_synonym number = int
type_synonym handle = nat
type_synonym ident = string

named_theorems cove_defs \<open>definitions of operations unfolded by the component proofs\<close>
named_theorems cove_inv \<open>one-step preservation lemmas of component invariants\<close>

definition MAX_SAFE_INTEGER :: number where
  "MAX_SAFE_INTEGER = 9007199254740991"

definition isSafeInteger :: "number \<Rightarrow> bool" where
  "isSafeInteger n \<longleftrightarrow> - MAX_SAFE_INTEGER \<le> n \<and> n \<le> MAX_SAFE_INTEGER"

subsection \<open>Lists as heaps of cells\<close>

definition cell_sum :: "('c \<Rightarrow> int) \<Rightarrow> 'c list \<Rightarrow> int" where
  "cell_sum f cs = sum_list (map f cs)"

lemma cell_sum_Nil [simp]: "cell_sum f [] = 0"
  by (simp add: cell_sum_def)

lemma cell_sum_Cons [simp]: "cell_sum f (c # cs) = f c + cell_sum f cs"
  by (simp add: cell_sum_def)

lemma cell_sum_append [simp]: "cell_sum f (cs @ ds) = cell_sum f cs + cell_sum f ds"
  by (simp add: cell_sum_def)

lemma cell_sum_update:
  "i < length cs \<Longrightarrow> cell_sum f (cs[i := c]) = cell_sum f cs - f (cs ! i) + f c"
proof (induction cs arbitrary: i)
  case (Cons d ds)
  then show ?case by (cases i) auto
qed simp

lemma cell_sum_nonneg: "(\<And>c. c \<in> set cs \<Longrightarrow> 0 \<le> f c) \<Longrightarrow> 0 \<le> cell_sum f cs"
  by (induction cs) (auto simp: add_nonneg_nonneg)

lemma cell_sum_member_le:
  "i < length cs \<Longrightarrow> (\<And>c. c \<in> set cs \<Longrightarrow> 0 \<le> f c) \<Longrightarrow> f (cs ! i) \<le> cell_sum f cs"
proof (induction cs arbitrary: i)
  case (Cons d ds)
  show ?case
  proof (cases i)
    case 0
    have "0 \<le> cell_sum f ds" using Cons.prems(2) by (intro cell_sum_nonneg) auto
    then show ?thesis using 0 by simp
  next
    case (Suc j)
    then have "f (ds ! j) \<le> cell_sum f ds" using Cons by auto
    moreover have "0 \<le> f d" using Cons.prems(2) by simp
    ultimately show ?thesis using Suc by simp
  qed
qed simp

lemma cell_sum_zero: "cell_sum (\<lambda>_. 0) cs = 0"
  by (induction cs) simp_all

lemma cell_sum_cong: "(\<And>c. c \<in> set cs \<Longrightarrow> f c = g c) \<Longrightarrow> cell_sum f cs = cell_sum g cs"
  by (induction cs) auto

lemma cell_sum_add: "cell_sum (\<lambda>c. f c + g c) cs = cell_sum f cs + cell_sum g cs"
  by (induction cs) auto

lemma set_list_update_cases: "x \<in> set (xs[i := y]) \<Longrightarrow> x = y \<or> x \<in> set xs"
  using set_update_subset_insert by fastforce

text \<open>The sum over the live handles of a heap is the sum over its cells, dead ones counting 0.\<close>

lemma sum_live_handles:
  "(\<Sum>i \<in> {i. i < length cs \<and> P (cs ! i)}. f (cs ! i)) = cell_sum (\<lambda>c. if P c then f c else 0) cs"
proof (induction cs rule: rev_induct)
  case (snoc c cs)
  have split: "{i. i < length (cs @ [c]) \<and> P ((cs @ [c]) ! i)} =
      {i. i < length cs \<and> P (cs ! i)} \<union> (if P c then {length cs} else {})"
    by (auto simp: nth_append less_Suc_eq split: if_splits)
  have "(\<Sum>i \<in> {i. i < length cs \<and> P (cs ! i)}. f ((cs @ [c]) ! i)) =
      (\<Sum>i \<in> {i. i < length cs \<and> P (cs ! i)}. f (cs ! i))"
    by (rule sum.cong) (auto simp: nth_append)
  then show ?case
    using snoc unfolding split by (subst sum.union_disjoint) auto
qed simp

subsection \<open>Association lists as insertion-ordered maps\<close>

abbreviation distinct_keys :: "('k \<times> 'v) list \<Rightarrow> bool" where
  "distinct_keys al \<equiv> distinct (map fst al)"

declare map_of_eq_Some_iff [simp del] Some_eq_map_of_iff [simp del]

lemma length_update_new [simp]:
  "map_of al k = None \<Longrightarrow> length (AList.update k v al) = Suc (length al)"
  by (induction al) auto

lemma length_update_present [simp]:
  "map_of al k = Some w \<Longrightarrow> length (AList.update k v al) = length al"
  by (induction al) auto

lemma update_new_append: "map_of al k = None \<Longrightarrow> AList.update k v al = al @ [(k, v)]"
  by (induction al) auto

lemma map_of_update [simp]: "map_of (AList.update k v al) = (map_of al)(k \<mapsto> v)"
  by (rule update_conv')

lemma map_of_delete [simp]: "map_of (AList.delete k al) = (map_of al)(k := None)"
  by (rule delete_conv')

lemma distinct_keys_update: "distinct_keys al \<Longrightarrow> distinct_keys (AList.update k v al)"
  by (rule distinct_update)

lemma distinct_keys_delete: "distinct_keys al \<Longrightarrow> distinct_keys (AList.delete k al)"
  by (rule distinct_delete)

lemma set_update_distinct:
  "distinct_keys al \<Longrightarrow>
   set (AList.update k v al) = insert (k, v) {p \<in> set al. fst p \<noteq> k}"
  by (induction al) (auto split: if_splits simp: image_iff)

lemma delete_absent: "map_of al k = None \<Longrightarrow> AList.delete k al = al"
  by (induction al) (auto simp: AList.delete_eq split: if_splits)

lemma length_delete_present:
  "distinct_keys al \<Longrightarrow> map_of al k = Some v \<Longrightarrow> Suc (length (AList.delete k al)) = length al"
proof (induction al)
  case (Cons p al)
  show ?case
  proof (cases "fst p = k")
    case True
    then have "map_of al k = None" using Cons.prems(1)
      by (auto simp: map_of_eq_None_iff)
    then have "AList.delete k al = al" by (rule delete_absent)
    then show ?thesis using True by (cases p) (simp add: AList.delete_eq)
  next
    case False
    then show ?thesis using Cons by (cases p) (auto simp: AList.delete_eq)
  qed
qed simp

lemma assoc_sum_update:
  "distinct_keys al \<Longrightarrow>
   cell_sum (f \<circ> snd) (AList.update k v al) =
     cell_sum (f \<circ> snd) al - (case map_of al k of None \<Rightarrow> 0 | Some w \<Rightarrow> f w) + f v"
  by (induction al) (auto split: option.splits if_splits simp: map_of_eq_None_iff)

lemma assoc_sum_delete:
  "distinct_keys al \<Longrightarrow>
   cell_sum (f \<circ> snd) (AList.delete k al) =
     cell_sum (f \<circ> snd) al - (case map_of al k of None \<Rightarrow> 0 | Some w \<Rightarrow> f w)"
proof (induction al)
  case (Cons p al)
  obtain a b where p: "p = (a, b)" by (cases p)
  show ?case
  proof (cases "a = k")
    case True
    then have none: "map_of al k = None" using Cons.prems p
      by (auto simp: map_of_eq_None_iff)
    then have "AList.delete k al = al" by (rule delete_absent)
    then have "AList.delete k (p # al) = al" using True p by (simp add: AList.delete_eq)
    then show ?thesis using True p by simp
  next
    case False
    then show ?thesis using Cons p by (auto simp: AList.delete_eq split: option.splits)
  qed
qed simp

lemma list_update_Cons_numeral [simp]:
  "(x # xs)[numeral k := y] = x # xs[pred_numeral k := y]"
  by (simp add: numeral_eq_Suc)

end
