(* ===== verification/Byte_Ledger.thy ===== *)
theory Byte_Ledger
  imports Cove_Prelude
begin

text \<open>
  The contract every byte account of the program gives its clients, and what follows from it alone.

  An account hands out leases. A lease is a closure that owns a number of accounted bytes until it
  is released, and releasing it twice does nothing. \<open>charge s l\<close> is what lease \<open>l\<close> still owns
  (\<^const>\<open>None\<close> for a released or unknown handle), \<open>total s\<close> the bytes the account counts as used and
  \<open>limit s\<close> its bound. The clients (replay window, delivery credit, preview cache, run registry,
  native input) are verified against these laws; the accounts of the worker and of the server
  runtime are interpreted in \<open>Worker_Bytes\<close> and \<open>Runtime_Bytes\<close>.
\<close>

subsection \<open>Owners of leases\<close>

text \<open>
  An owner map gives each owner the lease it holds and that lease's charge. The owners of a client
  are usually the cells of one of its lists.
\<close>

definition lof_total :: "('o \<Rightarrow> (nat \<times> int) option) \<Rightarrow> int" where
  "lof_total lof = (\<Sum>p \<in> dom lof. snd (the (lof p)))"

definition list_lof :: "('c \<Rightarrow> (nat \<times> int) option) \<Rightarrow> 'c list \<Rightarrow> nat \<Rightarrow> (nat \<times> int) option" where
  "list_lof g cs i = (if i < length cs then g (cs ! i) else None)"

definition held :: "('l \<times> int) option \<Rightarrow> int" where
  "held x = (case x of None \<Rightarrow> 0 | Some p \<Rightarrow> snd p)"

lemma held_simps [simp]: "held None = 0" "held (Some (l, n)) = n"
  by (simp_all add: held_def)

lemma list_lof_append [simp]:
  "g c = Some x \<Longrightarrow> list_lof g (cs @ [c]) = (list_lof g cs)(length cs \<mapsto> x)"
  "g c = None \<Longrightarrow> list_lof g (cs @ [c]) = list_lof g cs"
  by (auto simp: list_lof_def fun_eq_iff nth_append less_Suc_eq)

lemma list_lof_update: "i < length cs \<Longrightarrow> list_lof g (cs[i := c]) = (list_lof g cs)(i := g c)"
  by (auto simp: list_lof_def fun_eq_iff nth_list_update)

lemma dom_list_lof: "dom (list_lof g cs) = {i. i < length cs \<and> g (cs ! i) \<noteq> None}"
  by (auto simp: list_lof_def dom_def)

lemma lof_total_list_lof: "lof_total (list_lof g cs) = cell_sum (held \<circ> g) cs"
proof -
  have "lof_total (list_lof g cs) = (\<Sum>i \<in> {i. i < length cs \<and> g (cs ! i) \<noteq> None}. (held \<circ> g) (cs ! i))"
    unfolding lof_total_def dom_list_lof by (intro sum.cong) (auto simp: list_lof_def held_def)
  also have "\<dots> = cell_sum (\<lambda>c. if g c \<noteq> None then (held \<circ> g) c else 0) cs" by (rule sum_live_handles)
  also have "\<dots> = cell_sum (held \<circ> g) cs" by (rule cell_sum_cong) (auto simp: held_def split: option.splits)
  finally show ?thesis .
qed

lemma lof_total_sum:
  assumes "finite (dom (case_sum f g))"
  shows "lof_total (case_sum f g) = lof_total f + lof_total g"
proof -
  have d: "dom (case_sum f g) = Inl ` dom f \<union> Inr ` dom g"
    by (auto simp: dom_def image_iff split: sum.splits) (metis obj_sumE old.sum.simps(5) old.sum.simps(6))
  have fin: "finite (Inl ` dom f :: ('a + 'b) set)" "finite (Inr ` dom g :: ('a + 'b) set)"
    using assms unfolding d by auto
  have "(\<Sum>p \<in> Inl ` dom f. snd (the (case_sum f g p))) = lof_total f"
    unfolding lof_total_def by (simp add: sum.reindex)
  moreover have "(\<Sum>p \<in> Inr ` dom g. snd (the (case_sum f g p))) = lof_total g"
    unfolding lof_total_def by (simp add: sum.reindex)
  ultimately show ?thesis
    unfolding lof_total_def [of "case_sum f g"] d using fin by (subst sum.union_disjoint) auto
qed

lemma case_sum_upd:
  "(case_sum f g)(Inl i := x) = case_sum (f(i := x)) g" "(case_sum f g)(Inr j := x) = case_sum f (g(j := x))"
  by (auto simp: fun_eq_iff split: sum.splits)

text \<open>Reservations and releases that the other clients of an account make between two calls of the modelled one.\<close>

definition other_reserve ::
  "('s \<Rightarrow> int \<Rightarrow> nat option \<times> 's) \<Rightarrow> int \<Rightarrow> 's \<times> (nat \<times> int) option list \<Rightarrow> 's \<times> (nat \<times> int) option list" where
  "other_reserve reserve n s = (case reserve (fst s) n of
     (None, a) \<Rightarrow> (a, snd s)
   | (Some l, a) \<Rightarrow> (a, snd s @ [Some (l, n)]))"

definition other_release :: "('s \<Rightarrow> nat \<Rightarrow> 's) \<Rightarrow> nat \<Rightarrow> 's \<times> (nat \<times> int) option list \<Rightarrow> 's \<times> (nat \<times> int) option list" where
  "other_release release j s =
     (if j < length (snd s) then case snd s ! j of
        None \<Rightarrow> s
      | Some (l, n) \<Rightarrow> (release (fst s) l, (snd s)[j := None])
      else s)"

locale byte_ledger =
  fixes reserve :: "'s \<Rightarrow> int \<Rightarrow> nat option \<times> 's"
    and release :: "'s \<Rightarrow> nat \<Rightarrow> 's"
    and charge :: "'s \<Rightarrow> nat \<Rightarrow> int option"
    and total :: "'s \<Rightarrow> int"
    and limit :: "'s \<Rightarrow> int"
    and inv :: "'s \<Rightarrow> bool"
  assumes reserve_None: "reserve s n = (None, s') \<Longrightarrow> s' = s"
    and reserve_inv: "inv s \<Longrightarrow> reserve s n = (Some l, s') \<Longrightarrow> inv s'"
    and reserve_fresh: "inv s \<Longrightarrow> reserve s n = (Some l, s') \<Longrightarrow> charge s l = None"
    and reserve_charge: "inv s \<Longrightarrow> reserve s n = (Some l, s') \<Longrightarrow> charge s' = (charge s)(l \<mapsto> n)"
    and reserve_limit: "inv s \<Longrightarrow> reserve s n = (Some l, s') \<Longrightarrow> limit s' = limit s"
    and release_inv: "inv s \<Longrightarrow> inv (release s l)"
    and release_charge: "inv s \<Longrightarrow> charge (release s l) = (charge s)(l := None)"
    and release_limit: "inv s \<Longrightarrow> limit (release s l) = limit s"
    and finite_charge: "inv s \<Longrightarrow> finite (dom (charge s))"
    and total_charge: "inv s \<Longrightarrow> total s = (\<Sum>l \<in> dom (charge s). the (charge s l))"
    and charge_nonneg: "inv s \<Longrightarrow> charge s l = Some n \<Longrightarrow> 0 \<le> n"
    and total_limit: "inv s \<Longrightarrow> total s \<le> limit s"
begin

lemma reserve_total:
  assumes "inv s" and "reserve s n = (Some l, s')"
  shows "total s' = total s + n"
proof -
  have fresh: "l \<notin> dom (charge s)" and chg: "charge s' = (charge s)(l \<mapsto> n)"
    using reserve_fresh [OF assms] reserve_charge [OF assms] by auto
  have "(\<Sum>k \<in> dom (charge s). the (((charge s)(l \<mapsto> n)) k)) = (\<Sum>k \<in> dom (charge s). the (charge s k))"
    using fresh by (intro sum.cong) auto
  then show ?thesis
    using total_charge [OF assms(1)] total_charge [OF reserve_inv [OF assms]]
      fresh finite_charge [OF assms(1)] by (simp add: chg)
qed

lemma release_total:
  assumes "inv s"
  shows "total (release s l) = total s - (case charge s l of None \<Rightarrow> 0 | Some n \<Rightarrow> n)"
proof -
  have "(\<Sum>k \<in> dom (charge s) - {l}. the (((charge s)(l := None)) k)) =
      (\<Sum>k \<in> dom (charge s) - {l}. the (charge s k))"
    by (intro sum.cong) auto
  then show ?thesis
    using total_charge [OF assms] total_charge [OF release_inv [OF assms, of l]]
      finite_charge [OF assms] release_charge [OF assms, of l]
    by (cases "charge s l") (auto simp: sum_diff1 domIff)
qed

lemma reserve_within:
  assumes "inv s" and "reserve s n = (Some l, s')"
  shows "0 \<le> n \<and> total s + n \<le> limit s"
  using charge_nonneg [OF reserve_inv [OF assms], of l n] reserve_charge [OF assms]
    total_limit [OF reserve_inv [OF assms]] reserve_total [OF assms] reserve_limit [OF assms]
  by auto

lemma total_nonneg: "inv s \<Longrightarrow> 0 \<le> total s"
  by (auto simp: total_charge intro!: sum_nonneg dest: charge_nonneg)

lemma release_dead: "inv s \<Longrightarrow> charge s l = None \<Longrightarrow> total (release s l) = total s"
  by (simp add: release_total)

lemma release_twice:
  "inv s \<Longrightarrow> charge (release (release s l) l) = charge (release s l) \<and>
     total (release (release s l) l) = total (release s l)"
  by (simp add: release_charge release_inv release_total)

lemma reserve_release:
  assumes "inv s" and "reserve s n = (Some l, s')"
  shows "charge (release s' l) = charge s \<and> total (release s' l) = total s"
proof -
  have "charge s l = None" by (rule reserve_fresh [OF assms])
  then show ?thesis
    using release_charge [OF reserve_inv [OF assms]] release_total [OF reserve_inv [OF assms]]
      reserve_charge [OF assms] reserve_total [OF assms] by (simp add: fun_upd_idem)
qed

text \<open>Releasing a list of leases, as the clients do when they drop what they hold.\<close>

lemma fold_release:
  "inv s \<Longrightarrow> inv (fold (\<lambda>l a. release a l) ls s) \<and>
     charge (fold (\<lambda>l a. release a l) ls s) = (\<lambda>k. if k \<in> set ls then None else charge s k) \<and>
     limit (fold (\<lambda>l a. release a l) ls s) = limit s"
proof (induction ls arbitrary: s)
  case (Cons l ls)
  have "inv (release s l)" using Cons.prems by (rule release_inv)
  from Cons.IH [OF this] show ?case
    using Cons.prems by (auto simp: release_charge release_limit fun_eq_iff)
qed simp

subsection \<open>Ownership\<close>

text \<open>
  \<open>owns s lof\<close>: the live leases of the account are exactly those of the owners, \<open>lof p\<close> being the lease
  and the charge owner \<open>p\<close> holds (\<^const>\<open>None\<close> if it holds none), and no two owners share a lease. A
  client that keeps this as part of its invariant neither leaks a lease nor releases another's.
\<close>

definition owns :: "'s \<Rightarrow> ('o \<Rightarrow> (nat \<times> int) option) \<Rightarrow> bool" where
  "owns s lof \<longleftrightarrow> inv s \<and> finite (dom lof) \<and>
     (\<forall>l n. charge s l = Some n \<longleftrightarrow> (\<exists>p. lof p = Some (l, n))) \<and>
     (\<forall>p q l n m. lof p = Some (l, n) \<longrightarrow> lof q = Some (l, m) \<longrightarrow> p = q)"

lemma owns_inv: "owns s lof \<Longrightarrow> inv s"
  by (simp add: owns_def)

lemma owns_charge: "owns s lof \<Longrightarrow> lof p = Some (l, n) \<Longrightarrow> charge s l = Some n"
  unfolding owns_def by blast

lemma owns_reserve:
  assumes "owns s lof" and "reserve s n = (Some l, s')" and "lof p = None"
  shows "owns s' (lof(p \<mapsto> (l, n)))"
proof -
  have inv: "inv s" using assms(1) by (rule owns_inv)
  have fresh: "charge s l = None" by (rule reserve_fresh [OF inv assms(2)])
  then have no: "lof q \<noteq> Some (l, m)" for q m using owns_charge [OF assms(1)] by fastforce
  have chg: "charge s' = (charge s)(l \<mapsto> n)" by (rule reserve_charge [OF inv assms(2)])
  have "charge s' k = Some m \<longleftrightarrow> (\<exists>q. (lof(p \<mapsto> (l, n))) q = Some (k, m))" for k m
  proof (cases "k = l")
    case True
    then show ?thesis using no by (auto simp: chg)
  next
    case False
    then have "charge s' k = Some m \<longleftrightarrow> (\<exists>q. lof q = Some (k, m))"
      using assms(1) by (simp add: chg owns_def)
    then show ?thesis using False assms(3) by (metis fun_upd_apply option.inject option.distinct(1) prod.inject)
  qed
  then show ?thesis
    using assms(1) reserve_inv [OF inv assms(2)] no by (auto simp: owns_def split: if_splits)
qed

lemma owns_release:
  assumes "owns s lof" and "lof p = Some (l, n)"
  shows "owns (release s l) (lof(p := None))"
proof -
  have inv: "inv s" using assms(1) by (rule owns_inv)
  have uniq: "lof q = Some (l, m) \<Longrightarrow> q = p" for q m using assms unfolding owns_def by blast
  have "charge (release s l) k = Some m \<longleftrightarrow> (\<exists>q. (lof(p := None)) q = Some (k, m))" for k m
  proof (cases "k = l")
    case True
    then show ?thesis using uniq by (auto simp: release_charge [OF inv])
  next
    case False
    then have "charge (release s l) k = Some m \<longleftrightarrow> (\<exists>q. lof q = Some (k, m))"
      using assms(1) by (simp add: release_charge [OF inv] owns_def)
    then show ?thesis using False assms(2) by (metis fun_upd_apply option.inject option.distinct(1) prod.inject)
  qed
  then show ?thesis
    using assms(1) release_inv [OF inv] by (auto simp: owns_def split: if_splits)
qed

lemma owns_total:
  assumes "owns s lof"
  shows "total s = lof_total lof"
proof -
  have inv: "inv s" using assms by (rule owns_inv)
  have bij: "bij_betw (\<lambda>p. fst (the (lof p))) (dom lof) (dom (charge s))"
  proof (rule bij_betwI')
    fix p q assume "p \<in> dom lof" "q \<in> dom lof"
    then obtain l n k m where "lof p = Some (l, n)" "lof q = Some (k, m)" by auto
    then show "(fst (the (lof p)) = fst (the (lof q))) = (p = q)"
      using assms unfolding owns_def by auto
  next
    fix p assume "p \<in> dom lof"
    then show "fst (the (lof p)) \<in> dom (charge s)" using owns_charge [OF assms] by fastforce
  next
    fix l assume "l \<in> dom (charge s)"
    then obtain n p where "lof p = Some (l, n)" using assms by (auto simp: owns_def)
    then show "\<exists>p \<in> dom lof. l = fst (the (lof p))" by (intro bexI [of _ p]) auto
  qed
  have "(\<Sum>p \<in> dom lof. snd (the (lof p))) = (\<Sum>p \<in> dom lof. the (charge s (fst (the (lof p)))))"
    by (rule sum.cong) (use owns_charge [OF assms] in fastforce)+
  also have "\<dots> = (\<Sum>l \<in> dom (charge s). the (charge s l))"
    by (rule sum.reindex_bij_betw [OF bij])
  finally show ?thesis using total_charge [OF inv] by (simp add: lof_total_def)
qed

lemma owns_finite: "owns s lof \<Longrightarrow> finite (dom lof)"
  by (simp add: owns_def)

lemma owns_total_sum: "owns s (case_sum f g) \<Longrightarrow> total s = lof_total f + lof_total g"
  using owns_total [of s "case_sum f g"] lof_total_sum [of f g] owns_finite [of s "case_sum f g"] by simp

lemma owns_reindex:
  assumes "inj g" and "surj g"
  shows "owns a (lof \<circ> g) \<longleftrightarrow> owns a lof"
proof -
  have ex: "(\<exists>p. lof p = Some (l, n)) \<longleftrightarrow> (\<exists>q. lof (g q) = Some (l, n))" for l n using assms(2) by (metis surjD)
  have uniq: "(\<forall>p q l n m. lof p = Some (l, n) \<longrightarrow> lof q = Some (l, m) \<longrightarrow> p = q) \<longleftrightarrow>
      (\<forall>p q l n m. lof (g p) = Some (l, n) \<longrightarrow> lof (g q) = Some (l, m) \<longrightarrow> p = q)"
    using assms by (metis injD surjD)
  have "dom lof = g ` dom (lof \<circ> g)" using assms(2) by (auto simp: dom_def image_iff) (metis surjD)
  then have "finite (dom lof) \<longleftrightarrow> finite (dom (lof \<circ> g))" using assms(1) by (metis finite_imageD finite_imageI inj_on_subset subset_UNIV)
  then show ?thesis unfolding owns_def ex uniq by simp
qed

lemma owns_assoc:
  fixes f :: "'x \<Rightarrow> (nat \<times> int) option" and g :: "'y \<Rightarrow> (nat \<times> int) option" and h :: "'z \<Rightarrow> (nat \<times> int) option"
  shows "owns a (case_sum (case_sum f g) h) \<longleftrightarrow> owns a (case_sum f (case_sum g h))"
proof -
  let ?l = "case_sum (case_sum f g) h" and ?r = "case_sum f (case_sum g h)"
  define to :: "'x + 'y + 'z \<Rightarrow> ('x + 'y) + 'z" where "to = case_sum (Inl \<circ> Inl) (case_sum (Inl \<circ> Inr) Inr)"
  have inj: "inj to" and surj: "surj to"
    by (auto simp: inj_def surj_def to_def split: sum.splits) (metis sum.exhaust old.sum.simps comp_apply)
  have "?r = ?l \<circ> to" by (auto simp: to_def fun_eq_iff split: sum.splits)
  then show ?thesis using owns_reindex [OF inj surj] by metis
qed

lemma owns_other_reserve:
  assumes "owns a (case_sum f (list_lof id others))" and "other_reserve reserve n (a, others) = (a', others')"
  shows "owns a' (case_sum f (list_lof id others'))"
proof -
  obtain res b where res: "reserve a n = (res, b)" by fastforce
  show ?thesis
  proof (cases res)
    case None
    then show ?thesis using assms res reserve_None [of a n b] by (simp add: other_reserve_def)
  next
    case (Some l)
    have "owns b ((case_sum f (list_lof id others))(Inr (length others) \<mapsto> (l, n)))"
      by (rule owns_reserve [OF assms(1) res [unfolded Some]]) (simp add: list_lof_def)
    then show ?thesis using assms(2) res Some by (auto simp: other_reserve_def case_sum_upd)
  qed
qed

lemma owns_other_release:
  assumes "owns a (case_sum f (list_lof id others))" and "other_release release j (a, others) = (a', others')"
  shows "owns a' (case_sum f (list_lof id others'))"
proof (cases "j < length others \<and> others ! j \<noteq> None")
  case True
  then obtain l n where j: "j < length others" "others ! j = Some (l, n)" by auto
  have "owns (release a l) ((case_sum f (list_lof id others))(Inr j := None))"
    by (rule owns_release [OF assms(1)]) (use j in \<open>simp add: list_lof_def\<close>)
  then show ?thesis using assms(2) j by (auto simp: other_release_def case_sum_upd list_lof_update)
next
  case False
  then show ?thesis using assms by (auto simp: other_release_def split: option.splits)
qed

end

end
