(* ===== verification/Worker_Bytes.thy ===== *)
theory Worker_Bytes
  imports Byte_Ledger
begin

text \<open>
  \<open>WorkerRetainedBytes\<close> (\<^verbatim>\<open>packages/terminal-worker/src/worker-retained-bytes.ts\<close>): the worker
  process's account of retained bytes, split in four categories, with a control carve-out inside the
  limit. A lease is a closure over \<open>released\<close> and \<open>charged\<close>; it is a cell of \<open>wb_leases\<close>. The account
  is an instance of \<^const>\<open>byte_ledger\<close> for every category.
\<close>

datatype retained_category = CatWorker | CatEngine | CatNativeInput | CatNativeOutput

record worker_lease =
  wl_category :: retained_category
  wl_released :: bool
  wl_charged :: number

record worker_bytes =
  wb_limit :: number
  wb_control :: number
  wb_current :: "retained_category \<Rightarrow> number"
  wb_used :: number
  wb_peak :: number
  wb_leases :: "worker_lease list"

datatype lease_error = RangeError

record worker_snapshot =
  ws_accountedBytes :: number
  ws_peakAccountedBytes :: number
  ws_reservedControlBytes :: number
  ws_workerBytes :: number
  ws_engineBytes :: number
  ws_nativeInputBytes :: number
  ws_nativeOutputBytes :: number

definition new_worker_bytes :: "number \<Rightarrow> number \<Rightarrow> worker_bytes" where
  "new_worker_bytes limit reservedControlBytes =
     \<lparr>wb_limit = limit, wb_control = min limit reservedControlBytes, wb_current = (\<lambda>_. 0),
      wb_used = 0, wb_peak = 0, wb_leases = []\<rparr>"

definition wb_reserve ::
  "retained_category \<Rightarrow> worker_bytes \<Rightarrow> number \<Rightarrow> handle option \<times> worker_bytes" where
  "wb_reserve cat s bytes =
     (if \<not> isSafeInteger bytes \<or> bytes < 1 \<or> bytes > wb_limit s - wb_control s - wb_used s
      then (None, s)
      else (Some (length (wb_leases s)),
        s\<lparr>wb_current := (wb_current s)(cat := wb_current s cat + bytes),
          wb_used := wb_used s + bytes,
          wb_peak := max (wb_peak s) (wb_used s + bytes),
          wb_leases := wb_leases s @
            [\<lparr>wl_category = cat, wl_released = False, wl_charged = bytes\<rparr>]\<rparr>))"

definition wb_release :: "worker_bytes \<Rightarrow> handle \<Rightarrow> worker_bytes" where
  "wb_release s l =
     (if l < length (wb_leases s) then
        let c = wb_leases s ! l in
        if wl_released c then s
        else s\<lparr>wb_current := (wb_current s)(wl_category c :=
                  wb_current s (wl_category c) - wl_charged c),
               wb_used := wb_used s - wl_charged c,
               wb_leases := (wb_leases s)[l := c\<lparr>wl_released := True\<rparr>]\<rparr>
      else s)"

definition wb_shrinkTo :: "worker_bytes \<Rightarrow> handle \<Rightarrow> number \<Rightarrow> lease_error + worker_bytes" where
  "wb_shrinkTo s l next =
     (if l < length (wb_leases s) then
        let c = wb_leases s ! l in
        if wl_released c \<or> \<not> isSafeInteger next \<or> next < 1 \<or> next > wl_charged c
        then Inl RangeError
        else Inr (s\<lparr>wb_current := (wb_current s)(wl_category c :=
                       wb_current s (wl_category c) - (wl_charged c - next)),
                    wb_used := wb_used s - (wl_charged c - next),
                    wb_leases := (wb_leases s)[l := c\<lparr>wl_charged := next\<rparr>]\<rparr>)
      else Inl RangeError)"

definition wb_availableOrdinaryBytes :: "worker_bytes \<Rightarrow> number" where
  "wb_availableOrdinaryBytes s = wb_limit s - wb_control s - wb_used s"

definition wb_snapshot :: "worker_bytes \<Rightarrow> worker_snapshot" where
  "wb_snapshot s =
     \<lparr>ws_accountedBytes = wb_control s + wb_used s,
      ws_peakAccountedBytes = wb_control s + wb_peak s,
      ws_reservedControlBytes = wb_control s,
      ws_workerBytes = wb_current s CatWorker,
      ws_engineBytes = wb_current s CatEngine,
      ws_nativeInputBytes = wb_current s CatNativeInput,
      ws_nativeOutputBytes = wb_current s CatNativeOutput\<rparr>"

subsection \<open>Invariant\<close>

definition wl_live :: "worker_lease \<Rightarrow> int" where
  "wl_live c = (if wl_released c then 0 else wl_charged c)"

definition wl_in :: "retained_category \<Rightarrow> worker_lease \<Rightarrow> int" where
  "wl_in k c = (if wl_category c = k then wl_live c else 0)"

definition wb_inv :: "worker_bytes \<Rightarrow> bool" where
  "wb_inv s \<longleftrightarrow>
     wb_control s \<le> wb_limit s \<and>
     wb_used s = cell_sum wl_live (wb_leases s) \<and>
     (\<forall>k. wb_current s k = cell_sum (wl_in k) (wb_leases s)) \<and>
     wb_used s \<le> wb_peak s \<and> wb_peak s \<le> wb_limit s - wb_control s \<and>
     (\<forall>c \<in> set (wb_leases s). \<not> wl_released c \<longrightarrow> 1 \<le> wl_charged c)"

definition wb_charge :: "worker_bytes \<Rightarrow> handle \<Rightarrow> number option" where
  "wb_charge s l =
     (if l < length (wb_leases s) \<and> \<not> wl_released (wb_leases s ! l)
      then Some (wl_charged (wb_leases s ! l)) else None)"

definition wb_ordinaryLimit :: "worker_bytes \<Rightarrow> number" where
  "wb_ordinaryLimit s = wb_limit s - wb_control s"

lemmas wb_defs = wb_reserve_def wb_release_def wb_shrinkTo_def wb_inv_def wb_charge_def
  wb_ordinaryLimit_def wl_live_def wl_in_def

lemma new_worker_bytes_inv: "wb_inv (new_worker_bytes limit r)"
  by (auto simp: wb_inv_def new_worker_bytes_def)

lemma wb_reserve_inv [cove_inv]:
  "wb_inv s \<Longrightarrow> wb_reserve cat s n = (r, s') \<Longrightarrow> wb_inv s'"
  by (auto simp: wb_reserve_def wb_inv_def wl_live_def wl_in_def split: if_splits)

lemma wb_live_nonneg: "wb_inv s \<Longrightarrow> c \<in> set (wb_leases s) \<Longrightarrow> 0 \<le> wl_live c"
  by (fastforce simp: wb_inv_def wl_live_def)

lemma wb_release_inv [cove_inv]:
  assumes "wb_inv s"
  shows "wb_inv (wb_release s l)"
proof (cases "l < length (wb_leases s) \<and> \<not> wl_released (wb_leases s ! l)")
  case True
  let ?c = "wb_leases s ! l"
  have "1 \<le> wl_charged ?c" using assms True by (auto simp: wb_inv_def)
  then show ?thesis
    using assms True
    by (auto simp: wb_release_def wb_inv_def Let_def cell_sum_update wl_live_def wl_in_def
        dest!: set_list_update_cases)
qed (use assms in \<open>auto simp: wb_release_def Let_def\<close>)

lemma wb_shrinkTo_inv [cove_inv]:
  assumes "wb_inv s" and "wb_shrinkTo s l n = Inr s'"
  shows "wb_inv s'"
proof -
  let ?c = "wb_leases s ! l"
  have l: "l < length (wb_leases s)" "\<not> wl_released ?c" "1 \<le> n" "n \<le> wl_charged ?c"
    and s': "s' = s\<lparr>wb_current := (wb_current s)(wl_category ?c :=
                       wb_current s (wl_category ?c) - (wl_charged ?c - n)),
                    wb_used := wb_used s - (wl_charged ?c - n),
                    wb_leases := (wb_leases s)[l := ?c\<lparr>wl_charged := n\<rparr>]\<rparr>"
    using assms(2) by (auto simp: wb_shrinkTo_def Let_def split: if_splits)
  show ?thesis
    using assms(1) l unfolding s'
    by (auto simp: wb_inv_def cell_sum_update wl_live_def wl_in_def dest!: set_list_update_cases)
qed

lemma wb_current_sum:
  "wb_inv s \<Longrightarrow>
   wb_current s CatWorker + wb_current s CatEngine + wb_current s CatNativeInput
     + wb_current s CatNativeOutput = wb_used s"
proof -
  have split: "wl_live c = wl_in CatWorker c + wl_in CatEngine c + wl_in CatNativeInput c
      + wl_in CatNativeOutput c" for c
    by (cases "wl_category c") (auto simp: wl_in_def)
  assume "wb_inv s"
  then show ?thesis
    by (simp add: wb_inv_def cell_sum_add [symmetric] split [symmetric])
qed

subsection \<open>The account is a byte ledger\<close>

lemma wb_charge_dom: "dom (wb_charge s) = {l. l < length (wb_leases s) \<and> \<not> wl_released (wb_leases s ! l)}"
  by (auto simp: wb_charge_def split: if_splits)

lemma wb_total_charge:
  "wb_inv s \<Longrightarrow> wb_used s = (\<Sum>l \<in> dom (wb_charge s). the (wb_charge s l))"
proof -
  assume inv: "wb_inv s"
  have "(\<Sum>l \<in> dom (wb_charge s). the (wb_charge s l)) =
      (\<Sum>l \<in> {l. l < length (wb_leases s) \<and> \<not> wl_released (wb_leases s ! l)}. wl_charged (wb_leases s ! l))"
    unfolding wb_charge_dom by (rule sum.cong) (auto simp: wb_charge_def)
  also have "\<dots> = cell_sum wl_live (wb_leases s)"
    by (subst sum_live_handles) (rule cell_sum_cong, simp add: wl_live_def)
  finally show ?thesis using inv by (simp add: wb_inv_def)
qed

interpretation wb: byte_ledger "wb_reserve cat" wb_release wb_charge wb_used wb_ordinaryLimit wb_inv
proof (unfold_locales, goal_cases)
  case (1 s n s') then show ?case by (auto simp: wb_reserve_def split: if_splits)
next
  case (2 s n l s') then show ?case by (rule wb_reserve_inv)
next
  case (3 s n l s') then show ?case by (auto simp: wb_reserve_def wb_charge_def split: if_splits)
next
  case (4 s n l s') then show ?case
    by (auto simp: wb_reserve_def wb_charge_def fun_eq_iff nth_append split: if_splits)
next
  case (5 s n l s') then show ?case
    by (auto simp: wb_reserve_def wb_ordinaryLimit_def split: if_splits)
next
  case (6 s l) then show ?case by (rule wb_release_inv)
next
  case (7 s l) show ?case
    by (auto simp: wb_release_def wb_charge_def Let_def fun_eq_iff nth_list_update)
next
  case (8 s l) show ?case by (simp add: wb_release_def wb_ordinaryLimit_def Let_def)
next
  case (9 s) show ?case by (simp add: wb_charge_dom)
next
  case (10 s) then show ?case by (rule wb_total_charge)
next
  case (11 s l n) then show ?case by (fastforce simp: wb_charge_def wb_inv_def split: if_splits)
next
  case (12 s) then show ?case by (auto simp: wb_inv_def wb_ordinaryLimit_def)
qed

subsection \<open>Runs of the account\<close>

datatype wb_op = WbReserve retained_category number | WbRelease handle | WbShrinkTo handle number

fun wb_step :: "wb_op \<Rightarrow> worker_bytes \<Rightarrow> worker_bytes" where
  "wb_step (WbReserve cat n) s = snd (wb_reserve cat s n)"
| "wb_step (WbRelease l) s = wb_release s l"
| "wb_step (WbShrinkTo l n) s = (case wb_shrinkTo s l n of Inl _ \<Rightarrow> s | Inr s' \<Rightarrow> s')"

lemma wb_step_inv [cove_inv]: "wb_inv s \<Longrightarrow> wb_inv (wb_step op s)"
  by (cases op) (auto split: sum.splits intro: cove_inv simp: prod_eq_iff)

lemma wb_step_limits [simp]:
  "wb_limit (wb_step op s) = wb_limit s" "wb_control (wb_step op s) = wb_control s"
  by (cases op; auto simp: wb_reserve_def wb_release_def wb_shrinkTo_def Let_def split: sum.splits if_splits)+

lemma wb_run_inv: "wb_inv s \<Longrightarrow> wb_inv (fold wb_step ops s)"
  by (induction ops arbitrary: s) (auto intro: wb_step_inv)

lemma wb_run_limits [simp]:
  "wb_limit (fold wb_step ops s) = wb_limit s" "wb_control (fold wb_step ops s) = wb_control s"
  by (induction ops arbitrary: s) auto

lemma wb_in_nonneg: "wb_inv s \<Longrightarrow> 0 \<le> wb_current s k"
  using wb_live_nonneg [of s] unfolding wb_inv_def
  by (fastforce simp: wl_in_def intro!: cell_sum_nonneg)

text \<open>
  C29. After any sequence of reservations, releases (also repeated ones) and lease reductions, the
  worker's accounted bytes are exactly the control carve-out plus the four category counters, no
  counter is negative, and neither the accounted bytes nor their peak ever pass the worker's limit.
\<close>

theorem wb_run_accounted:
  "let s = fold wb_step ops (new_worker_bytes limit reservedControlBytes); n = wb_snapshot s in
     ws_accountedBytes n = ws_reservedControlBytes n + ws_workerBytes n + ws_engineBytes n
       + ws_nativeInputBytes n + ws_nativeOutputBytes n \<and>
     0 \<le> ws_workerBytes n \<and> 0 \<le> ws_engineBytes n \<and>
     0 \<le> ws_nativeInputBytes n \<and> 0 \<le> ws_nativeOutputBytes n \<and>
     ws_reservedControlBytes n = min limit reservedControlBytes \<and>
     ws_accountedBytes n \<le> ws_peakAccountedBytes n \<and> ws_peakAccountedBytes n \<le> limit"
proof -
  let ?s = "fold wb_step ops (new_worker_bytes limit reservedControlBytes)"
  have inv: "wb_inv ?s" by (intro wb_run_inv new_worker_bytes_inv)
  have lim: "wb_limit ?s = limit" "wb_control ?s = min limit reservedControlBytes"
    by (simp_all add: new_worker_bytes_def)
  have "wb_used ?s \<le> wb_peak ?s" "wb_peak ?s \<le> wb_limit ?s - wb_control ?s"
    using inv by (auto simp: wb_inv_def)
  then show ?thesis
    using wb_current_sum [OF inv] wb_in_nonneg [OF inv] lim
    by (simp add: wb_snapshot_def Let_def)
qed

end
