(* ===== verification/Runtime_Bytes.thy ===== *)
theory Runtime_Bytes
  imports Byte_Ledger
begin

text \<open>
  \<open>RuntimeRetainedBytes\<close> (\<^verbatim>\<open>apps/server/src/terminal/runtime-retained-bytes.ts\<close>): the server
  runtime's aggregate account. Control capacity is part of the total; ordinary reservations may not
  enter it. \<open>retainBacking\<close> charges a shared \<open>ArrayBuffer\<close> once, whatever the number of holders.

  Leases (\<open>rb_leases\<close>), backing records (\<open>rb_records\<close>) and the holds returned by \<open>retainBacking\<close>
  (\<open>rb_holds\<close>) are cells; \<open>rb_backings\<close> is the map from a buffer's identity to its record.
\<close>

record byte_lease =
  bl_bytes :: number
  bl_control :: bool
  bl_owned :: bool

record backing_record =
  br_backing :: handle
  br_users :: number
  br_control :: bool
  br_lease :: handle

record backing_hold =
  bh_owner :: handle
  bh_owned :: bool

record runtime_bytes =
  rb_limit :: number
  rb_controlReserve :: number
  rb_total :: number
  rb_ordinary :: number
  rb_leases :: "byte_lease list"
  rb_records :: "backing_record list"
  rb_backings :: "(handle \<times> handle) list"
  rb_holds :: "backing_hold list"

datatype rb_error = InvalidByteLimits

definition new_runtime_bytes :: "number \<Rightarrow> number \<Rightarrow> rb_error + runtime_bytes" where
  "new_runtime_bytes limit controlReserve =
     (if \<not> isSafeInteger limit \<or> limit < 1 \<or> \<not> isSafeInteger controlReserve \<or>
         controlReserve < 0 \<or> controlReserve > limit
      then Inl InvalidByteLimits
      else Inr \<lparr>rb_limit = limit, rb_controlReserve = controlReserve, rb_total = 0, rb_ordinary = 0,
                rb_leases = [], rb_records = [], rb_backings = [], rb_holds = []\<rparr>)"

definition rb_reserve :: "bool \<Rightarrow> runtime_bytes \<Rightarrow> number \<Rightarrow> handle option \<times> runtime_bytes" where
  "rb_reserve control s bytes =
     (if \<not> isSafeInteger bytes \<or> bytes < 0 \<or> bytes > rb_limit s - rb_total s \<or>
         (\<not> control \<and> bytes > rb_limit s - rb_controlReserve s - rb_ordinary s)
      then (None, s)
      else (Some (length (rb_leases s)),
        s\<lparr>rb_total := rb_total s + bytes,
          rb_ordinary := (if control then rb_ordinary s else rb_ordinary s + bytes),
          rb_leases := rb_leases s @ [\<lparr>bl_bytes = bytes, bl_control = control, bl_owned = True\<rparr>]\<rparr>))"

definition rb_release :: "runtime_bytes \<Rightarrow> handle \<Rightarrow> runtime_bytes" where
  "rb_release s l =
     (if l < length (rb_leases s) then
        let c = rb_leases s ! l in
        if \<not> bl_owned c then s
        else s\<lparr>rb_total := rb_total s - bl_bytes c,
               rb_ordinary := (if bl_control c then rb_ordinary s else rb_ordinary s - bl_bytes c),
               rb_leases := (rb_leases s)[l := c\<lparr>bl_owned := False\<rparr>]\<rparr>
      else s)"

text \<open>The part of \<open>retainBacking\<close> after the record is found or created.\<close>

definition rb_hold :: "runtime_bytes \<Rightarrow> handle \<Rightarrow> bool \<Rightarrow> handle option \<times> runtime_bytes" where
  "rb_hold s r control =
     (let rec = rb_records s ! r in
      if br_control rec \<and> \<not> control then (None, s)
      else (Some (length (rb_holds s)),
        s\<lparr>rb_records := (rb_records s)[r := rec\<lparr>br_users := br_users rec + 1\<rparr>],
          rb_holds := rb_holds s @ [\<lparr>bh_owner = r, bh_owned = True\<rparr>]\<rparr>))"

definition rb_retainBacking ::
  "runtime_bytes \<Rightarrow> handle \<Rightarrow> number \<Rightarrow> bool \<Rightarrow> handle option \<times> runtime_bytes" where
  "rb_retainBacking s backing byteLength control =
     (case map_of (rb_backings s) backing of
        Some r \<Rightarrow> rb_hold s r control
      | None \<Rightarrow>
          (case rb_reserve control s (byteLength + 256) of
             (None, s') \<Rightarrow> (None, s')
           | (Some lease, s') \<Rightarrow>
               (let r = length (rb_records s') in
                rb_hold
                  (s'\<lparr>rb_records := rb_records s' @
                        [\<lparr>br_backing = backing, br_users = 0, br_control = control, br_lease = lease\<rparr>],
                      rb_backings := AList.update backing r (rb_backings s')\<rparr>)
                  r control)))"

definition rb_releaseHold :: "runtime_bytes \<Rightarrow> handle \<Rightarrow> runtime_bytes" where
  "rb_releaseHold s h =
     (if h < length (rb_holds s) \<and> bh_owned (rb_holds s ! h) then
        let r = bh_owner (rb_holds s ! h);
            rec = (rb_records s ! r)\<lparr>br_users := br_users (rb_records s ! r) - 1\<rparr>;
            s' = s\<lparr>rb_holds := (rb_holds s)[h := (rb_holds s ! h)\<lparr>bh_owned := False\<rparr>],
                   rb_records := (rb_records s)[r := rec]\<rparr>
        in if br_users rec = 0
           then rb_release (s'\<lparr>rb_backings := AList.delete (br_backing rec) (rb_backings s')\<rparr>) (br_lease rec)
           else s'
      else s)"

record runtime_bytes_snapshot =
  rs_total :: number
  rs_ordinary :: number
  rs_limit :: number
  rs_controlReserve :: number

definition rb_snapshot :: "runtime_bytes \<Rightarrow> runtime_bytes_snapshot" where
  "rb_snapshot s =
     \<lparr>rs_total = rb_total s, rs_ordinary = rb_ordinary s, rs_limit = rb_limit s,
      rs_controlReserve = rb_controlReserve s\<rparr>"

subsection \<open>The account invariant and the ledger\<close>

definition bl_live :: "byte_lease \<Rightarrow> int" where
  "bl_live c = (if bl_owned c then bl_bytes c else 0)"

definition bl_ordinary :: "byte_lease \<Rightarrow> int" where
  "bl_ordinary c = (if bl_control c then 0 else bl_live c)"

definition rb_inv :: "runtime_bytes \<Rightarrow> bool" where
  "rb_inv s \<longleftrightarrow>
     0 \<le> rb_controlReserve s \<and> rb_controlReserve s \<le> rb_limit s \<and> rb_limit s \<le> MAX_SAFE_INTEGER \<and>
     rb_total s = cell_sum bl_live (rb_leases s) \<and>
     rb_ordinary s = cell_sum bl_ordinary (rb_leases s) \<and>
     rb_total s \<le> rb_limit s \<and> rb_ordinary s \<le> rb_limit s - rb_controlReserve s \<and>
     (\<forall>c \<in> set (rb_leases s). bl_owned c \<longrightarrow> 0 \<le> bl_bytes c)"

definition rb_charge :: "runtime_bytes \<Rightarrow> handle \<Rightarrow> number option" where
  "rb_charge s l =
     (if l < length (rb_leases s) \<and> bl_owned (rb_leases s ! l)
      then Some (bl_bytes (rb_leases s ! l)) else None)"

lemma new_runtime_bytes_inv: "new_runtime_bytes limit r = Inr s \<Longrightarrow> rb_inv s"
  by (auto simp: new_runtime_bytes_def rb_inv_def isSafeInteger_def split: if_splits)

lemma rb_reserve_inv [cove_inv]: "rb_inv s \<Longrightarrow> rb_reserve c s n = (r, s') \<Longrightarrow> rb_inv s'"
  by (auto simp: rb_reserve_def rb_inv_def bl_live_def bl_ordinary_def split: if_splits)

lemma rb_release_inv [cove_inv]:
  assumes "rb_inv s"
  shows "rb_inv (rb_release s l)"
proof (cases "l < length (rb_leases s) \<and> bl_owned (rb_leases s ! l)")
  case True
  have "0 \<le> bl_bytes (rb_leases s ! l)" using assms True by (auto simp: rb_inv_def)
  then show ?thesis
    using assms True
    by (auto simp: rb_release_def rb_inv_def Let_def cell_sum_update bl_live_def bl_ordinary_def
        dest!: set_list_update_cases)
qed (use assms in \<open>auto simp: rb_release_def Let_def\<close>)

lemma rb_charge_dom: "dom (rb_charge s) = {l. l < length (rb_leases s) \<and> bl_owned (rb_leases s ! l)}"
  by (auto simp: rb_charge_def split: if_splits)

lemma rb_total_charge:
  "rb_inv s \<Longrightarrow> rb_total s = (\<Sum>l \<in> dom (rb_charge s). the (rb_charge s l))"
proof -
  assume inv: "rb_inv s"
  have "(\<Sum>l \<in> dom (rb_charge s). the (rb_charge s l)) =
      (\<Sum>l \<in> {l. l < length (rb_leases s) \<and> bl_owned (rb_leases s ! l)}. bl_bytes (rb_leases s ! l))"
    unfolding rb_charge_dom by (rule sum.cong) (auto simp: rb_charge_def)
  also have "\<dots> = cell_sum bl_live (rb_leases s)"
    by (subst sum_live_handles) (rule cell_sum_cong, simp add: bl_live_def)
  finally show ?thesis using inv by (simp add: rb_inv_def)
qed

interpretation rb: byte_ledger "rb_reserve control" rb_release rb_charge rb_total rb_limit rb_inv
proof (unfold_locales, goal_cases)
  case (1 s n s') then show ?case by (auto simp: rb_reserve_def split: if_splits)
next
  case (2 s n l s') then show ?case by (rule rb_reserve_inv)
next
  case (3 s n l s') then show ?case by (auto simp: rb_reserve_def rb_charge_def split: if_splits)
next
  case (4 s n l s') then show ?case
    by (auto simp: rb_reserve_def rb_charge_def fun_eq_iff nth_append split: if_splits)
next
  case (5 s n l s') then show ?case by (auto simp: rb_reserve_def split: if_splits)
next
  case (6 s l) then show ?case by (rule rb_release_inv)
next
  case (7 s l) show ?case
    by (auto simp: rb_release_def rb_charge_def Let_def fun_eq_iff nth_list_update)
next
  case (8 s l) show ?case by (simp add: rb_release_def Let_def)
next
  case (9 s) show ?case by (simp add: rb_charge_dom)
next
  case (10 s) then show ?case by (rule rb_total_charge)
next
  case (11 s l n) then show ?case by (fastforce simp: rb_charge_def rb_inv_def split: if_splits)
next
  case (12 s) then show ?case by (auto simp: rb_inv_def)
qed

subsection \<open>Shared backings\<close>

definition hold_count :: "handle \<Rightarrow> backing_hold list \<Rightarrow> int" where
  "hold_count r hs = cell_sum (\<lambda>h. if bh_owned h \<and> bh_owner h = r then 1 else 0) hs"

text \<open>The lease of a mapped record is live and of the record's kind, and its users are its holds.\<close>

definition backing_ok :: "runtime_bytes \<Rightarrow> handle \<Rightarrow> handle \<Rightarrow> bool" where
  "backing_ok s b r \<longleftrightarrow>
     r < length (rb_records s) \<and> br_backing (rb_records s ! r) = b \<and>
     br_users (rb_records s ! r) = hold_count r (rb_holds s) \<and>
     1 \<le> hold_count r (rb_holds s) \<and>
     br_lease (rb_records s ! r) < length (rb_leases s) \<and>
     bl_owned (rb_leases s ! br_lease (rb_records s ! r)) \<and>
     bl_control (rb_leases s ! br_lease (rb_records s ! r)) = br_control (rb_records s ! r)"

definition rb_backing_inv :: "runtime_bytes \<Rightarrow> bool" where
  "rb_backing_inv s \<longleftrightarrow>
     distinct_keys (rb_backings s) \<and>
     (\<forall>b r. map_of (rb_backings s) b = Some r \<longrightarrow> backing_ok s b r) \<and>
     (\<forall>b b' r r'. map_of (rb_backings s) b = Some r \<and> map_of (rb_backings s) b' = Some r' \<and>
        br_lease (rb_records s ! r) = br_lease (rb_records s ! r') \<longrightarrow> b = b') \<and>
     (\<forall>h \<in> set (rb_holds s). bh_owner h < length (rb_records s) \<and>
        (bh_owned h \<longrightarrow> map_of (rb_backings s) (br_backing (rb_records s ! bh_owner h)) = Some (bh_owner h)))"

text \<open>Leases inside backing records: no client has their handle.\<close>

definition backing_leases :: "runtime_bytes \<Rightarrow> handle set" where
  "backing_leases s = (\<lambda>p. br_lease (rb_records s ! snd p)) ` set (rb_backings s)"

lemma hold_count_nonneg: "0 \<le> hold_count r hs"
  by (auto simp: hold_count_def intro!: cell_sum_nonneg)

lemma hold_count_absent: "(\<And>h. h \<in> set hs \<Longrightarrow> bh_owner h \<noteq> r) \<Longrightarrow> hold_count r hs = 0"
  unfolding hold_count_def by (induction hs) auto

lemma hold_count_zero:
  assumes "hold_count r hs = 0" and "h \<in> set hs" and "bh_owned h"
  shows "bh_owner h \<noteq> r"
proof
  assume "bh_owner h = r"
  then have "\<exists>i < length hs. bh_owned (hs ! i) \<and> bh_owner (hs ! i) = r"
    using assms(2,3) by (metis in_set_conv_nth)
  then obtain i where "i < length hs" "bh_owned (hs ! i)" "bh_owner (hs ! i) = r" by blast
  then have "1 \<le> hold_count r hs"
    using cell_sum_member_le [of i hs "\<lambda>h. if bh_owned h \<and> bh_owner h = r then 1 else 0"]
    by (auto simp: hold_count_def)
  then show False using assms(1) by simp
qed

lemma rb_reserve_frame:
  "rb_reserve c s n = (r, s') \<Longrightarrow> rb_records s' = rb_records s \<and> rb_backings s' = rb_backings s \<and>
     rb_holds s' = rb_holds s \<and> rb_limit s' = rb_limit s \<and> rb_controlReserve s' = rb_controlReserve s"
  by (auto simp: rb_reserve_def split: if_splits)

lemma rb_release_frame [simp]:
  "rb_records (rb_release s l) = rb_records s" "rb_backings (rb_release s l) = rb_backings s"
  "rb_holds (rb_release s l) = rb_holds s" "rb_limit (rb_release s l) = rb_limit s"
  "rb_controlReserve (rb_release s l) = rb_controlReserve s"
  "length (rb_leases (rb_release s l)) = length (rb_leases s)"
  by (auto simp: rb_release_def Let_def)

lemma rb_release_other [simp]: "k \<noteq> l \<Longrightarrow> rb_leases (rb_release s l) ! k = rb_leases s ! k"
  by (auto simp: rb_release_def Let_def)

lemma rb_reserve_backing_inv [cove_inv]:
  assumes "rb_backing_inv s" and "rb_reserve c s n = (r, s')"
  shows "rb_backing_inv s'"
proof -
  have frame: "rb_records s' = rb_records s" "rb_backings s' = rb_backings s" "rb_holds s' = rb_holds s"
    using rb_reserve_frame [OF assms(2)] by auto
  have "\<exists>ls. rb_leases s' = rb_leases s @ ls"
    using assms(2) by (auto simp: rb_reserve_def split: if_splits)
  then obtain ls where "rb_leases s' = rb_leases s @ ls" by blast
  then show ?thesis
    using assms(1) by (auto simp: rb_backing_inv_def backing_ok_def frame nth_append intro: trans_less_add1)
qed

lemma rb_release_backing_inv [cove_inv]:
  assumes "rb_backing_inv s" and "l \<notin> backing_leases s"
  shows "rb_backing_inv (rb_release s l)"
proof -
  have "backing_ok (rb_release s l) b r" if m: "map_of (rb_backings s) b = Some r" for b r
  proof -
    have "br_lease (rb_records s ! r) \<noteq> l" using assms(2) map_of_SomeD [OF m] by (force simp: backing_leases_def)
    moreover have "backing_ok s b r" using assms(1) m by (simp add: rb_backing_inv_def)
    ultimately show ?thesis by (simp add: backing_ok_def)
  qed
  then show ?thesis using assms(1) by (simp add: rb_backing_inv_def)
qed

text \<open>A hold on a record that would satisfy the invariant but for its possibly missing users.\<close>

lemma rb_hold_backing_inv:
  assumes hold: "rb_hold s r control = (Some h, s')"
    and dist: "distinct_keys (rb_backings s)"
    and here: "map_of (rb_backings s) b = Some r" "r < length (rb_records s)"
      "br_backing (rb_records s ! r) = b"
      "br_users (rb_records s ! r) = hold_count r (rb_holds s)"
      "br_lease (rb_records s ! r) < length (rb_leases s)"
      "bl_owned (rb_leases s ! br_lease (rb_records s ! r))"
      "bl_control (rb_leases s ! br_lease (rb_records s ! r)) = br_control (rb_records s ! r)"
    and others: "\<And>b' r'. map_of (rb_backings s) b' = Some r' \<Longrightarrow> b' \<noteq> b \<Longrightarrow> backing_ok s b' r'"
    and inj: "\<And>b b' r r'. map_of (rb_backings s) b = Some r \<Longrightarrow> map_of (rb_backings s) b' = Some r' \<Longrightarrow>
        br_lease (rb_records s ! r) = br_lease (rb_records s ! r') \<Longrightarrow> b = b'"
    and holds: "\<And>h. h \<in> set (rb_holds s) \<Longrightarrow> bh_owner h < length (rb_records s) \<and>
        (bh_owned h \<longrightarrow> map_of (rb_backings s) (br_backing (rb_records s ! bh_owner h)) = Some (bh_owner h))"
  shows "rb_backing_inv s'"
proof -
  let ?rec = "rb_records s ! r"
  have s': "s' = s\<lparr>rb_records := (rb_records s)[r := ?rec\<lparr>br_users := br_users ?rec + 1\<rparr>],
          rb_holds := rb_holds s @ [\<lparr>bh_owner = r, bh_owned = True\<rparr>]\<rparr>"
    using hold by (auto simp: rb_hold_def Let_def split: if_splits)
  have fields: "br_backing (rb_records s' ! k) = br_backing (rb_records s ! k)"
    "br_lease (rb_records s' ! k) = br_lease (rb_records s ! k)"
    "br_control (rb_records s' ! k) = br_control (rb_records s ! k)" for k
    using here(2) by (auto simp: s' nth_list_update)
  have users: "br_users (rb_records s' ! k) = (if k = r then br_users ?rec + 1 else br_users (rb_records s ! k))" for k
    using here(2) by (simp add: s' nth_list_update)
  have count: "hold_count k (rb_holds s') = hold_count k (rb_holds s) + (if k = r then 1 else 0)" for k
    by (simp add: s' hold_count_def)
  have "backing_ok s' b' r'" if m: "map_of (rb_backings s') b' = Some r'" for b' r'
  proof (cases "b' = b")
    case True
    then have "r' = r" using m here(1) by (simp add: s')
    then show ?thesis
      using True here hold_count_nonneg [of r "rb_holds s"]
      by (simp add: backing_ok_def fields users count) (simp add: s')
  next
    case False
    then have ok: "backing_ok s b' r'" using m others by (simp add: s')
    then have "r' \<noteq> r" using False here(3) by (auto simp: backing_ok_def)
    then show ?thesis
      using ok by (simp add: backing_ok_def fields users count) (simp add: s')
  qed
  moreover have "\<forall>h \<in> set (rb_holds s'). bh_owner h < length (rb_records s') \<and>
      (bh_owned h \<longrightarrow> map_of (rb_backings s') (br_backing (rb_records s' ! bh_owner h)) = Some (bh_owner h))"
    using holds here(1-3) unfolding fields by (auto simp: s')
  ultimately show ?thesis
    using dist inj unfolding rb_backing_inv_def fields by (auto simp: s')
qed

lemma rb_retainBacking_backing_inv [cove_inv]:
  assumes "rb_backing_inv s" and "rb_retainBacking s b n control = (res, s')"
  shows "rb_backing_inv s'"
proof (cases "map_of (rb_backings s) b")
  case (Some r)
  then have hold: "rb_hold s r control = (res, s')" using assms(2) by (simp add: rb_retainBacking_def)
  show ?thesis
  proof (cases res)
    case None
    then show ?thesis using hold assms(1) by (auto simp: rb_hold_def Let_def split: if_splits)
  next
    case (Some h)
    then show ?thesis
      using \<open>map_of (rb_backings s) b = Some r\<close> hold assms(1)
      by (intro rb_hold_backing_inv [of s r control h s' b])
        (auto simp: rb_backing_inv_def backing_ok_def)
  qed
next
  case None
  show ?thesis
  proof (cases "rb_reserve control s (n + 256)")
    case (Pair l s1)
    note res1 = Pair
    show ?thesis
    proof (cases l)
      case None
      then have "s' = s1" using assms(2) res1 \<open>map_of (rb_backings s) b = None\<close>
        by (simp add: rb_retainBacking_def)
      then show ?thesis using rb_reserve_backing_inv [OF assms(1) res1] by simp
    next
      case (Some lease)
      let ?new = "\<lparr>br_backing = b, br_users = 0, br_control = control, br_lease = lease\<rparr>"
      let ?s2 = "s1\<lparr>rb_records := rb_records s1 @ [?new],
          rb_backings := AList.update b (length (rb_records s1)) (rb_backings s1)\<rparr>"
      have frame: "rb_records s1 = rb_records s" "rb_backings s1 = rb_backings s" "rb_holds s1 = rb_holds s"
        using rb_reserve_frame [OF res1] by auto
      have lease: "lease = length (rb_leases s)"
        "rb_leases s1 = rb_leases s @ [\<lparr>bl_bytes = n + 256, bl_control = control, bl_owned = True\<rparr>]"
        using res1 Some by (auto simp: rb_reserve_def split: if_splits)
      have hold: "rb_hold ?s2 (length (rb_records s1)) control = (res, s')"
        using assms(2) res1 Some \<open>map_of (rb_backings s) b = None\<close>
        by (simp add: rb_retainBacking_def Let_def)
      then obtain h where h: "res = Some h"
        by (auto simp: rb_hold_def Let_def split: if_splits)
      have owners: "\<And>h. h \<in> set (rb_holds s) \<Longrightarrow> bh_owner h < length (rb_records s)"
        using assms(1) by (auto simp: rb_backing_inv_def)
      then have zero: "hold_count (length (rb_records s)) (rb_holds s) = 0"
        by (intro hold_count_absent) fastforce
      have old: "r < length (rb_records s)" "br_lease (rb_records s ! r) < length (rb_leases s)"
        if "map_of (rb_backings s) k = Some r" for k r
        using assms(1) that by (auto simp: rb_backing_inv_def backing_ok_def)
      show ?thesis
      proof (rule rb_hold_backing_inv [where s = ?s2 and b = b and r = "length (rb_records s1)"])
        show "rb_hold ?s2 (length (rb_records s1)) control = (Some h, s')" using hold h by simp
        show "distinct_keys (rb_backings ?s2)"
          using assms(1) by (simp add: frame rb_backing_inv_def distinct_update)
        show "backing_ok ?s2 b' r'" if "map_of (rb_backings ?s2) b' = Some r'" "b' \<noteq> b" for b' r'
          using that assms(1) by (auto simp: rb_backing_inv_def backing_ok_def frame lease nth_append intro: less_SucI)
        show "b1 = b2" if "map_of (rb_backings ?s2) b1 = Some r1" "map_of (rb_backings ?s2) b2 = Some r2"
          "br_lease (rb_records ?s2 ! r1) = br_lease (rb_records ?s2 ! r2)" for b1 b2 r1 r2
        proof -
          have new: "br_lease (rb_records ?s2 ! r) = lease"
            if "map_of (rb_backings ?s2) b = Some r" for r
            using that by (simp add: frame nth_append)
          have kept: "map_of (rb_backings s) k = Some r \<and> br_lease (rb_records ?s2 ! r) = br_lease (rb_records s ! r)
              \<and> br_lease (rb_records s ! r) < lease"
            if "k \<noteq> b" "map_of (rb_backings ?s2) k = Some r" for k r
            using that old [of k r] by (simp add: frame nth_append lease(1))
          show ?thesis
          proof (cases "b1 = b"; cases "b2 = b")
            assume "b1 \<noteq> b" "b2 \<noteq> b"
            then show ?thesis using kept [OF _ that(1)] kept [OF _ that(2)] that(3) assms(1)
              unfolding rb_backing_inv_def by (metis (no_types))
          qed (use new kept that in \<open>auto simp del: map_of_update\<close>)
        qed
        show "bh_owner k < length (rb_records ?s2) \<and> (bh_owned k \<longrightarrow>
            map_of (rb_backings ?s2) (br_backing (rb_records ?s2 ! bh_owner k)) = Some (bh_owner k))"
          if "k \<in> set (rb_holds ?s2)" for k
        proof -
          have k: "k \<in> set (rb_holds s)" using that by (simp add: frame)
          then have "bh_owned k \<longrightarrow> br_backing (rb_records s ! bh_owner k) \<noteq> b"
            using assms(1) \<open>map_of (rb_backings s) b = None\<close> by (auto simp: rb_backing_inv_def)
          then show ?thesis
            using k owners [OF k] assms(1)
            by (auto simp: frame rb_backing_inv_def nth_append)
        qed
      qed (auto simp: frame lease zero)
    qed
  qed
qed

lemma rb_releaseHold_backing_inv [cove_inv]:
  assumes inv: "rb_backing_inv s"
  shows "rb_backing_inv (rb_releaseHold s h)"
proof (cases "h < length (rb_holds s) \<and> bh_owned (rb_holds s ! h)")
  case False
  then show ?thesis using inv by (auto simp: rb_releaseHold_def)
next
  case True
  define r where "r = bh_owner (rb_holds s ! h)"
  define b where "b = br_backing (rb_records s ! r)"
  define rec where "rec = (rb_records s ! r)\<lparr>br_users := br_users (rb_records s ! r) - 1\<rparr>"
  define s1 where "s1 = s\<lparr>rb_holds := (rb_holds s)[h := (rb_holds s ! h)\<lparr>bh_owned := False\<rparr>],
      rb_records := (rb_records s)[r := rec]\<rparr>"
  have mem: "rb_holds s ! h \<in> set (rb_holds s)" using True by simp
  have r: "r < length (rb_records s)" and br: "map_of (rb_backings s) b = Some r"
    using inv mem True by (auto simp: rb_backing_inv_def r_def b_def)
  have ok: "backing_ok s b r" using inv br by (auto simp: rb_backing_inv_def)
  have count: "hold_count k (rb_holds s1) = hold_count k (rb_holds s) - (if k = r then 1 else 0)" for k
    using True by (simp add: s1_def hold_count_def cell_sum_update r_def)
  have fields: "br_backing (rb_records s1 ! k) = br_backing (rb_records s ! k)"
    "br_lease (rb_records s1 ! k) = br_lease (rb_records s ! k)"
    "br_control (rb_records s1 ! k) = br_control (rb_records s ! k)"
    "br_users (rb_records s1 ! k) = br_users (rb_records s ! k) - (if k = r then 1 else 0)" for k
    using r by (auto simp: s1_def rec_def nth_list_update)
  have other: "backing_ok s1 b' r'" if "map_of (rb_backings s) b' = Some r'" "b' \<noteq> b" for b' r'
  proof -
    have ok': "backing_ok s b' r'" using inv that by (auto simp: rb_backing_inv_def)
    then have "r' \<noteq> r" using that ok by (auto simp: backing_ok_def)
    then show ?thesis using ok' by (simp add: backing_ok_def fields count) (simp add: s1_def)
  qed
  have holds1: "bh_owner k < length (rb_records s1) \<and>
      (bh_owned k \<longrightarrow> map_of (rb_backings s) (br_backing (rb_records s1 ! bh_owner k)) = Some (bh_owner k))"
    if k: "k \<in> set (rb_holds s1)" for k
  proof -
    have "k = (rb_holds s ! h)\<lparr>bh_owned := False\<rparr> \<or> k \<in> set (rb_holds s)"
      using k by (simp add: s1_def set_list_update_cases)
    then show ?thesis
      using inv r unfolding fields by (auto simp: rb_backing_inv_def s1_def r_def)
  qed
  have step: "rb_releaseHold s h = (if br_users rec = 0
      then rb_release (s1\<lparr>rb_backings := AList.delete b (rb_backings s1)\<rparr>) (br_lease rec) else s1)"
    using True by (simp add: rb_releaseHold_def Let_def s1_def rec_def r_def b_def)
  show ?thesis
  proof (cases "br_users rec = 0")
    case False
    have "backing_ok s1 b r"
      using ok False hold_count_nonneg [of r "rb_holds s"]
      by (simp add: backing_ok_def fields count rec_def) (simp add: s1_def)
    then have "rb_backing_inv s1"
      using inv other holds1 br unfolding rb_backing_inv_def fields
      by (simp add: s1_def) (metis option.inject)
    then show ?thesis using False step by simp
  next
    case True
    let ?s2 = "s1\<lparr>rb_backings := AList.delete b (rb_backings s1)\<rparr>"
    have gone: "hold_count r (rb_holds s1) = 0"
      using ok True by (simp add: backing_ok_def count rec_def)
    have notb: "br_backing (rb_records s1 ! bh_owner k) \<noteq> b"
      if k: "k \<in> set (rb_holds s1)" "bh_owned k" for k
    proof
      assume "br_backing (rb_records s1 ! bh_owner k) = b"
      then have "bh_owner k = r" using holds1 [OF k(1)] k(2) br by simp
      then show False using hold_count_zero [OF gone k] by simp
    qed
    have maps: "rb_backings s1 = rb_backings s" by (simp add: s1_def)
    have "rb_backing_inv ?s2"
      using inv other holds1 notb unfolding rb_backing_inv_def
      by (auto simp: maps backing_ok_def fields distinct_keys_delete)
    moreover have "br_lease rec \<notin> backing_leases ?s2"
    proof
      assume "br_lease rec \<in> backing_leases ?s2"
      then obtain b' r' where p: "(b', r') \<in> set (AList.delete b (rb_backings s))"
        and eq: "br_lease (rb_records s ! r) = br_lease (rb_records s ! r')"
        by (auto simp: backing_leases_def maps fields rec_def)
      have "map_of (rb_backings s) b' = Some r'" "b' \<noteq> b"
        using p inv by (auto simp: AList.delete_eq rb_backing_inv_def map_of_eq_Some_iff)
      then show False using inv br eq by (auto simp: rb_backing_inv_def)
    qed
    ultimately show ?thesis using True step by (simp add: rb_release_backing_inv)
  qed
qed

subsection \<open>Runs of the account\<close>

datatype rb_op =
    RbReserve bool number
  | RbRelease handle
  | RbRetainBacking handle number bool
  | RbReleaseHold handle

text \<open>A client releases the leases it was given; the leases inside backing records are private.\<close>

fun rb_step :: "rb_op \<Rightarrow> runtime_bytes \<Rightarrow> runtime_bytes" where
  "rb_step (RbReserve control n) s = snd (rb_reserve control s n)"
| "rb_step (RbRelease l) s = (if l \<in> backing_leases s then s else rb_release s l)"
| "rb_step (RbRetainBacking b n control) s = snd (rb_retainBacking s b n control)"
| "rb_step (RbReleaseHold h) s = rb_releaseHold s h"

lemma rb_inv_frame:
  "rb_inv (s\<lparr>rb_records := x\<rparr>) = rb_inv s" "rb_inv (s\<lparr>rb_holds := y\<rparr>) = rb_inv s"
  "rb_inv (s\<lparr>rb_backings := z\<rparr>) = rb_inv s"
  by (simp_all add: rb_inv_def)

lemma rb_hold_inv [cove_inv]: "rb_inv s \<Longrightarrow> rb_hold s r c = (x, s') \<Longrightarrow> rb_inv s'"
  by (auto simp: rb_hold_def Let_def rb_inv_def split: if_splits)

lemma rb_retainBacking_cases:
  assumes "rb_retainBacking s b n control = (x, s')"
  obtains (present) r where "map_of (rb_backings s) b = Some r" "rb_hold s r control = (x, s')"
    | (refused) "map_of (rb_backings s) b = None" "rb_reserve control s (n + 256) = (None, s')" "x = None"
    | (fresh) lease s1 recs bks where "map_of (rb_backings s) b = None"
        "rb_reserve control s (n + 256) = (Some lease, s1)"
        "rb_hold (s1\<lparr>rb_records := recs, rb_backings := bks\<rparr>) (length (rb_records s1)) control = (x, s')"
  using assms by (auto simp: rb_retainBacking_def Let_def split: option.splits prod.splits)

lemma rb_retainBacking_inv [cove_inv]:
  assumes "rb_inv s" and "rb_retainBacking s b n control = (x, s')"
  shows "rb_inv s'"
  using assms(2)
proof (cases rule: rb_retainBacking_cases)
  case (fresh lease s1 recs bks)
  then have "rb_inv s1" using assms(1) rb_reserve_inv by blast
  then show ?thesis using rb_hold_inv [OF _ fresh(3)] by (simp add: rb_inv_frame)
qed (use assms(1) in \<open>blast intro: rb_hold_inv rb_reserve_inv\<close>)+

lemma rb_releaseHold_inv [cove_inv]: "rb_inv s \<Longrightarrow> rb_inv (rb_releaseHold s h)"
  by (auto simp: rb_releaseHold_def Let_def rb_inv_frame intro!: rb_release_inv)

lemma rb_step_inv [cove_inv]:
  "rb_inv s \<Longrightarrow> rb_inv (rb_step op s)"
  "rb_backing_inv s \<Longrightarrow> rb_backing_inv (rb_step op s)"
  by (cases op; auto intro: cove_inv prod.collapse [symmetric])+

lemma rb_run_inv:
  "rb_inv s \<Longrightarrow> rb_inv (fold rb_step ops s)"
  "rb_backing_inv s \<Longrightarrow> rb_backing_inv (fold rb_step ops s)"
  by (induction ops arbitrary: s) (auto intro: rb_step_inv)

lemma rb_hold_limits:
  "rb_hold s r c = (x, s') \<Longrightarrow> rb_limit s' = rb_limit s \<and> rb_controlReserve s' = rb_controlReserve s"
  by (auto simp: rb_hold_def Let_def split: if_splits)

lemma rb_retainBacking_limits:
  assumes "rb_retainBacking s b n c = (x, s')"
  shows "rb_limit s' = rb_limit s \<and> rb_controlReserve s' = rb_controlReserve s"
  using assms by (cases rule: rb_retainBacking_cases) (auto dest!: rb_hold_limits rb_reserve_frame)

lemma rb_step_limits [simp]:
  "rb_limit (rb_step op s) = rb_limit s \<and> rb_controlReserve (rb_step op s) = rb_controlReserve s"
proof (cases op)
  case (RbReserve c n)
  then show ?thesis using rb_reserve_frame [of c s n] by (cases "rb_reserve c s n") auto
next
  case (RbRetainBacking b n c)
  then show ?thesis using rb_retainBacking_limits [of s b n c] by (cases "rb_retainBacking s b n c") auto
qed (auto simp: rb_releaseHold_def Let_def)

lemma rb_run_limits [simp]:
  "rb_limit (fold rb_step ops s) = rb_limit s"
  "rb_controlReserve (fold rb_step ops s) = rb_controlReserve s"
  by (induction ops arbitrary: s) auto

lemma new_runtime_bytes_backing_inv: "new_runtime_bytes limit r = Inr s \<Longrightarrow> rb_backing_inv s"
  by (auto simp: new_runtime_bytes_def rb_backing_inv_def split: if_splits)

lemma rb_control_reserve:
  assumes "rb_inv s" and "0 \<le> n" and "n \<le> rb_controlReserve s - (rb_total s - rb_ordinary s)"
  shows "\<exists>l s'. rb_reserve True s n = (Some l, s')"
proof -
  have "n \<le> rb_limit s - rb_total s" using assms by (auto simp: rb_inv_def)
  moreover have "isSafeInteger n"
    using assms calculation rb.total_nonneg [OF assms(1)]
    by (auto simp: rb_inv_def isSafeInteger_def MAX_SAFE_INTEGER_def)
  ultimately show ?thesis using assms(2) by (simp add: rb_reserve_def)
qed

text \<open>
  C28. In every state the runtime account can reach, whatever ordinary and control reservations,
  releases (also repeated) and backing holds came before, the total stays within the limit and is
  exactly the bytes of the live leases, ordinary bytes stay outside the control reserve, and every
  buffer with an unreleased hold is charged by a live lease of its record.
\<close>

theorem rb_run_accounted:
  assumes "new_runtime_bytes limit controlReserve = Inr s0"
  shows "let s = fold rb_step ops s0 in
     rb_total s = (\<Sum>l \<in> dom (rb_charge s). the (rb_charge s l)) \<and>
     0 \<le> rb_total s \<and> rb_total s \<le> limit \<and> rb_ordinary s \<le> limit - controlReserve \<and>
     (\<forall>h < length (rb_holds s). bh_owned (rb_holds s ! h) \<longrightarrow>
        rb_charge s (br_lease (rb_records s ! bh_owner (rb_holds s ! h))) \<noteq> None)"
proof -
  let ?s = "fold rb_step ops s0"
  have inv: "rb_inv ?s" "rb_backing_inv ?s"
    using assms by (auto intro: rb_run_inv new_runtime_bytes_inv new_runtime_bytes_backing_inv)
  have lim: "rb_limit ?s = limit" "rb_controlReserve ?s = controlReserve"
    using assms by (auto simp: new_runtime_bytes_def split: if_splits)
  have "rb_charge ?s (br_lease (rb_records ?s ! bh_owner (rb_holds ?s ! h))) \<noteq> None"
    if "h < length (rb_holds ?s)" "bh_owned (rb_holds ?s ! h)" for h
  proof -
    have "rb_holds ?s ! h \<in> set (rb_holds ?s)" using that by simp
    then have "\<exists>b. backing_ok ?s b (bh_owner (rb_holds ?s ! h))"
      using inv(2) that unfolding rb_backing_inv_def by blast
    then show ?thesis by (auto simp: backing_ok_def rb_charge_def)
  qed
  then show ?thesis
    using inv(1) lim rb_total_charge [OF inv(1)] rb.total_nonneg [OF inv(1)]
    by (auto simp: Let_def rb_inv_def)
qed

theorem rb_run_accounted_witness:
  "\<exists>s0. new_runtime_bytes 1000 100 = Inr s0 \<and>
     rb_total (fold rb_step [RbRetainBacking 7 40 False, RbRetainBacking 7 40 False, RbReleaseHold 0,
       RbReserve True 50] s0) = 346 \<and>
     rb_total (fold rb_step [RbRetainBacking 7 40 False, RbRetainBacking 7 40 False, RbReleaseHold 0,
       RbReserve True 50] s0) \<le> 1000"
proof -
  define s0 where "s0 = \<lparr>rb_limit = 1000, rb_controlReserve = 100, rb_total = 0, rb_ordinary = 0,
    rb_leases = [], rb_records = [], rb_backings = [], rb_holds = []\<rparr>"
  have s0: "new_runtime_bytes 1000 100 = Inr s0"
    by (simp add: new_runtime_bytes_def isSafeInteger_def MAX_SAFE_INTEGER_def s0_def)
  have "rb_total (fold rb_step [RbRetainBacking 7 40 False, RbRetainBacking 7 40 False, RbReleaseHold 0,
       RbReserve True 50] s0) = 346"
    by (simp add: s0_def rb_retainBacking_def rb_reserve_def rb_hold_def rb_releaseHold_def
        rb_release_def isSafeInteger_def MAX_SAFE_INTEGER_def Let_def)
  then show ?thesis using s0 rb_run_accounted [OF s0, of "[RbRetainBacking 7 40 False,
      RbRetainBacking 7 40 False, RbReleaseHold 0, RbReserve True 50]"] by (auto simp only: Let_def)
qed

text \<open>
  C25. Ordinary work can never use up the control capacity: in every reachable state a control
  reservation of any size up to the control reserve less the control bytes in use succeeds.
\<close>

theorem rb_control_always_available:
  assumes "new_runtime_bytes limit controlReserve = Inr s0" and "s = fold rb_step ops s0"
    and "0 \<le> n" and "n \<le> controlReserve - (rb_total s - rb_ordinary s)"
  shows "\<exists>l s'. rb_reserve True s n = (Some l, s')"
proof -
  have "rb_inv s" using assms by (auto intro: rb_run_inv new_runtime_bytes_inv)
  moreover have "rb_controlReserve s = controlReserve"
    using assms(1,2) by (auto simp: new_runtime_bytes_def split: if_splits)
  ultimately show ?thesis using assms(3,4) by (auto intro: rb_control_reserve)
qed

theorem rb_control_always_available_witness:
  "\<exists>s0 s l s'. new_runtime_bytes 1000 100 = Inr s0 \<and> s = fold rb_step [RbReserve False 900] s0 \<and>
     rb_reserve False s 1 = (None, s) \<and> rb_reserve True s 100 = (Some l, s')"
proof -
  define s0 where "s0 = \<lparr>rb_limit = 1000, rb_controlReserve = 100, rb_total = 0, rb_ordinary = 0,
    rb_leases = [], rb_records = [], rb_backings = [], rb_holds = []\<rparr>"
  have s0: "new_runtime_bytes 1000 100 = Inr s0"
    by (simp add: new_runtime_bytes_def isSafeInteger_def MAX_SAFE_INTEGER_def s0_def)
  let ?s = "fold rb_step [RbReserve False 900] s0"
  have full: "rb_reserve False ?s 1 = (None, ?s)" "rb_total ?s - rb_ordinary ?s = 0"
    by (simp_all add: s0_def rb_reserve_def isSafeInteger_def MAX_SAFE_INTEGER_def)
  obtain l s' where "rb_reserve True ?s 100 = (Some l, s')"
    using rb_control_always_available [OF s0 refl, of 100 "[RbReserve False 900]"] full(2) by auto
  then show ?thesis using s0 full(1) by blast
qed

end
