(* ===== verification/Identity.thy ===== *)
theory Identity
  imports Cove_Prelude
begin

text \<open>
  Identities of \<^verbatim>\<open>packages/protocol/src/provisional/identity.ts\<close> and
  \<^verbatim>\<open>packages/protocol/src/identity.ts\<close>: the references by which runs, workers, connections and
  subscriptions are named on every lane, their equality tests and the bounded counter. The equality
  tests are shown to be equality of the references, which is what every later component relies on
  when it compares a stored reference with one from a command.
\<close>

definition char_between :: "char \<Rightarrow> char \<Rightarrow> char \<Rightarrow> bool" where
  "char_between lo hi c \<longleftrightarrow> (of_char lo :: nat) \<le> of_char c \<and> (of_char c :: nat) \<le> of_char hi"

definition is_alnum :: "char \<Rightarrow> bool" where
  "is_alnum c \<longleftrightarrow>
     char_between (CHR ''A'') (CHR ''Z'') c \<or>
     char_between (CHR ''a'') (CHR ''z'') c \<or>
     char_between (CHR ''0'') (CHR ''9'') c"

text \<open>\<open>OpaqueIdSchema\<close>: \<^verbatim>\<open>^[A-Za-z0-9][A-Za-z0-9._-]{0,127}$\<close>.\<close>

definition OpaqueIdSchema :: "ident \<Rightarrow> bool" where
  "OpaqueIdSchema s \<longleftrightarrow>
     (case s of [] \<Rightarrow> False
      | c # cs \<Rightarrow> is_alnum c \<and> length cs \<le> 127 \<and>
          list_all (\<lambda>d. is_alnum d \<or> d = CHR ''.'' \<or> d = CHR ''_'' \<or> d = CHR ''-'') cs)"

definition SequenceSchema :: "number \<Rightarrow> bool" where
  "SequenceSchema n \<longleftrightarrow> 0 \<le> n \<and> n \<le> MAX_SAFE_INTEGER"

record run_ref =
  rr_serverId :: ident
  rr_relayInstanceId :: ident
  rr_runId :: ident

record worker_ref =
  wr_serverId :: ident
  wr_relayInstanceId :: ident
  wr_workerId :: ident
  wr_workerIncarnationId :: ident

record connection_ref =
  cr_connectionId :: ident
  cr_generation :: number

record subscription_ref =
  sr_run :: run_ref
  sr_connection :: connection_ref
  sr_subscriptionId :: ident
  sr_viewId :: ident

definition RunRefSchema :: "run_ref \<Rightarrow> bool" where
  "RunRefSchema r \<longleftrightarrow> OpaqueIdSchema (rr_serverId r) \<and> OpaqueIdSchema (rr_relayInstanceId r) \<and>
     OpaqueIdSchema (rr_runId r)"

definition WorkerRefSchema :: "worker_ref \<Rightarrow> bool" where
  "WorkerRefSchema w \<longleftrightarrow> OpaqueIdSchema (wr_serverId w) \<and> OpaqueIdSchema (wr_relayInstanceId w) \<and>
     OpaqueIdSchema (wr_workerId w) \<and> OpaqueIdSchema (wr_workerIncarnationId w)"

definition ConnectionRefSchema :: "connection_ref \<Rightarrow> bool" where
  "ConnectionRefSchema c \<longleftrightarrow> OpaqueIdSchema (cr_connectionId c) \<and> SequenceSchema (cr_generation c)"

definition SubscriptionRefSchema :: "subscription_ref \<Rightarrow> bool" where
  "SubscriptionRefSchema s \<longleftrightarrow> RunRefSchema (sr_run s) \<and> ConnectionRefSchema (sr_connection s) \<and>
     OpaqueIdSchema (sr_subscriptionId s) \<and> OpaqueIdSchema (sr_viewId s)"

definition sameRunRef :: "run_ref \<Rightarrow> run_ref \<Rightarrow> bool" where
  "sameRunRef l r \<longleftrightarrow>
     rr_serverId l = rr_serverId r \<and>
     rr_relayInstanceId l = rr_relayInstanceId r \<and>
     rr_runId l = rr_runId r"

definition sameWorkerRef :: "worker_ref \<Rightarrow> worker_ref \<Rightarrow> bool" where
  "sameWorkerRef l r \<longleftrightarrow>
     wr_serverId l = wr_serverId r \<and>
     wr_relayInstanceId l = wr_relayInstanceId r \<and>
     wr_workerId l = wr_workerId r \<and>
     wr_workerIncarnationId l = wr_workerIncarnationId r"

definition workerMatchesRun :: "worker_ref \<Rightarrow> run_ref \<Rightarrow> bool" where
  "workerMatchesRun w r \<longleftrightarrow>
     wr_serverId w = rr_serverId r \<and> wr_relayInstanceId w = rr_relayInstanceId r"

definition sameConnectionRef :: "connection_ref \<Rightarrow> connection_ref \<Rightarrow> bool" where
  "sameConnectionRef l r \<longleftrightarrow>
     cr_connectionId l = cr_connectionId r \<and> cr_generation l = cr_generation r"

definition sameSubscriptionRef :: "subscription_ref \<Rightarrow> subscription_ref \<Rightarrow> bool" where
  "sameSubscriptionRef l r \<longleftrightarrow>
     sameRunRef (sr_run l) (sr_run r) \<and>
     sameConnectionRef (sr_connection l) (sr_connection r) \<and>
     sr_subscriptionId l = sr_subscriptionId r \<and>
     sr_viewId l = sr_viewId r"

definition nextCounter :: "number \<Rightarrow> number option" where
  "nextCounter n =
     (if \<not> SequenceSchema n \<or> n = MAX_SAFE_INTEGER then None else Some (n + 1))"

lemma sameRunRef_eq [simp]: "sameRunRef l r \<longleftrightarrow> l = r"
  by (auto simp: sameRunRef_def)

lemma sameWorkerRef_eq [simp]: "sameWorkerRef l r \<longleftrightarrow> l = r"
  by (auto simp: sameWorkerRef_def)

lemma sameConnectionRef_eq [simp]: "sameConnectionRef l r \<longleftrightarrow> l = r"
  by (auto simp: sameConnectionRef_def)

lemma sameSubscriptionRef_eq [simp]: "sameSubscriptionRef l r \<longleftrightarrow> l = r"
  by (auto simp: sameSubscriptionRef_def)

lemma nextCounter_Some:
  "nextCounter n = Some m \<Longrightarrow> m = n + 1 \<and> SequenceSchema n \<and> SequenceSchema m"
  by (auto simp: nextCounter_def SequenceSchema_def split: if_splits)

end
