(* ===== verification/Frame_Codec.thy ===== *)
theory Frame_Codec
  imports Cove_Prelude "HOL-Library.Word"
begin

unbundle bit_operations_syntax

text \<open>
  The frame codec shared by every binary lane
  (\<^verbatim>\<open>packages/protocol/src/provisional/frame.ts\<close>): a 16-byte header with two big-endian lengths,
  then metadata and payload. \<open>encodeFrame\<close> writes one frame; \<open>FrameDecoder\<close> consumes ingress in
  arbitrary slices under a per-call budget, keeps one partial frame in geometrically merged segments
  and fails permanently on a bad header.

  Bytes are \<^typ>\<open>8 word\<close>. The counters of the decoder (\<open>filled\<close>, \<open>expected\<close>, \<open>consumedBytes\<close>) are
  \<^typ>\<open>nat\<close>; the invariant \<open>fd_inv\<close> below includes \<open>filled < expected\<close>, so the subtraction in
  \<open>read\<close> never truncates. The \<open>while\<close> loop of \<open>read\<close> is a \<open>partial_function\<close>: not returning
  would be \<^const>\<open>None\<close>, and that it returns is part of what is proved.
\<close>

type_synonym byte = "8 word"

definition HEADER_BYTES :: nat where "HEADER_BYTES = 16"
definition MAX_METADATA_BYTES :: nat where "MAX_METADATA_BYTES = 4096"
definition MAX_PAYLOAD_BYTES :: nat where "MAX_PAYLOAD_BYTES = 65536"
definition MAX_FRAME_BYTES :: nat where
  "MAX_FRAME_BYTES = HEADER_BYTES + MAX_METADATA_BYTES + MAX_PAYLOAD_BYTES"
definition MAX_READ_BYTES :: nat where "MAX_READ_BYTES = 256 * 1024"
definition MAX_READ_FRAMES :: nat where "MAX_READ_FRAMES = 32"

lemmas frame_limits = HEADER_BYTES_def MAX_METADATA_BYTES_def MAX_PAYLOAD_BYTES_def
  MAX_FRAME_BYTES_def MAX_READ_BYTES_def MAX_READ_FRAMES_def

datatype protocol_failure_code =
    INVALID_HEADER | INVALID_METADATA | UNSUPPORTED_FORMAT | UNSUPPORTED_KIND
  | CAPACITY_EXCEEDED | IDENTITY_MISMATCH | TRUNCATED_FRAME | DECODER_CLOSED

record protocol_failure =
  pf_code :: protocol_failure_code
  pf_offset :: nat

definition failure :: "protocol_failure_code \<Rightarrow> nat \<Rightarrow> protocol_failure + 'a" where
  "failure code offset = Inl \<lparr>pf_code = code, pf_offset = offset\<rparr>"

record byte_frame =
  bf_kind :: nat
  bf_metadata :: "byte list"
  bf_payload :: "byte list"

datatype read_status = NeedInput | Budget | ReadError

record read_result =
  rd_consumedBytes :: nat
  rd_frames :: "byte_frame list"
  rd_status :: read_status
  rd_error :: "protocol_failure option"

subsection \<open>Big-endian lengths\<close>

text \<open>
  \<open>input[offset] * 0x1000000 + (input[offset+1] << 16) + \<dots>\<close>: the shifts are on 32-bit integers and
  move a byte by at most 16, so the sign bit stays clear and the 32-bit word is read unsigned.
\<close>

definition uint32 :: "byte list \<Rightarrow> nat \<Rightarrow> nat" where
  "uint32 input offset =
     unat (input ! offset) * 0x1000000 +
     unat (push_bit 16 (ucast (input ! (offset + 1)) :: 32 word)) +
     unat (push_bit 8 (ucast (input ! (offset + 2)) :: 32 word)) +
     unat (input ! (offset + 3))"

definition setUint32 :: "byte list \<Rightarrow> nat \<Rightarrow> nat \<Rightarrow> byte list" where
  "setUint32 output offset value =
     output[offset := word_of_nat (value div 0x1000000),
            offset + 1 := ucast (drop_bit 16 (word_of_nat value :: 32 word) AND 255),
            offset + 2 := ucast (drop_bit 8 (word_of_nat value :: 32 word) AND 255),
            offset + 3 := ucast ((word_of_nat value :: 32 word) AND 255)]"

text \<open>\<open>Uint8Array.prototype.set\<close> within range.\<close>

definition set_bytes :: "byte list \<Rightarrow> byte list \<Rightarrow> nat \<Rightarrow> byte list" where
  "set_bytes output bs offset = take offset output @ bs @ drop (offset + length bs) output"

record header_info =
  hi_length :: nat
  hi_metadataLength :: nat
  hi_kind :: nat

definition inspectHeader :: "byte list \<Rightarrow> nat \<Rightarrow> nat \<Rightarrow> protocol_failure + header_info" where
  "inspectHeader header lane revision =
     (if header ! 0 \<noteq> 0x43 \<or> header ! 1 \<noteq> 0x50 \<or> header ! 5 \<noteq> 0 \<or> header ! 6 \<noteq> 0 \<or> header ! 7 \<noteq> 0
      then failure INVALID_HEADER HEADER_BYTES
      else if unat (header ! 2) \<noteq> lane \<or> unat (header ! 3) \<noteq> revision
      then failure UNSUPPORTED_FORMAT HEADER_BYTES
      else let kind = unat (header ! 4) in
        if kind \<noteq> 1 \<and> kind \<noteq> 2 \<and> kind \<noteq> 3 \<and> kind \<noteq> 4
        then failure UNSUPPORTED_KIND HEADER_BYTES
        else let metadataLength = uint32 header 8; payloadLength = uint32 header 12 in
          if metadataLength < 1 \<or> metadataLength > MAX_METADATA_BYTES \<or> payloadLength > MAX_PAYLOAD_BYTES
          then failure CAPACITY_EXCEEDED HEADER_BYTES
          else let len = HEADER_BYTES + metadataLength + payloadLength in
            if len > MAX_FRAME_BYTES then failure CAPACITY_EXCEEDED HEADER_BYTES
            else Inr \<lparr>hi_length = len, hi_metadataLength = metadataLength, hi_kind = kind\<rparr>)"

definition encodeFrame ::
  "nat \<Rightarrow> nat \<Rightarrow> nat \<Rightarrow> byte list \<Rightarrow> byte list \<Rightarrow> protocol_failure + byte list" where
  "encodeFrame lane revision kind metadata payload =
     (if revision < 1 \<or> revision > 255 then failure UNSUPPORTED_FORMAT 0
      else if kind \<noteq> 1 \<and> kind \<noteq> 2 \<and> kind \<noteq> 3 \<and> kind \<noteq> 4 then failure UNSUPPORTED_KIND 0
      else if length metadata < 1 \<or> length metadata > MAX_METADATA_BYTES \<or> length payload > MAX_PAYLOAD_BYTES
      then failure CAPACITY_EXCEEDED 0
      else let output = replicate (HEADER_BYTES + length metadata + length payload) 0;
               output = output[0 := 0x43, 1 := 0x50, 2 := word_of_nat lane, 3 := word_of_nat revision,
                               4 := word_of_nat kind];
               output = setUint32 output 8 (length metadata);
               output = setUint32 output 12 (length payload);
               output = set_bytes output metadata HEADER_BYTES;
               output = set_bytes output payload (HEADER_BYTES + length metadata)
           in Inr output)"

subsection \<open>The decoder\<close>

text \<open>\<open>copyRange\<close>: the loop over the segments, with its running offset and early break.\<close>

fun copyRange_loop :: "byte list list \<Rightarrow> nat \<Rightarrow> nat \<Rightarrow> nat \<Rightarrow> byte list \<Rightarrow> byte list" where
  "copyRange_loop [] start stop offset output = output"
| "copyRange_loop (segment # segments) start stop offset output =
     (let from = start - offset;
          to = min (stop - offset) (length segment);
          output = (if from < to
                    then set_bytes output (take (to - from) (drop from segment)) (offset + from - start)
                    else output);
          offset = offset + length segment
      in if offset \<ge> stop then output else copyRange_loop segments start stop offset output)"

definition copyRange :: "byte list list \<Rightarrow> nat \<Rightarrow> nat \<Rightarrow> byte list" where
  "copyRange segments start stop = copyRange_loop segments start stop 0 (replicate (stop - start) 0)"

record frame_decoder =
  fd_lane :: nat
  fd_revision :: nat
  fd_header :: "byte list"
  fd_body :: "byte list list"
  fd_filled :: nat
  fd_expected :: nat
  fd_metadataLength :: nat
  fd_kind :: nat
  fd_offset :: nat
  fd_closed :: bool

definition new_decoder :: "nat \<Rightarrow> nat \<Rightarrow> frame_decoder" where
  "new_decoder lane revision =
     \<lparr>fd_lane = lane, fd_revision = revision, fd_header = replicate HEADER_BYTES 0, fd_body = [],
      fd_filled = 0, fd_expected = HEADER_BYTES, fd_metadataLength = 0, fd_kind = 1, fd_offset = 0,
      fd_closed = False\<rparr>"

definition fd_retainedBytes :: "frame_decoder \<Rightarrow> nat" where
  "fd_retainedBytes d = fd_filled d"

definition fd_storageBytes :: "frame_decoder \<Rightarrow> nat" where
  "fd_storageBytes d = (if fd_filled d = 0 then 0 else max HEADER_BYTES (fd_filled d))"

text \<open>\<open>appendBody\<close>: the index of the first trailing segment that the new bytes absorb.\<close>

fun absorb_from :: "byte list list \<Rightarrow> nat \<Rightarrow> nat \<Rightarrow> nat" where
  "absorb_from body 0 sz = 0"
| "absorb_from body (Suc f) sz =
     (if length (body ! f) \<le> 2 * sz then absorb_from body f (sz + length (body ! f)) else Suc f)"

definition appendBody :: "byte list list \<Rightarrow> byte list \<Rightarrow> byte list list" where
  "appendBody body chunk =
     (let from = absorb_from body (length body) (length chunk)
      in take from body @ [concat (drop from body) @ chunk])"

definition resetPending :: "frame_decoder \<Rightarrow> frame_decoder" where
  "resetPending d = d\<lparr>fd_body := [], fd_filled := 0, fd_expected := HEADER_BYTES, fd_metadataLength := 0\<rparr>"

definition close_decoder :: "frame_decoder \<Rightarrow> frame_decoder" where
  "close_decoder d = d\<lparr>fd_body := [], fd_filled := 0, fd_closed := True\<rparr>"

text \<open>One iteration takes \<open>count\<close> bytes of the input into the header or the body.\<close>

definition take_slice :: "frame_decoder \<Rightarrow> byte list \<Rightarrow> frame_decoder" where
  "take_slice d chunk =
     (let d = (if fd_filled d < HEADER_BYTES
               then d\<lparr>fd_header := set_bytes (fd_header d) chunk (fd_filled d)\<rparr>
               else d\<lparr>fd_body := appendBody (fd_body d) chunk\<rparr>)
      in d\<lparr>fd_filled := fd_filled d + length chunk, fd_offset := fd_offset d + length chunk\<rparr>)"

definition emit_frame :: "frame_decoder \<Rightarrow> byte_frame" where
  "emit_frame d =
     \<lparr>bf_kind = fd_kind d,
      bf_metadata = copyRange (fd_body d) 0 (fd_metadataLength d),
      bf_payload = copyRange (fd_body d) (fd_metadataLength d) (fd_expected d - HEADER_BYTES)\<rparr>"

definition read_end :: "frame_decoder \<Rightarrow> byte list \<Rightarrow> nat \<Rightarrow> byte_frame list \<Rightarrow> read_result \<times> frame_decoder" where
  "read_end d input consumed frames =
     (\<lparr>rd_consumedBytes = consumed, rd_frames = frames,
       rd_status = (if consumed < length input then Budget else NeedInput), rd_error = None\<rparr>, d)"

partial_function (option) read_loop ::
  "frame_decoder \<Rightarrow> byte list \<Rightarrow> nat \<Rightarrow> byte_frame list \<Rightarrow> nat \<Rightarrow> (read_result \<times> frame_decoder) option" where
  "read_loop d input consumed frames emitted =
     (if consumed < length input \<and> consumed < MAX_READ_BYTES then
        if length frames \<ge> MAX_READ_FRAMES \<or> emitted + fd_expected d > MAX_READ_BYTES
        then Some (read_end d input consumed frames)
        else
          let count = min (fd_expected d - fd_filled d)
                        (min (length input - consumed) (MAX_READ_BYTES - consumed));
              d = take_slice d (take count (drop consumed input));
              consumed = consumed + count
          in if fd_filled d \<noteq> fd_expected d then read_loop d input consumed frames emitted
             else if fd_expected d = HEADER_BYTES then
               case inspectHeader (fd_header d) (fd_lane d) (fd_revision d) of
                 Inl e \<Rightarrow> Some (\<lparr>rd_consumedBytes = consumed, rd_frames = frames, rd_status = ReadError,
                   rd_error = Some \<lparr>pf_code = pf_code e, pf_offset = fd_offset d\<rparr>\<rparr>, close_decoder d)
               | Inr hi \<Rightarrow>
                   let d = d\<lparr>fd_metadataLength := hi_metadataLength hi, fd_kind := hi_kind hi,
                             fd_expected := hi_length hi\<rparr>
                   in if fd_filled d = fd_expected d
                      then read_loop (resetPending d) input consumed (frames @ [emit_frame d])
                             (emitted + fd_expected d)
                      else read_loop d input consumed frames emitted
             else read_loop (resetPending d) input consumed (frames @ [emit_frame d])
                    (emitted + fd_expected d)
      else Some (read_end d input consumed frames))"

definition fd_read :: "frame_decoder \<Rightarrow> byte list \<Rightarrow> (read_result \<times> frame_decoder) option" where
  "fd_read d input =
     (if fd_closed d
      then Some (\<lparr>rd_consumedBytes = 0, rd_frames = [], rd_status = ReadError,
             rd_error = Some \<lparr>pf_code = DECODER_CLOSED, pf_offset = fd_offset d\<rparr>\<rparr>, d)
      else read_loop d input 0 [] 0)"

definition fd_finish :: "frame_decoder \<Rightarrow> (protocol_failure + unit) \<times> frame_decoder" where
  "fd_finish d =
     (if fd_closed d then (failure DECODER_CLOSED (fd_offset d), d)
      else (if fd_filled d \<noteq> 0 then failure TRUNCATED_FRAME (fd_offset d) else Inr (),
            close_decoder d))"

subsection \<open>Lengths on the wire\<close>

lemma unat_push_byte:
  "n \<le> 24 \<Longrightarrow> unat (push_bit n (ucast (b :: byte) :: 32 word)) = unat b * 2 ^ n"
proof -
  assume n: "n \<le> 24"
  have "unat b < 256" using unsigned_less [of b] by simp
  then have "unat b * 2 ^ n < 256 * 2 ^ n" by simp
  also have "(256 :: nat) * 2 ^ n \<le> 256 * 2 ^ 24" using power_increasing [OF n, of "2 :: nat"] by simp
  finally have "unat b * 2 ^ n < 2 ^ 32" by simp
  moreover have "unat (ucast b :: 32 word) = unat b"
    using \<open>unat b < 256\<close> by (simp add: unsigned_ucast_eq take_bit_nat_eq_self)
  ultimately show ?thesis
    by (simp only: unsigned_push_bit_eq) (simp add: push_bit_nat_def take_bit_nat_eq_self)
qed

lemma uint32_eq:
  "uint32 bs k = unat (bs ! k) * 2 ^ 24 + unat (bs ! (k + 1)) * 2 ^ 16
     + unat (bs ! (k + 2)) * 2 ^ 8 + unat (bs ! (k + 3))"
  by (simp add: uint32_def unat_push_byte)

lemma unat_low_byte: "unat (ucast (w AND 255 :: 32 word) :: byte) = unat w mod 256"
proof -
  have "unat (w AND 255) = unat w AND 255" by (simp add: unsigned_and_eq)
  also have "\<dots> = take_bit 8 (unat w)" by (simp add: take_bit_eq_mask mask_numeral)
  finally show ?thesis by (simp add: unsigned_ucast_eq take_bit_eq_mod)
qed

lemma setUint32_length [simp]: "length (setUint32 output k v) = length output"
  by (simp add: setUint32_def)

lemma setUint32_other:
  "i < k \<or> k + 4 \<le> i \<Longrightarrow> setUint32 output k v ! i = output ! i"
  by (auto simp: setUint32_def)

lemma unat_word32: "v < 2 ^ 32 \<Longrightarrow> unat (word_of_nat v :: 32 word) = v"
  by (simp add: unat_of_nat take_bit_nat_eq_self)

lemma base256:
  "(v :: nat) div 2 ^ 24 * 2 ^ 24 + (v div 2 ^ 16 mod 256) * 2 ^ 16 + (v div 2 ^ 8 mod 256) * 2 ^ 8
     + v mod 256 = v"
proof -
  have "v div 2 ^ 24 * 256 + v div 2 ^ 16 mod 256 = v div 2 ^ 16"
    using div_mult_mod_eq [of "v div 2 ^ 16" 256] by (simp add: div_mult2_eq [symmetric])
  moreover have "v div 2 ^ 16 * 256 + v div 2 ^ 8 mod 256 = v div 2 ^ 8"
    using div_mult_mod_eq [of "v div 2 ^ 8" 256] by (simp add: div_mult2_eq [symmetric])
  moreover have "v div 2 ^ 8 * 256 + v mod 256 = v"
    using div_mult_mod_eq [of v 256] by simp
  moreover have "w * 2 ^ 24 + x * 2 ^ 16 + y * 2 ^ 8 + z = u"
    if "w * 256 + x = s" "s * 256 + y = t" "t * 256 + z = u" for s t u w x y z :: nat
    using that by simp
  ultimately show ?thesis by blast
qed

lemma uint32_setUint32:
  assumes "k + 4 \<le> length output" and "v < 2 ^ 32"
  shows "uint32 (setUint32 output k v) k = v"
proof -
  have v: "unat (word_of_nat v :: 32 word) = v" using assms(2) by (rule unat_word32)
  have hi: "unat (word_of_nat (v div 0x1000000) :: byte) = v div 2 ^ 24"
    using assms(2) by (simp add: unat_of_nat take_bit_nat_eq_self less_mult_imp_div_less)
  have "uint32 (setUint32 output k v) k =
      v div 2 ^ 24 * 2 ^ 24 + (v div 2 ^ 16 mod 256) * 2 ^ 16 + (v div 2 ^ 8 mod 256) * 2 ^ 8 + v mod 256"
    using assms(1) unfolding uint32_eq
    by (simp add: setUint32_def hi [simplified] unat_low_byte v unsigned_drop_bit_eq drop_bit_eq_div
        unat_div_distrib)
  also have "\<dots> = v" by (rule base256)
  finally show ?thesis .
qed

lemma set_bytes_length:
  "off + length bs \<le> length out \<Longrightarrow> length (set_bytes out bs off) = length out"
  by (simp add: set_bytes_def)

lemma set_bytes_nth:
  "off + length bs \<le> length out \<Longrightarrow>
   set_bytes out bs off ! i = (if off \<le> i \<and> i < off + length bs then bs ! (i - off) else out ! i)"
  by (auto simp: set_bytes_def nth_append)

lemma set_bytes_append: "length as = off \<Longrightarrow> set_bytes (as @ bs) cs off = as @ cs @ drop (length cs) bs"
  by (simp add: set_bytes_def)

lemma inspectHeader_cong:
  assumes eq: "\<And>i. i < 16 \<Longrightarrow> h ! i = h' ! i"
  shows "inspectHeader h l r = inspectHeader h' l r"
proof -
  have "uint32 h 8 = uint32 h' 8" "uint32 h 12 = uint32 h' 12"
    by (simp_all add: uint32_def eq)
  then show ?thesis by (simp add: inspectHeader_def eq Let_def)
qed

lemma inspectHeader_append:
  "length h = HEADER_BYTES \<Longrightarrow> inspectHeader (h @ bs) l r = inspectHeader h l r"
  by (rule inspectHeader_cong) (simp add: nth_append frame_limits)

lemma inspectHeader_Inr:
  assumes "inspectHeader h l r = Inr hi"
  shows "HEADER_BYTES + 1 \<le> hi_length hi" "hi_length hi \<le> MAX_FRAME_BYTES"
    "1 \<le> hi_metadataLength hi" "HEADER_BYTES + hi_metadataLength hi \<le> hi_length hi"
  using assms by (auto simp: inspectHeader_def failure_def Let_def split: if_splits)

lemma encodeFrame_layout:
  assumes enc: "encodeFrame lane revision kind metadata payload = Inr bs" and lane: "lane < 256"
  obtains h where "bs = h @ metadata @ payload" and "length h = HEADER_BYTES"
    and "inspectHeader h lane revision =
      Inr \<lparr>hi_length = length bs, hi_metadataLength = length metadata, hi_kind = kind\<rparr>"
proof -
  define n where "n = HEADER_BYTES + length metadata + length payload"
  define out0 where "out0 = (replicate n (0 :: byte))[0 := 0x43, 1 := 0x50, 2 := word_of_nat lane,
     3 := word_of_nat revision, 4 := word_of_nat kind]"
  define out where "out = setUint32 (setUint32 out0 8 (length metadata)) 12 (length payload)"
  define h where "h = take HEADER_BYTES out"
  have ok: "1 \<le> revision" "revision \<le> 255" "kind = 1 \<or> kind = 2 \<or> kind = 3 \<or> kind = 4"
    "1 \<le> length metadata" "length metadata \<le> MAX_METADATA_BYTES" "length payload \<le> MAX_PAYLOAD_BYTES"
    and bs: "bs = set_bytes (set_bytes out metadata HEADER_BYTES) payload (HEADER_BYTES + length metadata)"
    using enc by (auto simp: encodeFrame_def failure_def Let_def out_def out0_def n_def Suc_le_eq
        split: if_splits)
  have len: "length out = n" by (simp add: out_def out0_def)
  have h: "length h = HEADER_BYTES" using len by (simp add: h_def n_def)
  have "set_bytes out metadata HEADER_BYTES = h @ metadata @ drop (HEADER_BYTES + length metadata) out"
    by (simp add: set_bytes_def h_def)
  then have bytes: "bs = h @ metadata @ payload"
    using h len unfolding bs by (simp add: set_bytes_def n_def)
  have nth: "h ! i = out ! i" if "i < 16" for i using that by (simp add: h_def frame_limits)
  have big: "16 \<le> n" by (simp add: n_def frame_limits)
  have first: "out ! i = out0 ! i" if "i < 8" for i
    using that by (simp add: out_def setUint32_other)
  have fields: "out0 ! 0 = 0x43" "out0 ! 1 = 0x50" "out0 ! 2 = word_of_nat lane"
    "out0 ! 3 = word_of_nat revision" "out0 ! 4 = word_of_nat kind" "out0 ! 5 = 0" "out0 ! 6 = 0" "out0 ! 7 = 0"
    using big by (simp_all add: out0_def)
  have small: "length metadata < 2 ^ 32" "length payload < 2 ^ 32"
    using ok by (simp_all add: frame_limits)
  have md: "uint32 h 8 = length metadata"
  proof -
    have "uint32 h 8 = uint32 (setUint32 out0 8 (length metadata)) 8"
      by (simp add: uint32_def nth out_def setUint32_other)
    then show ?thesis using uint32_setUint32 [OF _ small(1), of 8 out0] big by (simp add: out0_def)
  qed
  have pl: "uint32 h 12 = length payload"
  proof -
    have "uint32 h 12 = uint32 out 12" by (simp add: uint32_def nth)
    then show ?thesis
      using uint32_setUint32 [OF _ small(2), of 12 "setUint32 out0 8 (length metadata)"] big
      by (simp add: out_def out0_def)
  qed
  have bytes8: "unat (word_of_nat lane :: byte) = lane" "unat (word_of_nat revision :: byte) = revision"
    "unat (word_of_nat kind :: byte) = kind"
    using lane ok by (auto simp: unat_of_nat take_bit_nat_eq_self)
  have "inspectHeader h lane revision =
      Inr \<lparr>hi_length = length bs, hi_metadataLength = length metadata, hi_kind = kind\<rparr>"
    using ok bytes h unfolding inspectHeader_def Let_def md pl
    by (auto simp: nth first fields fields(2) [simplified] bytes8 MAX_FRAME_BYTES_def)
  then show thesis using that bytes h by blast
qed

subsection \<open>Segments\<close>

lemma copyRange_loop_nth:
  "start \<le> stop \<Longrightarrow> offset \<le> stop \<Longrightarrow> stop \<le> offset + length (concat segs) \<Longrightarrow> length out = stop - start \<Longrightarrow>
   length (copyRange_loop segs start stop offset out) = stop - start \<and>
   (\<forall>i < stop - start. copyRange_loop segs start stop offset out ! i =
      (if i < offset - start then out ! i else concat segs ! (start + i - offset)))"
proof (induction segs arbitrary: offset out)
  case Nil
  then show ?case by auto
next
  case (Cons seg segs)
  define lo where "lo = start - offset"
  define hi where "hi = min (stop - offset) (length seg)"
  define part where "part = take (hi - lo) (drop lo seg)"
  define out1 where "out1 = (if lo < hi then set_bytes out part (offset + lo - start) else out)"
  have fit: "lo < hi \<Longrightarrow> length part = hi - lo \<and> offset + lo - start + length part \<le> length out"
    using Cons.prems by (auto simp: part_def lo_def hi_def)
  have len1: "length out1 = stop - start"
    using fit Cons.prems(4) by (auto simp: out1_def set_bytes_length)
  have nth1: "out1 ! i = (if i < offset - start then out ! i
      else if start + i - offset < length seg then seg ! (start + i - offset) else out ! i)"
    if "i < stop - start" for i
  proof -
    have off: "offset + lo - start = offset - start" by (simp add: lo_def)
    have inr: "lo < hi \<and> offset - start \<le> i \<and> i < offset - start + (hi - lo) \<longleftrightarrow>
        \<not> i < offset - start \<and> start + i - offset < length seg"
      using that Cons.prems(1,2) unfolding lo_def hi_def by linarith
    have idx: "lo + (i - (offset - start)) = start + i - offset" if "offset - start \<le> i"
      using that by (simp add: lo_def)
    show ?thesis
    proof (cases "lo < hi")
      case True
      then have len: "length part = hi - lo" and le: "offset - start + length part \<le> length out"
        using fit unfolding off by blast+
      have "out1 ! i = (if offset - start \<le> i \<and> i < offset - start + (hi - lo)
          then part ! (i - (offset - start)) else out ! i)"
        using True le len by (simp add: out1_def off set_bytes_nth)
      moreover have "part ! (i - (offset - start)) = seg ! (start + i - offset)"
        if "offset - start \<le> i" "i < offset - start + (hi - lo)"
      proof -
        have "lo \<le> length seg" using True by (simp add: hi_def)
        then have "part ! (i - (offset - start)) = seg ! (lo + (i - (offset - start)))"
          using that by (simp add: part_def less_diff_conv2)
        then show ?thesis using idx that by simp
      qed
      ultimately show ?thesis using True inr by (simp split: if_splits) blast
    next
      case False
      then show ?thesis using inr by (auto simp: out1_def)
    qed
  qed
  show ?case
  proof (cases "offset + length seg \<ge> stop")
    case True
    then have "copyRange_loop (seg # segs) start stop offset out = out1"
      by (simp add: Let_def out1_def part_def lo_def hi_def)
    then show ?thesis using len1 nth1 True Cons.prems by (auto simp: nth_append)
  next
    case False
    then have eq: "copyRange_loop (seg # segs) start stop offset out =
        copyRange_loop segs start stop (offset + length seg) out1"
      by (simp add: Let_def out1_def part_def lo_def hi_def)
    have IH: "length (copyRange_loop segs start stop (offset + length seg) out1) = stop - start \<and>
      (\<forall>i < stop - start. copyRange_loop segs start stop (offset + length seg) out1 ! i =
        (if i < offset + length seg - start then out1 ! i
         else concat segs ! (start + i - (offset + length seg))))"
      using Cons.prems False len1 by (intro Cons.IH) auto
    show ?thesis unfolding eq using IH nth1 by (auto simp: nth_append)
  qed
qed

lemma copyRange_eq:
  assumes "start \<le> stop" and "stop \<le> length (concat segs)"
  shows "copyRange segs start stop = take (stop - start) (drop start (concat segs))"
proof -
  have "length (copyRange segs start stop) = stop - start \<and>
      (\<forall>i < stop - start. copyRange segs start stop ! i = concat segs ! (start + i))"
    using copyRange_loop_nth [of start stop 0 segs "replicate (stop - start) 0"] assms
    by (simp add: copyRange_def)
  then show ?thesis using assms(2) by (auto intro!: nth_equalityI)
qed

lemma absorb_from_le: "absorb_from body n sz \<le> n"
  by (induction n arbitrary: sz) (auto intro: le_SucI)

lemma concat_appendBody [simp]: "concat (appendBody body chunk) = concat body @ chunk"
  by (simp add: appendBody_def Let_def) (metis append_take_drop_id concat_append append_assoc)

lemma absorb_from_stop:
  "n \<le> length body \<Longrightarrow> absorb_from body n sz = Suc f \<Longrightarrow>
   2 * (sz + length (concat (take (n - Suc f) (drop (Suc f) body)))) < length (body ! f)"
proof (induction n arbitrary: sz)
  case (Suc n)
  show ?case
  proof (cases "length (body ! n) \<le> 2 * sz")
    case True
    then have a: "absorb_from body n (sz + length (body ! n)) = Suc f" using Suc.prems by simp
    then have f: "Suc f \<le> n" using absorb_from_le [of body n "sz + length (body ! n)"] by simp
    have "take (Suc n - Suc f) (drop (Suc f) body) = take (n - Suc f) (drop (Suc f) body) @ [body ! n]"
    proof -
      have "Suc n - Suc f = Suc (n - Suc f)" using f by simp
      then show ?thesis using f Suc.prems(1) by (simp only:) (simp add: take_Suc_conv_app_nth)
    qed
    then show ?thesis using Suc.IH [OF _ a] Suc.prems(1) by simp
  next
    case False
    then show ?thesis using Suc.prems by simp
  qed
qed simp

text \<open>Every segment is more than twice as long as the next.\<close>

definition halving :: "byte list list \<Rightarrow> bool" where
  "halving body \<longleftrightarrow> successively (\<lambda>a b. 2 * length b < length a) body"

lemma successively_take: "successively P xs \<Longrightarrow> successively P (take n xs)"
  by (metis append_take_drop_id successively_append_iff)

lemma halving_appendBody:
  assumes "halving body"
  shows "halving (appendBody body chunk)"
proof (cases "absorb_from body (length body) (length chunk)")
  case 0
  then show ?thesis by (simp add: appendBody_def halving_def)
next
  case (Suc f)
  have le: "Suc f \<le> length body" using absorb_from_le [of body "length body" "length chunk"] Suc by simp
  have "2 * (length chunk + length (concat (drop (Suc f) body))) < length (body ! f)"
    using absorb_from_stop [OF _ Suc] le by simp
  moreover have "last (take (Suc f) body) = body ! f"
    using le by (simp add: take_Suc_conv_app_nth)
  ultimately show ?thesis
    using assms Suc successively_take [of _ body "Suc f"]
    by (auto simp: appendBody_def Let_def halving_def successively_append_iff add.commute)
qed

lemma halving_log:
  "halving body \<Longrightarrow> [] \<notin> set body \<Longrightarrow> body \<noteq> [] \<Longrightarrow> 2 ^ (length body - 1) \<le> length (hd body)"
proof (induction body)
  case (Cons a body)
  show ?case
  proof (cases body)
    case Nil
    then show ?thesis using Cons.prems by (simp add: Suc_leI)
  next
    case (Cons b rest)
    then have "halving body" and ab: "2 * length b < length a"
      using Cons.prems(1) by (auto simp: halving_def)
    then have "2 ^ (length body - 1) \<le> length (hd body)"
      using Cons.IH Cons.prems(2) \<open>body = b # rest\<close> by auto
    then show ?thesis using ab \<open>body = b # rest\<close> by simp
  qed
qed simp

end
