(* ===== verification/Budgets.thy ===== *)
theory Budgets
  imports Frame_Codec
begin

text \<open>
  The budgets of \<^verbatim>\<open>packages/protocol/src/budgets.ts\<close>: the named limits, the schema of negotiated
  budgets (every limit may be lowered, none raised) and the relations between them that the rest of
  the program relies on: a whole frame fits the credit of a subscription, a control frame fits the
  control reserve, the chunks of a baseline carry a baseline of the largest size, and so on.

  The keys of the object are constructors of \<open>m0_key\<close> and a budgets object is a function on them; the
  schema walks the entries of \<open>M0_LIMITS\<close> in order, as \<open>Object.entries\<close> does.
\<close>

datatype (plugins only: code size) m0_key =
  maxRuns | maxCols | maxRows | historyLines | listPage | baselineVtBytes | baselineTailBytes |
  baselineChunks | recoveryDeadlineMs | concurrentGenerationsPerWorker | replayBytes | replayEvents |
  postNBytes | postNEvents | parseLowBytes | parseHighBytes | parseHardBytes | inputQueueBytes |
  pendingWorkerCommands | subscriptionCreditBytes | outboundConnectionBytes | reservedControlBytes |
  subscriptionsPerConnection | authenticatedSockets | unauthenticatedSockets | pipeQueuedBytes |
  previewBytesPerRun | previewGlobalBytes | previewRefreshes | bootstrapBytes | rpcRequestBytes |
  rpcResponseBytes | rpcBatch | rpcInflight | operationReceipts | canonicalIntentBytes |
  operationRecordBytes | runtimeBytes | workerBytes | executableBytes | cwdBytes | argvCount |
  argvBytes | capabilityCount

type_synonym budgets = "m0_key \<Rightarrow> number"

primrec M0_LIMITS :: budgets where
  "M0_LIMITS maxRuns = 128"
| "M0_LIMITS maxCols = 500"
| "M0_LIMITS maxRows = 200"
| "M0_LIMITS historyLines = 1000"
| "M0_LIMITS listPage = 128"
| "M0_LIMITS baselineVtBytes = 8 * 1024 * 1024"
| "M0_LIMITS baselineTailBytes = 64 * 1024"
| "M0_LIMITS baselineChunks = 129"
| "M0_LIMITS recoveryDeadlineMs = 15000"
| "M0_LIMITS concurrentGenerationsPerWorker = 2"
| "M0_LIMITS replayBytes = 1024 * 1024"
| "M0_LIMITS replayEvents = 4096"
| "M0_LIMITS postNBytes = 1024 * 1024"
| "M0_LIMITS postNEvents = 4096"
| "M0_LIMITS parseLowBytes = 128 * 1024"
| "M0_LIMITS parseHighBytes = 512 * 1024"
| "M0_LIMITS parseHardBytes = 1024 * 1024"
| "M0_LIMITS inputQueueBytes = 64 * 1024"
| "M0_LIMITS pendingWorkerCommands = 256"
| "M0_LIMITS subscriptionCreditBytes = 256 * 1024"
| "M0_LIMITS outboundConnectionBytes = 1024 * 1024"
| "M0_LIMITS reservedControlBytes = 64 * 1024"
| "M0_LIMITS subscriptionsPerConnection = 16"
| "M0_LIMITS authenticatedSockets = 32"
| "M0_LIMITS unauthenticatedSockets = 8"
| "M0_LIMITS pipeQueuedBytes = 4 * 1024 * 1024"
| "M0_LIMITS previewBytesPerRun = 64 * 1024"
| "M0_LIMITS previewGlobalBytes = 8 * 1024 * 1024"
| "M0_LIMITS previewRefreshes = 4"
| "M0_LIMITS bootstrapBytes = 8 * 1024"
| "M0_LIMITS rpcRequestBytes = 64 * 1024"
| "M0_LIMITS rpcResponseBytes = 256 * 1024"
| "M0_LIMITS rpcBatch = 16"
| "M0_LIMITS rpcInflight = 32"
| "M0_LIMITS operationReceipts = 4096"
| "M0_LIMITS canonicalIntentBytes = 8 * 1024"
| "M0_LIMITS operationRecordBytes = 4 * 1024"
| "M0_LIMITS runtimeBytes = 256 * 1024 * 1024"
| "M0_LIMITS workerBytes = 64 * 1024 * 1024"
| "M0_LIMITS executableBytes = 4096"
| "M0_LIMITS cwdBytes = 4096"
| "M0_LIMITS argvCount = 64"
| "M0_LIMITS argvBytes = 8 * 1024"
| "M0_LIMITS capabilityCount = 32"

definition m0_keys :: "m0_key list" where
  "m0_keys =
    [maxRuns, maxCols, maxRows, historyLines, listPage, baselineVtBytes, baselineTailBytes,
     baselineChunks, recoveryDeadlineMs, concurrentGenerationsPerWorker, replayBytes, replayEvents,
     postNBytes, postNEvents, parseLowBytes, parseHighBytes, parseHardBytes, inputQueueBytes,
     pendingWorkerCommands, subscriptionCreditBytes, outboundConnectionBytes, reservedControlBytes,
     subscriptionsPerConnection, authenticatedSockets, unauthenticatedSockets, pipeQueuedBytes,
     previewBytesPerRun, previewGlobalBytes, previewRefreshes, bootstrapBytes, rpcRequestBytes,
     rpcResponseBytes, rpcBatch, rpcInflight, operationReceipts, canonicalIntentBytes,
     operationRecordBytes, runtimeBytes, workerBytes, executableBytes, cwdBytes, argvCount, argvBytes,
     capabilityCount]"

definition EffectiveBudgetsSchema :: "budgets \<Rightarrow> bool" where
  "EffectiveBudgetsSchema v \<longleftrightarrow> list_all (\<lambda>key. 1 \<le> v key \<and> v key \<le> M0_LIMITS key) m0_keys"

definition validateEffectiveBudgets :: "budgets \<Rightarrow> budgets option" where
  "validateEffectiveBudgets value =
     (if \<not> EffectiveBudgetsSchema value then None
      else if value parseLowBytes \<ge> value parseHighBytes \<or> value parseHighBytes \<ge> value parseHardBytes
      then None
      else if value baselineChunks * 65536 < value baselineVtBytes + value baselineTailBytes then None
      else if value subscriptionCreditBytes < int MAX_FRAME_BYTES then None
      else if value outboundConnectionBytes < value subscriptionCreditBytes then None
      else if value reservedControlBytes < int HEADER_BYTES + int MAX_METADATA_BYTES then None
      else if value pipeQueuedBytes < int MAX_FRAME_BYTES then None
      else if value previewGlobalBytes < value maxRuns * value previewBytesPerRun then None
      else if value maxRuns < 1 \<or> value listPage > value maxRuns then None
      else Some value)"

lemma m0_keys_all: "k \<in> set m0_keys"
  by (cases k) (simp_all add: m0_keys_def)

lemma EffectiveBudgetsSchema_iff:
  "EffectiveBudgetsSchema v \<longleftrightarrow> (\<forall>k. 1 \<le> v k \<and> v k \<le> M0_LIMITS k)"
  using m0_keys_all by (auto simp: EffectiveBudgetsSchema_def list_all_iff)

lemma validateEffectiveBudgets_Some:
  assumes "validateEffectiveBudgets v = Some w"
  shows "w = v \<and> (\<forall>k. 1 \<le> v k \<and> v k \<le> M0_LIMITS k) \<and>
    v parseLowBytes < v parseHighBytes \<and> v parseHighBytes < v parseHardBytes \<and>
    v baselineVtBytes + v baselineTailBytes \<le> v baselineChunks * 65536 \<and>
    int MAX_FRAME_BYTES \<le> v subscriptionCreditBytes \<and> v subscriptionCreditBytes \<le> v outboundConnectionBytes \<and>
    int HEADER_BYTES + int MAX_METADATA_BYTES \<le> v reservedControlBytes \<and>
    int MAX_FRAME_BYTES \<le> v pipeQueuedBytes \<and>
    v maxRuns * v previewBytesPerRun \<le> v previewGlobalBytes \<and> v listPage \<le> v maxRuns"
  using assms by (auto simp: validateEffectiveBudgets_def EffectiveBudgetsSchema_iff split: if_splits)

lemma M0_LIMITS_valid: "validateEffectiveBudgets M0_LIMITS = Some M0_LIMITS"
proof -
  have "EffectiveBudgetsSchema M0_LIMITS" by (simp add: EffectiveBudgetsSchema_def m0_keys_def)
  then show ?thesis by (simp add: validateEffectiveBudgets_def frame_limits)
qed

end
