(* ===== verification/Terminal_Recovery.thy ===== *)
theory Terminal_Recovery
  imports Identity Budgets
begin

text \<open>
  Terminal profile and baseline transfer
  (\<^verbatim>\<open>packages/protocol/src/profile.ts\<close>, \<^verbatim>\<open>packages/protocol/src/terminal-recovery.ts\<close>). A zod schema
  is a record for the shape of the parsed value plus a predicate with the schema's constraints;
  \<open>safeParse\<close> of a value of that shape succeeds exactly when the predicate holds. A baseline is the
  snapshot a recovering client starts from: a descriptor, chunks in order and an end marker;
  \<open>validateBaselineTransfer\<close> is the byte accounting a client runs before it commits to it.
\<close>

definition PROFILE :: string where "PROFILE = ''pragmatic-logical-grid-v1''"
definition BASELINE_ENCODING :: string where "BASELINE_ENCODING = ''vt-checkpoint-tail-v1''"

definition int_in :: "number \<Rightarrow> number \<Rightarrow> number \<Rightarrow> bool" where
  "int_in lo hi n \<longleftrightarrow> lo \<le> n \<and> n \<le> hi"

definition ProfileSchema :: "string \<Rightarrow> bool" where "ProfileSchema p \<longleftrightarrow> p = PROFILE"
definition BaselineEncodingSchema :: "string \<Rightarrow> bool" where "BaselineEncodingSchema e \<longleftrightarrow> e = BASELINE_ENCODING"

record geometry =
  ge_cols :: number
  ge_rows :: number

definition GeometrySchema :: "geometry \<Rightarrow> bool" where
  "GeometrySchema g \<longleftrightarrow> int_in 2 (M0_LIMITS maxCols) (ge_cols g) \<and> int_in 2 (M0_LIMITS maxRows) (ge_rows g)"

definition is_hex :: "char \<Rightarrow> bool" where
  "is_hex c \<longleftrightarrow> char_between (CHR ''0'') (CHR ''9'') c \<or> char_between (CHR ''a'') (CHR ''f'') c \<or>
     char_between (CHR ''A'') (CHR ''F'') c"

text \<open>\<open>Rgb16Schema\<close>: three groups of four hexadecimal digits separated by slashes.\<close>

definition Rgb16Schema :: "string \<Rightarrow> bool" where
  "Rgb16Schema s \<longleftrightarrow> length s = 14 \<and> s ! 4 = CHR ''/'' \<and> s ! 9 = CHR ''/'' \<and>
     list_all (\<lambda>i. is_hex (s ! i)) [0, 1, 2, 3, 5, 6, 7, 8, 10, 11, 12, 13]"

record palette_entry =
  pe_index :: number
  pe_rgb :: string

record appearance =
  ap_foreground :: "string option"
  ap_background :: "string option"
  ap_palette :: "palette_entry list"

definition PaletteEntrySchema :: "palette_entry \<Rightarrow> bool" where
  "PaletteEntrySchema e \<longleftrightarrow> int_in 0 255 (pe_index e) \<and> Rgb16Schema (pe_rgb e)"

definition optional :: "('a \<Rightarrow> bool) \<Rightarrow> 'a option \<Rightarrow> bool" where
  "optional P v \<longleftrightarrow> (case v of None \<Rightarrow> True | Some x \<Rightarrow> P x)"

definition AppearanceSchema :: "appearance \<Rightarrow> bool" where
  "AppearanceSchema a \<longleftrightarrow> optional Rgb16Schema (ap_foreground a) \<and> optional Rgb16Schema (ap_background a) \<and>
     list_all PaletteEntrySchema (ap_palette a) \<and> length (ap_palette a) \<le> 256"

definition validateAppearance :: "appearance \<Rightarrow> appearance option" where
  "validateAppearance a =
     (if \<not> AppearanceSchema a then None
      else let indices = map pe_index (ap_palette a)
           in if length (remdups indices) = length indices then Some a else None)"

definition DEFAULT_APPEARANCE :: appearance where
  "DEFAULT_APPEARANCE = \<lparr>ap_foreground = Some ''ffff/ffff/ffff'', ap_background = Some ''0000/0000/0000'',
     ap_palette = [\<lparr>pe_index = 1, pe_rgb = ''cccc/0000/0000''\<rparr>]\<rparr>"

datatype resize_context = ResizeComplete | ResizeRequiresBaseline

record recovery_coverage =
  rc_historyLines :: number
  rc_includedHistoryLines :: number
  rc_trimmedBefore :: bool
  rc_normalResize :: resize_context
  rc_alternateResize :: resize_context

definition RecoveryCoverageSchema :: "recovery_coverage \<Rightarrow> bool" where
  "RecoveryCoverageSchema c \<longleftrightarrow> int_in 0 1000 (rc_historyLines c) \<and> int_in 0 1000 (rc_includedHistoryLines c)"

record control_holder =
  ch_connection :: connection_ref
  ch_viewId :: ident
  ch_subscriptionId :: ident

definition ControlHolderSchema :: "control_holder \<Rightarrow> bool" where
  "ControlHolderSchema h \<longleftrightarrow> ConnectionRefSchema (ch_connection h) \<and> OpaqueIdSchema (ch_viewId h) \<and>
     OpaqueIdSchema (ch_subscriptionId h)"

record baseline_control =
  bc_epoch :: number
  bc_holder :: "control_holder option"

definition BaselineControlSchema :: "baseline_control \<Rightarrow> bool" where
  "BaselineControlSchema c \<longleftrightarrow> SequenceSchema (bc_epoch c) \<and> optional ControlHolderSchema (bc_holder c)"

record baseline_descriptor =
  bd_baselineId :: ident
  bd_run :: run_ref
  bd_subscription :: subscription_ref
  bd_profile :: string
  bd_encoding :: string
  bd_checkpointSeq :: number
  bd_atSeq :: number
  bd_captureGeometry :: geometry
  bd_currentGeometry :: geometry
  bd_coverage :: recovery_coverage
  bd_control :: baseline_control
  bd_vtBytes :: number
  bd_tailBytes :: number
  bd_chunkCount :: number

definition BaselineDescriptorSchema :: "baseline_descriptor \<Rightarrow> bool" where
  "BaselineDescriptorSchema d \<longleftrightarrow>
     OpaqueIdSchema (bd_baselineId d) \<and> RunRefSchema (bd_run d) \<and> SubscriptionRefSchema (bd_subscription d) \<and>
     ProfileSchema (bd_profile d) \<and> BaselineEncodingSchema (bd_encoding d) \<and>
     SequenceSchema (bd_checkpointSeq d) \<and> SequenceSchema (bd_atSeq d) \<and>
     GeometrySchema (bd_captureGeometry d) \<and> GeometrySchema (bd_currentGeometry d) \<and>
     RecoveryCoverageSchema (bd_coverage d) \<and> BaselineControlSchema (bd_control d) \<and>
     int_in 1 (M0_LIMITS baselineVtBytes) (bd_vtBytes d) \<and>
     int_in 0 (M0_LIMITS baselineTailBytes) (bd_tailBytes d) \<and>
     int_in 1 (M0_LIMITS baselineChunks) (bd_chunkCount d)"

record baseline_chunk =
  bk_run :: run_ref
  bk_baselineId :: ident
  bk_subscription :: subscription_ref
  bk_ordinal :: number

definition BaselineChunkSchema :: "baseline_chunk \<Rightarrow> bool" where
  "BaselineChunkSchema c \<longleftrightarrow> RunRefSchema (bk_run c) \<and> OpaqueIdSchema (bk_baselineId c) \<and>
     SubscriptionRefSchema (bk_subscription c) \<and> int_in 0 (M0_LIMITS baselineChunks - 1) (bk_ordinal c)"

record baseline_end =
  be_run :: run_ref
  be_baselineId :: ident
  be_subscription :: subscription_ref
  be_chunkCount :: number
  be_totalBytes :: number
  be_atSeq :: number

definition BaselineEndSchema :: "baseline_end \<Rightarrow> bool" where
  "BaselineEndSchema e \<longleftrightarrow> RunRefSchema (be_run e) \<and> OpaqueIdSchema (be_baselineId e) \<and>
     SubscriptionRefSchema (be_subscription e) \<and>
     int_in 1 (M0_LIMITS baselineChunks) (be_chunkCount e) \<and>
     int_in 1 (M0_LIMITS baselineVtBytes + M0_LIMITS baselineTailBytes) (be_totalBytes e) \<and>
     SequenceSchema (be_atSeq e)"

definition validateBaselineDescriptor :: "baseline_descriptor \<Rightarrow> number \<Rightarrow> baseline_descriptor option" where
  "validateBaselineDescriptor value historyLimit =
     (if \<not> isSafeInteger historyLimit \<or> historyLimit < 0 \<or> historyLimit > M0_LIMITS historyLines then None
      else if \<not> BaselineDescriptorSchema value then None
      else if bd_checkpointSeq value > bd_atSeq value \<or>
              (bc_epoch (bd_control value) = 0 \<and> bc_holder (bd_control value) \<noteq> None) \<or>
              \<not> sameSubscriptionRef (bd_subscription value) ((bd_subscription value)\<lparr>sr_run := bd_run value\<rparr>)
      then None
      else if ge_cols (bd_captureGeometry value) \<noteq> ge_cols (bd_currentGeometry value) \<or>
              ge_rows (bd_captureGeometry value) \<noteq> ge_rows (bd_currentGeometry value)
      then None
      else if rc_includedHistoryLines (bd_coverage value) > rc_historyLines (bd_coverage value) \<or>
              rc_historyLines (bd_coverage value) > historyLimit
      then None
      else let totalBytes = bd_vtBytes value + bd_tailBytes value
           in if bd_chunkCount value > totalBytes \<or> bd_chunkCount value * 65536 < totalBytes then None
              else Some value)"

text \<open>The loop over the chunks, with its index and running total.\<close>

fun transfer_loop ::
  "baseline_descriptor \<Rightarrow> baseline_end \<Rightarrow> nat \<Rightarrow> number \<Rightarrow> (baseline_chunk \<times> byte list) list \<Rightarrow> bool" where
  "transfer_loop descriptor finish index tally [] \<longleftrightarrow> tally = be_totalBytes finish"
| "transfer_loop descriptor finish index tally ((metadata, payload) # chunks) \<longleftrightarrow>
     (if \<not> BaselineChunkSchema metadata \<or>
         \<not> sameRunRef (bk_run metadata) (bd_run descriptor) \<or>
         bk_ordinal metadata \<noteq> int index \<or>
         bk_baselineId metadata \<noteq> bd_baselineId descriptor \<or>
         \<not> sameSubscriptionRef (bk_subscription metadata) (bd_subscription descriptor) \<or>
         length payload < 1 \<or> length payload > 65536
      then False
      else if tally + int (length payload) > be_totalBytes finish then False
      else transfer_loop descriptor finish (index + 1) (tally + int (length payload)) chunks)"

definition validateBaselineTransfer ::
  "baseline_descriptor \<Rightarrow> (baseline_chunk \<times> byte list) list \<Rightarrow> baseline_end \<Rightarrow> bool" where
  "validateBaselineTransfer descriptor chunks finish \<longleftrightarrow>
     (if validateBaselineDescriptor descriptor (M0_LIMITS historyLines) = None \<or>
         int (length chunks) \<noteq> bd_chunkCount descriptor then False
      else if \<not> BaselineEndSchema finish then False
      else if \<not> sameRunRef (be_run finish) (bd_run descriptor) \<or>
              be_baselineId finish \<noteq> bd_baselineId descriptor \<or>
              \<not> sameSubscriptionRef (be_subscription finish) (bd_subscription descriptor) \<or>
              be_atSeq finish \<noteq> bd_atSeq descriptor \<or>
              be_chunkCount finish \<noteq> bd_chunkCount descriptor \<or>
              be_totalBytes finish \<noteq> bd_vtBytes descriptor + bd_tailBytes descriptor
      then False
      else transfer_loop descriptor finish 0 0 chunks)"

subsection \<open>Lemmas\<close>

lemma validateAppearance_Some:
  "validateAppearance a = Some b \<longleftrightarrow> b = a \<and> AppearanceSchema a \<and> distinct (map pe_index (ap_palette a))"
proof -
  have "length (remdups xs) = length xs \<longleftrightarrow> distinct xs" for xs :: "number list"
    by (metis card_distinct distinct_card length_remdups_card_conv)
  then show ?thesis by (auto simp: validateAppearance_def Let_def simp del: length_map)
qed

lemma validateBaselineDescriptor_Some:
  "validateBaselineDescriptor d lim = Some e \<Longrightarrow> e = d \<and> BaselineDescriptorSchema d \<and>
     bd_checkpointSeq d \<le> bd_atSeq d \<and> sr_run (bd_subscription d) = bd_run d \<and>
     bd_captureGeometry d = bd_currentGeometry d \<and>
     bd_chunkCount d \<le> bd_vtBytes d + bd_tailBytes d \<and> bd_vtBytes d + bd_tailBytes d \<le> bd_chunkCount d * 65536"
  by (cases "bd_subscription d") (auto simp: validateBaselineDescriptor_def Let_def split: if_splits)

definition chunk_ok :: "baseline_descriptor \<Rightarrow> nat \<Rightarrow> baseline_chunk \<times> byte list \<Rightarrow> bool" where
  "chunk_ok d i c \<longleftrightarrow> BaselineChunkSchema (fst c) \<and>
     fst c = \<lparr>bk_run = bd_run d, bk_baselineId = bd_baselineId d, bk_subscription = bd_subscription d,
       bk_ordinal = int i\<rparr> \<and> 1 \<le> length (snd c) \<and> length (snd c) \<le> 65536"

lemma transfer_loop_Cons:
  "transfer_loop d fin i tally (c # chunks) \<longleftrightarrow> chunk_ok d i c \<and>
     tally + int (length (snd c)) \<le> be_totalBytes fin \<and>
     transfer_loop d fin (Suc i) (tally + int (length (snd c))) chunks"
  by (cases c; cases "fst c") (auto simp: chunk_ok_def Suc_le_eq)

lemma transfer_loop_iff:
  "transfer_loop d fin i tally chunks \<longleftrightarrow>
     (\<forall>j < length chunks. chunk_ok d (i + j) (chunks ! j)) \<and>
     tally + int (length (concat (map snd chunks))) = be_totalBytes fin"
proof (induction chunks arbitrary: i tally)
  case (Cons c chunks)
  have "(\<forall>j < length (c # chunks). chunk_ok d (i + j) ((c # chunks) ! j)) \<longleftrightarrow>
      chunk_ok d i c \<and> (\<forall>j < length chunks. chunk_ok d (Suc i + j) (chunks ! j))"
    by (simp add: All_less_Suc2)
  then show ?case unfolding transfer_loop_Cons Cons.IH by auto
qed simp

text \<open>C5. A baseline is accepted only when it is complete and exact: the transfer check holds exactly when
  the descriptor is valid, the end marker repeats its identity, sequence, chunk count and size, and the
  chunks are the ordinals 0 to chunkCount - 1 of that very baseline in order, each of 1 to 65536 bytes,
  whose payloads together are exactly \<open>vtBytes + tailBytes\<close> bytes.\<close>

theorem baseline_transfer_exact:
  "validateBaselineTransfer d chunks fin \<longleftrightarrow>
     validateBaselineDescriptor d 1000 \<noteq> None \<and> BaselineEndSchema fin \<and>
     fin = \<lparr>be_run = bd_run d, be_baselineId = bd_baselineId d, be_subscription = bd_subscription d,
       be_chunkCount = bd_chunkCount d, be_totalBytes = bd_vtBytes d + bd_tailBytes d, be_atSeq = bd_atSeq d\<rparr> \<and>
     map fst chunks = map (\<lambda>j. \<lparr>bk_run = bd_run d, bk_baselineId = bd_baselineId d,
       bk_subscription = bd_subscription d, bk_ordinal = int j\<rparr>) [0..<nat (bd_chunkCount d)] \<and>
     list_all (\<lambda>(metadata, payload). BaselineChunkSchema metadata \<and> 1 \<le> length payload \<and> length payload \<le> 65536) chunks \<and>
     int (length (concat (map snd chunks))) = bd_vtBytes d + bd_tailBytes d"
  (is "_ \<longleftrightarrow> ?desc \<and> ?schema \<and> ?fin \<and> ?meta \<and> ?sizes \<and> ?total")
proof -
  have fin: "be_run fin = bd_run d \<and> be_baselineId fin = bd_baselineId d \<and> be_subscription fin = bd_subscription d \<and>
      be_atSeq fin = bd_atSeq d \<and> be_chunkCount fin = bd_chunkCount d \<and>
      be_totalBytes fin = bd_vtBytes d + bd_tailBytes d \<longleftrightarrow> ?fin"
    by (cases fin) auto
  have pos: "?desc \<Longrightarrow> 1 \<le> bd_chunkCount d"
    using validateBaselineDescriptor_Some [of d 1000] by (auto simp: BaselineDescriptorSchema_def int_in_def)
  have meta: "int (length chunks) = bd_chunkCount d \<and>
      (\<forall>j < length chunks. chunk_ok d j (chunks ! j)) \<longleftrightarrow> ?meta \<and> ?sizes" if ?desc
    using pos [OF that] by (auto simp: list_eq_iff_nth_eq list_all_length split_beta chunk_ok_def)
  have "validateBaselineTransfer d chunks fin \<longleftrightarrow> ?desc \<and> ?schema \<and> int (length chunks) = bd_chunkCount d \<and>
      ?fin \<and> transfer_loop d fin 0 0 chunks"
    using fin by (simp add: validateBaselineTransfer_def) blast
  also have "\<dots> \<longleftrightarrow> ?desc \<and> ?schema \<and> ?fin \<and> ?meta \<and> ?sizes \<and> ?total"
  proof (cases "?desc \<and> ?fin")
    case True
    then have "transfer_loop d fin 0 0 chunks \<longleftrightarrow> (\<forall>j < length chunks. chunk_ok d j (chunks ! j)) \<and> ?total"
      by (simp only: transfer_loop_iff) simp
    then show ?thesis using meta True by blast
  qed blast
  finally show ?thesis .
qed

end
