(* ===== verification/Domain_Errors.thy ===== *)
theory Domain_Errors
  imports Identity
begin

text \<open>
  The domain errors of \<^verbatim>\<open>packages/protocol/src/errors.ts\<close>: the table of kinds (their order fixes the
  codes), the fixed messages and next actions, the constructor \<open>domainError\<close> and the schema every
  received error must satisfy. Kinds are the strings of the source's table. A \<open>throw\<close> of the
  constructor is a left value.
\<close>

definition DOMAIN_ERROR_KINDS :: "ident list" where
  "DOMAIN_ERROR_KINDS =
    [''UNAUTHENTICATED'', ''FORBIDDEN'', ''BOOTSTRAP_UNSUPPORTED'', ''PROTOCOL_MISMATCH'',
     ''INSTANCE_MISMATCH'', ''CAPABILITY_UNAVAILABLE'', ''PROFILE_UNSUPPORTED'', ''RUN_NOT_FOUND'',
     ''STALE_CONNECTION'', ''STALE_CONTROL'', ''INVALID_SIZE'', ''RESYNC_REQUIRED'',
     ''RECOVERY_EXPIRED'', ''RECOVERY_UNAVAILABLE'', ''BUSY'', ''OPERATION_ID_CONFLICT'',
     ''OPERATION_NOT_FOUND'', ''INPUT_REJECTED'', ''RESULT_UNKNOWN'', ''WORKER_UNAVAILABLE'',
     ''COUNTER_EXHAUSTED'', ''INVALID_ARGUMENT'', ''REVISION_CONFLICT'', ''REPO_NOT_FOUND'',
     ''TASK_NOT_FOUND'', ''MOUNT_NOT_FOUND'', ''TAB_NOT_FOUND'', ''NOT_A_GIT_REPOSITORY'',
     ''BARE_REPOSITORY'', ''REPO_ALREADY_REGISTERED'', ''MANAGED_WORKTREE_NOT_MOUNTABLE'',
     ''MOUNT_NAME_CONFLICT'', ''TASK_ARCHIVED'', ''BRANCH_EXISTS'', ''FETCH_FAILED'',
     ''MAIN_BRANCH_UNRESOLVED'', ''LIVE_RUNS_PRESENT'', ''OPERATION_NOT_RESUMABLE'',
     ''OPERATION_EFFECTS_ACTIVE'', ''GIT_UNAVAILABLE'', ''REPO_IN_USE'', ''WORKSPACE_ENTRY_UNAVAILABLE'',
     ''DEVICE_REVOKED'', ''INVITATION_UNAVAILABLE'', ''INVITATION_NOT_FOUND'', ''DEVICE_NOT_FOUND'',
     ''SERVER_ID_MISMATCH'', ''PEER_IDENTITY_MISMATCH'', ''ENTRY_UNAVAILABLE'',
     ''OPERATION_HISTORY_EXPIRED'', ''TSNET_LOGIN_FAILED'', ''TSNET_IDENTITY_CHANGED'',
     ''TSNET_LOGIN_UNCERTAIN'', ''CONTROL_HELD'']"

text \<open>\<open>ERROR_CODES\<close>: kind \<open>i\<close> of the table has code \<open>1000 + i\<close>.\<close>

fun index_of :: "'a \<Rightarrow> 'a list \<Rightarrow> nat option" where
  "index_of x [] = None"
| "index_of x (y # ys) = (if x = y then Some 0 else map_option Suc (index_of x ys))"

definition ERROR_CODES :: "ident \<Rightarrow> number option" where
  "ERROR_CODES kind = map_option (\<lambda>i. 1000 + int i) (index_of kind DOMAIN_ERROR_KINDS)"

datatype acceptance = NotAccepted | Accepted | AcceptanceUnknown

datatype next_action =
    NoAction | Reauthenticate | Renegotiate | RefreshControl | NewSubscription | QueryOperation
  | InspectRun | RefreshResource | FixRequest

datatype error_subject = SubjectInput

type_synonym error_details = "run_ref list"

definition DomainErrorDetailsSchema :: "error_details \<Rightarrow> bool" where
  "DomainErrorDetailsSchema runs \<longleftrightarrow> list_all RunRefSchema runs \<and> 1 \<le> length runs \<and> length runs \<le> 128"

definition kindsWithDetails :: "ident list" where
  "kindsWithDetails = [''LIVE_RUNS_PRESENT'']"

record domain_error =
  de_kind :: ident
  de_code :: number
  de_message :: string
  de_acceptance :: acceptance
  de_nextAction :: next_action
  de_subject :: "error_subject option"
  de_details :: "error_details option"

definition DomainErrorFieldsSchema :: "domain_error \<Rightarrow> bool" where
  "DomainErrorFieldsSchema e \<longleftrightarrow>
     de_kind e \<in> set DOMAIN_ERROR_KINDS \<and>
     1000 \<le> de_code e \<and> de_code e \<le> 1000 + int (length DOMAIN_ERROR_KINDS) - 1 \<and>
     length (de_message e) \<le> 256 \<and>
     (case de_details e of None \<Rightarrow> True | Some d \<Rightarrow> DomainErrorDetailsSchema d)"

definition error_actions :: "(ident \<times> next_action) list" where
  "error_actions =
    [(''UNAUTHENTICATED'', Reauthenticate), (''FORBIDDEN'', NoAction),
     (''BOOTSTRAP_UNSUPPORTED'', Renegotiate), (''PROTOCOL_MISMATCH'', Renegotiate),
     (''INSTANCE_MISMATCH'', InspectRun), (''CAPABILITY_UNAVAILABLE'', Renegotiate),
     (''PROFILE_UNSUPPORTED'', Renegotiate), (''RUN_NOT_FOUND'', InspectRun),
     (''STALE_CONNECTION'', NewSubscription), (''STALE_CONTROL'', RefreshControl),
     (''INVALID_SIZE'', NoAction), (''RESYNC_REQUIRED'', NewSubscription),
     (''RECOVERY_EXPIRED'', NewSubscription), (''RECOVERY_UNAVAILABLE'', InspectRun),
     (''BUSY'', NoAction), (''OPERATION_ID_CONFLICT'', QueryOperation),
     (''OPERATION_NOT_FOUND'', QueryOperation), (''INPUT_REJECTED'', RefreshControl),
     (''RESULT_UNKNOWN'', QueryOperation), (''WORKER_UNAVAILABLE'', InspectRun),
     (''COUNTER_EXHAUSTED'', NewSubscription), (''INVALID_ARGUMENT'', FixRequest),
     (''REVISION_CONFLICT'', RefreshResource), (''REPO_NOT_FOUND'', RefreshResource),
     (''TASK_NOT_FOUND'', RefreshResource), (''MOUNT_NOT_FOUND'', RefreshResource),
     (''TAB_NOT_FOUND'', RefreshResource), (''NOT_A_GIT_REPOSITORY'', FixRequest),
     (''BARE_REPOSITORY'', FixRequest), (''REPO_ALREADY_REGISTERED'', RefreshResource),
     (''MANAGED_WORKTREE_NOT_MOUNTABLE'', FixRequest), (''MOUNT_NAME_CONFLICT'', FixRequest),
     (''TASK_ARCHIVED'', RefreshResource), (''BRANCH_EXISTS'', FixRequest),
     (''FETCH_FAILED'', FixRequest), (''MAIN_BRANCH_UNRESOLVED'', FixRequest),
     (''LIVE_RUNS_PRESENT'', InspectRun), (''OPERATION_NOT_RESUMABLE'', QueryOperation),
     (''OPERATION_EFFECTS_ACTIVE'', QueryOperation), (''GIT_UNAVAILABLE'', NoAction),
     (''REPO_IN_USE'', FixRequest), (''WORKSPACE_ENTRY_UNAVAILABLE'', NoAction),
     (''DEVICE_REVOKED'', Reauthenticate), (''INVITATION_UNAVAILABLE'', NoAction),
     (''INVITATION_NOT_FOUND'', RefreshResource), (''DEVICE_NOT_FOUND'', RefreshResource),
     (''SERVER_ID_MISMATCH'', NoAction), (''PEER_IDENTITY_MISMATCH'', NoAction),
     (''ENTRY_UNAVAILABLE'', NoAction), (''OPERATION_HISTORY_EXPIRED'', RefreshResource),
     (''TSNET_LOGIN_FAILED'', FixRequest), (''TSNET_IDENTITY_CHANGED'', NoAction),
     (''TSNET_LOGIN_UNCERTAIN'', NoAction), (''CONTROL_HELD'', RefreshControl)]"

definition kind_message :: "ident \<Rightarrow> string" where
  "kind_message kind = map (\<lambda>c. if c = CHR ''_'' then CHR '' '' else c) kind"

definition DomainErrorSchema :: "domain_error \<Rightarrow> bool" where
  "DomainErrorSchema e \<longleftrightarrow> DomainErrorFieldsSchema e \<and>
     Some (de_code e) = ERROR_CODES (de_kind e) \<and>
     de_message e = kind_message (de_kind e) \<and>
     (de_subject e = None \<or> (de_kind e = ''RESULT_UNKNOWN'' \<and> de_acceptance e = AcceptanceUnknown)) \<and>
     Some (de_nextAction e) =
       (if de_subject e = Some SubjectInput then Some InspectRun else map_of error_actions (de_kind e)) \<and>
     (de_details e = None \<or> de_kind e \<in> set kindsWithDetails)"

datatype domain_throw = InputSubjectRequiresUnknownResult | DetailsNotAllowed

definition domainError ::
  "ident \<Rightarrow> acceptance \<Rightarrow> error_subject option \<Rightarrow> error_details option \<Rightarrow> domain_throw + domain_error" where
  "domainError kind acceptance subject details =
     (if subject \<noteq> None \<and> (kind \<noteq> ''RESULT_UNKNOWN'' \<or> acceptance \<noteq> AcceptanceUnknown)
      then Inl InputSubjectRequiresUnknownResult
      else if (case details of None \<Rightarrow> False
               | Some d \<Rightarrow> kind \<notin> set kindsWithDetails \<or> \<not> DomainErrorDetailsSchema d)
      then Inl DetailsNotAllowed
      else Inr \<lparr>de_kind = kind, de_code = the (ERROR_CODES kind), de_message = kind_message kind,
                de_acceptance = acceptance,
                de_nextAction = (if subject = Some SubjectInput then InspectRun
                                 else the (map_of error_actions kind)),
                de_subject = subject, de_details = details\<rparr>)"

definition WS_CLOSE_protocol :: number where "WS_CLOSE_protocol = 1002"
definition WS_CLOSE_policy :: number where "WS_CLOSE_policy = 1008"
definition WS_CLOSE_size :: number where "WS_CLOSE_size = 1009"
definition WS_CLOSE_capacity :: number where "WS_CLOSE_capacity = 1013"

definition closeCodeForError :: "ident \<Rightarrow> number" where
  "closeCodeForError kind =
     (if kind = ''UNAUTHENTICATED'' \<or> kind = ''FORBIDDEN'' \<or> kind = ''DEVICE_REVOKED'' then WS_CLOSE_policy
      else if kind = ''BUSY'' \<or> kind = ''WORKER_UNAVAILABLE'' then WS_CLOSE_capacity
      else WS_CLOSE_protocol)"

subsection \<open>The tables\<close>

lemma index_of_Some: "index_of x xs = Some i \<Longrightarrow> i < length xs \<and> xs ! i = x"
  by (induction xs arbitrary: i) (auto split: if_splits)

lemma index_of_member: "x \<in> set xs \<Longrightarrow> \<exists>i. index_of x xs = Some i"
  by (induction xs) auto

lemma ERROR_CODES_member:
  assumes "kind \<in> set DOMAIN_ERROR_KINDS"
  obtains i where "ERROR_CODES kind = Some (1000 + int i)" and "i < length DOMAIN_ERROR_KINDS"
    and "DOMAIN_ERROR_KINDS ! i = kind"
  using index_of_member [OF assms] index_of_Some [of kind DOMAIN_ERROR_KINDS]
  by (auto simp: ERROR_CODES_def)

text \<open>The table of actions has the kinds of the table of kinds, in its order.\<close>

lemma error_actions_kinds: "map fst error_actions = DOMAIN_ERROR_KINDS"
  by (simp add: error_actions_def DOMAIN_ERROR_KINDS_def)

lemma error_actions_member: "kind \<in> set DOMAIN_ERROR_KINDS \<Longrightarrow> \<exists>a. map_of error_actions kind = Some a"
  using error_actions_kinds by (metis list.set_map map_of_eq_None_iff option.exhaust)

lemma kind_message_length: "kind \<in> set DOMAIN_ERROR_KINDS \<Longrightarrow> length (kind_message kind) \<le> 256"
proof -
  have "list_all (\<lambda>kind. length (kind_message kind) \<le> 256) DOMAIN_ERROR_KINDS" by code_simp
  then show "kind \<in> set DOMAIN_ERROR_KINDS \<Longrightarrow> ?thesis" by (auto simp: list_all_iff)
qed

subsection \<open>Properties\<close>

text \<open>C19. Errors on the wire are exactly the ones the constructor builds: the schema accepts an error if
  and only if its kind is in the table and \<open>domainError\<close>, applied to its kind, acceptance, subject and
  details, returns that very error; in particular code, message and next action are functions of the
  rest, and a constructed error always passes the schema.\<close>

theorem domain_error_canonical:
  "DomainErrorSchema e \<longleftrightarrow>
     de_kind e \<in> set DOMAIN_ERROR_KINDS \<and>
     domainError (de_kind e) (de_acceptance e) (de_subject e) (de_details e) = Inr e"
proof (cases "de_kind e \<in> set DOMAIN_ERROR_KINDS")
  case True
  obtain i where i: "ERROR_CODES (de_kind e) = Some (1000 + int i)" "i < length DOMAIN_ERROR_KINDS"
    using ERROR_CODES_member [OF True] by metis
  obtain a where a: "map_of error_actions (de_kind e) = Some a" using error_actions_member [OF True] by blast
  show ?thesis
    using True i a kind_message_length [OF True]
    by (cases e) (auto simp: DomainErrorSchema_def DomainErrorFieldsSchema_def domainError_def split: option.splits)
qed (simp add: DomainErrorSchema_def DomainErrorFieldsSchema_def)

end
