(* ===== verification/Json_Bounds.thy ===== *)
theory Json_Bounds
  imports Budgets
begin

text \<open>
  \<open>boundedJsonStructure\<close> of \<^verbatim>\<open>packages/protocol/src/terminal.ts\<close>: the depth-first walk that bounds
  untrusted metadata before any schema reads it. Values are JavaScript values; arrays and objects are
  cells of a heap, so that shared and cyclic structures are included. The walk is a \<open>while\<close> loop over
  an explicit stack (its last pushed element is the head of the list), with the set \<open>active\<close> of the
  objects being walked; it is a terminating function. It is compared with a recursive count of the
  nodes and keys of the unfolded value.
\<close>

datatype js_value =
    JNull | JBoolean bool | JNumber "number option" | JString string | JBigint number | JSymbol
  | JUndefined | JFunction | JRef nat

datatype js_object = JArray "js_value list" | JObject "(string \<times> js_value) list"

type_synonym js_heap = "nat \<Rightarrow> js_object"

record walk_item =
  wi_value :: js_value
  wi_depth :: nat
  wi_leave :: bool

definition item :: "js_value \<Rightarrow> nat \<Rightarrow> walk_item" where
  "item v d = \<lparr>wi_value = v, wi_depth = d, wi_leave = False\<rparr>"

lemma item_fields [simp]:
  "wi_value (item v d) = v" "wi_depth (item v d) = d" "\<not> wi_leave (item v d)"
  by (simp_all add: item_def)

text \<open>The loop over the entries of an object: \<^const>\<open>None\<close> is \<open>return false\<close>.\<close>

fun push_entries ::
  "(string \<times> js_value) list \<Rightarrow> nat \<Rightarrow> walk_item list \<Rightarrow> nat \<Rightarrow> (walk_item list \<times> nat) option" where
  "push_entries [] depth queue tokens = Some (queue, tokens)"
| "push_entries ((key, v) # entries) depth queue tokens =
     (if int (length key) > M0_LIMITS bootstrapBytes then None
      else if tokens + 1 > 4096 then None
      else push_entries entries depth (item v (depth + 1) # queue) (tokens + 1))"

fun refused_leaf :: "js_value \<Rightarrow> bool" where
  "refused_leaf (JNumber None) = True"
| "refused_leaf JUndefined = True"
| "refused_leaf JFunction = True"
| "refused_leaf _ = False"

lemma push_entries_tokens:
  "push_entries es d q t = Some (q', t') \<Longrightarrow> t \<le> t' \<and> (t \<le> 4096 \<longrightarrow> t' \<le> 4096)"
  by (induction es d q t rule: push_entries.induct) (auto split: if_splits)

function walk :: "js_heap \<Rightarrow> walk_item list \<Rightarrow> nat list \<Rightarrow> nat \<Rightarrow> bool" where
  "walk heap [] active tokens = True"
| "walk heap (it # queue) active tokens =
     (if wi_leave it then
        walk heap queue (case wi_value it of JRef a \<Rightarrow> removeAll a active | _ \<Rightarrow> active) tokens
      else if tokens + 1 > 4096 \<or> wi_depth it > 16 then False
      else case wi_value it of
        JRef a \<Rightarrow>
          if a \<in> set active then False
          else
            let queue' = it\<lparr>wi_leave := True\<rparr> # queue in
            (case heap a of
               JArray vs \<Rightarrow>
                 walk heap (rev (map (\<lambda>v. item v (wi_depth it + 1)) vs) @ queue') (a # active) (tokens + 1)
             | JObject entries \<Rightarrow>
                 (case push_entries entries (wi_depth it) queue' (tokens + 1) of
                    None \<Rightarrow> False
                  | Some (queue'', tokens') \<Rightarrow> walk heap queue'' (a # active) tokens'))
      | v \<Rightarrow> if refused_leaf v then False else walk heap queue active (tokens + 1))"
  by pat_completeness auto
termination
  by (relation "measures [\<lambda>(heap, queue, active, tokens). 4097 - tokens, \<lambda>(heap, queue, active, tokens). length queue]")
    (auto dest: push_entries_tokens)

declare walk.simps(2) [simp del]

definition boundedJsonStructure :: "js_heap \<Rightarrow> js_value \<Rightarrow> bool" where
  "boundedJsonStructure heap v = walk heap [item v 0] [] 0"

subsection \<open>Reference count\<close>

text \<open>
  Tokens of the value unfolded to at most \<open>n\<close> levels: one for every node and one for every key;
  \<^const>\<open>None\<close> when it is deeper, has a refused leaf or a key that is too long.
\<close>

fun sum_options :: "nat option list \<Rightarrow> nat option" where
  "sum_options [] = Some 0"
| "sum_options (x # xs) = (case (x, sum_options xs) of (Some a, Some b) \<Rightarrow> Some (a + b) | _ \<Rightarrow> None)"

fun json_tokens :: "js_heap \<Rightarrow> nat \<Rightarrow> js_value \<Rightarrow> nat option" where
  "json_tokens heap 0 v = None"
| "json_tokens heap (Suc n) (JRef a) = (case heap a of
     JArray vs \<Rightarrow> map_option Suc (sum_options (map (json_tokens heap n) vs))
   | JObject entries \<Rightarrow>
       if list_all (\<lambda>(key, v). int (length key) \<le> M0_LIMITS bootstrapBytes) entries
       then map_option (\<lambda>m. Suc (length entries + m))
         (sum_options (map (json_tokens heap n) (map snd entries)))
       else None)"
| "json_tokens heap (Suc n) v = (if refused_leaf v then None else Some 1)"

text \<open>The stack counts as the sum of its items that are still to be walked.\<close>

definition item_tokens :: "js_heap \<Rightarrow> walk_item \<Rightarrow> nat option" where
  "item_tokens heap it = (if wi_leave it then Some 0 else json_tokens heap (17 - wi_depth it) (wi_value it))"

definition within :: "nat \<Rightarrow> nat option \<Rightarrow> bool" where
  "within t s \<longleftrightarrow> (case s of None \<Rightarrow> False | Some n \<Rightarrow> t + n \<le> 4096)"

lemma sum_options_append:
  "sum_options (xs @ ys) = (case (sum_options xs, sum_options ys) of (Some a, Some b) \<Rightarrow> Some (a + b) | _ \<Rightarrow> None)"
  by (induction xs) (auto split: option.splits)

lemma sum_options_rev: "sum_options (rev xs) = sum_options xs"
  by (induction xs) (auto simp: sum_options_append split: option.splits)

lemma sum_options_member: "sum_options (map f vs) = Some n \<Longrightarrow> v \<in> set vs \<Longrightarrow> \<exists>m. f v = Some m"
  by (induction vs arbitrary: n) (auto split: option.splits)

text \<open>The cells reached from a cell in one step; a cyclic value has no count.\<close>

definition js_child :: "js_heap \<Rightarrow> (nat \<times> nat) set" where
  "js_child heap = {(a, b). case heap a of
     JArray vs \<Rightarrow> JRef b \<in> set vs | JObject entries \<Rightarrow> JRef b \<in> snd ` set entries}"

lemma json_tokens_child:
  "json_tokens heap n (JRef a) \<noteq> None \<Longrightarrow> (a, b) \<in> js_child heap \<Longrightarrow>
   0 < n \<and> json_tokens heap (n - 1) (JRef b) \<noteq> None"
  by (cases n)
    (auto simp: js_child_def image_iff split: js_object.splits if_splits dest!: sum_options_member)

lemma json_tokens_path:
  "(a, b) \<in> js_child heap ^^ k \<Longrightarrow> json_tokens heap n (JRef a) \<noteq> None \<Longrightarrow> k \<le> n"
proof (induction k arbitrary: a n)
  case (Suc k)
  obtain c where c: "(a, c) \<in> js_child heap" "(c, b) \<in> js_child heap ^^ k"
    using Suc.prems(1) by (meson relpow_Suc_D2)
  then have n: "0 < n" "json_tokens heap (n - 1) (JRef c) \<noteq> None"
    using json_tokens_child [OF Suc.prems(2)] by simp_all
  show ?case using Suc.IH [OF c(2) n(2)] n(1) by simp
qed simp

lemma json_tokens_cyclic:
  assumes "(a, a) \<in> (js_child heap)\<^sup>+"
  shows "json_tokens heap n (JRef a) = None"
proof (rule ccontr)
  assume some: "json_tokens heap n (JRef a) \<noteq> None"
  obtain k where k: "0 < k" "(a, a) \<in> js_child heap ^^ k" using assms by (meson trancl_power)
  have "(a, a) \<in> js_child heap ^^ (k * j)" for j
    by (induction j) (use k in \<open>auto simp: relpow_add intro: relcompI\<close>)
  then have "k * Suc n \<le> n" using json_tokens_path some by blast
  then show False using k(1) by (cases k) auto
qed

subsection \<open>The stack of the walk\<close>

definition leaves :: "walk_item list \<Rightarrow> nat set" where
  "leaves queue = {a. \<exists>it \<in> set queue. wi_leave it \<and> wi_value it = JRef a}"

text \<open>Everything above the leave mark of a cell was reached from that cell, and marks are distinct.\<close>

fun stack_ok :: "js_heap \<Rightarrow> walk_item list \<Rightarrow> bool" where
  "stack_ok heap [] \<longleftrightarrow> True"
| "stack_ok heap (it # queue) \<longleftrightarrow> stack_ok heap queue \<and>
     (wi_leave it \<longrightarrow> (\<exists>a. wi_value it = JRef a \<and> a \<notin> leaves queue)) \<and>
     (\<forall>a \<in> leaves queue. \<forall>b. wi_value it = JRef b \<longrightarrow> (a, b) \<in> (js_child heap)\<^sup>+)"

lemma leaves_simps [simp]:
  "leaves [] = {}"
  "leaves (it # q) = (if wi_leave it then {a. wi_value it = JRef a} else {}) \<union> leaves q"
  by (auto simp: leaves_def)

lemma leaves_items [simp]: "leaves (rev (map (\<lambda>v. item v d) vs) @ q) = leaves q"
  by (auto simp: leaves_def)

lemma stack_ok_children:
  assumes "stack_ok heap (it # q)" and "wi_value it = JRef a" and "a \<notin> leaves q"
    and "\<And>b. JRef b \<in> set vs \<Longrightarrow> (a, b) \<in> js_child heap"
  shows "stack_ok heap (rev (map (\<lambda>v. item v d) vs) @ it\<lparr>wi_leave := True\<rparr> # q)"
  using assms(4)
proof (induction vs rule: rev_induct)
  case Nil
  then show ?case using assms(1-3) by simp
next
  case (snoc v vs)
  have ih: "stack_ok heap (rev (map (\<lambda>v. item v d) vs) @ it\<lparr>wi_leave := True\<rparr> # q)"
    using snoc by simp
  have "(c, b) \<in> (js_child heap)\<^sup>+" if "c \<in> insert a (leaves q)" "v = JRef b" for b c
  proof -
    have ab: "(a, b) \<in> js_child heap" using snoc.prems that(2) by simp
    show ?thesis using that(1) ab assms(1,2) by (auto intro: trancl_into_trancl)
  qed
  then show ?case using ih assms(2) by auto
qed

lemma push_entries_spec:
  "t \<le> 4096 \<Longrightarrow> push_entries es d q t =
     (if list_all (\<lambda>(key, v). int (length key) \<le> M0_LIMITS bootstrapBytes) es \<and> t + length es \<le> 4096
      then Some (rev (map (\<lambda>v. item v (d + 1)) (map snd es)) @ q, t + length es) else None)"
  by (induction es d q t rule: push_entries.induct) (auto split: if_splits)

lemma json_tokens_pos: "json_tokens heap n v = Some m \<Longrightarrow> 1 \<le> m"
  by (induction heap n v rule: json_tokens.induct) (auto split: js_object.splits if_splits)

lemma within_items:
  "within t (sum_options (map (item_tokens heap) (rev (map (\<lambda>v. item v (Suc d)) vs) @ mark # q))) \<longleftrightarrow>
   within t (case (sum_options (map (json_tokens heap (16 - d)) vs), sum_options (map (item_tokens heap) q)) of
     (Some a, Some b) \<Rightarrow> Some (a + b) | _ \<Rightarrow> None)"
  if "wi_leave mark"
proof -
  have "map (item_tokens heap) (map (\<lambda>v. item v (Suc d)) vs) = map (json_tokens heap (16 - d)) vs"
    by (simp add: item_tokens_def)
  then have "sum_options (map (item_tokens heap) (rev (map (\<lambda>v. item v (Suc d)) vs))) =
      sum_options (map (json_tokens heap (16 - d)) vs)"
    by (metis rev_map sum_options_rev)
  then show ?thesis using that
    by (simp add: sum_options_append item_tokens_def split: option.splits)
qed

lemma item_tokens_ref:
  assumes "\<not> wi_leave it" "wi_value it = JRef a" "wi_depth it \<le> 16"
  shows "item_tokens heap it = (case heap a of
     JArray vs \<Rightarrow> map_option Suc (sum_options (map (json_tokens heap (16 - wi_depth it)) vs))
   | JObject es \<Rightarrow>
       if list_all (\<lambda>(key, v). int (length key) \<le> M0_LIMITS bootstrapBytes) es
       then map_option (\<lambda>m. Suc (length es + m)) (sum_options (map (json_tokens heap (16 - wi_depth it)) (map snd es)))
       else None)"
proof -
  have "17 - wi_depth it = Suc (16 - wi_depth it)" using assms(3) by simp
  then show ?thesis using assms(1,2) by (simp only: item_tokens_def if_False json_tokens.simps)
qed

lemma walk_array:
  assumes ok: "stack_ok heap (it # q)" and it: "\<not> wi_leave it" "wi_value it = JRef a" "wi_depth it \<le> 16"
    and t: "t + 1 \<le> 4096" and act: "set act = leaves q" "a \<notin> leaves q" and arr: "heap a = JArray vs"
    and IH: "\<And>q' act'. stack_ok heap q' \<Longrightarrow> set act' = leaves q' \<Longrightarrow>
      walk heap q' act' (t + 1) \<longleftrightarrow> within (t + 1) (sum_options (map (item_tokens heap) q'))"
  shows "walk heap (it # q) act t \<longleftrightarrow> within t (sum_options (map (item_tokens heap) (it # q)))"
proof -
  let ?q = "rev (map (\<lambda>v. item v (Suc (wi_depth it))) vs) @ it\<lparr>wi_leave := True\<rparr> # q"
  have "walk heap (it # q) act t = walk heap ?q (a # act) (t + 1)"
    using it t act arr by (subst walk.simps) (simp add: Let_def)
  also have "\<dots> \<longleftrightarrow> within (t + 1) (sum_options (map (item_tokens heap) ?q))"
  proof (rule IH)
    show "stack_ok heap ?q" by (rule stack_ok_children [OF ok it(2) act(2)]) (simp add: js_child_def arr)
  qed (use it act in auto)
  finally show ?thesis
    using within_items [of "it\<lparr>wi_leave := True\<rparr>" "t + 1" heap "wi_depth it" vs q] item_tokens_ref [OF it, of heap] arr
    by (simp add: within_def split: option.splits)
qed

lemma walk_object:
  assumes ok: "stack_ok heap (it # q)" and it: "\<not> wi_leave it" "wi_value it = JRef a" "wi_depth it \<le> 16"
    and t: "t + 1 \<le> 4096" and act: "set act = leaves q" "a \<notin> leaves q" and obj: "heap a = JObject es"
    and IH: "\<And>q' act' t'. t < t' \<Longrightarrow> t' \<le> 4096 \<Longrightarrow> stack_ok heap q' \<Longrightarrow> set act' = leaves q' \<Longrightarrow>
      walk heap q' act' t' \<longleftrightarrow> within t' (sum_options (map (item_tokens heap) q'))"
  shows "walk heap (it # q) act t \<longleftrightarrow> within t (sum_options (map (item_tokens heap) (it # q)))"
proof -
  let ?keys = "list_all (\<lambda>(key, v). int (length key) \<le> M0_LIMITS bootstrapBytes) es"
  let ?q = "rev (map (\<lambda>v. item v (Suc (wi_depth it))) (map snd es)) @ it\<lparr>wi_leave := True\<rparr> # q"
  have step: "walk heap (it # q) act t =
      (case push_entries es (wi_depth it) (it\<lparr>wi_leave := True\<rparr> # q) (t + 1) of
         None \<Rightarrow> False | Some (q', t') \<Rightarrow> walk heap q' (a # act) t')"
    using it t act obj by (subst walk.simps) (simp add: Let_def)
  have push: "push_entries es (wi_depth it) (it\<lparr>wi_leave := True\<rparr> # q) (t + 1) =
      (if ?keys \<and> t + 1 + length es \<le> 4096 then Some (?q, t + 1 + length es) else None)"
    unfolding push_entries_spec [OF t] Suc_eq_plus1 ..
  define A where "A = sum_options (map (json_tokens heap (16 - wi_depth it)) (map snd es))"
  define B where "B = sum_options (map (item_tokens heap) q)"
  note tok = item_tokens_ref [OF it, of heap, unfolded obj js_object.case, folded A_def]
  show ?thesis
  proof (cases "?keys \<and> t + 1 + length es \<le> 4096")
    case True
    have "walk heap (it # q) act t \<longleftrightarrow> walk heap ?q (a # act) (t + 1 + length es)"
      unfolding step push if_P [OF True] option.case prod.case ..
    also have "\<dots> \<longleftrightarrow> within (t + 1 + length es) (sum_options (map (item_tokens heap) ?q))"
    proof (rule IH)
      show "stack_ok heap ?q" by (rule stack_ok_children [OF ok it(2) act(2)]) (auto simp: js_child_def obj)
      show "set (a # act) = leaves ?q" unfolding leaves_items using it act by simp
    qed (use True in simp_all)
    also have "\<dots> \<longleftrightarrow> within (t + 1 + length es) (case (A, B) of (Some a, Some b) \<Rightarrow> Some (a + b) | _ \<Rightarrow> None)"
      unfolding A_def B_def by (rule within_items) simp
    finally have "walk heap (it # q) act t \<longleftrightarrow>
        within (t + 1 + length es) (case (A, B) of (Some a, Some b) \<Rightarrow> Some (a + b) | _ \<Rightarrow> None)" .
    then show ?thesis using True by (cases A; cases B) (auto simp: tok within_def B_def [symmetric])
  next
    case False
    then show ?thesis unfolding step push
      by (cases A; cases B) (auto simp: tok within_def B_def [symmetric])
  qed
qed

lemma walk_ref:
  assumes ok: "stack_ok heap (it # q)" and it: "\<not> wi_leave it" "wi_value it = JRef a" "wi_depth it \<le> 16"
    and t: "t + 1 \<le> 4096" and act: "set act = leaves q"
    and IH: "\<And>q' act' t'. t < t' \<Longrightarrow> t' \<le> 4096 \<Longrightarrow> stack_ok heap q' \<Longrightarrow> set act' = leaves q' \<Longrightarrow>
      walk heap q' act' t' \<longleftrightarrow> within t' (sum_options (map (item_tokens heap) q'))"
  shows "walk heap (it # q) act t \<longleftrightarrow> within t (sum_options (map (item_tokens heap) (it # q)))"
proof (cases "a \<in> leaves q")
  case True
  then have "(a, a) \<in> (js_child heap)\<^sup>+" using ok it by auto
  then show ?thesis using True it act t json_tokens_cyclic
    by (simp add: walk.simps(2) item_tokens_def within_def)
next
  case new: False
  show ?thesis
  proof (cases "heap a")
    case (JArray vs)
    show ?thesis by (rule walk_array [OF ok it t act new JArray]) (rule IH, use t in simp_all)
  next
    case (JObject es)
    show ?thesis by (rule walk_object [OF ok it t act new JObject]) (rule IH)
  qed
qed

lemma walk_leaf:
  assumes it: "\<not> wi_leave it" "\<nexists>a. wi_value it = JRef a" "wi_depth it \<le> 16" and t: "t + 1 \<le> 4096"
    and IH: "walk heap q act (t + 1) \<longleftrightarrow> within (t + 1) (sum_options (map (item_tokens heap) q))"
  shows "walk heap (it # q) act t \<longleftrightarrow> within t (sum_options (map (item_tokens heap) (it # q)))"
proof -
  have "17 - wi_depth it = Suc (16 - wi_depth it)" using it(3) by simp
  then have "item_tokens heap it = (if refused_leaf (wi_value it) then None else Some 1)"
    using it by (cases "wi_value it") (simp_all add: item_tokens_def)
  moreover have "walk heap (it # q) act t \<longleftrightarrow> \<not> refused_leaf (wi_value it) \<and> walk heap q act (t + 1)"
    using it t by (cases "wi_value it") (auto simp: walk.simps(2))
  ultimately show ?thesis using IH by (simp add: within_def split: option.splits)
qed

lemma walk_spec:
  "t \<le> 4096 \<Longrightarrow> stack_ok heap q \<Longrightarrow> set act = leaves q \<Longrightarrow>
   walk heap q act t \<longleftrightarrow> within t (sum_options (map (item_tokens heap) q))"
proof (induction "4096 - t" arbitrary: t q act rule: less_induct)
  case less
  have IH: "walk heap q' act' t' \<longleftrightarrow> within t' (sum_options (map (item_tokens heap) q'))"
    if "t < t'" "t' \<le> 4096" "stack_ok heap q'" "set act' = leaves q'" for q' act' t'
    using that less.hyps [of t' q' act'] by simp
  show ?case using less.prems
  proof (induction q arbitrary: act)
    case Nil
    then show ?case by (simp add: within_def)
  next
    case (Cons it q)
    consider (leave) "wi_leave it" | (over) "\<not> wi_leave it" "t + 1 > 4096 \<or> wi_depth it > 16"
      | (visit) "\<not> wi_leave it" "t + 1 \<le> 4096" "wi_depth it \<le> 16" by linarith
    then show ?case
    proof cases
      case leave
      then obtain a where a: "wi_value it = JRef a" "a \<notin> leaves q" using Cons.prems(2) by auto
      then have "set (removeAll a act) = leaves q" using Cons.prems(3) leave by auto
      then show ?thesis using Cons.IH [of "removeAll a act"] Cons.prems leave a
        by (simp add: walk.simps(2) item_tokens_def within_def split: option.splits)
    next
      case over
      then show ?thesis using json_tokens_pos [of heap "17 - wi_depth it" "wi_value it"]
        by (auto simp: walk.simps(2) within_def item_tokens_def split: option.splits)
    next
      case visit
      have act: "set act = leaves q" "stack_ok heap q" using Cons.prems(2,3) visit(1) by simp_all
      show ?thesis
      proof (cases "\<exists>a. wi_value it = JRef a")
        case True
        then show ?thesis using walk_ref [OF Cons.prems(2) visit(1) _ visit(3,2) act(1)] IH by blast
      next
        case False
        then show ?thesis using walk_leaf [OF visit(1) False visit(3,2)] IH visit(2) act by simp
      qed
    qed
  qed
qed

text \<open>C8. The bound on untrusted metadata: the walk always ends, also on shared and cyclic structures, and
  accepts a value exactly when its unfolding is at most 16 levels deep below the root, has at most 4096
  nodes and keys, no key over the key bound and no number that is not finite, undefined or function.\<close>

theorem bounded_json_structure_exact:
  "boundedJsonStructure heap v \<longleftrightarrow> (\<exists>n. json_tokens heap 17 v = Some n \<and> n \<le> 4096)"
  using walk_spec [of 0 heap "[item v 0]" "[]"]
  by (auto simp: boundedJsonStructure_def within_def item_tokens_def split: option.splits)

end
