(* ===== verification/Terminal_Protocol.thy ===== *)
theory Terminal_Protocol
  imports Terminal_Recovery Domain_Errors Json_Bounds
begin

text \<open>
  The terminal lane: run events and their delivery (\<^verbatim>\<open>packages/protocol/src/terminal-events.ts\<close>),
  commands, results and errors (\<^verbatim>\<open>terminal-command.ts\<close>) and the validation of frames
  (\<^verbatim>\<open>terminal.ts\<close>). The discriminated unions are datatypes; the constraints of their schemas are the
  predicates \<open>\<dots>Schema\<close>. Decoding the JSON text of the metadata and giving it one of these shapes is done
  by \<open>JSON.parse\<close> and by zod: it is the parameter \<open>zod\<close> of \<open>validateTerminalFrame\<close>, which applies the
  schemas' constraints to what it returns.
\<close>

subsection \<open>Events\<close>

datatype run_event =
    RevOutput (re_run: run_ref) (re_seq: number)
  | RevResize (re_run: run_ref) (re_seq: number) (re_geometry: geometry) (re_requiresBaseline: bool)
  | RevControl (re_run: run_ref) (re_seq: number) (re_epoch: number) (re_holder: "control_holder option") (re_geometry: geometry)
  | RevAppearance (re_run: run_ref) (re_seq: number) (re_appearance: appearance)
  | RevExit (re_run: run_ref) (re_seq: number) (re_exitCode: "number option") (re_signal: "string option")

fun RunEventSchema :: "run_event \<Rightarrow> bool" where
  "RunEventSchema (RevOutput run seq) \<longleftrightarrow> RunRefSchema run \<and> SequenceSchema seq \<and> 1 \<le> seq"
| "RunEventSchema (RevResize run seq geometry requiresBaseline) \<longleftrightarrow>
     RunRefSchema run \<and> SequenceSchema seq \<and> 1 \<le> seq \<and> GeometrySchema geometry"
| "RunEventSchema (RevControl run seq epoch holder geometry) \<longleftrightarrow>
     RunRefSchema run \<and> SequenceSchema seq \<and> 1 \<le> seq \<and> SequenceSchema epoch \<and> 1 \<le> epoch \<and>
     optional ControlHolderSchema holder \<and> GeometrySchema geometry"
| "RunEventSchema (RevAppearance run seq appearance) \<longleftrightarrow>
     RunRefSchema run \<and> SequenceSchema seq \<and> 1 \<le> seq \<and> AppearanceSchema appearance"
| "RunEventSchema (RevExit run seq exitCode signal) \<longleftrightarrow>
     RunRefSchema run \<and> SequenceSchema seq \<and> 1 \<le> seq \<and> optional (\<lambda>s. length s \<le> 64) signal"

record preview_start =
  ps_run :: run_ref
  ps_previewId :: ident
  ps_version :: number
  ps_atSeq :: number
  ps_geometry :: geometry
  ps_generatedAtMs :: number
  ps_vtBytes :: number
  ps_chunkCount :: number

record preview_chunk =
  pk_run :: run_ref
  pk_previewId :: ident
  pk_version :: number
  pk_ordinal :: number

record preview_end =
  pn_run :: run_ref
  pn_previewId :: ident
  pn_version :: number
  pn_totalBytes :: number
  pn_atSeq :: number

definition PreviewStartEventSchema :: "preview_start \<Rightarrow> bool" where
  "PreviewStartEventSchema p \<longleftrightarrow> RunRefSchema (ps_run p) \<and> OpaqueIdSchema (ps_previewId p) \<and>
     SequenceSchema (ps_version p) \<and> SequenceSchema (ps_atSeq p) \<and> GeometrySchema (ps_geometry p) \<and>
     SequenceSchema (ps_generatedAtMs p) \<and> int_in 1 65536 (ps_vtBytes p) \<and> int_in 1 1 (ps_chunkCount p)"

definition PreviewChunkEventSchema :: "preview_chunk \<Rightarrow> bool" where
  "PreviewChunkEventSchema p \<longleftrightarrow> RunRefSchema (pk_run p) \<and> OpaqueIdSchema (pk_previewId p) \<and>
     SequenceSchema (pk_version p) \<and> pk_ordinal p = 0"

definition PreviewEndEventSchema :: "preview_end \<Rightarrow> bool" where
  "PreviewEndEventSchema p \<longleftrightarrow> RunRefSchema (pn_run p) \<and> OpaqueIdSchema (pn_previewId p) \<and>
     SequenceSchema (pn_version p) \<and> int_in 1 65536 (pn_totalBytes p) \<and> SequenceSchema (pn_atSeq p)"

datatype health_reason = EventLoopDelay | HeartbeatGap | CommandAge
datatype health_state = HealthNormal | HealthOverloaded

definition WORKER_HEALTH_REASONS :: "health_reason list" where
  "WORKER_HEALTH_REASONS = [EventLoopDelay, HeartbeatGap, CommandAge]"

record worker_health =
  wh_state :: health_state
  wh_reasons :: "health_reason list"

definition WorkerHealthSchema :: "worker_health \<Rightarrow> bool" where
  "WorkerHealthSchema h \<longleftrightarrow> length (wh_reasons h) \<le> length WORKER_HEALTH_REASONS \<and>
     ((wh_state h = HealthOverloaded) = (0 < length (wh_reasons h))) \<and>
     length (remdups (wh_reasons h)) = length (wh_reasons h)"

datatype terminal_event =
    TeRun run_event
  | TeBaselineStart run_ref baseline_descriptor
  | TeBaselineChunk baseline_chunk
  | TeBaselineEnd baseline_end
  | TePreviewStart preview_start
  | TePreviewChunk preview_chunk
  | TePreviewEnd preview_end

fun te_run :: "terminal_event \<Rightarrow> run_ref" where
  "te_run (TeRun e) = re_run e"
| "te_run (TeBaselineStart run d) = run"
| "te_run (TeBaselineChunk c) = bk_run c"
| "te_run (TeBaselineEnd e) = be_run e"
| "te_run (TePreviewStart p) = ps_run p"
| "te_run (TePreviewChunk p) = pk_run p"
| "te_run (TePreviewEnd p) = pn_run p"

fun TerminalEventSchema :: "terminal_event \<Rightarrow> bool" where
  "TerminalEventSchema (TeRun e) \<longleftrightarrow> RunEventSchema e"
| "TerminalEventSchema (TeBaselineStart run d) \<longleftrightarrow> RunRefSchema run \<and> BaselineDescriptorSchema d"
| "TerminalEventSchema (TeBaselineChunk c) \<longleftrightarrow> BaselineChunkSchema c"
| "TerminalEventSchema (TeBaselineEnd e) \<longleftrightarrow> BaselineEndSchema e"
| "TerminalEventSchema (TePreviewStart p) \<longleftrightarrow> PreviewStartEventSchema p"
| "TerminalEventSchema (TePreviewChunk p) \<longleftrightarrow> PreviewChunkEventSchema p"
| "TerminalEventSchema (TePreviewEnd p) \<longleftrightarrow> PreviewEndEventSchema p"

text \<open>The external lane: a run event travels with its subscription, the rest of the events as they are.\<close>

datatype external_event =
    XRunEvent subscription_ref run_event
  | XBaselineStart run_ref baseline_descriptor
  | XBaselineChunk baseline_chunk
  | XBaselineEnd baseline_end
  | XPreviewStart preview_start
  | XPreviewChunk preview_chunk
  | XPreviewEnd preview_end
  | XWorkerHealth run_ref subscription_ref worker_health

fun ExternalTerminalEventSchema :: "external_event \<Rightarrow> bool" where
  "ExternalTerminalEventSchema (XRunEvent s e) \<longleftrightarrow> SubscriptionRefSchema s \<and> RunEventSchema e"
| "ExternalTerminalEventSchema (XBaselineStart run d) \<longleftrightarrow> RunRefSchema run \<and> BaselineDescriptorSchema d"
| "ExternalTerminalEventSchema (XBaselineChunk c) \<longleftrightarrow> BaselineChunkSchema c"
| "ExternalTerminalEventSchema (XBaselineEnd e) \<longleftrightarrow> BaselineEndSchema e"
| "ExternalTerminalEventSchema (XPreviewStart p) \<longleftrightarrow> PreviewStartEventSchema p"
| "ExternalTerminalEventSchema (XPreviewChunk p) \<longleftrightarrow> PreviewChunkEventSchema p"
| "ExternalTerminalEventSchema (XPreviewEnd p) \<longleftrightarrow> PreviewEndEventSchema p"
| "ExternalTerminalEventSchema (XWorkerHealth run s h) \<longleftrightarrow>
     RunRefSchema run \<and> SubscriptionRefSchema s \<and> WorkerHealthSchema h"

fun validateEventBinding :: "terminal_event \<Rightarrow> bool" where
  "validateEventBinding (TeBaselineStart run d) \<longleftrightarrow>
     sameRunRef run (bd_run d) \<and> sameRunRef run (sr_run (bd_subscription d))"
| "validateEventBinding (TeBaselineChunk c) \<longleftrightarrow> sameRunRef (bk_run c) (sr_run (bk_subscription c))"
| "validateEventBinding (TeBaselineEnd e) \<longleftrightarrow> sameRunRef (be_run e) (sr_run (be_subscription e))"
| "validateEventBinding _ \<longleftrightarrow> True"

definition on_connection :: "connection_ref option \<Rightarrow> subscription_ref \<Rightarrow> bool" where
  "on_connection connection s \<longleftrightarrow>
     (case connection of None \<Rightarrow> True | Some c \<Rightarrow> sameConnectionRef (sr_connection s) c)"

fun validateExternalEventBinding :: "external_event \<Rightarrow> connection_ref option \<Rightarrow> bool" where
  "validateExternalEventBinding (XRunEvent s e) connection \<longleftrightarrow>
     sameRunRef (sr_run s) (re_run e) \<and> on_connection connection s"
| "validateExternalEventBinding (XWorkerHealth run s h) connection \<longleftrightarrow>
     sameRunRef (sr_run s) run \<and> on_connection connection s"
| "validateExternalEventBinding (XBaselineStart run d) connection \<longleftrightarrow>
     validateEventBinding (TeBaselineStart run d) \<and> on_connection connection (bd_subscription d)"
| "validateExternalEventBinding (XBaselineChunk c) connection \<longleftrightarrow>
     validateEventBinding (TeBaselineChunk c) \<and> on_connection connection (bk_subscription c)"
| "validateExternalEventBinding (XBaselineEnd e) connection \<longleftrightarrow>
     validateEventBinding (TeBaselineEnd e) \<and> on_connection connection (be_subscription e)"
| "validateExternalEventBinding (XPreviewStart p) connection \<longleftrightarrow> validateEventBinding (TePreviewStart p)"
| "validateExternalEventBinding (XPreviewChunk p) connection \<longleftrightarrow> validateEventBinding (TePreviewChunk p)"
| "validateExternalEventBinding (XPreviewEnd p) connection \<longleftrightarrow> validateEventBinding (TePreviewEnd p)"

fun externalEventSubscription :: "external_event \<Rightarrow> subscription_ref option" where
  "externalEventSubscription (XRunEvent s e) = Some s"
| "externalEventSubscription (XWorkerHealth run s h) = Some s"
| "externalEventSubscription (XBaselineStart run d) = Some (bd_subscription d)"
| "externalEventSubscription (XBaselineChunk c) = Some (bk_subscription c)"
| "externalEventSubscription (XBaselineEnd e) = Some (be_subscription e)"
| "externalEventSubscription _ = None"

fun contiguous_loop :: "number \<Rightarrow> run_event list \<Rightarrow> bool" where
  "contiguous_loop expected [] \<longleftrightarrow> True"
| "contiguous_loop expected (event # events) \<longleftrightarrow>
     (if expected = MAX_SAFE_INTEGER \<or> re_seq event \<noteq> expected + 1 then False
      else contiguous_loop (re_seq event) events)"

definition validateContiguousEvents :: "run_event list \<Rightarrow> number \<Rightarrow> bool" where
  "validateContiguousEvents events previousSeq \<longleftrightarrow>
     (if \<not> SequenceSchema previousSeq then False else contiguous_loop previousSeq events)"

subsection \<open>Commands, results and errors\<close>

record resume =
  rs_appliedSeq :: number
  rs_profile :: string
  rs_encoding :: string
  rs_geometry :: geometry

definition ResumeSchema :: "resume \<Rightarrow> bool" where
  "ResumeSchema r \<longleftrightarrow> SequenceSchema (rs_appliedSeq r) \<and> ProfileSchema (rs_profile r) \<and>
     BaselineEncodingSchema (rs_encoding r) \<and> GeometrySchema (rs_geometry r)"

datatype recover_reason = ReasonGap | ReasonReleasedView | ReasonResizeContext | ReasonExpired

datatype command_body =
    CAttach connection_ref ident string string "resume option"
  | CDetach subscription_ref
  | CRecover subscription_ref recover_reason "resume option"
  | CFocus subscription_ref number geometry "appearance option"
  | CBlur subscription_ref number
  | CResize subscription_ref number geometry
  | CAppearance subscription_ref number appearance
  | CInput subscription_ref number number
  | CAppliedAck subscription_ref number
  | CBaselineProgress subscription_ref ident number
  | CPreview "number option"

record terminal_command =
  tc_requestId :: ident
  tc_run :: run_ref
  tc_body :: command_body

definition epoch_ok :: "number \<Rightarrow> bool" where
  "epoch_ok n \<longleftrightarrow> SequenceSchema n \<and> 1 \<le> n"

fun command_body_ok :: "command_body \<Rightarrow> bool" where
  "command_body_ok (CAttach connection viewId profile encoding resume) \<longleftrightarrow> ConnectionRefSchema connection \<and>
     OpaqueIdSchema viewId \<and> ProfileSchema profile \<and> BaselineEncodingSchema encoding \<and> optional ResumeSchema resume"
| "command_body_ok (CDetach s) \<longleftrightarrow> SubscriptionRefSchema s"
| "command_body_ok (CRecover s reason resume) \<longleftrightarrow> SubscriptionRefSchema s \<and> optional ResumeSchema resume"
| "command_body_ok (CFocus s focusSeq geometry appearance) \<longleftrightarrow> SubscriptionRefSchema s \<and> epoch_ok focusSeq \<and>
     GeometrySchema geometry \<and> optional AppearanceSchema appearance"
| "command_body_ok (CBlur s epoch) \<longleftrightarrow> SubscriptionRefSchema s \<and> epoch_ok epoch"
| "command_body_ok (CResize s epoch geometry) \<longleftrightarrow> SubscriptionRefSchema s \<and> epoch_ok epoch \<and> GeometrySchema geometry"
| "command_body_ok (CAppearance s epoch appearance) \<longleftrightarrow>
     SubscriptionRefSchema s \<and> epoch_ok epoch \<and> AppearanceSchema appearance"
| "command_body_ok (CInput s epoch inputSeq) \<longleftrightarrow> SubscriptionRefSchema s \<and> epoch_ok epoch \<and> epoch_ok inputSeq"
| "command_body_ok (CAppliedAck s appliedSeq) \<longleftrightarrow> SubscriptionRefSchema s \<and> SequenceSchema appliedSeq"
| "command_body_ok (CBaselineProgress s baselineId lastParsedOrdinal) \<longleftrightarrow>
     SubscriptionRefSchema s \<and> OpaqueIdSchema baselineId \<and> int_in 0 128 lastParsedOrdinal"
| "command_body_ok (CPreview knownVersion) \<longleftrightarrow> optional SequenceSchema knownVersion"

definition TerminalCommandSchema :: "terminal_command \<Rightarrow> bool" where
  "TerminalCommandSchema c \<longleftrightarrow>
     OpaqueIdSchema (tc_requestId c) \<and> RunRefSchema (tc_run c) \<and> command_body_ok (tc_body c)"

datatype recovery_mode = ModeReplay | ModeBaseline
datatype preview_status = PreviewUnchanged | PreviewTransfer

datatype result_body =
    RAttach subscription_ref recovery_mode number
  | RDetach subscription_ref
  | RRecover subscription_ref recovery_mode number
  | RFocus subscription_ref number number
  | RBlur subscription_ref number number
  | RResize subscription_ref number number
  | RAppearance subscription_ref number number
  | RInput subscription_ref number number number
  | RAppliedAck subscription_ref number
  | RBaselineProgress subscription_ref ident number
  | RPreview preview_status number "ident option"

record terminal_result =
  tr_requestId :: ident
  tr_run :: run_ref
  tr_body :: result_body

fun result_body_ok :: "result_body \<Rightarrow> bool" where
  "result_body_ok (RAttach s mode atSeq) \<longleftrightarrow> SubscriptionRefSchema s \<and> SequenceSchema atSeq"
| "result_body_ok (RDetach s) \<longleftrightarrow> SubscriptionRefSchema s"
| "result_body_ok (RRecover s mode atSeq) \<longleftrightarrow> SubscriptionRefSchema s \<and> SequenceSchema atSeq"
| "result_body_ok (RFocus s epoch atSeq) \<longleftrightarrow> SubscriptionRefSchema s \<and> epoch_ok epoch \<and> SequenceSchema atSeq"
| "result_body_ok (RBlur s epoch atSeq) \<longleftrightarrow> SubscriptionRefSchema s \<and> epoch_ok epoch \<and> SequenceSchema atSeq"
| "result_body_ok (RResize s epoch atSeq) \<longleftrightarrow> SubscriptionRefSchema s \<and> epoch_ok epoch \<and> SequenceSchema atSeq"
| "result_body_ok (RAppearance s epoch atSeq) \<longleftrightarrow> SubscriptionRefSchema s \<and> epoch_ok epoch \<and> SequenceSchema atSeq"
| "result_body_ok (RInput s epoch inputSeq writtenBytes) \<longleftrightarrow>
     SubscriptionRefSchema s \<and> epoch_ok epoch \<and> epoch_ok inputSeq \<and> int_in 1 65536 writtenBytes"
| "result_body_ok (RAppliedAck s appliedSeq) \<longleftrightarrow> SubscriptionRefSchema s \<and> SequenceSchema appliedSeq"
| "result_body_ok (RBaselineProgress s baselineId lastParsedOrdinal) \<longleftrightarrow>
     SubscriptionRefSchema s \<and> OpaqueIdSchema baselineId \<and> int_in 0 128 lastParsedOrdinal"
| "result_body_ok (RPreview status version previewId) \<longleftrightarrow> SequenceSchema version \<and> optional OpaqueIdSchema previewId"

definition TerminalResultSchema :: "terminal_result \<Rightarrow> bool" where
  "TerminalResultSchema r \<longleftrightarrow>
     OpaqueIdSchema (tr_requestId r) \<and> RunRefSchema (tr_run r) \<and> result_body_ok (tr_body r)"

datatype command_type =
    TAttach | TDetach | TRecover | TFocus | TBlur | TResize | TAppearance | TInput | TAppliedAck
  | TBaselineProgress | TPreview

fun command_type_of :: "command_body \<Rightarrow> command_type" where
  "command_type_of (CAttach _ _ _ _ _) = TAttach"
| "command_type_of (CDetach _) = TDetach"
| "command_type_of (CRecover _ _ _) = TRecover"
| "command_type_of (CFocus _ _ _ _) = TFocus"
| "command_type_of (CBlur _ _) = TBlur"
| "command_type_of (CResize _ _ _) = TResize"
| "command_type_of (CAppearance _ _ _) = TAppearance"
| "command_type_of (CInput _ _ _) = TInput"
| "command_type_of (CAppliedAck _ _) = TAppliedAck"
| "command_type_of (CBaselineProgress _ _ _) = TBaselineProgress"
| "command_type_of (CPreview _) = TPreview"

text \<open>The command type a result's type names: its prefix before \<open>-result\<close>.\<close>

fun result_type_of :: "result_body \<Rightarrow> command_type" where
  "result_type_of (RAttach _ _ _) = TAttach"
| "result_type_of (RDetach _) = TDetach"
| "result_type_of (RRecover _ _ _) = TRecover"
| "result_type_of (RFocus _ _ _) = TFocus"
| "result_type_of (RBlur _ _ _) = TBlur"
| "result_type_of (RResize _ _ _) = TResize"
| "result_type_of (RAppearance _ _ _) = TAppearance"
| "result_type_of (RInput _ _ _ _) = TInput"
| "result_type_of (RAppliedAck _ _) = TAppliedAck"
| "result_type_of (RBaselineProgress _ _ _) = TBaselineProgress"
| "result_type_of (RPreview _ _ _) = TPreview"

record terminal_error =
  tx_requestId :: ident
  tx_run :: run_ref
  tx_commandType :: command_type
  tx_error :: domain_error

definition TerminalErrorSchema :: "terminal_error \<Rightarrow> bool" where
  "TerminalErrorSchema e \<longleftrightarrow>
     OpaqueIdSchema (tx_requestId e) \<and> RunRefSchema (tx_run e) \<and> DomainErrorSchema (tx_error e)"

end
