(* ===== verification/Frame_Stream.thy ===== *)
theory Frame_Stream
  imports Frame_Codec
begin

text \<open>
  Correctness of the frame decoder of \<open>Frame_Codec\<close> against a reference parser. \<open>parse_stream\<close> reads
  a whole byte string frame by frame; the decoder sees the same bytes in arbitrary slices, under the
  budgets of \<open>read\<close>, with the partial frame in merged segments. \<open>fd_inv\<close> is the invariant of an open
  decoder and \<open>pending\<close> the bytes of the partial frame it holds; \<open>read_loop_spec\<close> says that a read
  returns and that \<open>pending\<close> plus the bytes consumed parse to the frames returned plus the new
  \<open>pending\<close>.
\<close>

subsection \<open>The reference parser\<close>

definition frame_of :: "header_info \<Rightarrow> byte list \<Rightarrow> byte_frame" where
  "frame_of hi bs =
     \<lparr>bf_kind = hi_kind hi,
      bf_metadata = take (hi_metadataLength hi) (drop HEADER_BYTES bs),
      bf_payload = drop (HEADER_BYTES + hi_metadataLength hi) (take (hi_length hi) bs)\<rparr>"

function parse_stream ::
  "nat \<Rightarrow> nat \<Rightarrow> byte list \<Rightarrow> byte_frame list \<times> byte list \<times> protocol_failure_code option" where
  "parse_stream lane revision bs =
     (if length bs < HEADER_BYTES then ([], bs, None)
      else case inspectHeader bs lane revision of
        Inl e \<Rightarrow> ([], drop HEADER_BYTES bs, Some (pf_code e))
      | Inr hi \<Rightarrow>
          if length bs < hi_length hi then ([], bs, None)
          else let (frames, rest, e) = parse_stream lane revision (drop (hi_length hi) bs)
               in (frame_of hi bs # frames, rest, e))"
  by pat_completeness auto
termination
proof (relation "measure (\<lambda>(lane, revision, bs). length bs)", goal_cases)
  case (2 lane revision bs hi)
  then show ?case using inspectHeader_Inr(1) [OF 2(2)] by (simp add: frame_limits)
qed simp

declare parse_stream.simps [simp del]

definition frame_size :: "byte_frame \<Rightarrow> nat" where
  "frame_size f = HEADER_BYTES + length (bf_metadata f) + length (bf_payload f)"

lemma parse_stream_short: "length bs < HEADER_BYTES \<Longrightarrow> parse_stream l r bs = ([], bs, None)"
  by (simp add: parse_stream.simps)

lemma parse_stream_bad:
  "HEADER_BYTES \<le> length bs \<Longrightarrow> inspectHeader bs l r = Inl e \<Longrightarrow>
   parse_stream l r bs = ([], drop HEADER_BYTES bs, Some (pf_code e))"
  by (simp add: parse_stream.simps)

lemma parse_stream_partial:
  "inspectHeader bs l r = Inr hi \<Longrightarrow> HEADER_BYTES \<le> length bs \<Longrightarrow> length bs < hi_length hi \<Longrightarrow>
   parse_stream l r bs = ([], bs, None)"
  by (simp add: parse_stream.simps)

lemma parse_stream_frame:
  assumes "inspectHeader bs l r = Inr hi" and "hi_length hi \<le> length bs"
    and "parse_stream l r (drop (hi_length hi) bs) = (fs, rest, e)"
  shows "parse_stream l r bs = (frame_of hi bs # fs, rest, e)"
  using assms inspectHeader_Inr(1) [OF assms(1)] by (subst parse_stream.simps) simp

lemma inspectHeader_prefix:
  assumes "HEADER_BYTES \<le> length bs"
  shows "inspectHeader (bs @ cs) l r = inspectHeader bs l r"
  by (rule inspectHeader_cong) (use assms in \<open>simp add: nth_append frame_limits\<close>)

lemma frame_of_prefix:
  assumes "HEADER_BYTES + hi_metadataLength hi \<le> hi_length hi" and "hi_length hi \<le> length bs"
  shows "frame_of hi (bs @ cs) = frame_of hi bs"
  using assms by (simp add: frame_of_def)

lemma frame_size_frame_of:
  assumes "HEADER_BYTES + hi_metadataLength hi \<le> hi_length hi" and "hi_length hi \<le> length bs"
  shows "frame_size (frame_of hi bs) = hi_length hi"
proof -
  have "length (bf_metadata (frame_of hi bs)) = hi_metadataLength hi"
    "length (bf_payload (frame_of hi bs)) = hi_length hi - (HEADER_BYTES + hi_metadataLength hi)"
    using assms by (simp_all add: frame_of_def)
  then show ?thesis using assms(1) by (simp add: frame_size_def)
qed

lemma parse_stream_append:
  "parse_stream l r bs = (fs, rest, None) \<Longrightarrow> parse_stream l r (rest @ cs) = (fs', rest', e') \<Longrightarrow>
   parse_stream l r (bs @ cs) = (fs @ fs', rest', e')"
proof (induction l r bs arbitrary: fs rule: parse_stream.induct)
  case (1 l r bs)
  show ?case
  proof (cases "length bs < HEADER_BYTES")
    case True
    then show ?thesis using "1.prems" by (simp add: parse_stream_short)
  next
    case False
    then obtain hi where hi: "inspectHeader bs l r = Inr hi"
      using "1.prems"(1) by (cases "inspectHeader bs l r") (auto simp: parse_stream_bad)
    show ?thesis
    proof (cases "length bs < hi_length hi")
      case True
      then show ?thesis using "1.prems" False hi by (simp add: parse_stream_partial)
    next
      case le: False
      obtain fs0 rest0 e0 where tl: "parse_stream l r (drop (hi_length hi) bs) = (fs0, rest0, e0)"
        by (cases "parse_stream l r (drop (hi_length hi) bs)") auto
      then have fs: "fs = frame_of hi bs # fs0" "rest0 = rest" "e0 = None"
        using "1.prems"(1) parse_stream_frame [OF hi _ tl] le by auto
      have "parse_stream l r (drop (hi_length hi) bs @ cs) = (fs0 @ fs', rest', e')"
        using "1.IH" [OF False hi le] tl fs "1.prems"(2) by simp
      then have "parse_stream l r (bs @ cs) = (frame_of hi (bs @ cs) # fs0 @ fs', rest', e')"
        using le False by (intro parse_stream_frame) (simp_all add: inspectHeader_prefix hi)
      then show ?thesis
        using fs le inspectHeader_Inr(4) [OF hi] by (simp add: frame_of_prefix)
    qed
  qed
qed

subsection \<open>The invariant of an open decoder\<close>

definition pending :: "frame_decoder \<Rightarrow> byte list" where
  "pending d = (if fd_expected d = HEADER_BYTES then take (fd_filled d) (fd_header d)
     else fd_header d @ concat (fd_body d))"

definition fd_header_info :: "frame_decoder \<Rightarrow> header_info" where
  "fd_header_info d =
     \<lparr>hi_length = fd_expected d, hi_metadataLength = fd_metadataLength d, hi_kind = fd_kind d\<rparr>"

definition fd_inv :: "frame_decoder \<Rightarrow> bool" where
  "fd_inv d \<longleftrightarrow> \<not> fd_closed d \<and> length (fd_header d) = HEADER_BYTES \<and> fd_filled d < fd_expected d \<and>
     (if fd_expected d = HEADER_BYTES then fd_body d = []
      else HEADER_BYTES \<le> fd_filled d \<and>
        inspectHeader (fd_header d) (fd_lane d) (fd_revision d) = Inr (fd_header_info d) \<and>
        length (concat (fd_body d)) = fd_filled d - HEADER_BYTES \<and>
        [] \<notin> set (fd_body d) \<and> halving (fd_body d))"

lemma fd_inv_new: "fd_inv (new_decoder l r)"
  by (simp add: fd_inv_def new_decoder_def frame_limits)

lemma pending_new [simp]: "pending (new_decoder l r) = []"
  by (simp add: pending_def new_decoder_def)

lemma length_pending: "fd_inv d \<Longrightarrow> length (pending d) = fd_filled d"
  by (auto simp: fd_inv_def pending_def)

lemma fd_expected_le: "fd_inv d \<Longrightarrow> fd_expected d \<le> MAX_FRAME_BYTES"
  using inspectHeader_Inr(2) [of "fd_header d" "fd_lane d" "fd_revision d" "fd_header_info d"]
  by (cases "fd_expected d = HEADER_BYTES") (auto simp: fd_inv_def fd_header_info_def MAX_FRAME_BYTES_def)

lemma parse_pending:
  assumes "fd_inv d"
  shows "parse_stream (fd_lane d) (fd_revision d) (pending d) = ([], pending d, None)"
proof (cases "fd_expected d = HEADER_BYTES")
  case True
  then show ?thesis using assms length_pending [OF assms]
    by (simp add: parse_stream_short fd_inv_def)
next
  case False
  then have "inspectHeader (pending d) (fd_lane d) (fd_revision d) = Inr (fd_header_info d)"
    using assms by (simp add: fd_inv_def pending_def inspectHeader_append)
  then show ?thesis using assms False length_pending [OF assms]
    by (intro parse_stream_partial) (auto simp: fd_inv_def fd_header_info_def)
qed

subsection \<open>One iteration\<close>

text \<open>
  One iteration of the loop on the slice \<open>chunk\<close>: the error of the header, or the frames completed,
  what they add to \<open>emittedBytes\<close>, and the next decoder.
\<close>

definition iterate ::
  "frame_decoder \<Rightarrow> byte list \<Rightarrow> (protocol_failure \<times> frame_decoder) + (byte_frame list \<times> nat \<times> frame_decoder)" where
  "iterate d chunk =
     (let d1 = take_slice d chunk in
      if fd_filled d1 \<noteq> fd_expected d1 then Inr ([], 0, d1)
      else if fd_expected d1 = HEADER_BYTES then
        case inspectHeader (fd_header d1) (fd_lane d1) (fd_revision d1) of
          Inl e \<Rightarrow> Inl (e, d1)
        | Inr hi \<Rightarrow>
            let d2 = d1\<lparr>fd_metadataLength := hi_metadataLength hi, fd_kind := hi_kind hi,
                        fd_expected := hi_length hi\<rparr>
            in if fd_filled d2 = fd_expected d2 then Inr ([emit_frame d2], fd_expected d2, resetPending d2)
               else Inr ([], 0, d2)
      else Inr ([emit_frame d1], fd_expected d1, resetPending d1))"

lemma read_loop_iterate:
  "read_loop d input c fs em =
     (if c < length input \<and> c < MAX_READ_BYTES then
        if length fs \<ge> MAX_READ_FRAMES \<or> em + fd_expected d > MAX_READ_BYTES
        then Some (read_end d input c fs)
        else let count = min (fd_expected d - fd_filled d) (min (length input - c) (MAX_READ_BYTES - c)) in
          case iterate d (take count (drop c input)) of
            Inl (e, d1) \<Rightarrow> Some (\<lparr>rd_consumedBytes = c + count, rd_frames = fs, rd_status = ReadError,
                   rd_error = Some \<lparr>pf_code = pf_code e, pf_offset = fd_offset d1\<rparr>\<rparr>, close_decoder d1)
          | Inr (new, added, d') \<Rightarrow> read_loop d' input (c + count) (fs @ new) (em + added)
      else Some (read_end d input c fs))"
proof -
  define count where "count = min (fd_expected d - fd_filled d) (min (length input - c) (MAX_READ_BYTES - c))"
  define chunk where "chunk = take count (drop c input)"
  show ?thesis
    by (subst read_loop.simps, unfold iterate_def Let_def, fold count_def, fold chunk_def)
      (simp split: sum.split)
qed

lemma take_slice_fields [simp]:
  "fd_expected (take_slice d bs) = fd_expected d" "fd_lane (take_slice d bs) = fd_lane d"
  "fd_revision (take_slice d bs) = fd_revision d" "fd_closed (take_slice d bs) = fd_closed d"
  "fd_filled (take_slice d bs) = fd_filled d + length bs"
  "fd_offset (take_slice d bs) = fd_offset d + length bs"
  "fd_metadataLength (take_slice d bs) = fd_metadataLength d" "fd_kind (take_slice d bs) = fd_kind d"
  by (simp_all add: take_slice_def Let_def)

lemma appendBody_nonempty: "[] \<notin> set body \<Longrightarrow> chunk \<noteq> [] \<Longrightarrow> [] \<notin> set (appendBody body chunk)"
  by (auto simp: appendBody_def Let_def dest: in_set_takeD)

text \<open>After a slice of header bytes, and after a slice of body bytes.\<close>

lemma take_slice_header:
  assumes "fd_inv d" and "fd_expected d = HEADER_BYTES" and "fd_filled d + length bs \<le> HEADER_BYTES"
  shows "take (fd_filled d + length bs) (fd_header (take_slice d bs)) = pending d @ bs"
    and "length (fd_header (take_slice d bs)) = HEADER_BYTES" and "fd_body (take_slice d bs) = []"
  using assms by (auto simp: fd_inv_def pending_def take_slice_def Let_def set_bytes_def)

lemma take_slice_body:
  assumes "fd_inv d" and "fd_expected d \<noteq> HEADER_BYTES"
  shows "fd_header (take_slice d bs) = fd_header d"
    and "fd_body (take_slice d bs) = appendBody (fd_body d) bs"
  using assms by (auto simp: fd_inv_def take_slice_def Let_def)

lemma take_slice_inv:
  assumes inv: "fd_inv d" and bs: "bs \<noteq> []" "fd_filled d + length bs < fd_expected d"
  shows "fd_inv (take_slice d bs) \<and> pending (take_slice d bs) = pending d @ bs"
proof (cases "fd_expected d = HEADER_BYTES")
  case True
  then show ?thesis using inv bs take_slice_header [OF inv True, of bs]
    by (simp add: fd_inv_def) (simp add: pending_def)
next
  case False
  have "fd_header_info (take_slice d bs) = fd_header_info d" by (simp add: fd_header_info_def)
  then show ?thesis using inv bs False take_slice_body [OF inv False, of bs]
    by (simp add: fd_inv_def pending_def appendBody_nonempty halving_appendBody)
qed

lemma emit_frame_eq:
  assumes "length (fd_header d) = HEADER_BYTES" and "length (concat (fd_body d)) = fd_expected d - HEADER_BYTES"
    and "HEADER_BYTES + fd_metadataLength d \<le> fd_expected d"
  shows "emit_frame d = frame_of (fd_header_info d) (fd_header d @ concat (fd_body d))"
  using assms by (simp add: emit_frame_def frame_of_def fd_header_info_def copyRange_eq min_def)

lemma reset_inv: "length (fd_header d) = HEADER_BYTES \<Longrightarrow> \<not> fd_closed d \<Longrightarrow>
    fd_inv (resetPending d) \<and> pending (resetPending d) = []"
  by (simp add: resetPending_def fd_inv_def pending_def frame_limits)

definition parses :: "frame_decoder \<Rightarrow> byte list \<Rightarrow> byte_frame list \<Rightarrow> byte list \<Rightarrow> protocol_failure_code option \<Rightarrow> bool" where
  "parses d bs fs rest e \<longleftrightarrow>
     parse_stream (fd_lane d) (fd_revision d) (pending d @ bs) = (fs, rest, e)"

definition same_stream :: "frame_decoder \<Rightarrow> nat \<Rightarrow> frame_decoder \<Rightarrow> bool" where
  "same_stream d n d' \<longleftrightarrow>
     fd_lane d' = fd_lane d \<and> fd_revision d' = fd_revision d \<and> fd_offset d' = fd_offset d + n"

definition iterate_post :: "frame_decoder \<Rightarrow> byte list \<Rightarrow>
    (protocol_failure \<times> frame_decoder) + (byte_frame list \<times> nat \<times> frame_decoder) \<Rightarrow> bool" where
  "iterate_post d bs res \<longleftrightarrow> (case res of
     Inl (e, d') \<Rightarrow> parses d bs [] [] (Some (pf_code e)) \<and> same_stream d (length bs) d'
   | Inr (new, added, d') \<Rightarrow> parses d bs new (pending d') None \<and> same_stream d (length bs) d' \<and> fd_inv d' \<and>
       added = sum_list (map frame_size new) \<and> length new \<le> 1 \<and> added \<le> fd_expected d)"

lemma iterate_header:
  assumes inv: "fd_inv d" and bs: "fd_filled d + length bs = fd_expected d" and H: "fd_expected d = HEADER_BYTES"
  shows "iterate_post d bs (iterate d bs)"
proof -
  let ?d = "take_slice d bs"
  have h: "fd_header ?d = pending d @ bs" "length (fd_header ?d) = HEADER_BYTES" "fd_body ?d = []"
    using take_slice_header [OF inv H, of bs] bs H by simp_all
  show ?thesis
  proof (cases "inspectHeader (pending d @ bs) (fd_lane d) (fd_revision d)")
    case (Inl e)
    then show ?thesis using h bs H
      by (simp add: iterate_def Let_def iterate_post_def parses_def same_stream_def parse_stream_bad)
  next
    case (Inr hi)
    let ?d2 = "?d\<lparr>fd_metadataLength := hi_metadataLength hi, fd_kind := hi_kind hi, fd_expected := hi_length hi\<rparr>"
    note len = inspectHeader_Inr(1) [OF Inr]
    have inv2: "fd_inv ?d2" using inv h bs H Inr len
      by (simp add: fd_inv_def fd_header_info_def halving_def)
    have pend: "pending ?d2 = pending d @ bs" using h len by (simp add: pending_def)
    have "iterate d bs = Inr ([], 0, ?d2)" using h bs H Inr len by (simp add: iterate_def Let_def)
    moreover have "parses d bs [] (pending ?d2) None"
      using parse_pending [OF inv2] pend by (simp add: parses_def)
    ultimately show ?thesis using inv2 by (simp add: iterate_post_def same_stream_def)
  qed
qed

lemma iterate_body:
  assumes inv: "fd_inv d" and bs: "fd_filled d + length bs = fd_expected d" and H: "fd_expected d \<noteq> HEADER_BYTES"
  shows "iterate_post d bs (iterate d bs)"
proof -
  let ?d = "take_slice d bs" and ?hi = "fd_header_info d"
  have hi: "inspectHeader (fd_header d) (fd_lane d) (fd_revision d) = Inr ?hi"
    and len: "length (fd_header d) = HEADER_BYTES" "length (concat (fd_body d)) = fd_filled d - HEADER_BYTES"
      "HEADER_BYTES \<le> fd_filled d" and cl: "\<not> fd_closed d"
    using inv H by (auto simp: fd_inv_def)
  have h: "fd_header ?d = fd_header d" "concat (fd_body ?d) = concat (fd_body d) @ bs"
    using take_slice_body [OF inv H, of bs] by simp_all
  have pend: "pending d @ bs = fd_header d @ concat (fd_body ?d)" using H h by (simp add: pending_def)
  have all: "length (pending d @ bs) = fd_expected d" using bs length_pending [OF inv] by simp
  have mono: "HEADER_BYTES + fd_metadataLength d \<le> fd_expected d"
    using inspectHeader_Inr(4) [OF hi] by (simp add: fd_header_info_def)
  have frame: "emit_frame ?d = frame_of ?hi (pending d @ bs)"
    using emit_frame_eq [of ?d] len bs mono h unfolding pend by (simp add: fd_header_info_def)
  have sz: "frame_size (frame_of ?hi (pending d @ bs)) = fd_expected d"
    using frame_size_frame_of [of ?hi "pending d @ bs"] mono all by (simp add: fd_header_info_def)
  have "inspectHeader (pending d @ bs) (fd_lane d) (fd_revision d) = Inr ?hi"
    unfolding pend using hi len by (simp add: inspectHeader_append)
  then have p: "parses d bs [emit_frame ?d] [] None"
    unfolding parses_def frame using all
    by (intro parse_stream_frame) (simp_all add: fd_header_info_def parse_stream_short HEADER_BYTES_def)
  have "fd_inv (resetPending ?d) \<and> pending (resetPending ?d) = []"
    using reset_inv [of ?d] h len cl by simp
  moreover have "iterate d bs = Inr ([emit_frame ?d], fd_expected d, resetPending ?d)"
    using bs H by (simp add: iterate_def Let_def)
  ultimately show ?thesis using p sz frame
    by (simp add: iterate_post_def same_stream_def resetPending_def)
qed

lemma iterate_spec:
  assumes inv: "fd_inv d" and bs: "bs \<noteq> []" "fd_filled d + length bs \<le> fd_expected d"
  shows "iterate_post d bs (iterate d bs)"
proof (cases "fd_filled d + length bs = fd_expected d")
  case True
  then show ?thesis using iterate_header [OF inv True] iterate_body [OF inv True] by blast
next
  case False
  then have "fd_inv (take_slice d bs)" "pending (take_slice d bs) = pending d @ bs"
    using take_slice_inv [OF inv bs(1)] bs(2) by simp_all
  then show ?thesis using False parse_pending [of "take_slice d bs"]
    by (simp add: iterate_def iterate_post_def parses_def same_stream_def)
qed

lemma parses_append:
  assumes "parses d bs fs (pending d') None" and "same_stream d n d'" and "parses d' cs fs' rest e"
  shows "parses d (bs @ cs) (fs @ fs') rest e"
  using parse_stream_append [of "fd_lane d" "fd_revision d" "pending d @ bs" fs "pending d'" cs] assms
  by (simp add: parses_def same_stream_def)

subsection \<open>One read\<close>

text \<open>A decoder that failed at \<open>offset\<close>: closed, with nothing retained.\<close>

definition fd_dead :: "nat \<Rightarrow> frame_decoder \<Rightarrow> bool" where
  "fd_dead offset d \<longleftrightarrow> fd_closed d \<and> fd_filled d = 0 \<and> fd_body d = [] \<and> fd_offset d = offset"

definition read_post :: "frame_decoder \<Rightarrow> byte list \<Rightarrow> nat \<Rightarrow> byte_frame list \<Rightarrow> read_result \<Rightarrow> frame_decoder \<Rightarrow> bool" where
  "read_post d input c fs r d' \<longleftrightarrow>
     (let n = rd_consumedBytes r - c; bs = take n (drop c input); new = drop (length fs) (rd_frames r) in
      c \<le> rd_consumedBytes r \<and> rd_consumedBytes r \<le> length input \<and> rd_consumedBytes r \<le> MAX_READ_BYTES \<and>
      take (length fs) (rd_frames r) = fs \<and> length (rd_frames r) \<le> MAX_READ_FRAMES \<and>
      sum_list (map frame_size (rd_frames r)) \<le> MAX_READ_BYTES \<and> same_stream d n d' \<and>
      (case rd_error r of
         None \<Rightarrow> fd_inv d' \<and> parses d bs new (pending d') None \<and>
           rd_status r = (if rd_consumedBytes r < length input then Budget else NeedInput)
       | Some e \<Rightarrow> fd_dead (pf_offset e) d' \<and> parses d bs new [] (Some (pf_code e)) \<and>
           rd_status r = ReadError))"

lemma read_post_end:
  assumes "fd_inv d" and "c \<le> length input" and "c \<le> MAX_READ_BYTES" and "length fs \<le> MAX_READ_FRAMES"
    and "sum_list (map frame_size fs) \<le> MAX_READ_BYTES"
  shows "case read_end d input c fs of (r, d') \<Rightarrow> read_post d input c fs r d'"
  using assms parse_pending [OF assms(1)]
  by (simp add: read_end_def read_post_def same_stream_def parses_def)

lemma read_post_step:
  assumes post: "read_post d1 input (c + n) (fs @ new) r d'" and n: "n = length bs" "bs = take n (drop c input)"
    and p: "parses d bs new (pending d1) None" and s: "same_stream d n d1"
  shows "read_post d input c fs r d'"
proof -
  have le: "c + n \<le> rd_consumedBytes r" and pre: "take (length (fs @ new)) (rd_frames r) = fs @ new"
    using post by (auto simp: read_post_def Let_def)
  define m where "m = rd_consumedBytes r - (c + n)"
  have m: "rd_consumedBytes r - c = n + m" using le by (simp add: m_def)
  have cut: "take (n + m) (drop c input) = bs @ take m (drop (c + n) input)"
    using n(2) by (simp add: take_add add.commute [of n c])
  have "rd_frames r = (fs @ new) @ drop (length (fs @ new)) (rd_frames r)"
    using append_take_drop_id [of "length (fs @ new)" "rd_frames r"] unfolding pre by (rule sym)
  then obtain more where frames: "rd_frames r = fs @ new @ more" by simp
  have new: "drop (length fs) (rd_frames r) = new @ drop (length (fs @ new)) (rd_frames r)"
    and fs: "take (length fs) (rd_frames r) = fs" by (simp_all add: frames)
  have s': "same_stream d1 m d'" using post by (simp add: read_post_def Let_def m_def)
  have ss: "same_stream d (n + m) d'" using s s' by (simp add: same_stream_def)
  have join: "parses d (take (n + m) (drop c input)) (drop (length fs) (rd_frames r)) rest e"
    if "parses d1 (take m (drop (c + n) input)) (drop (length (fs @ new)) (rd_frames r)) rest e" for rest e
    unfolding cut new by (rule parses_append [OF p s that])
  show ?thesis
    using post ss fs join unfolding read_post_def Let_def m
    by (auto simp: m_def [symmetric] split: option.splits)
qed

lemma read_loop_spec:
  assumes "fd_inv d" and "c \<le> length input" and "c \<le> MAX_READ_BYTES" and "length fs \<le> MAX_READ_FRAMES"
    and "sum_list (map frame_size fs) = em" and "em \<le> MAX_READ_BYTES"
  shows "\<exists>r d'. read_loop d input c fs em = Some (r, d') \<and> read_post d input c fs r d'"
  using assms
proof (induction "length input - c" arbitrary: d c fs em rule: less_induct)
  case less
  note inv = less.prems(1)
  define count where "count = min (fd_expected d - fd_filled d) (min (length input - c) (MAX_READ_BYTES - c))"
  define bs where "bs = take count (drop c input)"
  consider (stop) "read_loop d input c fs em = Some (read_end d input c fs)"
    | (go) "c < length input" "c < MAX_READ_BYTES" "length fs < MAX_READ_FRAMES"
        "em + fd_expected d \<le> MAX_READ_BYTES"
        "read_loop d input c fs em = (case iterate d bs of
            Inl (e, d1) \<Rightarrow> Some (\<lparr>rd_consumedBytes = c + count, rd_frames = fs, rd_status = ReadError,
                   rd_error = Some \<lparr>pf_code = pf_code e, pf_offset = fd_offset d1\<rparr>\<rparr>, close_decoder d1)
          | Inr (new, added, d') \<Rightarrow> read_loop d' input (c + count) (fs @ new) (em + added))"
    using read_loop_iterate [of d input c fs em, folded count_def, unfolded Let_def, folded bs_def]
    by (cases "c < length input \<and> c < MAX_READ_BYTES";
        cases "length fs \<ge> MAX_READ_FRAMES \<or> em + fd_expected d > MAX_READ_BYTES") force+
  then show ?case
  proof cases
    case stop
    then show ?thesis using read_post_end [OF inv less.prems(2,3,4)] less.prems(5,6)
      by (auto split: prod.splits)
  next
    case go
    have cnt: "0 < count" "c + count \<le> length input" "c + count \<le> MAX_READ_BYTES"
      "fd_filled d + count \<le> fd_expected d"
      using go inv by (auto simp: count_def fd_inv_def)
    have len: "length bs = count" using cnt by (simp add: bs_def)
    have post: "iterate_post d bs (iterate d bs)"
      using iterate_spec [OF inv, of bs] len cnt by auto
    show ?thesis
    proof (cases "iterate d bs")
      case (Inl res)
      obtain e d1 where res: "res = (e, d1)" by (cases res)
      then show ?thesis using post Inl go(5) cnt len less.prems(4,5,6)
        by (auto simp: iterate_post_def read_post_def same_stream_def close_decoder_def fd_dead_def parses_def bs_def)
    next
      case (Inr res)
      obtain new added d1 where res: "res = (new, added, d1)" by (cases res)
      have p: "parses d bs new (pending d1) None" "same_stream d count d1" "fd_inv d1"
        "added = sum_list (map frame_size new)" "length new \<le> 1" "added \<le> fd_expected d"
        using post Inr res len by (auto simp: iterate_post_def)
      have "\<exists>r d'. read_loop d1 input (c + count) (fs @ new) (em + added) = Some (r, d') \<and>
          read_post d1 input (c + count) (fs @ new) r d'"
        using cnt go p less.prems(5) by (intro less.hyps) auto
      then show ?thesis using go(5) Inr res read_post_step [OF _ len [symmetric] _ p(1,2)]
        by (auto simp: bs_def)
    qed
  qed
qed

lemma fd_read_spec:
  assumes "fd_inv d"
  shows "\<exists>r d'. fd_read d input = Some (r, d') \<and> read_post d input 0 [] r d'"
  using read_loop_spec [OF assms, of 0 input "[]" 0] assms by (simp add: fd_read_def fd_inv_def)

lemma read_progress:
  assumes inv: "fd_inv d" and "input \<noteq> []" and run: "fd_read d input = Some (r, d')"
  shows "0 < rd_consumedBytes r"
proof -
  define count where "count = min (fd_expected d - fd_filled d) (min (length input) MAX_READ_BYTES)"
  define bs where "bs = take count input"
  have ex: "fd_expected d \<le> MAX_READ_BYTES" using fd_expected_le [OF inv] by (simp add: frame_limits)
  have cnt: "0 < count" "count \<le> length input" "count \<le> MAX_READ_BYTES" "fd_filled d + count \<le> fd_expected d"
    using inv assms(2) by (auto simp: count_def fd_inv_def frame_limits)
  have step: "fd_read d input = (case iterate d bs of
      Inl (e, d1) \<Rightarrow> Some (\<lparr>rd_consumedBytes = count, rd_frames = [], rd_status = ReadError,
             rd_error = Some \<lparr>pf_code = pf_code e, pf_offset = fd_offset d1\<rparr>\<rparr>, close_decoder d1)
    | Inr (new, added, d') \<Rightarrow> read_loop d' input count new added)"
    using assms(2) inv ex read_loop_iterate [of d input 0 "[]" 0, folded count_def]
    by (simp add: fd_read_def fd_inv_def frame_limits bs_def count_def Let_def split: sum.split)
  have post: "iterate_post d bs (iterate d bs)"
    using iterate_spec [OF inv, of bs] cnt assms(2) by (auto simp: bs_def)
  show ?thesis
  proof (cases "iterate d bs")
    case (Inr res)
    obtain new added d1 where res: "res = (new, added, d1)" by (cases res)
    have "\<exists>r d'. read_loop d1 input count new added = Some (r, d') \<and> read_post d1 input count new r d'"
      using post Inr res cnt ex
      by (intro read_loop_spec) (auto simp: iterate_post_def frame_limits)
    then show ?thesis using step run Inr res cnt(1)
      by (auto simp: read_post_def Let_def)
  qed (use step run cnt(1) in auto)
qed

subsection \<open>Feeding a stream in slices\<close>

text \<open>
  The protocol of the callers of \<open>read\<close>: the unconsumed suffix is submitted again until the slice is
  used up or the decoder fails, then the next slice is submitted.
\<close>

partial_function (option) feed ::
  "frame_decoder \<Rightarrow> byte list \<Rightarrow> byte_frame list \<Rightarrow>
   (byte_frame list \<times> protocol_failure option \<times> frame_decoder) option" where
  "feed d input acc =
     (if input = [] then Some (acc, None, d)
      else case fd_read d input of
        None \<Rightarrow> None
      | Some (r, d') \<Rightarrow>
          if rd_error r \<noteq> None then Some (acc @ rd_frames r, rd_error r, d')
          else feed d' (drop (rd_consumedBytes r) input) (acc @ rd_frames r))"

fun feed_chunks ::
  "frame_decoder \<Rightarrow> byte list list \<Rightarrow> byte_frame list \<Rightarrow>
   (byte_frame list \<times> protocol_failure option \<times> frame_decoder) option" where
  "feed_chunks d [] acc = Some (acc, None, d)"
| "feed_chunks d (chunk # chunks) acc =
     (case feed d chunk acc of
        Some (acc', None, d') \<Rightarrow> feed_chunks d' chunks acc'
      | res \<Rightarrow> res)"

definition feed_post :: "frame_decoder \<Rightarrow> byte list \<Rightarrow> byte_frame list \<Rightarrow> protocol_failure option \<Rightarrow> frame_decoder \<Rightarrow> bool" where
  "feed_post d input new e d' \<longleftrightarrow> (case e of
     None \<Rightarrow> fd_inv d' \<and> parses d input new (pending d') None \<and> same_stream d (length input) d'
   | Some err \<Rightarrow> fd_dead (pf_offset err) d' \<and> (\<exists>n \<le> length input. parses d (take n input) new [] (Some (pf_code err)) \<and>
       pf_offset err = fd_offset d + n))"

lemma feed_post_step:
  assumes "read_post d input 0 [] r d1" and "rd_error r = None"
    and "feed_post d1 (drop (rd_consumedBytes r) input) new e d'"
  shows "feed_post d input (rd_frames r @ new) e d'"
proof -
  define c where "c = rd_consumedBytes r"
  have c: "c \<le> length input" and p: "parses d (take c input) (rd_frames r) (pending d1) None"
    and s: "same_stream d c d1"
    using assms(1,2) by (auto simp: read_post_def Let_def c_def)
  have join: "parses d (take (c + n) input) (rd_frames r @ new) rest e"
    if "parses d1 (take n (drop c input)) new rest e" for n rest e
    using parses_append [OF p s that] by (simp add: take_add)
  show ?thesis
  proof (cases e)
    case None
    then show ?thesis using assms(3) join [of "length input - c" "pending d'" None] s c
      by (auto simp: feed_post_def same_stream_def c_def [symmetric])
  next
    case (Some err)
    then obtain n where "fd_dead (pf_offset err) d'" "n \<le> length input - c" "pf_offset err = fd_offset d1 + n"
        "parses d1 (take n (drop c input)) new [] (Some (pf_code err))"
      using assms(3) by (auto simp: feed_post_def c_def)
    then show ?thesis using Some join [of n "[]" "Some (pf_code err)"] s c
      by (auto simp: feed_post_def same_stream_def intro!: exI [of _ "c + n"])
  qed
qed

lemma feed_spec:
  "fd_inv d \<Longrightarrow> \<exists>new e d'. feed d input acc = Some (acc @ new, e, d') \<and> feed_post d input new e d'"
proof (induction "length input" arbitrary: d input acc rule: less_induct)
  case less
  show ?case
  proof (cases "input = []")
    case True
    then show ?thesis using less.prems parse_pending [OF less.prems]
      by (subst feed.simps) (simp add: feed_post_def parses_def same_stream_def)
  next
    case False
    obtain r d1 where r: "fd_read d input = Some (r, d1)" and post: "read_post d input 0 [] r d1"
      using fd_read_spec [OF less.prems] by blast
    show ?thesis
    proof (cases "rd_error r")
      case None
      have shorter: "length (drop (rd_consumedBytes r) input) < length input"
        using read_progress [OF less.prems False r] False by simp
      have "fd_inv d1" using post None by (simp add: read_post_def Let_def)
      then obtain new e d' where
        "feed d1 (drop (rd_consumedBytes r) input) (acc @ rd_frames r) = Some ((acc @ rd_frames r) @ new, e, d')"
        "feed_post d1 (drop (rd_consumedBytes r) input) new e d'"
        using less.hyps [OF shorter] by blast
      then show ?thesis using feed_post_step [OF post None] False r None
        by (subst feed.simps) fastforce
    next
      case (Some err)
      then show ?thesis using False r post
        by (subst feed.simps)
          (auto simp: read_post_def Let_def feed_post_def same_stream_def fd_dead_def
            intro!: exI [of _ "rd_consumedBytes r"])
    qed
  qed
qed

lemma parse_stream_error_append:
  "parse_stream l r bs = (fs, rest, Some e) \<Longrightarrow> parse_stream l r (bs @ cs) = (fs, rest @ cs, Some e)"
proof (induction l r bs arbitrary: fs rule: parse_stream.induct)
  case (1 l r bs)
  have long: "\<not> length bs < HEADER_BYTES" using "1.prems" by (auto simp: parse_stream_short)
  show ?case
  proof (cases "inspectHeader bs l r")
    case (Inl e)
    then show ?thesis using "1.prems" long by (simp add: parse_stream_bad inspectHeader_prefix)
  next
    case (Inr hi)
    have le: "\<not> length bs < hi_length hi" using "1.prems" long Inr by (auto simp: parse_stream_partial)
    obtain fs0 rest0 e0 where tl: "parse_stream l r (drop (hi_length hi) bs) = (fs0, rest0, e0)"
      by (cases "parse_stream l r (drop (hi_length hi) bs)") auto
    then have fs: "fs = frame_of hi bs # fs0" "rest0 = rest" "e0 = Some e"
      using "1.prems" parse_stream_frame [OF Inr _ tl] le by auto
    then have "parse_stream l r (drop (hi_length hi) bs @ cs) = (fs0, rest @ cs, Some e)"
      using "1.IH" [OF long Inr le] tl by simp
    then have "parse_stream l r (bs @ cs) = (frame_of hi (bs @ cs) # fs0, rest @ cs, Some e)"
      using le long by (intro parse_stream_frame) (simp_all add: inspectHeader_prefix Inr)
    then show ?thesis using fs le inspectHeader_Inr(4) [OF Inr] by (simp add: frame_of_prefix)
  qed
qed

lemma feed_chunks_spec:
  "fd_inv d \<Longrightarrow>
   \<exists>new e d'. feed_chunks d chunks acc = Some (acc @ new, e, d') \<and> feed_post d (concat chunks) new e d'"
proof (induction chunks arbitrary: d acc)
  case Nil
  then show ?case using parse_pending [OF Nil] by (simp add: feed_post_def parses_def same_stream_def)
next
  case (Cons chunk chunks)
  obtain new e d1 where f: "feed d chunk acc = Some (acc @ new, e, d1)" "feed_post d chunk new e d1"
    using feed_spec [OF Cons.prems] by blast
  show ?case
  proof (cases e)
    case (Some err)
    then obtain n where "fd_dead (pf_offset err) d1" "n \<le> length chunk"
        "pf_offset err = fd_offset d + n" "parses d (take n chunk) new [] (Some (pf_code err))"
      using f(2) by (auto simp: feed_post_def)
    then have "feed_post d (chunk @ concat chunks) new e d1"
      using Some by (auto simp: feed_post_def intro!: exI [of _ n])
    then show ?thesis using f Some by simp
  next
    case None
    then have p: "fd_inv d1" "parses d chunk new (pending d1) None" "same_stream d (length chunk) d1"
      using f(2) by (simp_all add: feed_post_def)
    obtain new' e' d' where g: "feed_chunks d1 chunks (acc @ new) = Some ((acc @ new) @ new', e', d')"
      "feed_post d1 (concat chunks) new' e' d'" using Cons.IH [OF p(1)] by blast
    have "feed_post d (chunk @ concat chunks) (new @ new') e' d'"
    proof (cases e')
      case None
      then show ?thesis using g(2) p(3) parses_append [OF p(2,3)]
        by (simp add: feed_post_def same_stream_def)
    next
      case (Some err)
      then obtain n where "fd_dead (pf_offset err) d'" "n \<le> length (concat chunks)" "pf_offset err = fd_offset d1 + n"
          "parses d1 (take n (concat chunks)) new' [] (Some (pf_code err))"
        using g(2) by (auto simp: feed_post_def)
      then show ?thesis using Some p(3) parses_append [OF p(2,3)]
        by (auto simp: feed_post_def same_stream_def intro!: exI [of _ "length chunk + n"])
    qed
    then show ?thesis using f(1) g(1) None by simp
  qed
qed

lemma parse_encoded:
  "list_all2 (\<lambda>f bs. encodeFrame lane revision (bf_kind f) (bf_metadata f) (bf_payload f) = Inr bs) fs bss \<Longrightarrow>
   lane < 256 \<Longrightarrow> parse_stream lane revision (concat bss) = (fs, [], None)"
proof (induction fs bss rule: list_all2_induct)
  case Nil
  then show ?case by (simp add: parse_stream_short frame_limits)
next
  case (Cons f fs bs bss)
  obtain h where h: "bs = h @ bf_metadata f @ bf_payload f" "length h = HEADER_BYTES"
    and hi: "inspectHeader h lane revision =
      Inr \<lparr>hi_length = length bs, hi_metadataLength = length (bf_metadata f), hi_kind = bf_kind f\<rparr>"
    using encodeFrame_layout [OF Cons(1) Cons.prems] by blast
  let ?hi = "\<lparr>hi_length = length bs, hi_metadataLength = length (bf_metadata f), hi_kind = bf_kind f\<rparr>"
  have "frame_of ?hi (bs @ concat bss) = f" using h by (simp add: frame_of_def)
  moreover have "parse_stream lane revision (bs @ concat bss) = (frame_of ?hi (bs @ concat bss) # fs, [], None)"
    using h hi Cons.IH Cons.prems by (intro parse_stream_frame) (simp_all add: inspectHeader_append)
  ultimately show ?case by simp
qed

lemma segments_bound:
  assumes inv: "fd_inv d"
  shows "length (fd_body d) \<le> 17"
proof (cases "fd_body d = []")
  case False
  have body: "halving (fd_body d)" "[] \<notin> set (fd_body d)" "length (concat (fd_body d)) < MAX_FRAME_BYTES"
    using inv False fd_expected_le [OF inv] by (auto simp: fd_inv_def split: if_splits)
  have "length (hd (fd_body d)) \<le> length (concat (fd_body d))" using False by (cases "fd_body d") auto
  then have "2 ^ (length (fd_body d) - 1) < (2 :: nat) ^ 17"
    using halving_log [OF body(1,2) False] body(3) by (simp add: frame_limits)
  then have "length (fd_body d) - 1 < 17" by (rule power_less_imp_less_exp [rotated]) simp
  then show ?thesis by simp
qed simp

lemma feed_chunks_parse:
  obtains new e d where "feed_chunks (new_decoder l r) chunks [] = Some (new, e, d)"
    and "case e of
        None \<Rightarrow> fd_inv d \<and> parse_stream l r (concat chunks) = (new, pending d, None) \<and>
          fd_offset d = length (concat chunks)
      | Some err \<Rightarrow> fd_dead (pf_offset err) d \<and> pf_offset err \<le> length (concat chunks) \<and>
          parse_stream l r (concat chunks) = (new, drop (pf_offset err) (concat chunks), Some (pf_code err))"
proof -
  have fields: "fd_lane (new_decoder l r) = l" "fd_revision (new_decoder l r) = r" "fd_offset (new_decoder l r) = 0"
    by (simp_all add: new_decoder_def)
  obtain new e d where run: "feed_chunks (new_decoder l r) chunks [] = Some (new, e, d)"
    and post: "feed_post (new_decoder l r) (concat chunks) new e d"
    using feed_chunks_spec [OF fd_inv_new, of l r chunks "[]"] by auto
  show thesis
  proof (cases e)
    case None
    then show thesis using that [OF run] post by (simp add: feed_post_def parses_def same_stream_def fields)
  next
    case (Some err)
    then have "fd_dead (pf_offset err) d" "pf_offset err \<le> length (concat chunks)"
      and "parse_stream l r (take (pf_offset err) (concat chunks)) = (new, [], Some (pf_code err))"
      using post by (auto simp: feed_post_def parses_def fields)
    then show thesis using that [OF run] Some
      parse_stream_error_append [of l r "take (pf_offset err) (concat chunks)" new "[]" "pf_code err"
          "drop (pf_offset err) (concat chunks)"] by simp
  qed
qed

lemma feed_chunks_reached:
  assumes "feed_chunks (new_decoder l r) chunks [] = Some (fs, None, d)"
  shows "fd_inv d \<and> fd_offset d = length (concat chunks)"
  using feed_chunks_parse [of l r chunks] assms by (auto split: option.splits)

subsection \<open>Properties\<close>

text \<open>C1. Round trip: any sequence of encoded frames, cut into slices anywhere and fed to a fresh decoder
  of the same lane and revision, decodes to exactly those frames; the decoder then finishes cleanly.\<close>

theorem frame_roundtrip:
  assumes "list_all2 (\<lambda>f bs. encodeFrame lane revision (bf_kind f) (bf_metadata f) (bf_payload f) = Inr bs) fs bss"
    and "lane < 256" and "concat chunks = concat bss"
  shows "\<exists>d. feed_chunks (new_decoder lane revision) chunks [] = Some (fs, None, d) \<and> fst (fd_finish d) = Inr ()"
proof (rule feed_chunks_parse [of lane revision chunks], goal_cases)
  case (1 new e d)
  have "parse_stream lane revision (concat chunks) = (fs, [], None)"
    unfolding assms(3) by (rule parse_encoded [OF assms(1,2)])
  then have "new = fs" "e = None" and d: "fd_inv d" "pending d = []"
    using 1(2) by (auto split: option.splits)
  moreover have "fst (fd_finish d) = Inr ()"
    using d length_pending [OF d(1)] by (simp add: fd_finish_def fd_inv_def)
  ultimately show ?case using 1(1) by blast
qed

theorem frame_roundtrip_witness:
  "\<exists>d. feed_chunks (new_decoder 2 1)
      [[0x43, 0x50, 2, 1, 3], [0, 0, 0, 0, 0, 0, 2, 0, 0, 0, 1, 7], [8, 9]] [] =
      Some ([\<lparr>bf_kind = 3, bf_metadata = [7, 8], bf_payload = [9]\<rparr>], None, d) \<and> fst (fd_finish d) = Inr ()"
proof -
  have "replicate 19 0 = [0, 0, 0, 0, 0, 0, 0, 0, 0, 0, 0, 0, 0, 0, 0, 0, 0, 0, 0 :: byte]"
    by (simp add: numeral_eq_Suc)
  then have enc: "encodeFrame 2 1 3 [7, 8] [9] =
      Inr [0x43, 0x50, 2, 1, 3, 0, 0, 0, 0, 0, 0, 2, 0, 0, 0, 1, 7, 8, 9]"
    by (simp add: encodeFrame_def failure_def frame_limits setUint32_def set_bytes_def)
  show ?thesis
  proof (rule frame_roundtrip)
    show "list_all2 (\<lambda>f bs. encodeFrame 2 1 (bf_kind f) (bf_metadata f) (bf_payload f) = Inr bs)
        [\<lparr>bf_kind = 3, bf_metadata = [7, 8], bf_payload = [9]\<rparr>]
        [[0x43, 0x50, 2, 1, 3, 0, 0, 0, 0, 0, 0, 2, 0, 0, 0, 1, 7, 8, 9]]"
      by (simp only: list_all2_Cons list_all2_Nil byte_frame.simps enc)
  qed simp_all
qed

text \<open>C2. The incremental decoder refines the reference parser: on every byte string, however it is
  sliced, feeding terminates with the frames of \<open>parse_stream\<close>; it fails exactly when the parser does, with
  the parser's code and the number of bytes parsed as offset, and otherwise \<open>finish\<close> reports a truncated
  frame exactly when bytes of a partial frame are left.\<close>

theorem frame_decoder_refines_parser:
  "case parse_stream lane revision (concat chunks) of
     (fs, rest, None) \<Rightarrow>
       \<exists>d. feed_chunks (new_decoder lane revision) chunks [] = Some (fs, None, d) \<and>
         fst (fd_finish d) = (if rest = [] then Inr () else failure TRUNCATED_FRAME (length (concat chunks)))
   | (fs, rest, Some code) \<Rightarrow>
       \<exists>d e. feed_chunks (new_decoder lane revision) chunks [] = Some (fs, Some e, d) \<and>
         pf_code e = code \<and> pf_offset e = length (concat chunks) - length rest"
proof (rule feed_chunks_parse [of lane revision chunks], goal_cases)
  case (1 new e d)
  show ?case
  proof (cases e)
    case None
    then have d: "fd_inv d" "parse_stream lane revision (concat chunks) = (new, pending d, None)"
      "fd_offset d = length (concat chunks)" using 1(2) by auto
    then show ?thesis using 1(1) None length_pending [OF d(1)] by (auto simp: fd_finish_def fd_inv_def)
  next
    case (Some err)
    then show ?thesis using 1 by auto
  qed
qed

text \<open>C12. One \<open>read\<close> on a decoder in use always returns, makes progress on nonempty input, and stays
  within its budgets: at most 256 KiB consumed, at most 32 frames, at most 256 KiB of frames emitted; it
  reports \<open>budget\<close> exactly when input is left over without an error.\<close>

theorem frame_read_bounded:
  assumes "feed_chunks (new_decoder lane revision) chunks [] = Some (fs, None, d)" and "input \<noteq> []"
  shows "\<exists>r d'. fd_read d input = Some (r, d') \<and>
    0 < rd_consumedBytes r \<and> rd_consumedBytes r \<le> length input \<and> rd_consumedBytes r \<le> 262144 \<and>
    length (rd_frames r) \<le> 32 \<and> sum_list (map frame_size (rd_frames r)) \<le> 262144 \<and>
    (rd_status r = Budget \<longleftrightarrow> rd_error r = None \<and> rd_consumedBytes r < length input) \<and>
    (rd_status r = ReadError \<longleftrightarrow> rd_error r \<noteq> None) \<and>
    fd_offset d' = length (concat chunks) + rd_consumedBytes r"
proof -
  have d: "fd_inv d" "fd_offset d = length (concat chunks)" using feed_chunks_reached [OF assms(1)] by simp_all
  obtain r d' where r: "fd_read d input = Some (r, d')" and post: "read_post d input 0 [] r d'"
    using fd_read_spec [OF d(1)] by blast
  show ?thesis
    using r post read_progress [OF d(1) assms(2) r] d(2)
    by (auto simp: read_post_def Let_def same_stream_def frame_limits split: option.splits)
qed

theorem frame_read_bounded_witness:
  "\<exists>r d'. fd_read (new_decoder 1 1) [0x43, 0x50] = Some (r, d') \<and> 0 < rd_consumedBytes r \<and>
    rd_consumedBytes r \<le> 2 \<and> length (rd_frames r) \<le> 32"
  using frame_read_bounded [of 1 1 "[]" "[]" "new_decoder 1 1" "[0x43, 0x50]"] by auto

text \<open>C14. The storage of a partial frame: \<open>storageBytes\<close> is exactly the 16-byte header plus the body bytes
  held (nothing between frames), it never exceeds one frame, and however small the slices are the body is
  held in at most 17 segments.\<close>

theorem frame_storage_bounded:
  assumes "feed_chunks (new_decoder lane revision) chunks [] = Some (fs, None, d)"
  shows "fd_storageBytes d = (if pending d = [] then 0 else HEADER_BYTES + length (concat (fd_body d))) \<and>
    fd_storageBytes d \<le> MAX_FRAME_BYTES \<and> fd_retainedBytes d = length (pending d) \<and>
    length (fd_body d) \<le> 17"
proof -
  have d: "fd_inv d" using feed_chunks_reached [OF assms] by simp
  have "pending d = [] \<longleftrightarrow> fd_filled d = 0" using length_pending [OF d] by (metis length_0_conv)
  then show ?thesis using d segments_bound [OF d] fd_expected_le [OF d] length_pending [OF d]
    by (auto simp: fd_storageBytes_def fd_retainedBytes_def fd_inv_def frame_limits split: if_splits)
qed

theorem frame_storage_bounded_witness:
  "\<exists>d. feed_chunks (new_decoder 1 1) [[0x43], [0x50]] [] = Some ([], None, d) \<and>
    fd_storageBytes d \<le> MAX_FRAME_BYTES \<and> length (fd_body d) \<le> 17"
proof (rule feed_chunks_parse [of 1 1 "[[0x43], [0x50]]"], goal_cases)
  case (1 new e d)
  have "parse_stream 1 1 (concat [[0x43], [0x50]]) = ([], [0x43, 0x50], None)"
    by (simp add: parse_stream_short HEADER_BYTES_def)
  then have "new = [] \<and> e = None" using 1(2) by (auto split: option.splits)
  then show ?case using 1(1) frame_storage_bounded [of 1 1 "[[0x43], [0x50]]" "[]" d] by auto
qed

text \<open>C30. A failure is permanent: once a stream has failed, every further \<open>read\<close> consumes nothing and
  answers \<open>DECODER_CLOSED\<close> at the offset of the failure, \<open>finish\<close> does the same, and nothing is retained.\<close>

theorem frame_failure_permanent:
  assumes "feed_chunks (new_decoder lane revision) chunks [] = Some (fs, Some e, d)"
  shows "fd_read d input = Some (\<lparr>rd_consumedBytes = 0, rd_frames = [], rd_status = ReadError,
      rd_error = Some \<lparr>pf_code = DECODER_CLOSED, pf_offset = pf_offset e\<rparr>\<rparr>, d) \<and>
    fd_finish d = (failure DECODER_CLOSED (pf_offset e), d) \<and> fd_storageBytes d = 0 \<and> fd_body d = []"
proof -
  have "fd_dead (pf_offset e) d" using feed_chunks_parse [of lane revision chunks] assms by fastforce
  then show ?thesis by (simp add: fd_read_def fd_finish_def fd_storageBytes_def fd_dead_def)
qed

theorem frame_failure_permanent_witness:
  "\<exists>e d. feed_chunks (new_decoder 1 1) [replicate 16 0] [] = Some ([], Some e, d) \<and>
    fd_finish d = (failure DECODER_CLOSED (pf_offset e), d)"
proof (rule feed_chunks_parse [of 1 1 "[replicate 16 0]"], goal_cases)
  case (1 new e d)
  have "parse_stream 1 1 (concat [replicate 16 0]) = ([], [], Some INVALID_HEADER)"
    by (simp add: parse_stream.simps HEADER_BYTES_def inspectHeader_def failure_def)
  then obtain err where "new = []" "e = Some err" using 1(2) by (auto split: option.splits)
  then show ?case using 1(1) frame_failure_permanent [of 1 1 "[replicate 16 0]" "[]" err d] by auto
qed

end
