(* ===== verification/Terminal_Frames.thy ===== *)
theory Terminal_Frames
  imports Terminal_Protocol Frame_Stream
begin

text \<open>
  Validation of terminal frames and of results against their commands
  (\<^verbatim>\<open>packages/protocol/src/terminal.ts\<close>).
\<close>

definition TERMINAL_LANE :: nat where "TERMINAL_LANE = 3"
definition TERMINAL_REVISION :: nat where "TERMINAL_REVISION = 2"

definition createTerminalDecoder :: frame_decoder where
  "createTerminalDecoder = new_decoder TERMINAL_LANE TERMINAL_REVISION"

definition encodeTerminalFrame :: "nat \<Rightarrow> byte list \<Rightarrow> byte list \<Rightarrow> protocol_failure + byte list" where
  "encodeTerminalFrame frameClass metadata payload =
     encodeFrame TERMINAL_LANE TERMINAL_REVISION frameClass metadata payload"

datatype terminal_metadata =
    TmCommand terminal_command | TmResult terminal_result | TmEvent external_event | TmError terminal_error

definition payloadAllowed :: "terminal_metadata \<Rightarrow> nat \<Rightarrow> byte list \<Rightarrow> bool" where
  "payloadAllowed value frameClass bytes \<longleftrightarrow>
     (if frameClass = 1 \<and> (case value of TmCommand c \<Rightarrow> command_type_of (tc_body c) = TInput | _ \<Rightarrow> False)
      then length bytes \<ge> 1
      else if frameClass = 3 \<and> (case value of
          TmEvent (XRunEvent s (RevOutput run seq)) \<Rightarrow> True
        | TmEvent (XBaselineChunk c) \<Rightarrow> True
        | TmEvent (XPreviewChunk p) \<Rightarrow> True
        | _ \<Rightarrow> False)
      then length bytes \<ge> 1
      else length bytes = 0)"

text \<open>\<open>"run" in value\<close> and \<open>"subscription" in value\<close>: the property of the value, when it has one.\<close>

fun command_subscription :: "command_body \<Rightarrow> subscription_ref option" where
  "command_subscription (CDetach s) = Some s"
| "command_subscription (CRecover s _ _) = Some s"
| "command_subscription (CFocus s _ _ _) = Some s"
| "command_subscription (CBlur s _) = Some s"
| "command_subscription (CResize s _ _) = Some s"
| "command_subscription (CAppearance s _ _) = Some s"
| "command_subscription (CInput s _ _) = Some s"
| "command_subscription (CAppliedAck s _) = Some s"
| "command_subscription (CBaselineProgress s _ _) = Some s"
| "command_subscription _ = None"

fun result_subscription :: "result_body \<Rightarrow> subscription_ref option" where
  "result_subscription (RAttach s _ _) = Some s"
| "result_subscription (RDetach s) = Some s"
| "result_subscription (RRecover s _ _) = Some s"
| "result_subscription (RFocus s _ _) = Some s"
| "result_subscription (RBlur s _ _) = Some s"
| "result_subscription (RResize s _ _) = Some s"
| "result_subscription (RAppearance s _ _) = Some s"
| "result_subscription (RInput s _ _ _) = Some s"
| "result_subscription (RAppliedAck s _) = Some s"
| "result_subscription (RBaselineProgress s _ _) = Some s"
| "result_subscription (RPreview _ _ _) = None"

fun md_run :: "terminal_metadata \<Rightarrow> run_ref option" where
  "md_run (TmCommand c) = Some (tc_run c)"
| "md_run (TmResult r) = Some (tr_run r)"
| "md_run (TmEvent (XRunEvent s e)) = None"
| "md_run (TmEvent (XBaselineStart run d)) = Some run"
| "md_run (TmEvent (XBaselineChunk c)) = Some (bk_run c)"
| "md_run (TmEvent (XBaselineEnd e)) = Some (be_run e)"
| "md_run (TmEvent (XPreviewStart p)) = Some (ps_run p)"
| "md_run (TmEvent (XPreviewChunk p)) = Some (pk_run p)"
| "md_run (TmEvent (XPreviewEnd p)) = Some (pn_run p)"
| "md_run (TmEvent (XWorkerHealth run s h)) = Some run"
| "md_run (TmError e) = Some (tx_run e)"

fun md_subscription :: "terminal_metadata \<Rightarrow> subscription_ref option" where
  "md_subscription (TmCommand c) = command_subscription (tc_body c)"
| "md_subscription (TmResult r) = result_subscription (tr_body r)"
| "md_subscription (TmEvent (XRunEvent s e)) = Some s"
| "md_subscription (TmEvent (XBaselineChunk c)) = Some (bk_subscription c)"
| "md_subscription (TmEvent (XBaselineEnd e)) = Some (be_subscription e)"
| "md_subscription (TmEvent (XWorkerHealth run s h)) = Some s"
| "md_subscription (TmEvent _) = None"
| "md_subscription (TmError e) = None"

fun md_appearance :: "terminal_metadata \<Rightarrow> appearance option" where
  "md_appearance (TmCommand c) = (case tc_body c of
     CFocus _ _ _ a \<Rightarrow> a | CAppearance _ _ a \<Rightarrow> Some a | _ \<Rightarrow> None)"
| "md_appearance _ = None"

fun event_matches :: "external_event \<Rightarrow> connection_ref option \<Rightarrow> bool" where
  "event_matches value connection \<longleftrightarrow>
     (externalEventSubscription value = None \<or> connection \<noteq> None) \<and>
     (case value of XBaselineStart run d \<Rightarrow> validateBaselineDescriptor d (M0_LIMITS historyLines) \<noteq> None | _ \<Rightarrow> True) \<and>
     (case value of XRunEvent s (RevAppearance run seq a) \<Rightarrow> validateAppearance a \<noteq> None | _ \<Rightarrow> True) \<and>
     validateExternalEventBinding value connection"

definition matchingRefs :: "terminal_metadata \<Rightarrow> connection_ref option \<Rightarrow> bool" where
  "matchingRefs value connection \<longleftrightarrow>
     (if (case (md_run value, md_subscription value) of
            (Some run, Some s) \<Rightarrow> \<not> sameRunRef run (sr_run s) | _ \<Rightarrow> False) then False
      else if (case (connection, md_subscription value) of
            (Some c, Some s) \<Rightarrow> \<not> sameConnectionRef (sr_connection s) c | _ \<Rightarrow> False) then False
      else case value of
        TmEvent e \<Rightarrow> event_matches e connection
      | _ \<Rightarrow>
          if (case md_appearance value of None \<Rightarrow> False | Some a \<Rightarrow> validateAppearance a = None) then False
          else if (case value of
              TmError e \<Rightarrow>
                Some (de_code (tx_error e)) \<noteq> ERROR_CODES (de_kind (tx_error e)) \<or>
                (tx_commandType e = TInput \<and> de_kind (tx_error e) = ''RESULT_UNKNOWN'') \<noteq>
                  (de_subject (tx_error e) = Some SubjectInput)
            | _ \<Rightarrow> False)
          then False
          else True)"

text \<open>
  \<open>boundedJson\<close> is \<open>boundedJsonStructure\<close> of the decoded metadata; the \<open>zod_\<close> fields give it the shape of
  one of the unions, without the constraints.
\<close>

record 'j terminal_zod =
  tz_bounded :: "'j \<Rightarrow> bool"
  tz_command :: "'j \<Rightarrow> terminal_command option"
  tz_result :: "'j \<Rightarrow> terminal_result option"
  tz_event :: "'j \<Rightarrow> external_event option"
  tz_error :: "'j \<Rightarrow> terminal_error option"

definition safeParse :: "('j \<Rightarrow> 'a option) \<Rightarrow> ('a \<Rightarrow> bool) \<Rightarrow> ('a \<Rightarrow> 'm) \<Rightarrow> 'j \<Rightarrow> 'm option" where
  "safeParse shape schema wrap metadata =
     (case shape metadata of None \<Rightarrow> None | Some v \<Rightarrow> if schema v then Some (wrap v) else None)"

definition validateTerminalFrame ::
  "'j terminal_zod \<Rightarrow> byte_frame \<Rightarrow> 'j \<Rightarrow> connection_ref option \<Rightarrow> protocol_failure + terminal_metadata" where
  "validateTerminalFrame zod frame metadata connection =
     (if length (bf_metadata frame) > MAX_METADATA_BYTES \<or> length (bf_payload frame) > MAX_PAYLOAD_BYTES \<or>
         \<not> tz_bounded zod metadata
      then failure INVALID_METADATA 0
      else
        let parsed =
          (if bf_kind frame = 1 then safeParse (tz_command zod) TerminalCommandSchema TmCommand metadata
           else if bf_kind frame = 2 then safeParse (tz_result zod) TerminalResultSchema TmResult metadata
           else if bf_kind frame = 3 then safeParse (tz_event zod) ExternalTerminalEventSchema TmEvent metadata
           else if bf_kind frame = 4 then safeParse (tz_error zod) TerminalErrorSchema TmError metadata
           else None)
        in case parsed of
             None \<Rightarrow> failure INVALID_METADATA 0
           | Some value \<Rightarrow>
               if \<not> payloadAllowed value (bf_kind frame) (bf_payload frame) \<or>
                  \<not> matchingRefs value connection \<or>
                  (case value of
                     TmResult r \<Rightarrow> (case tr_body r of
                         RPreview status version previewId \<Rightarrow> (status = PreviewTransfer) \<noteq> (previewId \<noteq> None)
                       | _ \<Rightarrow> False)
                   | _ \<Rightarrow> False)
               then failure INVALID_METADATA 0
               else Inr value)"

fun command_resume :: "command_body \<Rightarrow> resume option" where
  "command_resume (CAttach _ _ _ _ r) = r"
| "command_resume (CRecover _ _ r) = r"
| "command_resume _ = None"

fun command_epoch :: "command_body \<Rightarrow> number option" where
  "command_epoch (CBlur _ e) = Some e"
| "command_epoch (CResize _ e _) = Some e"
| "command_epoch (CAppearance _ e _) = Some e"
| "command_epoch _ = None"

fun result_epoch :: "result_body \<Rightarrow> number option" where
  "result_epoch (RFocus _ e _) = Some e"
| "result_epoch (RBlur _ e _) = Some e"
| "result_epoch (RResize _ e _) = Some e"
| "result_epoch (RAppearance _ e _) = Some e"
| "result_epoch (RInput _ e _ _) = Some e"
| "result_epoch _ = None"

fun result_mode :: "result_body \<Rightarrow> (recovery_mode \<times> number) option" where
  "result_mode (RAttach _ m n) = Some (m, n)"
| "result_mode (RRecover _ m n) = Some (m, n)"
| "result_mode _ = None"

definition validateTerminalResultForCommand :: "terminal_command \<Rightarrow> terminal_result \<Rightarrow> bool" where
  "validateTerminalResultForCommand command result \<longleftrightarrow>
     (let c = tc_body command; r = tr_body result in
      if result_type_of r \<noteq> command_type_of c \<or> tr_requestId result \<noteq> tc_requestId command \<or>
         \<not> sameRunRef (tr_run result) (tc_run command)
      then False
      else if (case (command_subscription c, result_subscription r) of
          (Some s, Some t) \<Rightarrow> \<not> sameSubscriptionRef s t | _ \<Rightarrow> False)
      then False
      else if (case (c, r) of
          (CAttach connection viewId _ _ _, RAttach s _ _) \<Rightarrow>
            \<not> sameConnectionRef connection (sr_connection s) \<or> viewId \<noteq> sr_viewId s
        | _ \<Rightarrow> False)
      then False
      else if (command_type_of c = TAttach \<or> command_type_of c = TRecover) \<and> (case result_mode r of
          None \<Rightarrow> False
        | Some (mode, atSeq) \<Rightarrow>
            (mode = ModeReplay \<and> command_resume c = None) \<or>
            (case command_resume c of None \<Rightarrow> False | Some res \<Rightarrow> atSeq < rs_appliedSeq res))
      then False
      else case (c, r) of
          (CInput _ epoch inputSeq, RInput _ e n _) \<Rightarrow> n = inputSeq \<and> e = epoch
        | (CAppliedAck _ appliedSeq, RAppliedAck _ n) \<Rightarrow> n = appliedSeq
        | (CBaselineProgress _ baselineId lastParsedOrdinal, RBaselineProgress _ b n) \<Rightarrow>
            b = baselineId \<and> n = lastParsedOrdinal
        | _ \<Rightarrow> (case (command_epoch c, result_epoch r) of (Some e, Some f) \<Rightarrow> f = e | _ \<Rightarrow> True))"

subsection \<open>Properties\<close>

text \<open>
  The references of a value, read off its type: every field of type \<open>SubscriptionRef\<close> and every field of type \<open>RunRef\<close>, also inside a
  subscription, a baseline descriptor or the event of a delivery. The holder of control in a control event or a baseline is
  not a \<open>SubscriptionRef\<close>: it reports who controls the run, which may be any view.
\<close>

fun command_refs :: "command_body \<Rightarrow> subscription_ref list" where
  "command_refs (CAttach connection viewId profile encoding resume) = []"
| "command_refs (CDetach s) = [s]"
| "command_refs (CRecover s reason resume) = [s]"
| "command_refs (CFocus s focusSeq geometry appearance) = [s]"
| "command_refs (CBlur s epoch) = [s]"
| "command_refs (CResize s epoch geometry) = [s]"
| "command_refs (CAppearance s epoch appearance) = [s]"
| "command_refs (CInput s epoch inputSeq) = [s]"
| "command_refs (CAppliedAck s appliedSeq) = [s]"
| "command_refs (CBaselineProgress s baselineId ordinal) = [s]"
| "command_refs (CPreview version) = []"

fun result_refs :: "result_body \<Rightarrow> subscription_ref list" where
  "result_refs (RAttach s mode atSeq) = [s]"
| "result_refs (RDetach s) = [s]"
| "result_refs (RRecover s mode atSeq) = [s]"
| "result_refs (RFocus s epoch atSeq) = [s]"
| "result_refs (RBlur s epoch atSeq) = [s]"
| "result_refs (RResize s epoch atSeq) = [s]"
| "result_refs (RAppearance s epoch atSeq) = [s]"
| "result_refs (RInput s epoch inputSeq writtenBytes) = [s]"
| "result_refs (RAppliedAck s appliedSeq) = [s]"
| "result_refs (RBaselineProgress s baselineId ordinal) = [s]"
| "result_refs (RPreview status version previewId) = []"

fun event_refs :: "external_event \<Rightarrow> subscription_ref list" where
  "event_refs (XRunEvent s e) = [s]"
| "event_refs (XBaselineStart run d) = [bd_subscription d]"
| "event_refs (XBaselineChunk c) = [bk_subscription c]"
| "event_refs (XBaselineEnd e) = [be_subscription e]"
| "event_refs (XPreviewStart p) = []"
| "event_refs (XPreviewChunk p) = []"
| "event_refs (XPreviewEnd p) = []"
| "event_refs (XWorkerHealth run s h) = [s]"

fun event_runs :: "external_event \<Rightarrow> run_ref list" where
  "event_runs (XRunEvent s e) = [re_run e]"
| "event_runs (XBaselineStart run d) = [run, bd_run d]"
| "event_runs (XBaselineChunk c) = [bk_run c]"
| "event_runs (XBaselineEnd e) = [be_run e]"
| "event_runs (XPreviewStart p) = [ps_run p]"
| "event_runs (XPreviewChunk p) = [pk_run p]"
| "event_runs (XPreviewEnd p) = [pn_run p]"
| "event_runs (XWorkerHealth run s h) = [run]"

fun subscription_refs :: "terminal_metadata \<Rightarrow> subscription_ref list" where
  "subscription_refs (TmCommand c) = command_refs (tc_body c)"
| "subscription_refs (TmResult r) = result_refs (tr_body r)"
| "subscription_refs (TmEvent e) = event_refs e"
| "subscription_refs (TmError e) = []"

fun own_runs :: "terminal_metadata \<Rightarrow> run_ref list" where
  "own_runs (TmCommand c) = [tc_run c]"
| "own_runs (TmResult r) = [tr_run r]"
| "own_runs (TmEvent e) = event_runs e"
| "own_runs (TmError e) = [tx_run e]"

definition run_refs :: "terminal_metadata \<Rightarrow> run_ref list" where
  "run_refs md = own_runs md @ map sr_run (subscription_refs md)"

text \<open>The class of a frame and the values that come with bytes.\<close>

fun class_of :: "terminal_metadata \<Rightarrow> nat" where
  "class_of (TmCommand c) = 1"
| "class_of (TmResult r) = 2"
| "class_of (TmEvent e) = 3"
| "class_of (TmError e) = 4"

fun carries_bytes :: "terminal_metadata \<Rightarrow> bool" where
  "carries_bytes (TmCommand c) \<longleftrightarrow> (\<exists>s epoch inputSeq. tc_body c = CInput s epoch inputSeq)"
| "carries_bytes (TmEvent e) \<longleftrightarrow> (case e of XRunEvent s (RevOutput run seq) \<Rightarrow> True | XBaselineChunk c \<Rightarrow> True | XPreviewChunk p \<Rightarrow> True | _ \<Rightarrow> False)"
| "carries_bytes _ \<longleftrightarrow> False"

lemma validateTerminalFrame_Inr:
  assumes "validateTerminalFrame zod frame metadata connection = Inr md"
  shows "tz_bounded zod metadata \<and> bf_kind frame = class_of md \<and> payloadAllowed md (bf_kind frame) (bf_payload frame) \<and> matchingRefs md connection"
  using assms by (auto simp: validateTerminalFrame_def safeParse_def failure_def Let_def split: if_splits option.splits)

lemma payload_carried: "payloadAllowed md (class_of md) bytes \<Longrightarrow> bytes \<noteq> [] \<longleftrightarrow> carries_bytes md"
proof (cases md)
  case (TmCommand c)
  then show "payloadAllowed md (class_of md) bytes \<Longrightarrow> bytes \<noteq> [] \<longleftrightarrow> carries_bytes md"
    by (cases "tc_body c") (auto simp: payloadAllowed_def)
next
  case (TmEvent e)
  then show "payloadAllowed md (class_of md) bytes \<Longrightarrow> bytes \<noteq> [] \<longleftrightarrow> carries_bytes md"
    by (auto simp: payloadAllowed_def Suc_le_eq split: external_event.splits run_event.splits)
qed (simp_all add: payloadAllowed_def)

lemma matchingRefs_subscription:
  assumes "matchingRefs md connection" and "s \<in> set (subscription_refs md)"
  shows "(\<forall>c. connection = Some c \<longrightarrow> sr_connection s = c) \<and> (class_of md = 3 \<longrightarrow> connection \<noteq> None) \<and> (\<forall>run \<in> set (own_runs md). run = sr_run s)"
proof (cases md)
  case (TmCommand c)
  then show ?thesis using assms by (cases "tc_body c") (auto simp: matchingRefs_def split: if_splits)
next
  case (TmResult r)
  then show ?thesis using assms by (cases "tr_body r") (auto simp: matchingRefs_def split: if_splits)
next
  case (TmEvent e)
  then show ?thesis using assms by (cases e) (auto simp: matchingRefs_def on_connection_def split: if_splits)
qed (use assms in simp)

lemma matchingRefs_runs:
  assumes "matchingRefs md connection" and "run \<in> set (run_refs md)" and "run' \<in> set (run_refs md)"
  shows "run = run'"
proof (cases "subscription_refs md")
  case Nil
  have "own_runs md = [hd (own_runs md)]"
  proof (cases md)
    case (TmEvent e)
    then show ?thesis using Nil by (cases e) simp_all
  qed simp_all
  then show ?thesis using assms(2,3) Nil by (metis append_Nil2 empty_iff empty_set list.simps(8) run_refs_def set_ConsD)
next
  case (Cons s ss)
  have "ss = []"
  proof (cases md)
    case (TmCommand c)
    then show ?thesis using Cons by (cases "tc_body c") simp_all
  next
    case (TmResult r)
    then show ?thesis using Cons by (cases "tr_body r") simp_all
  next
    case (TmEvent e)
    then show ?thesis using Cons by (cases e) simp_all
  qed (use Cons in simp)
  then have "x = sr_run s" if "x \<in> set (run_refs md)" for x using matchingRefs_subscription [OF assms(1), of s] that Cons by (auto simp: run_refs_def)
  then show ?thesis using assms(2,3) by blast
qed

lemma result_of_command_subscription:
  "result_type_of r = command_type_of c \<Longrightarrow> command_subscription c = Some s \<Longrightarrow> \<exists>t. result_subscription r = Some t"
  by (cases c; cases r) auto



text \<open>C39. A result accepted for a command answers that request and nothing else: it repeats the request ID,
  the run, the command's type and, when the command has one, its subscription; a replay is accepted only
  for a command that offered a position, and no recovery starts before the position offered.\<close>

theorem terminal_result_answers_command:
  assumes "validateTerminalResultForCommand command result"
  shows "tr_requestId result = tc_requestId command \<and> tr_run result = tc_run command \<and>
    result_type_of (tr_body result) = command_type_of (tc_body command) \<and>
    (command_subscription (tc_body command) \<noteq> None \<longrightarrow>
       result_subscription (tr_body result) = command_subscription (tc_body command)) \<and>
    (case result_mode (tr_body result) of None \<Rightarrow> True
     | Some (mode, atSeq) \<Rightarrow> (case command_resume (tc_body command) of
         None \<Rightarrow> mode = ModeBaseline | Some res \<Rightarrow> rs_appliedSeq res \<le> atSeq))"
proof -
  let ?c = "tc_body command" and ?r = "tr_body result"
  have type: "result_type_of ?r = command_type_of ?c" and ids: "tr_requestId result = tc_requestId command"
      "tr_run result = tc_run command"
    and sub: "\<And>s t. command_subscription ?c = Some s \<Longrightarrow> result_subscription ?r = Some t \<Longrightarrow> s = t"
    and mode: "\<And>m n. command_type_of ?c = TAttach \<or> command_type_of ?c = TRecover \<Longrightarrow> result_mode ?r = Some (m, n) \<Longrightarrow>
      \<not> (m = ModeReplay \<and> command_resume ?c = None) \<and>
      (\<forall>res. command_resume ?c = Some res \<longrightarrow> \<not> n < rs_appliedSeq res)"
    using assms by (auto simp: validateTerminalResultForCommand_def Let_def split: if_splits option.splits)
  have "command_type_of ?c = TAttach \<or> command_type_of ?c = TRecover" if "result_mode ?r = Some (m, n)" for m n
    using that type by (cases ?r) auto
  then have "case result_mode ?r of None \<Rightarrow> True
     | Some (m, n) \<Rightarrow> (case command_resume ?c of None \<Rightarrow> m = ModeBaseline | Some res \<Rightarrow> rs_appliedSeq res \<le> n)"
    using mode by (auto split: option.splits) (metis recovery_mode.exhaust)+
  moreover have "result_subscription ?r = command_subscription ?c" if "command_subscription ?c \<noteq> None"
    using that result_of_command_subscription [OF type] sub by fastforce
  ultimately show ?thesis using type ids by simp
qed

theorem terminal_result_answers_command_witness:
  "let run = \<lparr>rr_serverId = ''s'', rr_relayInstanceId = ''i'', rr_runId = ''r''\<rparr>;
       s = \<lparr>sr_run = run, sr_connection = \<lparr>cr_connectionId = ''c'', cr_generation = 1\<rparr>,
         sr_subscriptionId = ''b'', sr_viewId = ''v''\<rparr>;
       command = \<lparr>tc_requestId = ''q'', tc_run = run, tc_body = CAppliedAck s 7\<rparr>;
       result = \<lparr>tr_requestId = ''q'', tr_run = run, tr_body = RAppliedAck s 7\<rparr>
   in validateTerminalResultForCommand command result \<and> tr_requestId result = tc_requestId command"
proof -
  let ?run = "\<lparr>rr_serverId = ''s'', rr_relayInstanceId = ''i'', rr_runId = ''r''\<rparr>"
  let ?s = "\<lparr>sr_run = ?run, sr_connection = \<lparr>cr_connectionId = ''c'', cr_generation = 1\<rparr>,
         sr_subscriptionId = ''b'', sr_viewId = ''v''\<rparr>"
  have v: "validateTerminalResultForCommand \<lparr>tc_requestId = ''q'', tc_run = ?run, tc_body = CAppliedAck ?s 7\<rparr>
      \<lparr>tr_requestId = ''q'', tr_run = ?run, tr_body = RAppliedAck ?s 7\<rparr>"
    by (simp add: validateTerminalResultForCommand_def)
  show ?thesis using v terminal_result_answers_command [OF v] by simp
qed

end
