(* ===== verification/Pipe_Protocol.thy ===== *)
theory Pipe_Protocol
  imports Terminal_Frames
begin

text \<open>
  The pipe between the server runtime and a terminal worker
  (\<^verbatim>\<open>packages/protocol/src/pipe-command.ts\<close>, \<^verbatim>\<open>packages/protocol/src/pipe.ts\<close>): handshake, heartbeat,
  commands, results, events and errors, and the validation both sides run on every frame. The receipts
  of programmatic input are from \<^verbatim>\<open>packages/protocol/src/workspace.ts\<close>. As on the terminal lane, giving
  decoded JSON the shape of one of the unions is zod's work and a parameter.
\<close>

subsection \<open>Input receipts\<close>

definition TAB_SEND_TEXT_BYTES :: number where "TAB_SEND_TEXT_BYTES = 4096"

datatype part_status = PartWritten | PartNotSent | PartPartial | PartUnknown

record input_part_receipt =
  ir_status :: part_status
  ir_requestedBytes :: number
  ir_writtenBytes :: number
  ir_unknownBytes :: number
  ir_reason :: "string option"

definition InputPartReceiptSchema :: "input_part_receipt \<Rightarrow> bool" where
  "InputPartReceiptSchema r \<longleftrightarrow>
     int_in 0 TAB_SEND_TEXT_BYTES (ir_requestedBytes r) \<and> int_in 0 TAB_SEND_TEXT_BYTES (ir_writtenBytes r) \<and>
     int_in 0 TAB_SEND_TEXT_BYTES (ir_unknownBytes r) \<and>
     optional (\<lambda>s. 1 \<le> length s \<and> length s \<le> 128) (ir_reason r) \<and>
     ir_writtenBytes r + ir_unknownBytes r \<le> ir_requestedBytes r \<and>
     (case ir_status r of
        PartWritten \<Rightarrow> ir_writtenBytes r = ir_requestedBytes r \<and> ir_unknownBytes r = 0
      | PartNotSent \<Rightarrow> ir_writtenBytes r = 0 \<and> ir_unknownBytes r = 0
      | PartPartial \<Rightarrow> ir_writtenBytes r > 0 \<and> ir_writtenBytes r < ir_requestedBytes r \<and> ir_unknownBytes r = 0
      | PartUnknown \<Rightarrow> ir_unknownBytes r > 0)"

definition inputPartReceipt :: "number \<Rightarrow> number \<Rightarrow> number \<Rightarrow> string option \<Rightarrow> input_part_receipt" where
  "inputPartReceipt requestedBytes writtenBytes unknownBytes reason =
     \<lparr>ir_status = (if unknownBytes > 0 then PartUnknown
        else if writtenBytes = requestedBytes then PartWritten
        else if writtenBytes > 0 then PartPartial else PartNotSent),
      ir_requestedBytes = requestedBytes, ir_writtenBytes = writtenBytes, ir_unknownBytes = unknownBytes,
      ir_reason = (case reason of None \<Rightarrow> None | Some r \<Rightarrow> if r = [] then None else Some (take 128 r))\<rparr>"

record tab_input_receipt =
  ti_text :: input_part_receipt
  ti_submit :: "input_part_receipt option"

definition TabInputReceiptSchema :: "tab_input_receipt \<Rightarrow> bool" where
  "TabInputReceiptSchema r \<longleftrightarrow> InputPartReceiptSchema (ti_text r) \<and> optional InputPartReceiptSchema (ti_submit r) \<and>
     (case ti_submit r of None \<Rightarrow> True
      | Some s \<Rightarrow> ir_requestedBytes s = 1 \<and>
          (ir_status (ti_text r) = PartWritten \<or> ir_status s = PartNotSent \<or>
           (ir_status (ti_text r) = PartUnknown \<and> ir_status s = PartUnknown)))"

subsection \<open>Handshake and heartbeat\<close>

definition PIPE_VERSION :: number where "PIPE_VERSION = 2"
definition PIPE_ROUTE_CONTROL_COMMANDS :: nat where "PIPE_ROUTE_CONTROL_COMMANDS = 4"
definition PIPE_ROUTE_CONTROL_FRAME_BYTES :: nat where
  "PIPE_ROUTE_CONTROL_FRAME_BYTES = HEADER_BYTES + MAX_METADATA_BYTES"
definition PIPE_PREPAID_ROUTE_CONTROL_BYTES :: nat where
  "PIPE_PREPAID_ROUTE_CONTROL_BYTES = PIPE_ROUTE_CONTROL_COMMANDS * PIPE_ROUTE_CONTROL_FRAME_BYTES"
definition PIPE_HEARTBEAT_INTERVAL_MS :: number where "PIPE_HEARTBEAT_INTERVAL_MS = 1000"
definition PIPE_LIVENESS_WINDOW_MS :: number where "PIPE_LIVENESS_WINDOW_MS = 120000"
definition PIPE_LIVENESS_MIN_HEARTBEATS :: number where "PIPE_LIVENESS_MIN_HEARTBEATS = 3"
definition PIPE_HEARTBEAT_FRAME_BYTES :: nat where
  "PIPE_HEARTBEAT_FRAME_BYTES = HEADER_BYTES + MAX_METADATA_BYTES"

definition build_ok :: "string \<Rightarrow> bool" where "build_ok s \<longleftrightarrow> 1 \<le> length s \<and> length s \<le> 128"

record pipe_hello =
  ph_worker :: worker_ref
  ph_pipeVersion :: number
  ph_buildVersion :: string
  ph_effectiveBudgets :: budgets

definition PipeHelloSchema :: "pipe_hello \<Rightarrow> bool" where
  "PipeHelloSchema h \<longleftrightarrow> WorkerRefSchema (ph_worker h) \<and> ph_pipeVersion h = PIPE_VERSION \<and>
     build_ok (ph_buildVersion h) \<and> EffectiveBudgetsSchema (ph_effectiveBudgets h)"

record pipe_ready =
  py_worker :: worker_ref
  py_pipeVersion :: number
  py_buildVersion :: string
  py_effectiveBudgets :: budgets

definition PipeReadySchema :: "pipe_ready \<Rightarrow> bool" where
  "PipeReadySchema r \<longleftrightarrow> WorkerRefSchema (py_worker r) \<and> py_pipeVersion r = PIPE_VERSION \<and>
     build_ok (py_buildVersion r) \<and> EffectiveBudgetsSchema (py_effectiveBudgets r)"

record worker_load =
  ld_windowMs :: number
  ld_eventLoopDelayP99Ms :: number
  ld_eventLoopDelayMaxMs :: number
  ld_cpuPercent :: "number option"
  ld_parseBacklogBytes :: number
  ld_executingCommands :: number

definition loadMs :: "number \<Rightarrow> bool" where "loadMs n \<longleftrightarrow> int_in 0 3600000 n"

definition WorkerLoadSchema :: "worker_load \<Rightarrow> bool" where
  "WorkerLoadSchema l \<longleftrightarrow> loadMs (ld_windowMs l) \<and> loadMs (ld_eventLoopDelayP99Ms l) \<and>
     loadMs (ld_eventLoopDelayMaxMs l) \<and> optional (int_in 0 100) (ld_cpuPercent l) \<and>
     int_in 0 MAX_SAFE_INTEGER (ld_parseBacklogBytes l) \<and> int_in 0 65536 (ld_executingCommands l)"

record pipe_heartbeat =
  hb_worker :: worker_ref
  hb_load :: worker_load

definition PipeHeartbeatSchema :: "pipe_heartbeat \<Rightarrow> bool" where
  "PipeHeartbeatSchema h \<longleftrightarrow> WorkerRefSchema (hb_worker h) \<and> WorkerLoadSchema (hb_load h)"

subsection \<open>Commands\<close>

record spawn_command =
  sc_executable :: string
  sc_argv :: "string list"
  sc_cwd :: string

definition SpawnCommandSchema :: "spawn_command \<Rightarrow> bool" where
  "SpawnCommandSchema c \<longleftrightarrow> 1 \<le> length (sc_executable c) \<and> int (length (sc_executable c)) \<le> M0_LIMITS executableBytes \<and>
     int (length (sc_argv c)) \<le> M0_LIMITS argvCount \<and>
     1 \<le> length (sc_cwd c) \<and> int (length (sc_cwd c)) \<le> M0_LIMITS cwdBytes"

definition SPAWN_ENV_VALUE_CHARS :: nat where "SPAWN_ENV_VALUE_CHARS = 128"
definition SPAWN_ENV_PAYLOAD_BYTES :: number where "SPAWN_ENV_PAYLOAD_BYTES = 1024"
definition SPAWN_PAYLOAD_BYTES :: number where
  "SPAWN_PAYLOAD_BYTES = M0_LIMITS argvBytes + SPAWN_ENV_PAYLOAD_BYTES"

definition SpawnEnvValueSchema :: "string \<Rightarrow> bool" where
  "SpawnEnvValueSchema v \<longleftrightarrow> 1 \<le> length v \<and> length v \<le> SPAWN_ENV_VALUE_CHARS \<and>
     list_all (\<lambda>c. (0x20 :: nat) \<le> of_char c \<and> of_char c \<le> (0x7e :: nat)) v"

record spawn_env =
  se_taskId :: "string option"
  se_tabId :: "string option"

definition SpawnEnvSchema :: "spawn_env \<Rightarrow> bool" where
  "SpawnEnvSchema e \<longleftrightarrow> optional SpawnEnvValueSchema (se_taskId e) \<and> optional SpawnEnvValueSchema (se_tabId e)"

datatype pipe_body =
    PSpawn ident geometry string appearance budgets number
  | PStop ident
  | PSetControl number number "control_holder option" geometry "appearance option"
  | PInput subscription_ref number number
  | PProgrammatic ident number number bool
  | PResize subscription_ref number geometry
  | PAppearance subscription_ref number appearance
  | PSubscribe subscription_ref number
  | PRecover subscription_ref "number option"
  | PUnsubscribe subscription_ref
  | PAppliedAck subscription_ref number
  | PBaselineProgress subscription_ref ident number
  | PStatus
  | PPreviewRefresh "number option"

record pipe_command =
  pc_worker :: worker_ref
  pc_run :: run_ref
  pc_requestId :: ident
  pc_body :: pipe_body

fun pipe_body_ok :: "pipe_body \<Rightarrow> bool" where
  "pipe_body_ok (PSpawn operationId geometry profile appearance effectiveBudgets spawnPayloadBytes) \<longleftrightarrow>
     OpaqueIdSchema operationId \<and> GeometrySchema geometry \<and> ProfileSchema profile \<and> AppearanceSchema appearance \<and>
     EffectiveBudgetsSchema effectiveBudgets \<and> int_in 1 SPAWN_PAYLOAD_BYTES spawnPayloadBytes"
| "pipe_body_ok (PStop operationId) \<longleftrightarrow> OpaqueIdSchema operationId"
| "pipe_body_ok (PSetControl expectedEpoch nextEpoch holder geometry appearance) \<longleftrightarrow>
     SequenceSchema expectedEpoch \<and> epoch_ok nextEpoch \<and> optional ControlHolderSchema holder \<and>
     GeometrySchema geometry \<and> optional AppearanceSchema appearance"
| "pipe_body_ok (PInput s epoch inputSeq) \<longleftrightarrow> SubscriptionRefSchema s \<and> epoch_ok epoch \<and> epoch_ok inputSeq"
| "pipe_body_ok (PProgrammatic operationId epoch textBytes submit) \<longleftrightarrow>
     OpaqueIdSchema operationId \<and> SequenceSchema epoch \<and> int_in 0 TAB_SEND_TEXT_BYTES textBytes"
| "pipe_body_ok (PResize s epoch geometry) \<longleftrightarrow> SubscriptionRefSchema s \<and> epoch_ok epoch \<and> GeometrySchema geometry"
| "pipe_body_ok (PAppearance s epoch appearance) \<longleftrightarrow>
     SubscriptionRefSchema s \<and> epoch_ok epoch \<and> AppearanceSchema appearance"
| "pipe_body_ok (PSubscribe s atSeq) \<longleftrightarrow> SubscriptionRefSchema s \<and> SequenceSchema atSeq"
| "pipe_body_ok (PRecover s appliedSeq) \<longleftrightarrow> SubscriptionRefSchema s \<and> optional SequenceSchema appliedSeq"
| "pipe_body_ok (PUnsubscribe s) \<longleftrightarrow> SubscriptionRefSchema s"
| "pipe_body_ok (PAppliedAck s appliedSeq) \<longleftrightarrow> SubscriptionRefSchema s \<and> SequenceSchema appliedSeq"
| "pipe_body_ok (PBaselineProgress s baselineId lastParsedOrdinal) \<longleftrightarrow> SubscriptionRefSchema s \<and>
     OpaqueIdSchema baselineId \<and> int_in 0 (M0_LIMITS baselineChunks - 1) lastParsedOrdinal"
| "pipe_body_ok PStatus \<longleftrightarrow> True"
| "pipe_body_ok (PPreviewRefresh knownVersion) \<longleftrightarrow> optional SequenceSchema knownVersion"

definition PipeCommandSchema :: "pipe_command \<Rightarrow> bool" where
  "PipeCommandSchema c \<longleftrightarrow> WorkerRefSchema (pc_worker c) \<and> RunRefSchema (pc_run c) \<and>
     OpaqueIdSchema (pc_requestId c) \<and> pipe_body_ok (pc_body c)"

datatype pipe_command_type =
    PTSpawn | PTStop | PTSetControl | PTInput | PTProgrammatic | PTResize | PTAppearance | PTSubscribe
  | PTRecover | PTUnsubscribe | PTAppliedAck | PTBaselineProgress | PTStatus | PTPreviewRefresh

fun pipe_type_of :: "pipe_body \<Rightarrow> pipe_command_type" where
  "pipe_type_of (PSpawn _ _ _ _ _ _) = PTSpawn"
| "pipe_type_of (PStop _) = PTStop"
| "pipe_type_of (PSetControl _ _ _ _ _) = PTSetControl"
| "pipe_type_of (PInput _ _ _) = PTInput"
| "pipe_type_of (PProgrammatic _ _ _ _) = PTProgrammatic"
| "pipe_type_of (PResize _ _ _) = PTResize"
| "pipe_type_of (PAppearance _ _ _) = PTAppearance"
| "pipe_type_of (PSubscribe _ _) = PTSubscribe"
| "pipe_type_of (PRecover _ _) = PTRecover"
| "pipe_type_of (PUnsubscribe _) = PTUnsubscribe"
| "pipe_type_of (PAppliedAck _ _) = PTAppliedAck"
| "pipe_type_of (PBaselineProgress _ _ _) = PTBaselineProgress"
| "pipe_type_of PStatus = PTStatus"
| "pipe_type_of (PPreviewRefresh _) = PTPreviewRefresh"

subsection \<open>Results, events and errors\<close>

datatype run_status_kind = RunLive | RunUnverifiable | RunExited
datatype recovery_state = RecoveryReady | RecoveryWaitingCheckpoint | RecoveryUnavailable

record run_status =
  st_run :: run_ref
  st_status :: run_status_kind
  st_geometry :: geometry
  st_controlEpoch :: number
  st_controlHolder :: "control_holder option"
  st_receivedSeq :: "number option"
  st_parsedSeq :: "number option"
  st_recovery :: recovery_state
  st_reason :: "string option"
  st_exitCode :: "number option"
  st_signal :: "string option"

definition RunStatusSchema :: "run_status \<Rightarrow> bool" where
  "RunStatusSchema s \<longleftrightarrow> RunRefSchema (st_run s) \<and> GeometrySchema (st_geometry s) \<and> SequenceSchema (st_controlEpoch s) \<and>
     optional ControlHolderSchema (st_controlHolder s) \<and> optional SequenceSchema (st_receivedSeq s) \<and>
     optional SequenceSchema (st_parsedSeq s) \<and> optional (\<lambda>r. length r \<le> 128) (st_reason s) \<and>
     optional (\<lambda>r. length r \<le> 64) (st_signal s)"

datatype pipe_outcome = OutcomeAccepted | OutcomeRejected | OutcomeUnknown

record pipe_result =
  pr_worker :: worker_ref
  pr_run :: run_ref
  pr_requestId :: ident
  pr_commandType :: pipe_command_type
  pr_outcome :: pipe_outcome
  pr_recoveryMode :: "recovery_mode option"
  pr_operationId :: "ident option"
  pr_atSeq :: "number option"
  pr_inputSeq :: "number option"
  pr_input :: "tab_input_receipt option"
  pr_writtenBytes :: "number option"
  pr_runStatus :: "run_status option"
  pr_previewVersion :: "number option"

definition PipeResultSchema :: "pipe_result \<Rightarrow> bool" where
  "PipeResultSchema r \<longleftrightarrow> WorkerRefSchema (pr_worker r) \<and> RunRefSchema (pr_run r) \<and> OpaqueIdSchema (pr_requestId r) \<and>
     optional OpaqueIdSchema (pr_operationId r) \<and> optional SequenceSchema (pr_atSeq r) \<and>
     optional SequenceSchema (pr_inputSeq r) \<and> optional TabInputReceiptSchema (pr_input r) \<and>
     optional (int_in 1 65536) (pr_writtenBytes r) \<and> optional RunStatusSchema (pr_runStatus r) \<and>
     optional SequenceSchema (pr_previewVersion r)"

record pipe_event =
  pv_worker :: worker_ref
  pv_run :: run_ref
  pv_subscription :: "subscription_ref option"
  pv_terminal :: terminal_event

definition PipeEventSchema :: "pipe_event \<Rightarrow> bool" where
  "PipeEventSchema e \<longleftrightarrow> WorkerRefSchema (pv_worker e) \<and> RunRefSchema (pv_run e) \<and>
     optional SubscriptionRefSchema (pv_subscription e) \<and> TerminalEventSchema (pv_terminal e)"

record pipe_error =
  px_worker :: worker_ref
  px_run :: run_ref
  px_requestId :: ident
  px_commandType :: pipe_command_type
  px_error :: domain_error

definition PipeErrorSchema :: "pipe_error \<Rightarrow> bool" where
  "PipeErrorSchema e \<longleftrightarrow> WorkerRefSchema (px_worker e) \<and> RunRefSchema (px_run e) \<and>
     OpaqueIdSchema (px_requestId e) \<and> DomainErrorSchema (px_error e)"

datatype pipe_metadata =
    PmHello pipe_hello | PmReady pipe_ready | PmHeartbeat pipe_heartbeat | PmCommand pipe_command
  | PmResult pipe_result | PmEvent pipe_event | PmError pipe_error

subsection \<open>Receipts\<close>

text \<open>C40. A receipt built from confirmed counts (a written and an unknown part of at most the request)
  passes the schema, and its status says exactly what happened: unknown when any byte is unknown, else
  written, partial or not sent according to the confirmed prefix.\<close>

theorem input_part_receipt_wellformed:
  assumes "0 \<le> w" and "0 \<le> u" and "w + u \<le> req" and "req \<le> 4096"
  shows "InputPartReceiptSchema (inputPartReceipt req w u reason) \<and>
    (ir_status (inputPartReceipt req w u reason) = PartWritten \<longleftrightarrow> w = req \<and> u = 0) \<and>
    (ir_status (inputPartReceipt req w u reason) = PartNotSent \<longleftrightarrow> w = 0 \<and> u = 0 \<and> req \<noteq> 0) \<and>
    (ir_status (inputPartReceipt req w u reason) = PartUnknown \<longleftrightarrow> 0 < u)"
  using assms by (auto simp: InputPartReceiptSchema_def inputPartReceipt_def int_in_def TAB_SEND_TEXT_BYTES_def
      optional_def Suc_le_eq split: option.splits)

theorem input_part_receipt_wellformed_witness:
  "InputPartReceiptSchema (inputPartReceipt 10 4 0 (Some ''x'')) \<and>
   ir_status (inputPartReceipt 10 4 0 (Some ''x'')) = PartPartial"
  using input_part_receipt_wellformed [of 4 0 10 "Some ''x''"] by (simp add: inputPartReceipt_def)

end
