(* ===== verification/Pipe_Frames.thy ===== *)
theory Pipe_Frames
  imports Pipe_Protocol
begin

text \<open>
  Validation of pipe frames, of the handshake and of results against their commands
  (\<^verbatim>\<open>packages/protocol/src/pipe.ts\<close>).
\<close>

definition PIPE_LANE :: nat where "PIPE_LANE = 4"
definition PIPE_REVISION :: nat where "PIPE_REVISION = 2"

definition createPipeDecoder :: frame_decoder where
  "createPipeDecoder = new_decoder PIPE_LANE PIPE_REVISION"

definition encodePipeFrame :: "nat \<Rightarrow> byte list \<Rightarrow> byte list \<Rightarrow> protocol_failure + byte list" where
  "encodePipeFrame frameClass metadata payload = encodeFrame PIPE_LANE PIPE_REVISION frameClass metadata payload"

fun carries_bytes :: "terminal_event \<Rightarrow> bool" where
  "carries_bytes (TeRun (RevOutput _ _)) \<longleftrightarrow> True"
| "carries_bytes (TeBaselineChunk _) \<longleftrightarrow> True"
| "carries_bytes (TePreviewChunk _) \<longleftrightarrow> True"
| "carries_bytes _ \<longleftrightarrow> False"

definition validPayload :: "pipe_metadata \<Rightarrow> byte list \<Rightarrow> bool" where
  "validPayload m payload \<longleftrightarrow> (case m of
     PmCommand c \<Rightarrow> (case pc_body c of
         PSpawn _ _ _ _ _ spawnPayloadBytes \<Rightarrow> int (length payload) = spawnPayloadBytes
       | PInput _ _ _ \<Rightarrow> length payload \<ge> 1
       | PProgrammatic _ _ textBytes submit \<Rightarrow> int (length payload) = textBytes \<and> (textBytes > 0 \<or> submit)
       | _ \<Rightarrow> length payload = 0)
   | PmResult r \<Rightarrow>
       if (pr_commandType r = PTProgrammatic) \<noteq> (pr_input r \<noteq> None) then False else length payload = 0
   | PmEvent e \<Rightarrow> if carries_bytes (pv_terminal e) then length payload \<ge> 1 else length payload = 0
   | _ \<Rightarrow> length payload = 0)"

fun pm_budgets :: "pipe_metadata \<Rightarrow> budgets option" where
  "pm_budgets (PmHello h) = Some (ph_effectiveBudgets h)"
| "pm_budgets (PmReady r) = Some (py_effectiveBudgets r)"
| "pm_budgets (PmCommand c) = (case pc_body c of PSpawn _ _ _ _ b _ \<Rightarrow> Some b | _ \<Rightarrow> None)"
| "pm_budgets _ = None"

fun pm_worker :: "pipe_metadata \<Rightarrow> worker_ref" where
  "pm_worker (PmHello h) = ph_worker h"
| "pm_worker (PmReady r) = py_worker r"
| "pm_worker (PmHeartbeat h) = hb_worker h"
| "pm_worker (PmCommand c) = pc_worker c"
| "pm_worker (PmResult r) = pr_worker r"
| "pm_worker (PmEvent e) = pv_worker e"
| "pm_worker (PmError e) = px_worker e"

fun pm_run :: "pipe_metadata \<Rightarrow> run_ref option" where
  "pm_run (PmCommand c) = Some (pc_run c)"
| "pm_run (PmResult r) = Some (pr_run r)"
| "pm_run (PmEvent e) = Some (pv_run e)"
| "pm_run (PmError e) = Some (px_run e)"
| "pm_run _ = None"

fun pipe_body_subscription :: "pipe_body \<Rightarrow> subscription_ref option" where
  "pipe_body_subscription (PInput s _ _) = Some s"
| "pipe_body_subscription (PResize s _ _) = Some s"
| "pipe_body_subscription (PAppearance s _ _) = Some s"
| "pipe_body_subscription (PSubscribe s _) = Some s"
| "pipe_body_subscription (PRecover s _) = Some s"
| "pipe_body_subscription (PUnsubscribe s) = Some s"
| "pipe_body_subscription (PAppliedAck s _) = Some s"
| "pipe_body_subscription (PBaselineProgress s _ _) = Some s"
| "pipe_body_subscription _ = None"

fun pm_subscription :: "pipe_metadata \<Rightarrow> subscription_ref option" where
  "pm_subscription (PmCommand c) = pipe_body_subscription (pc_body c)"
| "pm_subscription (PmEvent e) = pv_subscription e"
| "pm_subscription _ = None"

fun pm_appearance :: "pipe_metadata \<Rightarrow> appearance option" where
  "pm_appearance (PmCommand c) = (case pc_body c of
     PSpawn _ _ _ a _ _ \<Rightarrow> Some a | PAppearance _ _ a \<Rightarrow> Some a | PSetControl _ _ _ _ a \<Rightarrow> a | _ \<Rightarrow> None)"
| "pm_appearance _ = None"

fun embedded_subscription :: "terminal_event \<Rightarrow> subscription_ref option" where
  "embedded_subscription (TeBaselineStart run d) = Some (bd_subscription d)"
| "embedded_subscription (TeBaselineChunk c) = Some (bk_subscription c)"
| "embedded_subscription (TeBaselineEnd e) = Some (be_subscription e)"
| "embedded_subscription _ = None"

definition needs_subscription :: "terminal_event \<Rightarrow> bool" where
  "needs_subscription t \<longleftrightarrow> (case t of TeRun e \<Rightarrow> True | _ \<Rightarrow> embedded_subscription t \<noteq> None)"

definition result_identity_ok :: "pipe_result \<Rightarrow> bool" where
  "result_identity_ok r \<longleftrightarrow> \<not>
     ((case pr_runStatus r of None \<Rightarrow> False | Some st \<Rightarrow> \<not> sameRunRef (pr_run r) (st_run st)) \<or>
      (pr_commandType r = PTStatus \<and> pr_outcome r = OutcomeAccepted \<and> pr_runStatus r = None) \<or>
      ((pr_commandType r = PTSubscribe \<or> pr_commandType r = PTRecover) \<and> pr_outcome r = OutcomeAccepted \<and>
        (pr_atSeq r = None \<or> pr_recoveryMode r = None)) \<or>
      (pr_commandType r \<noteq> PTSubscribe \<and> pr_commandType r \<noteq> PTRecover \<and> pr_recoveryMode r \<noteq> None) \<or>
      ((pr_commandType r = PTSubscribe \<or> pr_commandType r = PTRecover) \<and> pr_outcome r \<noteq> OutcomeAccepted \<and>
        pr_recoveryMode r \<noteq> None) \<or>
      (pr_commandType r = PTInput \<and> pr_outcome r = OutcomeAccepted \<and>
        (pr_inputSeq r = None \<or> pr_writtenBytes r = None)))"

definition event_identity_ok :: "pipe_event \<Rightarrow> bool" where
  "event_identity_ok e \<longleftrightarrow>
     (if \<not> sameRunRef (pv_run e) (te_run (pv_terminal e)) then False
      else if needs_subscription (pv_terminal e) \<noteq> (pv_subscription e \<noteq> None) then False
      else if (case pv_subscription e of None \<Rightarrow> False
               | Some s \<Rightarrow> \<not> sameRunRef (pv_run e) (sr_run s) \<or>
                   (case embedded_subscription (pv_terminal e) of None \<Rightarrow> False
                    | Some t \<Rightarrow> \<not> sameSubscriptionRef s t)) then False
      else if (case pv_terminal e of
                 TeBaselineStart run d \<Rightarrow> validateBaselineDescriptor d (M0_LIMITS historyLines) = None
               | _ \<Rightarrow> False) then False
      else if \<not> validateEventBinding (pv_terminal e) then False
      else if (case pv_terminal e of TeRun (RevAppearance run seq a) \<Rightarrow> validateAppearance a = None | _ \<Rightarrow> False)
      then False
      else True)"

definition validIdentity :: "pipe_metadata \<Rightarrow> bool" where
  "validIdentity m \<longleftrightarrow>
     (if (case pm_budgets m of None \<Rightarrow> False | Some b \<Rightarrow> validateEffectiveBudgets b = None) then False
      else if (case pm_run m of None \<Rightarrow> False | Some run \<Rightarrow> \<not> workerMatchesRun (pm_worker m) run) then False
      else if (case (pm_run m, pm_subscription m) of
                 (Some run, Some s) \<Rightarrow> \<not> sameRunRef run (sr_run s) | _ \<Rightarrow> False) then False
      else if (case m of
                 PmCommand c \<Rightarrow> (case pc_body c of
                     PSetControl expectedEpoch nextEpoch holder _ _ \<Rightarrow> holder \<noteq> None \<and>
                       (expectedEpoch = MAX_SAFE_INTEGER \<or> nextEpoch \<noteq> expectedEpoch + 1)
                   | _ \<Rightarrow> False)
               | _ \<Rightarrow> False) then False
      else if (case m of PmResult r \<Rightarrow> \<not> result_identity_ok r | _ \<Rightarrow> False) then False
      else if (case m of PmEvent e \<Rightarrow> \<not> event_identity_ok e | _ \<Rightarrow> False) then False
      else if (case pm_appearance m of None \<Rightarrow> False | Some a \<Rightarrow> validateAppearance a = None) then False
      else if (case m of
                 PmError e \<Rightarrow>
                   Some (de_code (px_error e)) \<noteq> ERROR_CODES (de_kind (px_error e)) \<or>
                   (px_commandType e = PTInput \<and> de_kind (px_error e) = ''RESULT_UNKNOWN'') \<noteq>
                     (de_subject (px_error e) = Some SubjectInput)
               | _ \<Rightarrow> False) then False
      else True)"

record 'j pipe_zod =
  pz_bounded :: "'j \<Rightarrow> bool"
  pz_hello :: "'j \<Rightarrow> pipe_hello option"
  pz_command :: "'j \<Rightarrow> pipe_command option"
  pz_ready :: "'j \<Rightarrow> pipe_ready option"
  pz_heartbeat :: "'j \<Rightarrow> pipe_heartbeat option"
  pz_result :: "'j \<Rightarrow> pipe_result option"
  pz_event :: "'j \<Rightarrow> pipe_event option"
  pz_error :: "'j \<Rightarrow> pipe_error option"

text \<open>\<open>z.union\<close>: the first member that parses.\<close>

definition union_parse :: "'m option list \<Rightarrow> 'm option" where
  "union_parse ps = (case filter (\<lambda>p. \<not> Option.is_none p) ps of [] \<Rightarrow> None | p # _ \<Rightarrow> p)"

definition validatePipeFrame :: "'j pipe_zod \<Rightarrow> byte_frame \<Rightarrow> 'j \<Rightarrow> protocol_failure + pipe_metadata" where
  "validatePipeFrame zod frame metadata =
     (if length (bf_metadata frame) > MAX_METADATA_BYTES \<or> length (bf_payload frame) > MAX_PAYLOAD_BYTES \<or>
         \<not> pz_bounded zod metadata
      then failure INVALID_METADATA 0
      else
        let parsed =
          (if bf_kind frame = 1 then union_parse
             [safeParse (pz_hello zod) PipeHelloSchema PmHello metadata,
              safeParse (pz_command zod) PipeCommandSchema PmCommand metadata]
           else if bf_kind frame = 2 then union_parse
             [safeParse (pz_ready zod) PipeReadySchema PmReady metadata,
              safeParse (pz_heartbeat zod) PipeHeartbeatSchema PmHeartbeat metadata,
              safeParse (pz_result zod) PipeResultSchema PmResult metadata]
           else if bf_kind frame = 3 then safeParse (pz_event zod) PipeEventSchema PmEvent metadata
           else if bf_kind frame = 4 then safeParse (pz_error zod) PipeErrorSchema PmError metadata
           else None)
        in case parsed of
             None \<Rightarrow> failure INVALID_METADATA 0
           | Some m \<Rightarrow>
               if \<not> validPayload m (bf_payload frame) \<or> \<not> validIdentity m
               then failure INVALID_METADATA 0 else Inr m)"

definition validatePipeReadiness :: "pipe_hello \<Rightarrow> pipe_ready \<Rightarrow> bool" where
  "validatePipeReadiness hello ready \<longleftrightarrow>
     validateEffectiveBudgets (ph_effectiveBudgets hello) \<noteq> None \<and>
     validateEffectiveBudgets (py_effectiveBudgets ready) \<noteq> None \<and>
     sameWorkerRef (ph_worker hello) (py_worker ready) \<and>
     ph_pipeVersion hello = py_pipeVersion ready \<and>
     list_all (\<lambda>key. ph_effectiveBudgets hello key = py_effectiveBudgets ready key) m0_keys"

datatype pipe_reply = ReplyResult pipe_result | ReplyError pipe_error

fun reply_header :: "pipe_reply \<Rightarrow> worker_ref \<times> run_ref \<times> ident \<times> pipe_command_type" where
  "reply_header (ReplyResult r) = (pr_worker r, pr_run r, pr_requestId r, pr_commandType r)"
| "reply_header (ReplyError e) = (px_worker e, px_run e, px_requestId e, px_commandType e)"

definition recovery_reply_ok :: "pipe_command \<Rightarrow> pipe_result \<Rightarrow> bool" where
  "recovery_reply_ok command r \<longleftrightarrow>
     (let recovery = pipe_type_of (pc_body command) = PTSubscribe \<or> pipe_type_of (pc_body command) = PTRecover in
      if (recovery \<and> pr_outcome r = OutcomeAccepted \<and> (pr_recoveryMode r = None \<or> pr_atSeq r = None)) \<or>
         (\<not> recovery \<and> pr_recoveryMode r \<noteq> None) \<or>
         (recovery \<and> pr_outcome r \<noteq> OutcomeAccepted \<and> pr_recoveryMode r \<noteq> None)
      then False
      else if (case pc_body command of
                 PSubscribe _ atSeq \<Rightarrow> pr_outcome r = OutcomeAccepted \<and> the (pr_atSeq r) < atSeq
               | _ \<Rightarrow> False) then False
      else if (case pc_body command of
                 PRecover _ appliedSeq \<Rightarrow> pr_outcome r = OutcomeAccepted \<and>
                   ((pr_recoveryMode r = Some ModeReplay \<and> appliedSeq = None) \<or>
                    (case appliedSeq of None \<Rightarrow> False | Some n \<Rightarrow> the (pr_atSeq r) < n))
               | _ \<Rightarrow> False) then False
      else True)"

definition programmatic_reply_ok :: "pipe_command \<Rightarrow> pipe_result \<Rightarrow> bool" where
  "programmatic_reply_ok command r \<longleftrightarrow> (case pc_body command of
     PProgrammatic operationId _ textBytes submit \<Rightarrow>
       (case pr_input r of None \<Rightarrow> False
        | Some input \<Rightarrow>
            pr_operationId r = Some operationId \<and>
            ir_requestedBytes (ti_text input) = textBytes \<and>
            (ti_submit input \<noteq> None) = submit \<and>
            (pr_outcome r = OutcomeAccepted) =
              (ir_status (ti_text input) = PartWritten \<and>
               (case ti_submit input of None \<Rightarrow> True | Some s \<Rightarrow> ir_status s = PartWritten)))
   | _ \<Rightarrow> True)"

definition validatePipeResultForCommand :: "pipe_command \<Rightarrow> pipe_reply \<Rightarrow> bool" where
  "validatePipeResultForCommand command reply \<longleftrightarrow>
     (if (case reply_header reply of (worker, run, requestId, commandType) \<Rightarrow>
            \<not> sameWorkerRef (pc_worker command) worker \<or> \<not> sameRunRef (pc_run command) run \<or>
            pc_requestId command \<noteq> requestId \<or> pipe_type_of (pc_body command) \<noteq> commandType)
      then False
      else case reply of
        ReplyError e \<Rightarrow> True
      | ReplyResult r \<Rightarrow>
          if \<not> recovery_reply_ok command r then False
          else if \<not> programmatic_reply_ok command r then False
          else if (case pc_body command of
                     PSpawn operationId _ _ _ _ _ \<Rightarrow> pr_operationId r \<noteq> Some operationId
                   | PStop operationId \<Rightarrow> pr_operationId r \<noteq> Some operationId
                   | _ \<Rightarrow> False) then False
          else if (case pc_body command of PInput _ _ inputSeq \<Rightarrow> pr_inputSeq r \<noteq> Some inputSeq | _ \<Rightarrow> False) then False
          else if (case pc_body command of
                     PInput _ _ _ \<Rightarrow> pr_outcome r = OutcomeAccepted \<and> pr_writtenBytes r = None | _ \<Rightarrow> False) then False
          else if (case pr_runStatus r of None \<Rightarrow> False | Some st \<Rightarrow> \<not> sameRunRef (pc_run command) (st_run st)) then False
          else if (case pc_body command of
                     PStatus \<Rightarrow> pr_outcome r = OutcomeAccepted \<and> pr_runStatus r = None | _ \<Rightarrow> False) then False
          else True)"

subsection \<open>Properties\<close>

text \<open>The subscriptions an accepted frame names: its own and the one inside a baseline event.\<close>

definition pm_subscriptions :: "pipe_metadata \<Rightarrow> subscription_ref list" where
  "pm_subscriptions m = (case pm_subscription m of None \<Rightarrow> [] | Some s \<Rightarrow> [s]) @
     (case m of PmEvent e \<Rightarrow> (case embedded_subscription (pv_terminal e) of None \<Rightarrow> [] | Some s \<Rightarrow> [s]) | _ \<Rightarrow> [])"

lemma validatePipeFrame_Inr:
  "validatePipeFrame zod frame metadata = Inr m \<Longrightarrow>
   pz_bounded zod metadata \<and> validPayload m (bf_payload frame) \<and> validIdentity m"
  by (auto simp: validatePipeFrame_def failure_def Let_def split: if_splits option.splits)

lemma validIdentity_facts:
  assumes "validIdentity m"
  shows "\<And>run. pm_run m = Some run \<Longrightarrow> workerMatchesRun (pm_worker m) run"
    and "\<And>run s. pm_run m = Some run \<Longrightarrow> pm_subscription m = Some s \<Longrightarrow> sr_run s = run"
    and "\<And>b. pm_budgets m = Some b \<Longrightarrow> validateEffectiveBudgets b = Some b"
    and "\<And>e. m = PmEvent e \<Longrightarrow> event_identity_ok e"
    and "\<And>c x n h g a. m = PmCommand c \<Longrightarrow> pc_body c = PSetControl x n (Some h) g a \<Longrightarrow> n = x + 1"
  using assms validateEffectiveBudgets_Some
  by (auto simp: validIdentity_def split: if_splits option.splits)

lemma event_identity_subscription:
  assumes "event_identity_ok e" and "embedded_subscription (pv_terminal e) = Some t"
  shows "pv_subscription e = Some t"
  using assms by (auto simp: event_identity_ok_def needs_subscription_def split: if_splits option.splits terminal_event.splits)

lemma pipe_subscription_run:
  assumes "validIdentity m" and "s \<in> set (pm_subscriptions m)" and "pm_run m = Some run"
  shows "sr_run s = run"
proof -
  have "pm_subscription m = Some s"
  proof (cases m)
    case (PmEvent e)
    then have "event_identity_ok e" using validIdentity_facts(4) [OF assms(1)] by simp
    then show ?thesis using assms(2) PmEvent event_identity_subscription [of e]
      by (cases "embedded_subscription (pv_terminal e)") (auto simp: pm_subscriptions_def split: option.splits)
  qed (use assms(2) in \<open>auto simp: pm_subscriptions_def split: option.splits\<close>)
  then show ?thesis using validIdentity_facts(2) [OF assms(1,3)] by simp
qed

text \<open>C7. A pipe frame that is accepted is consistent about who it concerns: the worker and the run belong
  to the same server and relay instance, every subscription it names (also inside a baseline event) is of
  that run, the budgets it carries are valid, an event carries a subscription exactly when it is not a
  preview event, and a control grant raises the epoch by exactly one.\<close>

theorem pipe_frame_identity:
  assumes "validatePipeFrame zod frame metadata = Inr m"
  shows "(case pm_run m of None \<Rightarrow> True
      | Some run \<Rightarrow> wr_serverId (pm_worker m) = rr_serverId run \<and>
          wr_relayInstanceId (pm_worker m) = rr_relayInstanceId run \<and>
          list_all (\<lambda>s. sr_run s = run) (pm_subscriptions m)) \<and>
    (case pm_budgets m of None \<Rightarrow> True | Some b \<Rightarrow> validateEffectiveBudgets b = Some b) \<and>
    (case m of
       PmEvent e \<Rightarrow> (pv_subscription e = None) = (case pv_terminal e of
           TePreviewStart _ \<Rightarrow> True | TePreviewChunk _ \<Rightarrow> True | TePreviewEnd _ \<Rightarrow> True | _ \<Rightarrow> False)
     | PmCommand c \<Rightarrow> (case pc_body c of
           PSetControl expectedEpoch nextEpoch (Some h) _ _ \<Rightarrow> nextEpoch = expectedEpoch + 1 | _ \<Rightarrow> True)
     | _ \<Rightarrow> True)"
proof -
  have id: "validIdentity m" using validatePipeFrame_Inr [OF assms] by simp
  note f = validIdentity_facts [OF id]
  have "list_all (\<lambda>s. sr_run s = run) (pm_subscriptions m)" if "pm_run m = Some run" for run
    using pipe_subscription_run [OF id _ that] by (simp add: list_all_iff)
  moreover have "(pv_subscription e = None) = (case pv_terminal e of
      TePreviewStart _ \<Rightarrow> True | TePreviewChunk _ \<Rightarrow> True | TePreviewEnd _ \<Rightarrow> True | _ \<Rightarrow> False)"
    if "m = PmEvent e" for e
    using f(4) [OF that]
    by (auto simp: event_identity_ok_def needs_subscription_def split: if_splits terminal_event.splits)
  ultimately show ?thesis using f(1,3,5)
    by (auto simp: workerMatchesRun_def split: option.splits pipe_metadata.splits pipe_body.splits)
qed

theorem pipe_frame_identity_witness:
  "let w = \<lparr>wr_serverId = ''s'', wr_relayInstanceId = ''i'', wr_workerId = ''w'', wr_workerIncarnationId = ''k''\<rparr>;
       run = \<lparr>rr_serverId = ''s'', rr_relayInstanceId = ''i'', rr_runId = ''r''\<rparr>;
       c = \<lparr>pc_worker = w, pc_run = run, pc_requestId = ''q'', pc_body = PStatus\<rparr>;
       zod = \<lparr>pz_bounded = (\<lambda>_. True), pz_hello = (\<lambda>_. None), pz_command = (\<lambda>_. Some c), pz_ready = (\<lambda>_. None),
         pz_heartbeat = (\<lambda>_. None), pz_result = (\<lambda>_. None), pz_event = (\<lambda>_. None), pz_error = (\<lambda>_. None)\<rparr>
   in validatePipeFrame zod \<lparr>bf_kind = 1, bf_metadata = [1], bf_payload = []\<rparr> () = Inr (PmCommand c) \<and>
      wr_serverId (pm_worker (PmCommand c)) = rr_serverId run"
proof -
  let ?w = "\<lparr>wr_serverId = ''s'', wr_relayInstanceId = ''i'', wr_workerId = ''w'', wr_workerIncarnationId = ''k''\<rparr>"
  let ?run = "\<lparr>rr_serverId = ''s'', rr_relayInstanceId = ''i'', rr_runId = ''r''\<rparr>"
  let ?c = "\<lparr>pc_worker = ?w, pc_run = ?run, pc_requestId = ''q'', pc_body = PStatus\<rparr>"
  let ?zod = "\<lparr>pz_bounded = (\<lambda>_. True), pz_hello = (\<lambda>_. None), pz_command = (\<lambda>_. Some ?c), pz_ready = (\<lambda>_. None),
         pz_heartbeat = (\<lambda>_. None), pz_result = (\<lambda>_. None), pz_event = (\<lambda>_. None), pz_error = (\<lambda>_. None)\<rparr> :: unit pipe_zod"
  have ids: "OpaqueIdSchema ''s''" "OpaqueIdSchema ''i''" "OpaqueIdSchema ''r''" "OpaqueIdSchema ''w''"
    "OpaqueIdSchema ''k''" "OpaqueIdSchema ''q''" by code_simp+
  have v: "validatePipeFrame ?zod \<lparr>bf_kind = 1, bf_metadata = [1], bf_payload = []\<rparr> () = Inr (PmCommand ?c)"
    by (simp add: validatePipeFrame_def frame_limits union_parse_def safeParse_def PipeCommandSchema_def
        WorkerRefSchema_def RunRefSchema_def ids validPayload_def validIdentity_def workerMatchesRun_def)
  show ?thesis using v pipe_frame_identity [OF v] by simp
qed

text \<open>C37. A reply accepted for a pipe command belongs to it: same worker, run, request and command type.
  A result with outcome accepted is complete: a recovery states its mode and a sequence not before the
  position of the command, an input acknowledges the very sequence number with a byte count, programmatic
  input is accepted exactly when all its parts are written, spawn and stop repeat the operation.\<close>

theorem pipe_reply_answers_command:
  assumes "validatePipeResultForCommand command reply"
  shows "reply_header reply = (pc_worker command, pc_run command, pc_requestId command, pipe_type_of (pc_body command)) \<and>
    (case reply of ReplyError e \<Rightarrow> True
     | ReplyResult r \<Rightarrow> pr_outcome r = OutcomeAccepted \<longrightarrow> (case pc_body command of
         PSubscribe _ atSeq \<Rightarrow> pr_recoveryMode r \<noteq> None \<and> (\<exists>n. pr_atSeq r = Some n \<and> atSeq \<le> n)
       | PRecover _ (Some appliedSeq) \<Rightarrow> pr_recoveryMode r \<noteq> None \<and> (\<exists>n. pr_atSeq r = Some n \<and> appliedSeq \<le> n)
       | PRecover _ None \<Rightarrow> pr_recoveryMode r = Some ModeBaseline
       | PInput _ _ inputSeq \<Rightarrow> pr_inputSeq r = Some inputSeq \<and> pr_writtenBytes r \<noteq> None
       | PProgrammatic _ _ textBytes submit \<Rightarrow> (\<exists>i. pr_input r = Some i \<and>
           ir_requestedBytes (ti_text i) = textBytes \<and> ir_status (ti_text i) = PartWritten \<and>
           (submit \<longleftrightarrow> (\<exists>s. ti_submit i = Some s \<and> ir_status s = PartWritten)))
       | PSpawn operationId _ _ _ _ _ \<Rightarrow> pr_operationId r = Some operationId
       | PStop operationId \<Rightarrow> pr_operationId r = Some operationId
       | PStatus \<Rightarrow> (\<exists>st. pr_runStatus r = Some st \<and> st_run st = pc_run command)
       | _ \<Rightarrow> True))"
proof -
  have head: "reply_header reply = (pc_worker command, pc_run command, pc_requestId command, pipe_type_of (pc_body command))"
    using assms by (auto simp: validatePipeResultForCommand_def split: if_splits prod.splits)
  show ?thesis
  proof (cases reply)
    case (ReplyResult r)
    then have r: "recovery_reply_ok command r" "programmatic_reply_ok command r"
      using assms by (auto simp: validatePipeResultForCommand_def split: if_splits prod.splits)
    show ?thesis using head assms r ReplyResult
      by (cases "pc_body command")
        (auto simp: validatePipeResultForCommand_def recovery_reply_ok_def programmatic_reply_ok_def Let_def
          split: if_splits option.splits recovery_mode.splits, (metis recovery_mode.exhaust)+)
  qed (use head in simp)
qed

theorem pipe_reply_answers_command_witness:
  "let w = \<lparr>wr_serverId = ''s'', wr_relayInstanceId = ''i'', wr_workerId = ''w'', wr_workerIncarnationId = ''k''\<rparr>;
       run = \<lparr>rr_serverId = ''s'', rr_relayInstanceId = ''i'', rr_runId = ''r''\<rparr>;
       command = \<lparr>pc_worker = w, pc_run = run, pc_requestId = ''q'', pc_body = PStop ''o''\<rparr>;
       r = \<lparr>pr_worker = w, pr_run = run, pr_requestId = ''q'', pr_commandType = PTStop, pr_outcome = OutcomeAccepted,
         pr_recoveryMode = None, pr_operationId = Some ''o'', pr_atSeq = None, pr_inputSeq = None, pr_input = None,
         pr_writtenBytes = None, pr_runStatus = None, pr_previewVersion = None\<rparr>
   in validatePipeResultForCommand command (ReplyResult r) \<and> pr_operationId r = Some ''o''"
proof -
  let ?w = "\<lparr>wr_serverId = ''s'', wr_relayInstanceId = ''i'', wr_workerId = ''w'', wr_workerIncarnationId = ''k''\<rparr>"
  let ?run = "\<lparr>rr_serverId = ''s'', rr_relayInstanceId = ''i'', rr_runId = ''r''\<rparr>"
  let ?command = "\<lparr>pc_worker = ?w, pc_run = ?run, pc_requestId = ''q'', pc_body = PStop ''o''\<rparr>"
  let ?r = "\<lparr>pr_worker = ?w, pr_run = ?run, pr_requestId = ''q'', pr_commandType = PTStop, pr_outcome = OutcomeAccepted,
         pr_recoveryMode = None, pr_operationId = Some ''o'', pr_atSeq = None, pr_inputSeq = None, pr_input = None,
         pr_writtenBytes = None, pr_runStatus = None, pr_previewVersion = None\<rparr>"
  have v: "validatePipeResultForCommand ?command (ReplyResult ?r)"
    by (simp add: validatePipeResultForCommand_def recovery_reply_ok_def programmatic_reply_ok_def)
  show ?thesis using v pipe_reply_answers_command [OF v] by simp
qed

end
