(* ===== verification/Json_Text.thy ===== *)
theory Json_Text
  imports Cove_Prelude
begin

text \<open>
  \<open>JSON.stringify\<close> on the values the modelled code passes to it: numbers are integral, strings are sequences of
  characters below 256. The text of a string, and of an array of strings, determines the strings; the
  program uses such arrays as map keys.
\<close>

datatype json =
    JsNull | JsBool bool | JsNum number | JsStr string | JsArr "json list" | JsObj "(string \<times> json) list"

fun digits_fuel :: "nat \<Rightarrow> nat \<Rightarrow> string" where
  "digits_fuel 0 n = []"
| "digits_fuel (Suc k) n = (if n < 10 then [char_of (48 + n)] else digits_fuel k (n div 10) @ [char_of (48 + n mod 10)])"

definition number_text :: "number \<Rightarrow> string" where
  "number_text n = (if n < 0 then CHR ''-'' # digits_fuel (Suc (nat (- n))) (nat (- n)) else digits_fuel (Suc (nat n)) (nat n))"

definition hex_digit :: "nat \<Rightarrow> char" where
  "hex_digit n = char_of (if n < 10 then 48 + n else 87 + n)"

definition char_text :: "char \<Rightarrow> string" where
  "char_text c =
     (if c = CHR 0x22 then [CHR 0x5C, CHR 0x22]
      else if c = CHR 0x5C then [CHR 0x5C, CHR 0x5C]
      else if c = CHR 0x08 then [CHR 0x5C, CHR ''b'']
      else if c = CHR 0x0C then [CHR 0x5C, CHR ''f'']
      else if c = CHR 0x0A then [CHR 0x5C, CHR ''n'']
      else if c = CHR 0x0D then [CHR 0x5C, CHR ''r'']
      else if c = CHR 0x09 then [CHR 0x5C, CHR ''t'']
      else if (of_char c :: nat) < 32
      then [CHR 0x5C, CHR ''u'', CHR ''0'', CHR ''0'', hex_digit (of_char c div 16), hex_digit (of_char c mod 16)]
      else [c])"

definition string_text :: "string \<Rightarrow> string" where
  "string_text s = [CHR 0x22] @ concat (map char_text s) @ [CHR 0x22]"

fun join :: "string \<Rightarrow> string list \<Rightarrow> string" where
  "join sep [] = []"
| "join sep [s] = s"
| "join sep (s # ss) = s @ sep @ join sep ss"

fun stringify :: "json \<Rightarrow> string" where
  "stringify JsNull = ''null''"
| "stringify (JsBool b) = (if b then ''true'' else ''false'')"
| "stringify (JsNum n) = number_text n"
| "stringify (JsStr s) = string_text s"
| "stringify (JsArr vs) = ''['' @ join '','' (map stringify vs) @ '']''"
| "stringify (JsObj kvs) =
     [CHR 0x7B] @ join '','' (map (\<lambda>(k, v). string_text k @ '':'' @ stringify v) kvs) @ [CHR 0x7D]"

definition nullable_json :: "('a \<Rightarrow> json) \<Rightarrow> 'a option \<Rightarrow> json" where
  "nullable_json f v = (case v of None \<Rightarrow> JsNull | Some x \<Rightarrow> f x)"

definition optional_field :: "string \<Rightarrow> ('a \<Rightarrow> json) \<Rightarrow> 'a option \<Rightarrow> (string \<times> json) list" where
  "optional_field k f v = (case v of None \<Rightarrow> [] | Some x \<Rightarrow> [(k, f x)])"


subsection \<open>Injectivity\<close>

definition plain_char :: "char \<Rightarrow> bool" where
  "plain_char c \<longleftrightarrow> c \<notin> {CHR 0x22, CHR 0x5C, CHR 0x08, CHR 0x0C, CHR 0x0A, CHR 0x0D, CHR 0x09} \<and> \<not> (of_char c :: nat) < 32"

definition escape_of :: "char \<Rightarrow> string" where
  "escape_of c = tl (char_text c)"

lemma char_text_plain: "plain_char c \<Longrightarrow> char_text c = [c]"
  by (simp add: plain_char_def char_text_def)

lemma char_text_escape: "\<not> plain_char c \<Longrightarrow> char_text c = CHR 0x5C # escape_of c"
  by (auto simp: plain_char_def char_text_def escape_of_def)

lemma hex_digit_inj: "m < 16 \<Longrightarrow> n < 16 \<Longrightarrow> hex_digit m = hex_digit n \<longleftrightarrow> m = n"
  by (auto simp: hex_digit_def split: if_splits)

definition short_escape :: "char \<Rightarrow> char option" where
  "short_escape c = map_of [(CHR 0x22, CHR 0x22), (CHR 0x5C, CHR 0x5C), (CHR 0x08, CHR ''b''), (CHR 0x0C, CHR ''f''),
     (CHR 0x0A, CHR ''n''), (CHR 0x0D, CHR ''r''), (CHR 0x09, CHR ''t'')] c"

lemma escape_of_short: "short_escape c = Some e \<Longrightarrow> escape_of c = [e]"
  by (auto simp: short_escape_def escape_of_def char_text_def split: if_splits)

lemma escape_of_long:
  "\<not> plain_char c \<Longrightarrow> short_escape c = None \<Longrightarrow>
     escape_of c = [CHR ''u'', CHR ''0'', CHR ''0'', hex_digit (of_char c div 16), hex_digit (of_char c mod 16)] \<and> (of_char c :: nat) < 32"
  by (auto simp: short_escape_def escape_of_def char_text_def plain_char_def split: if_splits)

lemma short_escape_inj: "short_escape c = Some e \<Longrightarrow> short_escape d = Some e \<Longrightarrow> c = d"
  by (auto simp: short_escape_def split: if_splits)

lemma short_escape_not_u: "short_escape c \<noteq> Some (CHR ''u'')"
  by (auto simp: short_escape_def split: if_splits)

lemma control_char_inj:
  assumes "(of_char c :: nat) < 32" and "(of_char d :: nat) < 32"
    and "hex_digit (of_char c div 16) = hex_digit (of_char d div 16)" and "hex_digit (of_char c mod 16) = hex_digit (of_char d mod 16)"
  shows "c = d"
proof -
  have "(of_char c :: nat) div 16 = of_char d div 16" "(of_char c :: nat) mod 16 = of_char d mod 16"
    using assms by (simp_all add: hex_digit_inj)
  then have "(of_char c :: nat) = of_char d" by (metis div_mult_mod_eq)
  then show ?thesis by simp
qed

lemma escape_of_inj:
  assumes "\<not> plain_char c" and "\<not> plain_char d" and "escape_of c @ x = escape_of d @ y"
  shows "c = d \<and> x = y"
proof (cases "short_escape c")
  case None
  note c = escape_of_long [OF assms(1) None]
  show ?thesis
  proof (cases "short_escape d")
    case None
    note d = escape_of_long [OF assms(2) None]
    show ?thesis using assms(3) c d control_char_inj [of c d] by simp
  next
    case (Some e)
    then show ?thesis using assms(3) c escape_of_short [OF Some] short_escape_not_u [of d] by auto
  qed
next
  case (Some e)
  note c = escape_of_short [OF Some]
  show ?thesis
  proof (cases "short_escape d")
    case None
    then show ?thesis using assms(3) c escape_of_long [OF assms(2) None] Some short_escape_not_u [of c] by auto
  next
    case d: (Some e')
    then show ?thesis using assms(3) c escape_of_short [OF d] Some short_escape_inj [of c e d] by auto
  qed
qed

lemma char_text_inj:
  assumes "char_text c @ x = char_text d @ y"
  shows "c = d \<and> x = y"
proof (cases "plain_char c")
  case True
  then show ?thesis
    using assms by (cases "plain_char d") (auto simp: char_text_plain char_text_escape, simp_all add: plain_char_def)
next
  case False
  show ?thesis
  proof (cases "plain_char d")
    case True
    then show ?thesis using assms False by (auto simp: char_text_plain char_text_escape, simp_all add: plain_char_def)
  next
    case d: False
    then show ?thesis using assms False escape_of_inj [OF False d, of x y] by (simp add: char_text_escape)
  qed
qed

lemma char_text_no_quote: "char_text c \<noteq> [] \<and> hd (char_text c) \<noteq> CHR 0x22"
  by (cases "plain_char c") (auto simp: char_text_plain char_text_escape, simp add: plain_char_def)

lemma string_body_inj:
  "concat (map char_text s) @ CHR 0x22 # x = concat (map char_text t) @ CHR 0x22 # y \<Longrightarrow> s = t \<and> x = y"
proof (induction s arbitrary: t)
  case Nil
  show ?case
  proof (cases t)
    case (Cons d t)
    then have "hd (char_text d) = CHR 0x22" using Nil char_text_no_quote [of d] by (cases "char_text d") auto
    then show ?thesis using char_text_no_quote [of d] by simp
  qed (use Nil in simp)
next
  case (Cons c s)
  show ?case
  proof (cases t)
    case Nil
    then have "hd (char_text c) = CHR 0x22" using Cons.prems char_text_no_quote [of c] by (cases "char_text c") auto
    then show ?thesis using char_text_no_quote [of c] by simp
  next
    case t: (Cons d t)
    then have "c = d \<and> concat (map char_text s) @ CHR 0x22 # x = concat (map char_text t) @ CHR 0x22 # y"
      using Cons.prems by (intro char_text_inj) simp
    then show ?thesis using Cons.IH t by blast
  qed
qed

lemma string_text_inj: "string_text s @ x = string_text t @ y \<Longrightarrow> s = t \<and> x = y"
  using string_body_inj [of s x t y] by (simp add: string_text_def)

text \<open>The keys the program builds with \<open>JSON.stringify([a, b])\<close>.\<close>

definition pair_key :: "string \<Rightarrow> string \<Rightarrow> string" where
  "pair_key a b = stringify (JsArr [JsStr a, JsStr b])"

lemma pair_key_inj: "pair_key a b = pair_key c d \<longleftrightarrow> a = c \<and> b = d"
proof
  assume "pair_key a b = pair_key c d"
  then have eq: "string_text a @ '','' @ string_text b @ '']'' = string_text c @ '','' @ string_text d @ '']''"
    by (simp add: pair_key_def)
  then have "a = c" "'','' @ string_text b @ '']'' = '','' @ string_text d @ '']''" using string_text_inj [OF eq] by simp_all
  then show "a = c \<and> b = d" using string_text_inj [of b "'']''" d "'']''"] by simp
qed simp

end
