(* ===== verification/Replay_Window.thy ===== *)
theory Replay_Window
  imports Terminal_Protocol Worker_Bytes Json_Text
begin

text \<open>
  \<open>ReplayWindow\<close> (\<^verbatim>\<open>packages/terminal-worker/src/replay-window.ts\<close>): the ring of recent run events from
  which a reconnecting client is replayed. Entries are reference counted: the ring holds one reference,
  every pin and every selected slice holds one on each of its entries, and an entry's bytes stay charged
  to the account until the last reference is dropped.

  Entry objects, pins and slices are cells of heaps; \<open>rw_entries\<close> is the ring, oldest first. The account
  the window reserves from is passed along (\<open>reserve\<close>, \<open>release\<close>); the lemmas are proved for every byte
  ledger and the properties hold for the worker's account.
\<close>

subsection \<open>JSON of an event\<close>

definition run_json :: "run_ref \<Rightarrow> json" where
  "run_json r = JsObj [(''serverId'', JsStr (rr_serverId r)), (''relayInstanceId'', JsStr (rr_relayInstanceId r)),
     (''runId'', JsStr (rr_runId r))]"

definition geometry_json :: "geometry \<Rightarrow> json" where
  "geometry_json g = JsObj [(''cols'', JsNum (ge_cols g)), (''rows'', JsNum (ge_rows g))]"

definition holder_json :: "control_holder \<Rightarrow> json" where
  "holder_json h = JsObj [(''connection'', JsObj [(''connectionId'', JsStr (cr_connectionId (ch_connection h))),
       (''generation'', JsNum (cr_generation (ch_connection h)))]),
     (''viewId'', JsStr (ch_viewId h)), (''subscriptionId'', JsStr (ch_subscriptionId h))]"

definition appearance_json :: "appearance \<Rightarrow> json" where
  "appearance_json a = JsObj (optional_field ''foreground'' JsStr (ap_foreground a) @
     optional_field ''background'' JsStr (ap_background a) @
     [(''palette'', JsArr (map (\<lambda>e. JsObj [(''index'', JsNum (pe_index e)), (''rgb'', JsStr (pe_rgb e))]) (ap_palette a)))])"

fun event_json :: "run_event \<Rightarrow> json" where
  "event_json (RevOutput run seq) =
     JsObj [(''type'', JsStr ''output''), (''run'', run_json run), (''seq'', JsNum seq)]"
| "event_json (RevResize run seq geometry requiresBaseline) =
     JsObj [(''type'', JsStr ''resize''), (''run'', run_json run), (''seq'', JsNum seq),
       (''geometry'', geometry_json geometry), (''requiresBaseline'', JsBool requiresBaseline)]"
| "event_json (RevControl run seq epoch holder geometry) =
     JsObj [(''type'', JsStr ''control''), (''run'', run_json run), (''seq'', JsNum seq), (''epoch'', JsNum epoch),
       (''holder'', nullable_json holder_json holder), (''geometry'', geometry_json geometry)]"
| "event_json (RevAppearance run seq appearance) =
     JsObj [(''type'', JsStr ''appearance''), (''run'', run_json run), (''seq'', JsNum seq),
       (''appearance'', appearance_json appearance)]"
| "event_json (RevExit run seq exitCode signal) =
     JsObj [(''type'', JsStr ''exit''), (''run'', run_json run), (''seq'', JsNum seq),
       (''exitCode'', nullable_json JsNum exitCode), (''signal'', nullable_json JsStr signal)]"

subsection \<open>State\<close>

definition FACT_RECORD_BYTES :: number where "FACT_RECORD_BYTES = 256"
definition SELECTED_REFERENCE_BYTES :: number where "SELECTED_REFERENCE_BYTES = 64"

record retained_fact =
  rf_event :: run_event
  rf_bytes :: "byte list option"

definition retainedFactCharge :: "retained_fact \<Rightarrow> number" where
  "retainedFactCharge rfact =
     (let paletteObjects = (case rf_event rfact of
         RevAppearance run seq a \<Rightarrow> 64 * int (length (ap_palette a)) | _ \<Rightarrow> 0)
      in FACT_RECORD_BYTES + 2 * int (length (stringify (event_json (rf_event rfact)))) + paletteObjects +
         (case rf_bytes rfact of None \<Rightarrow> 0 | Some bytes \<Rightarrow> int (length bytes)))"

record replay_entry =
  en_fact :: retained_fact
  en_lease :: handle
  en_refs :: number
  en_inWindow :: bool
  en_charge :: number

record replay_pin =
  rp_entry :: handle
  rp_released :: bool

record replay_slice =
  rl_selected :: "handle list"
  rl_references :: "handle option"
  rl_released :: bool

record replay_window =
  rw_maxBytes :: number
  rw_maxEvents :: number
  rw_entries :: "handle list"
  rw_bytes :: number
  rw_latestSeq :: number
  rw_heap :: "replay_entry list"
  rw_pins :: "replay_pin list"
  rw_slices :: "replay_slice list"

definition new_replay_window :: "number \<Rightarrow> number \<Rightarrow> replay_window" where
  "new_replay_window maxBytes maxEvents =
     \<lparr>rw_maxBytes = maxBytes, rw_maxEvents = maxEvents, rw_entries = [], rw_bytes = 0, rw_latestSeq = 0,
      rw_heap = [], rw_pins = [], rw_slices = []\<rparr>"

definition rw_retainedBytes :: "replay_window \<Rightarrow> number" where "rw_retainedBytes w = rw_bytes w"
definition rw_retainedEvents :: "replay_window \<Rightarrow> number" where "rw_retainedEvents w = int (length (rw_entries w))"

definition entry_seq :: "replay_window \<Rightarrow> handle \<Rightarrow> number" where
  "entry_seq w i = re_seq (rf_event (en_fact (rw_heap w ! i)))"

subsection \<open>Operations\<close>

type_synonym 'a reserve_fn = "'a \<Rightarrow> number \<Rightarrow> handle option \<times> 'a"
type_synonym 'a release_fn = "'a \<Rightarrow> handle \<Rightarrow> 'a"

text \<open>\<open>#release(entry)\<close>.\<close>

definition rw_release_entry :: "'a release_fn \<Rightarrow> handle \<Rightarrow> replay_window \<times> 'a \<Rightarrow> replay_window \<times> 'a" where
  "rw_release_entry release i s =
     (let w = fst s; e = rw_heap w ! i; e' = e\<lparr>en_refs := en_refs e - 1\<rparr>; w' = w\<lparr>rw_heap := (rw_heap w)[i := e']\<rparr>
      in if en_refs e' = 0 then (w', release (snd s) (en_lease e)) else (w', snd s))"

definition rw_leave_window :: "handle \<Rightarrow> replay_window \<Rightarrow> replay_window" where
  "rw_leave_window i w =
     w\<lparr>rw_heap := (rw_heap w)[i := (rw_heap w ! i)\<lparr>en_inWindow := False\<rparr>], rw_bytes := rw_bytes w - en_charge (rw_heap w ! i)\<rparr>"

text \<open>\<open>#evict()\<close>.\<close>

definition rw_evict :: "'a release_fn \<Rightarrow> replay_window \<times> 'a \<Rightarrow> replay_window \<times> 'a" where
  "rw_evict release s = (case rw_entries (fst s) of
     [] \<Rightarrow> s
   | i # rest \<Rightarrow> rw_release_entry release i (rw_leave_window i ((fst s)\<lparr>rw_entries := rest\<rparr>), snd s))"

lemma rw_evict_entries [simp]: "rw_entries (fst (rw_evict release s)) = tl (rw_entries (fst s))"
  by (auto simp: rw_evict_def rw_release_entry_def rw_leave_window_def Let_def split: list.splits)

function rw_clear :: "'a release_fn \<Rightarrow> replay_window \<times> 'a \<Rightarrow> replay_window \<times> 'a" where
  "rw_clear release s = (if rw_entries (fst s) = [] then s else rw_clear release (rw_evict release s))"
  by pat_completeness auto
termination by (relation "measure (\<lambda>(release, s). length (rw_entries (fst s)))") auto

text \<open>The two eviction loops of \<open>append\<close>.\<close>

function rw_make_room :: "'a release_fn \<Rightarrow> number \<Rightarrow> replay_window \<times> 'a \<Rightarrow> replay_window \<times> 'a" where
  "rw_make_room release charge s =
     (if rw_entries (fst s) \<noteq> [] \<and>
         (int (length (rw_entries (fst s))) \<ge> rw_maxEvents (fst s) \<or> rw_bytes (fst s) + charge > rw_maxBytes (fst s))
      then rw_make_room release charge (rw_evict release s) else s)"
  by pat_completeness auto
termination by (relation "measure (\<lambda>(release, charge, s). length (rw_entries (fst s)))") auto

function rw_reserve_evicting ::
  "'a reserve_fn \<Rightarrow> 'a release_fn \<Rightarrow> number \<Rightarrow> replay_window \<times> 'a \<Rightarrow> handle option \<times> replay_window \<times> 'a" where
  "rw_reserve_evicting reserve release charge s =
     (case reserve (snd s) charge of
        (Some lease, a) \<Rightarrow> (Some lease, (fst s, a))
      | (None, a) \<Rightarrow>
          if rw_entries (fst s) = [] then (None, (fst s, a))
          else rw_reserve_evicting reserve release charge (rw_evict release (fst s, a)))"
  by pat_completeness auto
termination by (relation "measure (\<lambda>(reserve, release, charge, s). length (rw_entries (fst s)))") auto

definition rw_push :: "handle \<Rightarrow> retained_fact \<Rightarrow> number \<Rightarrow> replay_window \<Rightarrow> replay_window" where
  "rw_push l f n w = w\<lparr>rw_entries := rw_entries w @ [length (rw_heap w)],
     rw_heap := rw_heap w @ [\<lparr>en_fact = f, en_lease = l, en_refs = 1, en_inWindow = True, en_charge = n\<rparr>],
     rw_bytes := rw_bytes w + n\<rparr>"

definition rw_append ::
  "'a reserve_fn \<Rightarrow> 'a release_fn \<Rightarrow> retained_fact \<Rightarrow> replay_window \<times> 'a \<Rightarrow> replay_window \<times> 'a" where
  "rw_append reserve release rfact s =
     (let seq = re_seq (rf_event rfact) in
      if seq \<le> rw_latestSeq (fst s) then s
      else
        let s = ((fst s)\<lparr>rw_latestSeq := seq\<rparr>, snd s); charge = retainedFactCharge rfact in
        if charge > rw_maxBytes (fst s) then rw_clear release s
        else
          let s = rw_make_room release charge s in
          case rw_reserve_evicting reserve release charge s of
            (None, s) \<Rightarrow> s
          | (Some lease, (w, a)) \<Rightarrow> (rw_push lease rfact charge w, a))"

definition rw_pin :: "number \<Rightarrow> replay_window \<Rightarrow> handle option \<times> replay_window" where
  "rw_pin seq w = (case rev (filter (\<lambda>i. entry_seq w i = seq) (rw_entries w)) of
     [] \<Rightarrow> (None, w)
   | i # _ \<Rightarrow> (Some (length (rw_pins w)),
       w\<lparr>rw_heap := (rw_heap w)[i := (rw_heap w ! i)\<lparr>en_refs := en_refs (rw_heap w ! i) + 1\<rparr>],
         rw_pins := rw_pins w @ [\<lparr>rp_entry = i, rp_released = False\<rparr>]\<rparr>))"

definition rw_release_pin :: "'a release_fn \<Rightarrow> handle \<Rightarrow> replay_window \<times> 'a \<Rightarrow> replay_window \<times> 'a" where
  "rw_release_pin release p s =
     (let w = fst s; pin = rw_pins w ! p in
      if rp_released pin then s
      else rw_release_entry release (rp_entry pin)
             (w\<lparr>rw_pins := (rw_pins w)[p := pin\<lparr>rp_released := True\<rparr>]\<rparr>, snd s))"

fun resize_needs_baseline :: "run_event \<Rightarrow> bool" where
  "resize_needs_baseline (RevResize _ _ _ b) = b"
| "resize_needs_baseline _ = False"

text \<open>The scan of \<open>select\<close>: \<^const>\<open>None\<close> is \<open>return undefined\<close>, otherwise the final \<open>expected\<close>.\<close>

fun select_scan :: "replay_window \<Rightarrow> number \<Rightarrow> number \<Rightarrow> number \<Rightarrow> handle list \<Rightarrow> number option" where
  "select_scan w afterSeq throughSeq expected [] = Some expected"
| "select_scan w afterSeq throughSeq expected (i # is) =
     (if entry_seq w i \<le> afterSeq then select_scan w afterSeq throughSeq expected is
      else if entry_seq w i > throughSeq then Some expected
      else if entry_seq w i \<noteq> expected then None
      else if resize_needs_baseline (rf_event (en_fact (rw_heap w ! i))) then None
      else select_scan w afterSeq throughSeq (expected + 1) is)"

definition rw_add_refs :: "handle list \<Rightarrow> replay_window \<Rightarrow> replay_window" where
  "rw_add_refs is w = fold (\<lambda>i w. w\<lparr>rw_heap := (rw_heap w)[i := (rw_heap w ! i)\<lparr>en_refs := en_refs (rw_heap w ! i) + 1\<rparr>]\<rparr>) is w"

definition rw_select ::
  "'a reserve_fn \<Rightarrow> number \<Rightarrow> number \<Rightarrow> replay_window \<times> 'a \<Rightarrow> handle option \<times> replay_window \<times> 'a" where
  "rw_select reserve afterSeq throughSeq s =
     (let w = fst s in
      if afterSeq > throughSeq \<or> throughSeq > rw_latestSeq w then (None, s)
      else if afterSeq = throughSeq
      then (Some (length (rw_slices w)),
            (w\<lparr>rw_slices := rw_slices w @ [\<lparr>rl_selected = [], rl_references = None, rl_released = False\<rparr>]\<rparr>, snd s))
      else
        let count = throughSeq - afterSeq in
        if count > rw_maxEvents w then (None, s)
        else case select_scan w afterSeq throughSeq (afterSeq + 1) (rw_entries w) of
          None \<Rightarrow> (None, s)
        | Some expected \<Rightarrow>
            if expected \<noteq> throughSeq + 1 then (None, s)
            else case reserve (snd s) (64 + SELECTED_REFERENCE_BYTES * count) of
              (None, a) \<Rightarrow> (None, (w, a))
            | (Some references, a) \<Rightarrow>
                let selected = filter (\<lambda>i. entry_seq w i > afterSeq \<and> entry_seq w i \<le> throughSeq) (rw_entries w);
                    w = rw_add_refs selected w
                in (Some (length (rw_slices w)),
                    (w\<lparr>rw_slices := rw_slices w @
                        [\<lparr>rl_selected = selected, rl_references = Some references, rl_released = False\<rparr>]\<rparr>, a)))"

definition rw_release_slice :: "'a release_fn \<Rightarrow> handle \<Rightarrow> replay_window \<times> 'a \<Rightarrow> replay_window \<times> 'a" where
  "rw_release_slice release k s =
     (let w = fst s; slice = rw_slices w ! k in
      if rl_released slice then s
      else
        let s = (w\<lparr>rw_slices := (rw_slices w)[k := slice\<lparr>rl_released := True\<rparr>]\<rparr>, snd s);
            s = fold (rw_release_entry release) (rl_selected slice) s
        in case rl_references slice of None \<Rightarrow> s | Some references \<Rightarrow> (fst s, release (snd s) references))"

definition rw_evictOldest :: "'a release_fn \<Rightarrow> replay_window \<times> 'a \<Rightarrow> bool \<times> replay_window \<times> 'a" where
  "rw_evictOldest release s = (if rw_entries (fst s) = [] then (False, s) else (True, rw_evict release s))"

definition rw_evictOldestUnpinned :: "'a release_fn \<Rightarrow> replay_window \<times> 'a \<Rightarrow> bool \<times> replay_window \<times> 'a" where
  "rw_evictOldestUnpinned release s =
     (let w = fst s in
      case filter (\<lambda>i. en_refs (rw_heap w ! i) = 1) (rw_entries w) of
        [] \<Rightarrow> (False, s)
      | i # _ \<Rightarrow> (True, rw_release_entry release i
          (rw_leave_window i (w\<lparr>rw_entries := remove1 i (rw_entries w)\<rparr>), snd s)))"

definition rw_slice_facts :: "replay_window \<Rightarrow> handle \<Rightarrow> retained_fact list" where
  "rw_slice_facts w k = map (\<lambda>i. en_fact (rw_heap w ! i)) (rl_selected (rw_slices w ! k))"

declare rw_clear.simps [simp del] rw_make_room.simps [simp del] rw_reserve_evicting.simps [simp del]

subsection \<open>Invariant\<close>

definition pin_on :: "handle \<Rightarrow> replay_pin \<Rightarrow> int" where
  "pin_on i p = (if \<not> rp_released p \<and> rp_entry p = i then 1 else 0)"

definition slice_on :: "handle \<Rightarrow> replay_slice \<Rightarrow> int" where
  "slice_on i s = (if \<not> rl_released s \<and> i \<in> set (rl_selected s) then 1 else 0)"

text \<open>The references an entry should have: the ring's, and those of unreleased pins and slices.\<close>

definition wanted_refs :: "replay_window \<Rightarrow> handle \<Rightarrow> int" where
  "wanted_refs w i = (if i \<in> set (rw_entries w) then 1 else 0) + cell_sum (pin_on i) (rw_pins w)
     + cell_sum (slice_on i) (rw_slices w)"

definition rw_wf :: "replay_window \<Rightarrow> bool" where
  "rw_wf w \<longleftrightarrow> distinct (rw_entries w) \<and> (\<forall>i \<in> set (rw_entries w). i < length (rw_heap w)) \<and>
     rw_bytes w = sum_list (map (\<lambda>i. en_charge (rw_heap w ! i)) (rw_entries w)) \<and>
     (rw_entries w \<noteq> [] \<longrightarrow> rw_bytes w \<le> rw_maxBytes w) \<and>
     int (length (rw_entries w)) \<le> max 1 (rw_maxEvents w) \<and>
     sorted_wrt (<) (map (entry_seq w) (rw_entries w)) \<and>
     (\<forall>i \<in> set (rw_entries w). entry_seq w i \<le> rw_latestSeq w) \<and>
     (\<forall>p \<in> set (rw_pins w). rp_entry p < length (rw_heap w)) \<and>
     (\<forall>s \<in> set (rw_slices w). distinct (rl_selected s) \<and> (\<forall>i \<in> set (rl_selected s). i < length (rw_heap w))) \<and>
     (\<forall>e \<in> set (rw_heap w). 0 < en_charge e)"

definition entry_lease :: "replay_window \<Rightarrow> handle \<Rightarrow> (handle \<times> number) option" where
  "entry_lease w i = (if i < length (rw_heap w) \<and> 0 < en_refs (rw_heap w ! i)
     then Some (en_lease (rw_heap w ! i), en_charge (rw_heap w ! i)) else None)"

definition slice_lease :: "replay_window \<Rightarrow> handle \<Rightarrow> (handle \<times> number) option" where
  "slice_lease w k = (if k < length (rw_slices w) \<and> \<not> rl_released (rw_slices w ! k)
     then map_option (\<lambda>l. (l, 64 + 64 * int (length (rl_selected (rw_slices w ! k))))) (rl_references (rw_slices w ! k))
     else None)"

text \<open>What an operation other than \<open>append\<close> and \<open>select\<close> keeps of the window.\<close>

definition rw_kept :: "replay_window \<Rightarrow> replay_window \<Rightarrow> bool" where
  "rw_kept w w' \<longleftrightarrow> rw_maxBytes w' = rw_maxBytes w \<and> rw_maxEvents w' = rw_maxEvents w \<and>
     rw_latestSeq w' = rw_latestSeq w \<and> map en_fact (rw_heap w') = map en_fact (rw_heap w) \<and>
     set (rw_entries w') \<subseteq> set (rw_entries w)"

lemma rw_kept_refl: "rw_kept w w"
  by (simp add: rw_kept_def)

lemma rw_kept_trans: "rw_kept u v \<Longrightarrow> rw_kept v w \<Longrightarrow> rw_kept u w"
  by (auto simp: rw_kept_def)

lemma cell_sum_pins_nonneg: "0 \<le> cell_sum (pin_on i) ps" and cell_sum_slices_nonneg: "0 \<le> cell_sum (slice_on i) ss"
  by (auto simp: pin_on_def slice_on_def intro!: cell_sum_nonneg)

lemma wanted_refs_nonneg: "0 \<le> wanted_refs w i"
  using cell_sum_pins_nonneg [of i "rw_pins w"] cell_sum_slices_nonneg [of i "rw_slices w"]
  by (simp add: wanted_refs_def)

text \<open>\<open>#release\<close> and the other updates of one entry's reference count leave the rest of the cell alone.\<close>

definition set_refs :: "handle \<Rightarrow> number \<Rightarrow> replay_window \<Rightarrow> replay_window" where
  "set_refs i n w = w\<lparr>rw_heap := (rw_heap w)[i := (rw_heap w ! i)\<lparr>en_refs := n\<rparr>]\<rparr>"

lemma set_refs_simps [simp]:
  "rw_maxBytes (set_refs i n w) = rw_maxBytes w" "rw_maxEvents (set_refs i n w) = rw_maxEvents w"
  "rw_entries (set_refs i n w) = rw_entries w" "rw_bytes (set_refs i n w) = rw_bytes w"
  "rw_latestSeq (set_refs i n w) = rw_latestSeq w" "length (rw_heap (set_refs i n w)) = length (rw_heap w)"
  "rw_pins (set_refs i n w) = rw_pins w" "rw_slices (set_refs i n w) = rw_slices w"
  by (simp_all add: set_refs_def)

lemma set_refs_cell:
  "i < length (rw_heap w) \<Longrightarrow> rw_heap (set_refs i n w) ! j = (if j = i then (rw_heap w ! i)\<lparr>en_refs := n\<rparr> else rw_heap w ! j)"
  by (simp add: set_refs_def nth_list_update)

lemma set_refs_fields [simp]:
  "en_fact (rw_heap (set_refs i n w) ! j) = en_fact (rw_heap w ! j)"
  "en_charge (rw_heap (set_refs i n w) ! j) = en_charge (rw_heap w ! j)"
  "en_lease (rw_heap (set_refs i n w) ! j) = en_lease (rw_heap w ! j)"
proof -
  have "rw_heap (set_refs i n w) = rw_heap w" if "\<not> i < length (rw_heap w)"
    using that by (simp add: set_refs_def list_update_beyond)
  then show "en_fact (rw_heap (set_refs i n w) ! j) = en_fact (rw_heap w ! j)"
    "en_charge (rw_heap (set_refs i n w) ! j) = en_charge (rw_heap w ! j)"
    "en_lease (rw_heap (set_refs i n w) ! j) = en_lease (rw_heap w ! j)"
    by (cases "i < length (rw_heap w)", simp_all add: set_refs_cell)+
qed

lemma set_refs_facts [simp]: "map en_fact (rw_heap (set_refs i n w)) = map en_fact (rw_heap w)"
  by (rule nth_equalityI) simp_all

lemma set_refs_seq [simp]: "entry_seq (set_refs i n w) = entry_seq w"
  by (simp add: entry_seq_def fun_eq_iff)

lemma set_refs_kept [simp]: "rw_kept w (set_refs i n w)"
  by (simp add: rw_kept_def)

lemma set_refs_wanted [simp]: "wanted_refs (set_refs i n w) = wanted_refs w"
  by (simp add: wanted_refs_def fun_eq_iff)

lemma set_refs_slice_lease [simp]: "slice_lease (set_refs i n w) = slice_lease w"
  by (simp add: slice_lease_def fun_eq_iff)

lemma set_refs_wf [simp]: "rw_wf (set_refs i n w) \<longleftrightarrow> rw_wf w"
proof -
  have "(\<forall>e \<in> set (rw_heap (set_refs i n w)). 0 < en_charge e) \<longleftrightarrow> (\<forall>e \<in> set (rw_heap w). 0 < en_charge e)"
    by (simp add: all_set_conv_all_nth)
  then show ?thesis by (simp add: rw_wf_def)
qed

lemma rw_release_entry_set_refs:
  "rw_release_entry release i (w, a) =
     (set_refs i (en_refs (rw_heap w ! i) - 1) w, if en_refs (rw_heap w ! i) = 1 then release a (en_lease (rw_heap w ! i)) else a)"
  by (simp add: rw_release_entry_def set_refs_def Let_def)

definition same_holds :: "replay_window \<Rightarrow> replay_window \<Rightarrow> bool" where
  "same_holds w w' \<longleftrightarrow> rw_pins w' = rw_pins w \<and> rw_slices w' = rw_slices w"

lemma same_holds_slice_lease: "same_holds w w' \<Longrightarrow> slice_lease w' = slice_lease w"
  by (simp add: same_holds_def slice_lease_def fun_eq_iff)

lemma same_holds_trans: "same_holds u v \<Longrightarrow> same_holds v w \<Longrightarrow> same_holds u w"
  by (simp add: same_holds_def)

lemma leave_window_heap:
  assumes "i < length (rw_heap w)"
  shows "en_fact (rw_heap (rw_leave_window i w) ! j) = en_fact (rw_heap w ! j)"
    "en_charge (rw_heap (rw_leave_window i w) ! j) = en_charge (rw_heap w ! j)"
    "en_lease (rw_heap (rw_leave_window i w) ! j) = en_lease (rw_heap w ! j)"
    "en_refs (rw_heap (rw_leave_window i w) ! j) = en_refs (rw_heap w ! j)"
    "length (rw_heap (rw_leave_window i w)) = length (rw_heap w)"
  using assms by (simp_all add: rw_leave_window_def nth_list_update)

lemma sorted_wrt_delete: "sorted_wrt P (xs @ x # ys) \<Longrightarrow> sorted_wrt P (xs @ ys)"
  by (simp add: sorted_wrt_append)

text \<open>Taking entry \<open>i\<close> out of the ring: one reference of it is then due to be released.\<close>

lemma leave_window:
  assumes wf: "rw_wf w" and ring: "rw_entries w = xs @ i # ys"
  defines "w' \<equiv> rw_leave_window i (w\<lparr>rw_entries := xs @ ys\<rparr>)"
  shows "rw_wf w'" and "rw_kept w w'" and "same_holds w w'" and "entry_lease w' = entry_lease w"
    and "wanted_refs w' = (wanted_refs w)(i := wanted_refs w i - 1)"
    and "rw_entries w' = xs @ ys" and "i < length (rw_heap w)" and "length (rw_heap w') = length (rw_heap w)"
    and "\<And>j. en_refs (rw_heap w' ! j) = en_refs (rw_heap w ! j)"
proof -
  have i: "i < length (rw_heap w)" using wf ring by (auto simp: rw_wf_def)
  have h: "length (rw_heap w') = length (rw_heap w)"
    "\<And>j. en_fact (rw_heap w' ! j) = en_fact (rw_heap w ! j)" "\<And>j. en_charge (rw_heap w' ! j) = en_charge (rw_heap w ! j)"
    "\<And>j. en_lease (rw_heap w' ! j) = en_lease (rw_heap w ! j)" "\<And>j. en_refs (rw_heap w' ! j) = en_refs (rw_heap w ! j)"
    using leave_window_heap [of i "w\<lparr>rw_entries := xs @ ys\<rparr>"] i by (simp_all add: w'_def)
  have f: "rw_entries w' = xs @ ys" "rw_bytes w' = rw_bytes w - en_charge (rw_heap w ! i)" "rw_maxBytes w' = rw_maxBytes w"
    "rw_maxEvents w' = rw_maxEvents w" "rw_latestSeq w' = rw_latestSeq w" "rw_pins w' = rw_pins w" "rw_slices w' = rw_slices w"
    by (simp_all add: w'_def rw_leave_window_def)
  have seq: "entry_seq w' = entry_seq w" by (simp add: entry_seq_def h fun_eq_iff)
  have facts: "map en_fact (rw_heap w') = map en_fact (rw_heap w)" by (rule nth_equalityI) (simp_all add: h)
  have pos: "0 < en_charge (rw_heap w ! i)" using wf i by (simp add: rw_wf_def)
  have charges: "\<forall>e \<in> set (rw_heap w'). 0 < en_charge e"
    using wf by (simp add: rw_wf_def all_set_conv_all_nth h)
  show "rw_wf w'" using wf ring charges pos unfolding rw_wf_def f seq h(1,3)
    by (auto simp: sorted_wrt_append h) (use pos in linarith)+
  show "rw_kept w w'" using ring facts by (auto simp: rw_kept_def f)
  show "same_holds w w'" by (simp add: same_holds_def f)
  show "entry_lease w' = entry_lease w" by (simp add: entry_lease_def h fun_eq_iff)
  show "wanted_refs w' = (wanted_refs w)(i := wanted_refs w i - 1)"
    using wf ring by (auto simp: wanted_refs_def f fun_eq_iff rw_wf_def)
qed (use wf ring in \<open>auto simp: rw_wf_def w'_def rw_leave_window_def nth_list_update\<close>)

text \<open>The condition at which the first eviction loop of \<open>append\<close> stops.\<close>

definition room_for :: "number \<Rightarrow> replay_window \<Rightarrow> bool" where
  "room_for n w \<longleftrightarrow> rw_entries w = [] \<or>
     int (length (rw_entries w)) < rw_maxEvents w \<and> rw_bytes w + n \<le> rw_maxBytes w"

lemma evict_bytes:
  assumes "rw_wf w"
  shows "rw_bytes (fst (rw_evict release (w, a))) \<le> rw_bytes w"
proof (cases "rw_entries w")
  case Nil
  then show ?thesis by (simp add: rw_evict_def)
next
  case (Cons i rest)
  then have "0 < en_charge (rw_heap w ! i)" using assms by (simp add: rw_wf_def)
  then show ?thesis using Cons by (simp add: rw_evict_def rw_release_entry_set_refs rw_leave_window_def)
qed

lemma retainedFactCharge_pos: "0 < retainedFactCharge f"
  by (auto simp: retainedFactCharge_def FACT_RECORD_BYTES_def Let_def split: run_event.splits option.splits)

lemma push_heap:
  "i < length (rw_heap w) \<Longrightarrow> rw_heap (rw_push l f n w) ! i = rw_heap w ! i"
  "rw_heap (rw_push l f n w) ! length (rw_heap w) =
     \<lparr>en_fact = f, en_lease = l, en_refs = 1, en_inWindow = True, en_charge = n\<rparr>"
  "length (rw_heap (rw_push l f n w)) = Suc (length (rw_heap w))"
  by (simp_all add: rw_push_def nth_append)

lemma push_same [simp]:
  "rw_maxBytes (rw_push l f n w) = rw_maxBytes w" "rw_maxEvents (rw_push l f n w) = rw_maxEvents w"
  "rw_latestSeq (rw_push l f n w) = rw_latestSeq w" "rw_pins (rw_push l f n w) = rw_pins w"
  "rw_slices (rw_push l f n w) = rw_slices w" "rw_bytes (rw_push l f n w) = rw_bytes w + n"
  "rw_entries (rw_push l f n w) = rw_entries w @ [length (rw_heap w)]"
  by (simp_all add: rw_push_def)

lemma push_seq:
  "i < length (rw_heap w) \<Longrightarrow> entry_seq (rw_push l f n w) i = entry_seq w i"
  "entry_seq (rw_push l f n w) (length (rw_heap w)) = re_seq (rf_event f)"
  by (simp_all add: entry_seq_def push_heap)

lemma push_wf:
  assumes wf: "rw_wf w" and room: "room_for n w" and n: "n \<le> rw_maxBytes w" "0 < n"
    and seq: "\<And>i. i \<in> set (rw_entries w) \<Longrightarrow> entry_seq w i < re_seq (rf_event f)" "rw_latestSeq w = re_seq (rf_event f)"
  shows "rw_wf (rw_push l f n w)"
proof -
  let ?w = "rw_push l f n w"
  have lt: "\<And>i. i \<in> set (rw_entries w) \<Longrightarrow> i < length (rw_heap w)" using wf by (simp add: rw_wf_def)
  have seqs: "map (entry_seq ?w) (rw_entries ?w) = map (entry_seq w) (rw_entries w) @ [re_seq (rf_event f)]"
    using lt by (simp add: push_seq)
  have charges: "map (\<lambda>i. en_charge (rw_heap ?w ! i)) (rw_entries ?w) = map (\<lambda>i. en_charge (rw_heap w ! i)) (rw_entries w) @ [n]"
    using lt by (simp add: push_heap)
  have sorted: "sorted_wrt (<) (map (entry_seq ?w) (rw_entries ?w))"
    unfolding seqs using wf seq(1) by (auto simp: sorted_wrt_append rw_wf_def)
  have latest: "\<forall>i \<in> set (rw_entries ?w). entry_seq ?w i \<le> rw_latestSeq ?w"
    using lt seq wf by (auto simp: push_seq rw_wf_def)
  have bytes: "rw_bytes ?w = sum_list (map (\<lambda>i. en_charge (rw_heap ?w ! i)) (rw_entries ?w))"
    unfolding charges using wf by (simp add: rw_wf_def)
  have heap: "\<forall>e \<in> set (rw_heap ?w). 0 < en_charge e" using wf n(2) by (auto simp: rw_wf_def rw_push_def)
  have ring: "distinct (rw_entries ?w)" "\<forall>i \<in> set (rw_entries ?w). i < length (rw_heap ?w)"
    using wf lt by (auto simp: rw_wf_def push_heap less_SucI)
  have bound: "rw_bytes ?w \<le> rw_maxBytes ?w" "int (length (rw_entries ?w)) \<le> max 1 (rw_maxEvents ?w)"
    using room n wf by (auto simp: room_for_def rw_wf_def)
  have holds: "(\<forall>p \<in> set (rw_pins ?w). rp_entry p < length (rw_heap ?w)) \<and>
      (\<forall>s \<in> set (rw_slices ?w). distinct (rl_selected s) \<and> (\<forall>i \<in> set (rl_selected s). i < length (rw_heap ?w)))"
    using wf by (fastforce simp: rw_wf_def push_heap)
  show ?thesis unfolding rw_wf_def using ring bytes bound sorted latest holds heap by blast
qed

lemma push_wanted:
  assumes "rw_wf w"
  shows "i < length (rw_heap w) \<Longrightarrow> wanted_refs (rw_push l f n w) i = wanted_refs w i"
    and "wanted_refs (rw_push l f n w) (length (rw_heap w)) = 1"
proof -
  show "i < length (rw_heap w) \<Longrightarrow> wanted_refs (rw_push l f n w) i = wanted_refs w i"
    by (simp add: wanted_refs_def)
  have "cell_sum (pin_on (length (rw_heap w))) (rw_pins w) = cell_sum (\<lambda>_. 0) (rw_pins w)"
    using assms by (intro cell_sum_cong) (auto simp: pin_on_def rw_wf_def)
  moreover have "cell_sum (slice_on (length (rw_heap w))) (rw_slices w) = cell_sum (\<lambda>_. 0) (rw_slices w)"
    using assms by (intro cell_sum_cong) (fastforce simp: slice_on_def rw_wf_def)
  ultimately show "wanted_refs (rw_push l f n w) (length (rw_heap w)) = 1"
    by (simp add: wanted_refs_def cell_sum_zero)
qed

lemma push_lease: "entry_lease (rw_push l f n w) = (entry_lease w)(length (rw_heap w) \<mapsto> (l, n))"
  by (auto simp: entry_lease_def push_heap fun_eq_iff less_Suc_eq)

lemma rw_update_simps [simp]:
  "entry_seq (w\<lparr>rw_pins := ps\<rparr>) = entry_seq w" "entry_seq (w\<lparr>rw_slices := ss\<rparr>) = entry_seq w"
  "entry_seq (w\<lparr>rw_latestSeq := q\<rparr>) = entry_seq w" "entry_lease (w\<lparr>rw_pins := ps\<rparr>) = entry_lease w"
  "entry_lease (w\<lparr>rw_slices := ss\<rparr>) = entry_lease w" "entry_lease (w\<lparr>rw_latestSeq := q\<rparr>) = entry_lease w"
  "slice_lease (w\<lparr>rw_pins := ps\<rparr>) = slice_lease w" "slice_lease (w\<lparr>rw_latestSeq := q\<rparr>) = slice_lease w"
  "wanted_refs (w\<lparr>rw_latestSeq := q\<rparr>) = wanted_refs w"
  by (simp_all add: entry_seq_def entry_lease_def slice_lease_def wanted_refs_def fun_eq_iff)

lemma set_refs_lease:
  "i < length (rw_heap w) \<Longrightarrow> 0 < en_refs (rw_heap w ! i) \<Longrightarrow> 0 < n \<Longrightarrow> entry_lease (set_refs i n w) = entry_lease w"
  by (auto simp: entry_lease_def set_refs_cell fun_eq_iff)

lemma add_refs_set_refs:
  "rw_add_refs (i # is) w = rw_add_refs is (set_refs i (en_refs (rw_heap w ! i) + 1) w)"
  by (simp add: rw_add_refs_def set_refs_def)

lemma add_refs:
  assumes "distinct is" and "\<And>i. i \<in> set is \<Longrightarrow> i < length (rw_heap w) \<and> 0 < en_refs (rw_heap w ! i)"
  shows "rw_kept w (rw_add_refs is w) \<and> same_holds w (rw_add_refs is w) \<and> rw_entries (rw_add_refs is w) = rw_entries w \<and>
    (rw_wf (rw_add_refs is w) \<longleftrightarrow> rw_wf w) \<and> entry_lease (rw_add_refs is w) = entry_lease w \<and>
    length (rw_heap (rw_add_refs is w)) = length (rw_heap w) \<and> entry_seq (rw_add_refs is w) = entry_seq w \<and>
    (\<forall>j < length (rw_heap w). en_refs (rw_heap (rw_add_refs is w) ! j) = en_refs (rw_heap w ! j) + of_bool (j \<in> set is))"
  using assms
proof (induction "is" arbitrary: w)
  case Nil
  then show ?case by (simp add: rw_add_refs_def rw_kept_refl same_holds_def)
next
  case (Cons i "is")
  let ?w = "set_refs i (en_refs (rw_heap w ! i) + 1) w"
  have i: "i < length (rw_heap w)" "0 < en_refs (rw_heap w ! i)" using Cons.prems(2) by auto
  have "j \<in> set is \<Longrightarrow> j < length (rw_heap ?w) \<and> 0 < en_refs (rw_heap ?w ! j)" for j
    using Cons.prems i by (auto simp: set_refs_cell)
  then have IH: "rw_kept ?w (rw_add_refs is ?w)" "same_holds ?w (rw_add_refs is ?w)" "rw_entries (rw_add_refs is ?w) = rw_entries w"
    "rw_wf (rw_add_refs is ?w) \<longleftrightarrow> rw_wf w" "entry_lease (rw_add_refs is ?w) = entry_lease ?w"
    "length (rw_heap (rw_add_refs is ?w)) = length (rw_heap w)" "entry_seq (rw_add_refs is ?w) = entry_seq w"
    "\<forall>j < length (rw_heap w). en_refs (rw_heap (rw_add_refs is ?w) ! j) = en_refs (rw_heap ?w ! j) + of_bool (j \<in> set is)"
    using Cons.IH [of ?w] Cons.prems(1) by simp_all
  have "rw_kept w (rw_add_refs is ?w)" by (rule rw_kept_trans [OF set_refs_kept IH(1)])
  moreover have "same_holds w (rw_add_refs is ?w)" using IH(2) by (simp add: same_holds_def)
  moreover have "entry_lease (rw_add_refs is ?w) = entry_lease w" using IH(5) set_refs_lease [OF i] i(2) by simp
  moreover have "\<forall>j < length (rw_heap w). en_refs (rw_heap (rw_add_refs is ?w) ! j) = en_refs (rw_heap w ! j) + of_bool (j \<in> set (i # is))"
    using IH(8) i Cons.prems(1) by (auto simp: set_refs_cell)
  ultimately show ?case unfolding add_refs_set_refs using IH(3,4,6,7) by blast
qed

text \<open>What the entries of the ring are after \<open>append\<close>: some of the earlier ones, and possibly the new fact.\<close>

definition ring_grows :: "retained_fact \<Rightarrow> replay_window \<Rightarrow> replay_window \<Rightarrow> bool" where
  "ring_grows f w w' \<longleftrightarrow> set (rw_entries w') \<subseteq> insert (length (rw_heap w)) (set (rw_entries w)) \<and>
     (\<exists>fs. map en_fact (rw_heap w') = map en_fact (rw_heap w) @ fs \<and> set fs \<subseteq> {f})"

lemma kept_ring_grows: "rw_kept w w' \<Longrightarrow> ring_grows f w w'"
  by (auto simp: rw_kept_def ring_grows_def)

subsection \<open>Selection\<close>

lemma select_scan_exact:
  assumes "select_scan w a t e is = Some e'" and "sorted_wrt (<) (map (entry_seq w) is)" and "a < e"
  shows "map (entry_seq w) (filter (\<lambda>i. a < entry_seq w i \<and> entry_seq w i \<le> t) is) = [e..e' - 1] \<and> e \<le> e' \<and>
    (\<forall>i \<in> set (filter (\<lambda>i. a < entry_seq w i \<and> entry_seq w i \<le> t) is). \<not> resize_needs_baseline (rf_event (en_fact (rw_heap w ! i))))"
  using assms
proof (induction w a t e "is" rule: select_scan.induct)
  case (2 w a t e i "is")
  consider "entry_seq w i \<le> a" | "a < entry_seq w i" "t < entry_seq w i" | "a < entry_seq w i" "entry_seq w i \<le> t"
    by linarith
  then show ?case
  proof cases
    case 1
    then show ?thesis using 2 by simp
  next
    case beyond: 2
    then have "filter (\<lambda>i. a < entry_seq w i \<and> entry_seq w i \<le> t) is = []"
      using "2.prems"(2) by (auto simp: filter_empty_conv)
    then show ?thesis using beyond "2.prems" by simp
  next
    case 3
    then have e: "entry_seq w i = e" "\<not> resize_needs_baseline (rf_event (en_fact (rw_heap w ! i)))"
        "select_scan w a t (e + 1) is = Some e'"
      using "2.prems"(1) by (auto split: if_splits)
    then have "map (entry_seq w) (filter (\<lambda>i. a < entry_seq w i \<and> entry_seq w i \<le> t) is) = [e + 1..e' - 1] \<and> e + 1 \<le> e' \<and>
        (\<forall>i \<in> set (filter (\<lambda>i. a < entry_seq w i \<and> entry_seq w i \<le> t) is). \<not> resize_needs_baseline (rf_event (en_fact (rw_heap w ! i))))"
      using "2.IH"(2) 3 "2.prems" by simp
    moreover have "[e..e' - 1] = e # [e + 1..e' - 1]" if "e + 1 \<le> e'" using that by (simp add: upto_rec1)
    ultimately show ?thesis using 3 e by simp
  qed
qed simp

text \<open>What \<open>select\<close> puts into the slice, when it returns one.\<close>

definition selection :: "number \<Rightarrow> number \<Rightarrow> replay_window \<Rightarrow> handle list" where
  "selection a t w = filter (\<lambda>i. a < entry_seq w i \<and> entry_seq w i \<le> t) (rw_entries w)"

lemma rw_select_cases:
  assumes "rw_wf w" and "rw_select reserve a t (w, acc) = (Some k, (w', acc'))"
  shows "k = length (rw_slices w) \<and> a \<le> t \<and> map (entry_seq w) (selection a t w) = [a + 1..t] \<and>
    (\<forall>i \<in> set (selection a t w). \<not> resize_needs_baseline (rf_event (en_fact (rw_heap w ! i)))) \<and>
    (if a = t then w' = w\<lparr>rw_slices := rw_slices w @ [\<lparr>rl_selected = [], rl_references = None, rl_released = False\<rparr>]\<rparr> \<and> acc' = acc
     else \<exists>l. reserve acc (64 + 64 * (t - a)) = (Some l, acc') \<and>
       w' = (rw_add_refs (selection a t w) w)\<lparr>rw_slices := rw_slices (rw_add_refs (selection a t w) w) @
              [\<lparr>rl_selected = selection a t w, rl_references = Some l, rl_released = False\<rparr>]\<rparr>)"
proof (cases "a = t")
  case True
  have "selection a t w = []" using True by (auto simp: selection_def filter_empty_conv)
  then show ?thesis using assms True by (auto simp: rw_select_def split: if_splits)
next
  case False
  then obtain e l where *: "a < t" "select_scan w a t (a + 1) (rw_entries w) = Some e" "e = t + 1"
      "reserve acc (64 + SELECTED_REFERENCE_BYTES * (t - a)) = (Some l, acc')"
      "k = length (rw_slices (rw_add_refs (selection a t w) w))"
      "w' = (rw_add_refs (selection a t w) w)\<lparr>rw_slices := rw_slices (rw_add_refs (selection a t w) w) @
              [\<lparr>rl_selected = selection a t w, rl_references = Some l, rl_released = False\<rparr>]\<rparr>"
    using assms(2) by (auto simp: rw_select_def selection_def Let_def split: if_splits option.splits prod.splits)
  have "rw_slices (rw_add_refs is v) = rw_slices v" for "is" v
    by (induction "is" arbitrary: v) (simp_all add: rw_add_refs_def)
  moreover have "sorted_wrt (<) (map (entry_seq w) (rw_entries w))" using assms(1) by (simp add: rw_wf_def)
  ultimately show ?thesis
    using * select_scan_exact [OF *(2)] False by (auto simp: selection_def SELECTED_REFERENCE_BYTES_def)
qed

lemma rw_wf_add_slice:
  "rw_wf v \<Longrightarrow> distinct (rl_selected sl) \<Longrightarrow> (\<And>i. i \<in> set (rl_selected sl) \<Longrightarrow> i < length (rw_heap v)) \<Longrightarrow>
     rw_wf (v\<lparr>rw_slices := rw_slices v @ [sl]\<rparr>)"
  unfolding rw_wf_def by auto

lemma rw_select_None:
  "rw_select reserve a t (w, acc) = (None, (w', acc')) \<Longrightarrow>
     w' = w \<and> (acc' = acc \<or> (\<exists>n. reserve acc n = (None, acc')))"
  by (auto simp: rw_select_def Let_def split: if_splits option.splits prod.splits)

context byte_ledger
begin

text \<open>
  The invariant with a debt: entry \<open>i\<close> has \<open>d i\<close> references more than wanted, which the operation in
  progress still has to release. \<open>r\<close> is what the owners other than the entries hold.
\<close>

definition rw_holds :: "(handle \<Rightarrow> int) \<Rightarrow> replay_window \<Rightarrow> ('r \<Rightarrow> (handle \<times> number) option) \<Rightarrow> 's \<Rightarrow> bool" where
  "rw_holds d w r a \<longleftrightarrow> rw_wf w \<and> (\<forall>i < length (rw_heap w). en_refs (rw_heap w ! i) = wanted_refs w i + d i) \<and>
     owns a (case_sum (entry_lease w) r)"

definition rw_inv :: "replay_window \<Rightarrow> ('r \<Rightarrow> (handle \<times> number) option) \<Rightarrow> 's \<Rightarrow> bool" where
  "rw_inv w r a \<longleftrightarrow> rw_holds (\<lambda>_. 0) w (case_sum (slice_lease w) r) a"

lemma rw_holds_release_entry:
  assumes h: "rw_holds d w r a" and i: "i < length (rw_heap w)" "0 < d i"
    and step: "rw_release_entry release i (w, a) = (w', a')"
  shows "rw_holds (d(i := d i - 1)) w' r a' \<and> rw_kept w w' \<and> same_holds w w' \<and> rw_entries w' = rw_entries w \<and>
    length (rw_heap w') = length (rw_heap w)"
proof -
  let ?n = "en_refs (rw_heap w ! i)"
  have n: "?n = wanted_refs w i + d i" using h i(1) by (simp add: rw_holds_def)
  then have pos: "0 < ?n" using i(2) wanted_refs_nonneg [of w i] by simp
  have w': "w' = set_refs i (?n - 1) w" and a': "a' = (if ?n = 1 then release a (en_lease (rw_heap w ! i)) else a)"
    using step by (simp_all add: rw_release_entry_set_refs)
  have own: "owns a (case_sum (entry_lease w) r)" using h by (simp add: rw_holds_def)
  have "owns a' (case_sum (entry_lease w') r)"
  proof (cases "?n = 1")
    case True
    have "entry_lease w' = (entry_lease w)(i := None)"
      using True i(1) by (auto simp: entry_lease_def w' set_refs_cell fun_eq_iff)
    then have "case_sum (entry_lease w') r = (case_sum (entry_lease w) r)(Inl i := None)"
      by (simp add: fun_eq_iff split: sum.splits)
    moreover have "case_sum (entry_lease w) r (Inl i) = Some (en_lease (rw_heap w ! i), en_charge (rw_heap w ! i))"
      using i(1) pos by (simp add: entry_lease_def)
    ultimately show ?thesis using owns_release [OF own] True a' by simp
  next
    case False
    then have "entry_lease w' = entry_lease w"
      using i(1) pos by (auto simp: entry_lease_def w' set_refs_cell fun_eq_iff)
    then show ?thesis using own False a' by simp
  qed
  then show ?thesis using h i(1) n w'
    by (auto simp: rw_holds_def set_refs_cell same_holds_def)
qed

lemma rw_holds_leave:
  assumes h: "rw_holds d w r a" and ring: "rw_entries w = xs @ i # ys"
    and step: "rw_release_entry release i (rw_leave_window i (w\<lparr>rw_entries := xs @ ys\<rparr>), a) = (w', a')"
    and d: "0 \<le> d i"
  shows "rw_holds d w' r a' \<and> rw_kept w w' \<and> same_holds w w' \<and> rw_entries w' = xs @ ys"
proof -
  let ?w = "rw_leave_window i (w\<lparr>rw_entries := xs @ ys\<rparr>)"
  have wf: "rw_wf w" using h by (simp add: rw_holds_def)
  note lw = leave_window [OF wf ring]
  have "rw_holds (d(i := d i + 1)) ?w r a"
    using h lw by (auto simp: rw_holds_def)
  from rw_holds_release_entry [OF this _ _ step]
  have "rw_holds d w' r a'" "rw_kept ?w w'" "same_holds ?w w'" "rw_entries w' = xs @ ys"
    using lw d by simp_all
  then show ?thesis using rw_kept_trans [OF lw(2)] same_holds_trans [OF lw(3)] by blast
qed

lemma rw_holds_evict:
  assumes "rw_holds d w r a" and "rw_evict release (w, a) = (w', a')" and "\<And>i. 0 \<le> d i"
  shows "rw_holds d w' r a' \<and> rw_kept w w' \<and> same_holds w w' \<and> rw_entries w' = tl (rw_entries w)"
proof (cases "rw_entries w")
  case Nil
  then show ?thesis using assms by (simp add: rw_evict_def rw_kept_refl same_holds_def)
next
  case (Cons i rest)
  then show ?thesis using rw_holds_leave [OF assms(1), of "[]" i rest w' a'] assms(2,3)
    by (simp add: rw_evict_def)
qed

text \<open>Any number of evictions.\<close>

definition rw_evicted :: "(handle \<Rightarrow> int) \<Rightarrow> ('r \<Rightarrow> (handle \<times> number) option) \<Rightarrow> replay_window \<times> 's \<Rightarrow> replay_window \<times> 's \<Rightarrow> bool" where
  "rw_evicted d r s s' \<longleftrightarrow> (rw_holds d (fst s) r (snd s) \<longrightarrow>
     rw_holds d (fst s') r (snd s') \<and> rw_kept (fst s) (fst s') \<and> same_holds (fst s) (fst s'))"

lemma rw_evicted_refl: "rw_evicted d r s s"
  by (simp add: rw_evicted_def rw_kept_refl same_holds_def)

lemma rw_evicted_step:
  assumes "\<And>i. 0 \<le> d i" and "rw_evicted d r (rw_evict release s) s'"
  shows "rw_evicted d r s s'"
  using assms rw_holds_evict [of d "fst s" r "snd s" "fst (rw_evict release s)" "snd (rw_evict release s)"]
    rw_kept_trans [of "fst s" "fst (rw_evict release s)" "fst s'"]
    same_holds_trans [of "fst s" "fst (rw_evict release s)" "fst s'"] unfolding rw_evicted_def by simp

lemma rw_clear_evicted:
  assumes "\<And>i. 0 \<le> d i"
  shows "rw_evicted d r s (rw_clear release s) \<and> rw_entries (fst (rw_clear release s)) = []"
proof (induction "length (rw_entries (fst s))" arbitrary: s)
  case 0
  then show ?case by (simp add: rw_clear.simps [of release s] rw_evicted_refl)
next
  case (Suc n)
  let ?s = "rw_evict release s"
  have eq: "rw_clear release s = rw_clear release ?s" using Suc.hyps(2) by (subst rw_clear.simps) auto
  have "n = length (rw_entries (fst ?s))" using Suc.hyps(2) by simp
  from Suc.hyps(1) [OF this] show ?case unfolding eq using rw_evicted_step [of d, OF assms] by blast
qed

lemma rw_make_room_evicted:
  assumes "\<And>i. 0 \<le> d i"
  shows "rw_evicted d r s (rw_make_room release n s) \<and> room_for n (fst (rw_make_room release n s))"
proof (induction "length (rw_entries (fst s))" arbitrary: s)
  case 0
  then show ?case by (simp add: rw_make_room.simps [of release n s] rw_evicted_refl room_for_def)
next
  case (Suc k)
  show ?case
  proof (cases "room_for n (fst s)")
    case True
    then have "rw_make_room release n s = s" by (subst rw_make_room.simps) (auto simp: room_for_def)
    then show ?thesis using True by (simp add: rw_evicted_refl)
  next
    case False
    let ?s = "rw_evict release s"
    have eq: "rw_make_room release n s = rw_make_room release n ?s"
      using False by (subst rw_make_room.simps) (auto simp: room_for_def)
    have "k = length (rw_entries (fst ?s))" using Suc.hyps(2) by simp
    from Suc.hyps(1) [OF this] show ?thesis unfolding eq using rw_evicted_step [of d, OF assms] by blast
  qed
qed

lemma evict_room:
  assumes "rw_holds d w r a" and "\<And>i. 0 \<le> d i" and "room_for n w"
  shows "room_for n (fst (rw_evict release (w, a)))"
proof -
  obtain w' a' where step: "rw_evict release (w, a) = (w', a')" by fastforce
  have "rw_kept w w'" and e: "rw_entries w' = tl (rw_entries w)"
    using rw_holds_evict [OF assms(1) step assms(2)] by simp_all
  moreover have "rw_bytes w' \<le> rw_bytes w" using evict_bytes [of w release a] assms(1) step by (simp add: rw_holds_def)
  moreover have "length (rw_entries w') \<le> length (rw_entries w)" by (simp add: e)
  ultimately show ?thesis using assms(3) step by (auto simp: room_for_def rw_kept_def)
qed

lemma rw_reserve_evicting_spec:
  assumes d: "\<And>i. 0 \<le> d i" and "rw_holds d (fst s) r (snd s)" and "room_for n (fst s)"
    and "rw_reserve_evicting reserve release n s = (res, s')"
  shows "\<exists>a. rw_holds d (fst s') r a \<and> rw_kept (fst s) (fst s') \<and> same_holds (fst s) (fst s') \<and> room_for n (fst s') \<and>
    (case res of None \<Rightarrow> snd s' = a | Some l \<Rightarrow> reserve a n = (Some l, snd s'))"
  using assms(2-4)
proof (induction "length (rw_entries (fst s))" arbitrary: s rule: less_induct)
  case less
  obtain w a where s: "s = (w, a)" by (cases s)
  show ?case
  proof (cases "fst (reserve a n)")
    case (Some l)
    then obtain a' where "reserve a n = (Some l, a')" by (metis prod.collapse)
    then show ?thesis using less.prems s
      by (auto simp: rw_reserve_evicting.simps [of reserve release n "(w, a)"] rw_kept_refl same_holds_def)
  next
    case None
    then have res: "reserve a n = (None, a)" using reserve_None [of a n "snd (reserve a n)"] by (metis prod.collapse)
    show ?thesis
    proof (cases "rw_entries w = []")
      case True
      then show ?thesis using less.prems s res
        by (auto simp: rw_reserve_evicting.simps [of reserve release n "(w, a)"] rw_kept_refl same_holds_def)
    next
      case False
      obtain w1 a1 where ev: "rw_evict release (w, a) = (w1, a1)" by fastforce
      have h: "rw_holds d w r a" using less.prems(1) s by simp
      note e = rw_holds_evict [OF h ev d]
      have room: "room_for n w1" using evict_room [OF h d] less.prems(2) s ev by simp
      have "rw_reserve_evicting reserve release n (w1, a1) = (res, s')"
        using less.prems(3) s res False ev by (simp add: rw_reserve_evicting.simps [of reserve release n "(w, a)"])
      moreover have "length (rw_entries w1) < length (rw_entries w)" using e False by simp
      ultimately obtain a2 where "rw_holds d (fst s') r a2" "rw_kept w1 (fst s')" "same_holds w1 (fst s')"
          "room_for n (fst s')" "case res of None \<Rightarrow> snd s' = a2 | Some l \<Rightarrow> reserve a2 n = (Some l, snd s')"
        using less.hyps [of "(w1, a1)"] s e room by auto
      then show ?thesis using e s rw_kept_trans [of w w1 "fst s'"] same_holds_trans [of w w1 "fst s'"]
        by (intro exI [of _ a2]) simp
    qed
  qed
qed

lemma rw_holds_push:
  assumes h: "rw_holds (\<lambda>_. 0) w r a" and res: "reserve a n = (Some l, a')" and room: "room_for n w"
    and n: "n \<le> rw_maxBytes w" "0 < n"
    and seq: "\<And>i. i \<in> set (rw_entries w) \<Longrightarrow> entry_seq w i < re_seq (rf_event f)" "rw_latestSeq w = re_seq (rf_event f)"
  shows "rw_holds (\<lambda>_. 0) (rw_push l f n w) r a'"
proof -
  have wf: "rw_wf w" and own: "owns a (case_sum (entry_lease w) r)"
    and refs: "\<And>i. i < length (rw_heap w) \<Longrightarrow> en_refs (rw_heap w ! i) = wanted_refs w i"
    using h by (auto simp: rw_holds_def)
  have "case_sum (entry_lease w) r (Inl (length (rw_heap w))) = None" by (simp add: entry_lease_def)
  then have "owns a' ((case_sum (entry_lease w) r)(Inl (length (rw_heap w)) \<mapsto> (l, n)))"
    by (rule owns_reserve [OF own res])
  moreover have "(case_sum (entry_lease w) r)(Inl (length (rw_heap w)) \<mapsto> (l, n)) = case_sum (entry_lease (rw_push l f n w)) r"
    by (simp add: push_lease fun_eq_iff split: sum.splits)
  moreover have "en_refs (rw_heap (rw_push l f n w) ! i) = wanted_refs (rw_push l f n w) i"
    if "i < length (rw_heap (rw_push l f n w))" for i
    using that refs push_wanted [OF wf] by (cases "i = length (rw_heap w)") (auto simp: push_heap)
  ultimately show ?thesis using push_wf [OF wf room n seq] by (simp add: rw_holds_def)
qed

lemma rw_inv_append:
  assumes h: "rw_inv w r a" and step: "rw_append reserve release f (w, a) = (w', a')"
  shows "rw_inv w' r a' \<and> rw_maxBytes w' = rw_maxBytes w \<and> rw_maxEvents w' = rw_maxEvents w \<and>
    rw_latestSeq w' = max (rw_latestSeq w) (re_seq (rf_event f)) \<and> ring_grows f w w' \<and> same_holds w w'"
proof (cases "re_seq (rf_event f) \<le> rw_latestSeq w")
  case True
  then show ?thesis using h step by (simp add: rw_append_def kept_ring_grows rw_kept_refl same_holds_def)
next
  case False
  let ?n = "retainedFactCharge f" and ?w = "w\<lparr>rw_latestSeq := re_seq (rf_event f)\<rparr>" and ?r = "case_sum (slice_lease w) r"
  have seqs: "\<And>i. i \<in> set (rw_entries w) \<Longrightarrow> entry_seq w i < re_seq (rf_event f)"
    using h False by (force simp: rw_inv_def rw_holds_def rw_wf_def)
  have "rw_wf ?w" using h seqs by (auto simp: rw_inv_def rw_holds_def rw_wf_def intro: less_imp_le)
  then have h0: "rw_holds (\<lambda>_. 0) ?w ?r a" using h by (simp add: rw_inv_def rw_holds_def)
  have fin: ?thesis if "rw_holds (\<lambda>_. 0) w' ?r a'" "rw_kept ?w w'" "same_holds ?w w'"
    using that False same_holds_slice_lease [OF that(3)]
    by (auto simp: rw_inv_def rw_kept_def ring_grows_def same_holds_def)
  have start: "rw_append reserve release f (w, a) = (if ?n > rw_maxBytes w then rw_clear release (?w, a) else
      (case rw_reserve_evicting reserve release ?n (rw_make_room release ?n (?w, a)) of
         (None, s) \<Rightarrow> s | (Some l, (v, b)) \<Rightarrow> (rw_push l f ?n v, b)))"
    using False by (simp add: rw_append_def Let_def)
  show ?thesis
  proof (cases "?n > rw_maxBytes w")
    case True
    then show ?thesis using rw_clear_evicted [of "\<lambda>_. 0" ?r "(?w, a)"] h0 step start fin by (simp add: rw_evicted_def)
  next
    case small: False
    let ?s = "rw_make_room release ?n (?w, a)"
    obtain res v b where ev: "rw_reserve_evicting reserve release ?n ?s = (res, (v, b))" by (metis prod.exhaust)
    have mr: "rw_holds (\<lambda>_. 0) (fst ?s) ?r (snd ?s)" "rw_kept ?w (fst ?s)" "same_holds ?w (fst ?s)" "room_for ?n (fst ?s)"
      using rw_make_room_evicted [of "\<lambda>_. 0" ?r "(?w, a)" ?n] h0 by (simp_all add: rw_evicted_def)
    from rw_reserve_evicting_spec [OF _ mr(1,4) ev] obtain b' where
      b': "rw_holds (\<lambda>_. 0) v ?r b'" "rw_kept (fst ?s) v" "same_holds (fst ?s) v" "room_for ?n v"
        "case res of None \<Rightarrow> b = b' | Some l \<Rightarrow> reserve b' ?n = (Some l, b)"
      unfolding fst_conv snd_conv by blast
    have kv: "rw_kept ?w v" and sv: "same_holds ?w v"
      using rw_kept_trans [OF mr(2) b'(2)] same_holds_trans [OF mr(3) b'(3)] by simp_all
    show ?thesis
    proof (cases res)
      case None
      then show ?thesis using fin step start small ev b' kv sv by simp
    next
      case (Some l)
      have w': "w' = rw_push l f ?n v" "a' = b" using step start small ev Some by simp_all
      have facts: "map en_fact (rw_heap v) = map en_fact (rw_heap w)" and ring: "set (rw_entries v) \<subseteq> set (rw_entries w)"
        using kv by (simp_all add: rw_kept_def)
      have len: "length (rw_heap v) = length (rw_heap w)" using facts by (metis length_map)
      have vs: "entry_seq v i < re_seq (rf_event f)" if "i \<in> set (rw_entries v)" for i
      proof -
        have "i \<in> set (rw_entries w)" "i < length (rw_heap w)" using that ring h0 by (auto simp: rw_holds_def rw_wf_def)
        then show ?thesis using seqs facts len by (metis entry_seq_def nth_map)
      qed
      have "rw_holds (\<lambda>_. 0) w' ?r a'" unfolding w'
        using b'(5) Some small kv by (intro rw_holds_push [OF b'(1) _ b'(4)] vs retainedFactCharge_pos) (simp_all add: rw_kept_def)
      moreover have "slice_lease w' = slice_lease w" using sv by (simp add: w' slice_lease_def same_holds_def fun_eq_iff)
      ultimately show ?thesis using False kv sv ring facts len unfolding w'
        by (auto simp: rw_inv_def rw_kept_def ring_grows_def same_holds_def rw_push_def)
    qed
  qed
qed

lemma rw_inv_kept:
  "rw_holds (\<lambda>_. 0) w' (case_sum (slice_lease w) r) a' \<Longrightarrow> same_holds w w' \<Longrightarrow> rw_inv w' r a'"
  by (simp add: rw_inv_def same_holds_slice_lease)

lemma rw_inv_refs_pos:
  assumes "rw_inv w r a" and "i \<in> set (rw_entries w)"
  shows "i < length (rw_heap w) \<and> 0 < en_refs (rw_heap w ! i)"
proof -
  have "i < length (rw_heap w)" "en_refs (rw_heap w ! i) = wanted_refs w i"
    using assms by (auto simp: rw_inv_def rw_holds_def rw_wf_def)
  then show ?thesis using assms(2) cell_sum_pins_nonneg [of i "rw_pins w"] cell_sum_slices_nonneg [of i "rw_slices w"]
    by (simp add: wanted_refs_def)
qed

lemma rw_inv_clear:
  assumes "rw_inv w r a" and "rw_clear release (w, a) = (w', a')"
  shows "rw_inv w' r a' \<and> rw_kept w w' \<and> same_holds w w'"
  using rw_clear_evicted [of "\<lambda>_. 0" "case_sum (slice_lease w) r" "(w, a)"] assms rw_inv_kept [of w' w r a']
  by (simp add: rw_evicted_def rw_inv_def)

lemma rw_inv_evictOldest:
  assumes "rw_inv w r a" and "rw_evictOldest release (w, a) = (ok, (w', a'))"
  shows "rw_inv w' r a' \<and> rw_kept w w' \<and> same_holds w w'"
proof (cases "rw_entries w = []")
  case True
  then show ?thesis using assms by (simp add: rw_evictOldest_def rw_kept_refl same_holds_def)
next
  case False
  then show ?thesis
    using assms rw_holds_evict [of "\<lambda>_. 0" w "case_sum (slice_lease w) r" a w' a'] rw_inv_kept [of w' w r a']
    by (simp add: rw_evictOldest_def rw_inv_def)
qed

lemma rw_inv_evictOldestUnpinned:
  assumes h: "rw_inv w r a" and step: "rw_evictOldestUnpinned release (w, a) = (ok, (w', a'))"
  shows "rw_inv w' r a' \<and> rw_kept w w' \<and> same_holds w w'"
proof (cases "filter (\<lambda>i. en_refs (rw_heap w ! i) = 1) (rw_entries w)")
  case Nil
  then show ?thesis using assms by (simp add: rw_evictOldestUnpinned_def rw_kept_refl same_holds_def)
next
  case (Cons i rest)
  then have "i \<in> set (rw_entries w)" by (metis filter_is_subset list.set_intros(1) subsetD)
  then obtain xs ys where ring: "rw_entries w = xs @ i # ys" "i \<notin> set xs" by (metis split_list_first)
  then have rem: "remove1 i (rw_entries w) = xs @ ys" by (simp add: remove1_append)
  have "rw_release_entry release i (rw_leave_window i (w\<lparr>rw_entries := xs @ ys\<rparr>), a) = (w', a')"
    using step Cons rem by (simp add: rw_evictOldestUnpinned_def)
  from rw_holds_leave [of "\<lambda>_. 0" w "case_sum (slice_lease w) r", OF _ ring(1) this] show ?thesis
    using h rw_inv_kept [of w' w r a'] by (simp add: rw_inv_def)
qed

lemma rw_inv_pin:
  assumes h: "rw_inv w r a" and step: "rw_pin seq w = (res, w')"
  shows "rw_inv w' r a \<and> rw_kept w w' \<and> rw_slices w' = rw_slices w"
proof (cases "rev (filter (\<lambda>i. entry_seq w i = seq) (rw_entries w))")
  case Nil
  then show ?thesis using assms by (simp add: rw_pin_def rw_kept_refl)
next
  case (Cons i rest)
  then have "i \<in> set (rw_entries w)" by (metis filter_is_subset list.set_intros(1) set_rev subsetD)
  then have i: "i < length (rw_heap w)" "0 < en_refs (rw_heap w ! i)" using rw_inv_refs_pos [OF h] by auto
  let ?v = "set_refs i (en_refs (rw_heap w ! i) + 1) w" and ?p = "\<lparr>rp_entry = i, rp_released = False\<rparr>"
  have w': "w' = ?v\<lparr>rw_pins := rw_pins w @ [?p]\<rparr>"
    using step Cons by (simp add: rw_pin_def set_refs_def)
  have wf: "rw_wf w" using h by (simp add: rw_inv_def rw_holds_def)
  have "rw_wf w' \<longleftrightarrow> rw_wf ?v"
    using i wf by (auto simp: w' rw_wf_def)
  moreover have "entry_lease w' = entry_lease w" "slice_lease w' = slice_lease w"
    using set_refs_lease [OF i, of "en_refs (rw_heap w ! i) + 1"] i(2)
    by (simp_all add: w' entry_lease_def slice_lease_def fun_eq_iff)
  moreover have "wanted_refs w' = (wanted_refs w)(i := wanted_refs w i + 1)"
    by (simp add: w' wanted_refs_def pin_on_def fun_eq_iff)
  ultimately have "rw_inv w' r a" using h i
    by (auto simp: rw_inv_def rw_holds_def w' set_refs_cell)
  moreover have "rw_kept w w'" using set_refs_kept [of w i "en_refs (rw_heap w ! i) + 1"] by (simp add: rw_kept_def w')
  ultimately show ?thesis by (simp add: w')
qed

lemma rw_inv_release_pin:
  assumes h: "rw_inv w r a" and p: "p < length (rw_pins w)" and step: "rw_release_pin release p (w, a) = (w', a')"
  shows "rw_inv w' r a' \<and> rw_kept w w' \<and> rw_slices w' = rw_slices w"
proof (cases "rp_released (rw_pins w ! p)")
  case True
  then show ?thesis using assms by (simp add: rw_release_pin_def rw_kept_refl)
next
  case False
  let ?i = "rp_entry (rw_pins w ! p)"
  let ?v = "w\<lparr>rw_pins := (rw_pins w)[p := (rw_pins w ! p)\<lparr>rp_released := True\<rparr>]\<rparr>"
  have i: "?i < length (rw_heap w)" using h p by (auto simp: rw_inv_def rw_holds_def rw_wf_def)
  have "wanted_refs ?v j = wanted_refs w j - of_bool (j = ?i)" for j
    using False p by (auto simp: wanted_refs_def cell_sum_update pin_on_def)
  moreover have "rw_wf ?v" using h i p unfolding rw_inv_def rw_holds_def rw_wf_def
    by (auto dest!: set_update_subset_insert [THEN subsetD])
  moreover have "entry_lease ?v = entry_lease w" by (simp add: entry_lease_def fun_eq_iff)
  ultimately have "rw_holds (\<lambda>j. of_bool (j = ?i)) ?v (case_sum (slice_lease w) r) a"
    using h by (simp add: rw_inv_def rw_holds_def)
  from rw_holds_release_entry [OF this, of ?i w' a'] step False i
  have "rw_holds (\<lambda>_. 0) w' (case_sum (slice_lease w) r) a'" "rw_kept ?v w'" "same_holds ?v w'"
    by (auto simp: rw_release_pin_def Let_def fun_upd_def of_bool_def cong: if_cong)
  moreover have "slice_lease w' = slice_lease w" using same_holds_slice_lease [OF \<open>same_holds ?v w'\<close>]
    by (simp add: slice_lease_def fun_eq_iff)
  ultimately show ?thesis by (simp add: rw_inv_def rw_kept_def same_holds_def)
qed

lemma rw_holds_release_entries:
  assumes "rw_holds d w r a" and "distinct is" and "\<And>i. i \<in> set is \<Longrightarrow> i < length (rw_heap w) \<and> 0 < d i"
  shows "\<exists>w' a'. fold (rw_release_entry release) is (w, a) = (w', a') \<and>
    rw_holds (\<lambda>i. d i - of_bool (i \<in> set is)) w' r a' \<and> rw_kept w w' \<and> same_holds w w' \<and> rw_entries w' = rw_entries w"
  using assms
proof (induction "is" arbitrary: d w a)
  case Nil
  then show ?case by (simp add: rw_kept_refl same_holds_def)
next
  case (Cons i "is")
  obtain w1 a1 where step: "rw_release_entry release i (w, a) = (w1, a1)" by fastforce
  have i: "i < length (rw_heap w)" "0 < d i" using Cons.prems(3) by auto
  define d' where "d' = d(i := d i - 1)"
  have one: "rw_holds d' w1 r a1" "rw_kept w w1" "same_holds w w1" "rw_entries w1 = rw_entries w"
    "length (rw_heap w1) = length (rw_heap w)"
    using rw_holds_release_entry [OF Cons.prems(1) i step] by (simp_all add: d'_def)
  have "\<And>j. j \<in> set is \<Longrightarrow> j < length (rw_heap w1) \<and> 0 < d' j"
    using Cons.prems(2,3) one by (auto simp: d'_def)
  then obtain w' a' where rest: "fold (rw_release_entry release) is (w1, a1) = (w', a')"
      "rw_holds (\<lambda>j. d' j - of_bool (j \<in> set is)) w' r a'"
      "rw_kept w1 w'" "same_holds w1 w'" "rw_entries w' = rw_entries w1"
    using Cons.IH [of d' w1 a1] one Cons.prems(2) by auto
  have "(\<lambda>j. d' j - of_bool (j \<in> set is)) = (\<lambda>j. d j - of_bool (j \<in> set (i # is)))"
    using Cons.prems(2) by (auto simp: fun_eq_iff d'_def)
  moreover have "fold (rw_release_entry release) (i # is) (w, a) = (w', a')" using rest(1) step by simp
  ultimately show ?case
    using rest one rw_kept_trans [OF one(2) rest(3)] same_holds_trans [OF one(3) rest(4)] by auto
qed

lemma rw_inv_release_slice:
  assumes h: "rw_inv w r a" and k: "k < length (rw_slices w)" and step: "rw_release_slice release k (w, a) = (w', a')"
  shows "rw_inv w' r a' \<and> rw_kept w w' \<and> map rl_selected (rw_slices w') = map rl_selected (rw_slices w)"
proof (cases "rl_released (rw_slices w ! k)")
  case True
  then show ?thesis using assms by (simp add: rw_release_slice_def rw_kept_refl)
next
  case False
  let ?sl = "rw_slices w ! k"
  let ?v = "w\<lparr>rw_slices := (rw_slices w)[k := ?sl\<lparr>rl_released := True\<rparr>]\<rparr>" and ?sel = "rl_selected ?sl"
  have sel: "distinct ?sel" "\<And>i. i \<in> set ?sel \<Longrightarrow> i < length (rw_heap w)"
    using h k by (auto simp: rw_inv_def rw_holds_def rw_wf_def)
  have "wanted_refs ?v j = wanted_refs w j - of_bool (j \<in> set ?sel)" for j
    using False k by (auto simp: wanted_refs_def cell_sum_update slice_on_def)
  moreover have "rw_wf ?v" using h k sel unfolding rw_inv_def rw_holds_def rw_wf_def
    by (auto dest!: set_update_subset_insert [THEN subsetD])
  ultimately have "rw_holds (\<lambda>j. of_bool (j \<in> set ?sel)) ?v (case_sum (slice_lease w) r) a"
    using h by (simp add: rw_inv_def rw_holds_def)
  from rw_holds_release_entries [OF this sel(1)] sel(2) obtain v b where
    v: "fold (rw_release_entry release) ?sel (?v, a) = (v, b)" "rw_holds (\<lambda>_. 0) v (case_sum (slice_lease w) r) b"
      "rw_kept ?v v" "same_holds ?v v" by auto
  have own: "owns b (case_sum (entry_lease v) (case_sum (slice_lease w) r))" using v(2) by (simp add: rw_holds_def)
  have sl: "slice_lease v = (slice_lease w)(k := None)"
    using k same_holds_slice_lease [OF v(4)] by (auto simp: slice_lease_def fun_eq_iff nth_list_update)
  then have eq: "case_sum (entry_lease v) (case_sum (slice_lease v) r) = (case_sum (entry_lease v) (case_sum (slice_lease w) r))(Inr (Inl k) := None)"
    by (auto simp: fun_eq_iff split: sum.splits)
  have "owns a' (case_sum (entry_lease v) (case_sum (slice_lease v) r)) \<and> w' = v"
  proof (cases "rl_references ?sl")
    case None
    then have "slice_lease w k = None" by (simp add: slice_lease_def)
    then have "slice_lease v = slice_lease w" by (simp add: sl fun_eq_iff)
    then show ?thesis using own step False v(1) None by (simp add: rw_release_slice_def Let_def)
  next
    case (Some l)
    then have "case_sum (entry_lease v) (case_sum (slice_lease w) r) (Inr (Inl k)) = Some (l, 64 + 64 * int (length ?sel))"
      using k False by (simp add: slice_lease_def)
    note rel = owns_release [OF own this]
    have "w' = v" "a' = release b l" using step False v(1) Some by (simp_all add: rw_release_slice_def Let_def)
    then show ?thesis unfolding eq using rel by blast
  qed
  moreover have "map rl_selected (rw_slices v) = map rl_selected (rw_slices w)"
    using v(4) k by (simp add: same_holds_def map_update list_update_same_conv)
  ultimately show ?thesis using v by (auto simp: rw_inv_def rw_holds_def rw_kept_def)
qed

lemma rw_inv_select:
  assumes h: "rw_inv w r acc" and step: "rw_select reserve a t (w, acc) = (res, (w', acc'))"
  shows "rw_inv w' r acc' \<and> rw_kept w w' \<and>
    (\<exists>sls. map rl_selected (rw_slices w') = map rl_selected (rw_slices w) @ sls)"
proof (cases res)
  case None
  then show ?thesis using rw_select_None [of reserve a t w acc w' acc'] step h reserve_None
    by (auto simp: rw_kept_refl)
next
  case (Some k)
  have wf: "rw_wf w" using h by (simp add: rw_inv_def rw_holds_def)
  let ?sel = "selection a t w"
  note sc = rw_select_cases [OF wf step [unfolded Some]]
  have sel: "a \<le> t" "map (entry_seq w) ?sel = [a + 1..t]" using sc by blast+
  have new: "if a = t
      then w' = w\<lparr>rw_slices := rw_slices w @ [\<lparr>rl_selected = [], rl_references = None, rl_released = False\<rparr>]\<rparr> \<and> acc' = acc
      else \<exists>l. reserve acc (64 + 64 * (t - a)) = (Some l, acc') \<and>
        w' = (rw_add_refs ?sel w)\<lparr>rw_slices := rw_slices (rw_add_refs ?sel w) @ [\<lparr>rl_selected = ?sel, rl_references = Some l, rl_released = False\<rparr>]\<rparr>"
    using sc by (elim conjE) assumption
  have own: "owns acc (case_sum (entry_lease w) (case_sum (slice_lease w) r))" using h by (simp add: rw_inv_def rw_holds_def)
  show ?thesis
  proof (cases "a = t")
    case True
    then have w': "w' = w\<lparr>rw_slices := rw_slices w @ [\<lparr>rl_selected = [], rl_references = None, rl_released = False\<rparr>]\<rparr>" "acc' = acc"
      using new by simp_all
    have "slice_lease w' = slice_lease w" by (auto simp: w' slice_lease_def fun_eq_iff nth_append less_Suc_eq)
    moreover have "wanted_refs w' = wanted_refs w" by (simp add: w' wanted_refs_def slice_on_def fun_eq_iff)
    moreover have "rw_wf w'" unfolding w' by (rule rw_wf_add_slice [OF wf]) simp_all
    ultimately show ?thesis using h w' by (simp add: rw_inv_def rw_holds_def rw_kept_def)
  next
    case False
    let ?v = "rw_add_refs ?sel w"
    from new False obtain l where res: "reserve acc (64 + 64 * (t - a)) = (Some l, acc')"
      and w': "w' = ?v\<lparr>rw_slices := rw_slices ?v @ [\<lparr>rl_selected = ?sel, rl_references = Some l, rl_released = False\<rparr>]\<rparr>"
      by auto
    have ring: "distinct ?sel" "\<And>i. i \<in> set ?sel \<Longrightarrow> i < length (rw_heap w) \<and> 0 < en_refs (rw_heap w ! i)"
      using wf rw_inv_refs_pos [OF h] by (auto simp: selection_def rw_wf_def)
    note ar = add_refs [OF ring]
    have len: "int (length ?sel) = t - a" using arg_cong [OF sel(2), of length] sel(1) by simp
    have "slice_lease w' = (slice_lease w)(length (rw_slices w) \<mapsto> (l, 64 + 64 * (t - a)))"
      using ar len by (auto simp: w' slice_lease_def same_holds_def fun_eq_iff nth_append less_Suc_eq)
    moreover have "owns acc' ((case_sum (entry_lease w) (case_sum (slice_lease w) r))(Inr (Inl (length (rw_slices w))) \<mapsto> (l, 64 + 64 * (t - a))))"
      by (rule owns_reserve [OF own res]) (simp add: slice_lease_def)
    moreover have "entry_lease w' = entry_lease w" using ar by (simp add: w')
    ultimately have "owns acc' (case_sum (entry_lease w') (case_sum (slice_lease w') r))" by (simp add: case_sum_upd)
    moreover have "wanted_refs w' j = wanted_refs w j + of_bool (j \<in> set ?sel)" for j
      using ar by (simp add: w' wanted_refs_def same_holds_def slice_on_def)
    moreover have "rw_wf ?v" "length (rw_heap ?v) = length (rw_heap w)" using ar wf by blast+
    then have "rw_wf w'" unfolding w' using ring by (intro rw_wf_add_slice) simp_all
    moreover have "en_refs (rw_heap w' ! j) = en_refs (rw_heap w ! j) + of_bool (j \<in> set ?sel)" if "j < length (rw_heap w)" for j
      using ar that by (simp add: w')
    moreover have "length (rw_heap w') = length (rw_heap w)" using ar by (simp add: w')
    ultimately have "rw_inv w' r acc'" using h by (simp add: rw_inv_def rw_holds_def)
    moreover have "rw_kept w w'" using ar by (simp add: w' rw_kept_def)
    moreover have "rw_slices ?v = rw_slices w" using ar by (simp add: same_holds_def)
    ultimately show ?thesis by (simp add: w')
  qed
qed

end

subsection \<open>A run of the window on the worker's account\<close>

text \<open>
  The calls the worker makes, in any order, interleaved with the reservations and releases other
  clients make on the same account. A pin or a slice is released through the closure it was
  returned with; the last component lists the leases of the other clients.
\<close>

datatype rw_op =
    RwAppend retained_fact
  | RwSelect number number
  | RwReleaseSlice handle
  | RwPin number
  | RwReleasePin handle
  | RwClear
  | RwEvictOldest
  | RwEvictOldestUnpinned
  | RwOtherReserve number
  | RwOtherRelease handle

type_synonym rw_state = "(replay_window \<times> worker_bytes) \<times> (handle \<times> number) option list"

definition replay_reserve :: "worker_bytes reserve_fn" where
  "replay_reserve = wb_reserve CatWorker"

fun rw_step :: "rw_op \<Rightarrow> rw_state \<Rightarrow> rw_state" where
  "rw_step (RwAppend f) (s, others) = (rw_append replay_reserve wb_release f s, others)"
| "rw_step (RwSelect a t) (s, others) = (snd (rw_select replay_reserve a t s), others)"
| "rw_step (RwReleaseSlice k) (s, others) =
     (if k < length (rw_slices (fst s)) then (rw_release_slice wb_release k s, others) else (s, others))"
| "rw_step (RwPin seq) (s, others) = ((snd (rw_pin seq (fst s)), snd s), others)"
| "rw_step (RwReleasePin p) (s, others) =
     (if p < length (rw_pins (fst s)) then (rw_release_pin wb_release p s, others) else (s, others))"
| "rw_step RwClear (s, others) = (rw_clear wb_release s, others)"
| "rw_step RwEvictOldest (s, others) = (snd (rw_evictOldest wb_release s), others)"
| "rw_step RwEvictOldestUnpinned (s, others) = (snd (rw_evictOldestUnpinned wb_release s), others)"
| "rw_step (RwOtherReserve n) (s, others) =
     (case other_reserve (wb_reserve CatWorker) n (snd s, others) of (a, others) \<Rightarrow> ((fst s, a), others))"
| "rw_step (RwOtherRelease j) (s, others) =
     (case other_release wb_release j (snd s, others) of (a, others) \<Rightarrow> ((fst s, a), others))"

definition rw_run :: "replay_window \<Rightarrow> worker_bytes \<Rightarrow> rw_op list \<Rightarrow> rw_state" where
  "rw_run w a ops = fold rw_step ops ((w, a), [])"

text \<open>The facts \<open>append\<close> accepts in a run: those newer than the newest before them.\<close>

fun rw_accepted :: "number \<Rightarrow> rw_op list \<Rightarrow> retained_fact list" where
  "rw_accepted latest [] = []"
| "rw_accepted latest (RwAppend f # ops) =
     (if re_seq (rf_event f) \<le> latest then rw_accepted latest ops
      else f # rw_accepted (re_seq (rf_event f)) ops)"
| "rw_accepted latest (_ # ops) = rw_accepted latest ops"

definition rw_run_inv :: "rw_state \<Rightarrow> bool" where
  "rw_run_inv S \<longleftrightarrow> wb.rw_inv (fst (fst S)) (list_lof id (snd S)) (snd (fst S))"

text \<open>How a step extends the window: facts are added to the heap, slices to the list of slices, nothing changes.\<close>

definition rw_extends :: "retained_fact set \<Rightarrow> replay_window \<Rightarrow> replay_window \<Rightarrow> bool" where
  "rw_extends F w w' \<longleftrightarrow> rw_maxBytes w' = rw_maxBytes w \<and> rw_maxEvents w' = rw_maxEvents w \<and>
     (\<exists>fs. map en_fact (rw_heap w') = map en_fact (rw_heap w) @ fs \<and> set fs \<subseteq> F) \<and>
     (\<exists>sls. map rl_selected (rw_slices w') = map rl_selected (rw_slices w) @ sls)"

lemma rw_extends_kept:
  "rw_kept w w' \<Longrightarrow> (\<exists>sls. map rl_selected (rw_slices w') = map rl_selected (rw_slices w) @ sls) \<Longrightarrow> rw_extends F w w'"
  by (auto simp: rw_extends_def rw_kept_def)

lemma rw_extends_trans: "rw_extends F u v \<Longrightarrow> rw_extends G v w \<Longrightarrow> rw_extends (F \<union> G) u w"
  by (fastforce simp: rw_extends_def)

definition rw_accepts :: "replay_window \<Rightarrow> rw_op \<Rightarrow> retained_fact list" where
  "rw_accepts w op = rw_accepted (rw_latestSeq w) [op]"

definition rw_step_ok :: "rw_op \<Rightarrow> replay_window \<Rightarrow> rw_state \<Rightarrow> bool" where
  "rw_step_ok op w S' \<longleftrightarrow> rw_run_inv S' \<and> rw_extends (set (rw_accepts w op)) w (fst (fst S')) \<and>
     rw_latestSeq (fst (fst S')) = fold (\<lambda>f _. re_seq (rf_event f)) (rw_accepts w op) (rw_latestSeq w)"

lemma rw_step_okI:
  assumes "wb.rw_inv w' (list_lof id others) a'" and "rw_kept w w'"
    and "\<exists>sls. map rl_selected (rw_slices w') = map rl_selected (rw_slices w) @ sls" and "rw_accepts w op = []"
  shows "rw_step_ok op w ((w', a'), others)"
  using assms rw_extends_kept [OF assms(2,3)] by (simp add: rw_step_ok_def rw_run_inv_def rw_kept_def)

lemma rw_step_append:
  assumes "wb.rw_inv w (list_lof id others) a"
  shows "rw_step_ok (RwAppend f) w (rw_step (RwAppend f) ((w, a), others))"
proof -
  obtain w' a' where step: "rw_append replay_reserve wb_release f (w, a) = (w', a')" by fastforce
  note * = wb.rw_inv_append [OF assms step [unfolded replay_reserve_def]]
  show ?thesis
  proof (cases "re_seq (rf_event f) \<le> rw_latestSeq w")
    case True
    then have "w' = w" "a' = a" using step by (simp_all add: rw_append_def)
    then show ?thesis using True assms step
      by (simp add: rw_step_okI rw_kept_refl rw_accepts_def)
  next
    case False
    then show ?thesis using * step
      by (simp add: rw_step_ok_def rw_run_inv_def rw_accepts_def rw_extends_def ring_grows_def same_holds_def)
  qed
qed

lemma rw_step_others:
  assumes h: "wb.rw_inv w (list_lof id others) a"
  shows "rw_step_ok (RwOtherReserve n) w (rw_step (RwOtherReserve n) ((w, a), others))"
    and "rw_step_ok (RwOtherRelease j) w (rw_step (RwOtherRelease j) ((w, a), others))"
proof -
  have own: "wb.owns a (case_sum (case_sum (entry_lease w) (slice_lease w)) (list_lof id others))"
    and rest: "wb.owns b (case_sum (case_sum (entry_lease w) (slice_lease w)) (list_lof id ls)) \<Longrightarrow> wb.rw_inv w (list_lof id ls) b" for b ls
    using h by (simp_all add: wb.rw_inv_def wb.rw_holds_def wb.owns_assoc)
  obtain b ls where "other_reserve (wb_reserve CatWorker) n (a, others) = (b, ls)" by fastforce
  then show "rw_step_ok (RwOtherReserve n) w (rw_step (RwOtherReserve n) ((w, a), others))"
    using wb.owns_other_reserve [OF own] by (simp add: rw_step_okI rest rw_kept_refl rw_accepts_def)
  obtain b ls where "other_release wb_release j (a, others) = (b, ls)" by fastforce
  then show "rw_step_ok (RwOtherRelease j) w (rw_step (RwOtherRelease j) ((w, a), others))"
    using wb.owns_other_release [OF own] by (simp add: rw_step_okI rest rw_kept_refl rw_accepts_def)
qed

lemma same_holds_slices: "same_holds w w' \<Longrightarrow> \<exists>sls. map rl_selected (rw_slices w') = map rl_selected (rw_slices w) @ sls"
  by (simp add: same_holds_def)

lemma rw_step_ok:
  assumes "rw_run_inv S"
  shows "rw_step_ok op (fst (fst S)) (rw_step op S)"
proof -
  obtain w a others where S: "S = ((w, a), others)" by (metis prod.exhaust)
  have h: "wb.rw_inv w (list_lof id others) a" using assms by (simp add: S rw_run_inv_def)
  show ?thesis
  proof (cases op)
    case (RwAppend f)
    then show ?thesis using rw_step_append [OF h] S by simp
  next
    case (RwSelect b t)
    obtain res w' a' where step: "rw_select replay_reserve b t (w, a) = (res, (w', a'))" by (metis prod.exhaust)
    show ?thesis using wb.rw_inv_select [OF h step [unfolded replay_reserve_def]] step
      by (simp add: S RwSelect rw_step_okI rw_accepts_def)
  next
    case (RwReleaseSlice k)
    obtain w' a' where step: "rw_release_slice wb_release k (w, a) = (w', a')" by fastforce
    show ?thesis using wb.rw_inv_release_slice [OF h _ step] step h
      by (cases "k < length (rw_slices w)") (simp_all add: S RwReleaseSlice rw_step_okI rw_accepts_def rw_kept_refl)
  next
    case (RwPin q)
    obtain res w' where step: "rw_pin q w = (res, w')" by fastforce
    show ?thesis using wb.rw_inv_pin [OF h step] step by (simp add: S RwPin rw_step_okI rw_accepts_def)
  next
    case (RwReleasePin p)
    obtain w' a' where step: "rw_release_pin wb_release p (w, a) = (w', a')" by fastforce
    show ?thesis using wb.rw_inv_release_pin [OF h _ step] step h
      by (cases "p < length (rw_pins w)") (simp_all add: S RwReleasePin rw_step_okI rw_accepts_def rw_kept_refl)
  next
    case RwClear
    obtain w' a' where step: "rw_clear wb_release (w, a) = (w', a')" by fastforce
    show ?thesis using wb.rw_inv_clear [OF h step] step by (simp add: S RwClear rw_step_okI rw_accepts_def same_holds_slices)
  next
    case RwEvictOldest
    obtain ok w' a' where step: "rw_evictOldest wb_release (w, a) = (ok, (w', a'))" by (metis prod.exhaust)
    show ?thesis using wb.rw_inv_evictOldest [OF h step] step
      by (simp add: S RwEvictOldest rw_step_okI rw_accepts_def same_holds_slices)
  next
    case RwEvictOldestUnpinned
    obtain ok w' a' where step: "rw_evictOldestUnpinned wb_release (w, a) = (ok, (w', a'))" by (metis prod.exhaust)
    show ?thesis using wb.rw_inv_evictOldestUnpinned [OF h step] step
      by (simp add: S RwEvictOldestUnpinned rw_step_okI rw_accepts_def same_holds_slices)
  qed (use rw_step_others [OF h] S in simp_all)
qed

lemma rw_accepted_step:
  "rw_accepted l (op # ops) = rw_accepted l [op] @ rw_accepted (fold (\<lambda>f _. re_seq (rf_event f)) (rw_accepted l [op]) l) ops"
  by (cases op) simp_all

text \<open>A run keeps the invariant, extends the window by accepted facts only and ends at the newest accepted sequence number.\<close>

lemma rw_fold_ok:
  assumes "rw_run_inv S"
  shows "rw_run_inv (fold rw_step ops S) \<and>
    rw_extends (set (rw_accepted (rw_latestSeq (fst (fst S))) ops)) (fst (fst S)) (fst (fst (fold rw_step ops S)))"
  using assms
proof (induction ops arbitrary: S)
  case Nil
  then show ?case by (simp add: rw_extends_def)
next
  case (Cons op ops)
  let ?S = "rw_step op S" and ?l = "rw_latestSeq (fst (fst S))"
  have ok: "rw_run_inv ?S" "rw_extends (set (rw_accepted ?l [op])) (fst (fst S)) (fst (fst ?S))"
    "rw_latestSeq (fst (fst ?S)) = fold (\<lambda>f _. re_seq (rf_event f)) (rw_accepted ?l [op]) ?l"
    using rw_step_ok [OF Cons.prems, of op] by (simp_all add: rw_step_ok_def rw_accepts_def)
  show ?case
    using Cons.IH [OF ok(1)] rw_extends_trans [OF ok(2)] ok(3) rw_accepted_step [of ?l op ops] by simp
qed

lemma rw_accepted_sorted:
  "sorted_wrt (<) (map (re_seq \<circ> rf_event) (rw_accepted l ops)) \<and> (\<forall>f \<in> set (rw_accepted l ops). l < re_seq (rf_event f))"
  by (induction l ops rule: rw_accepted.induct) (auto, (drule (1) bspec, linarith))

lemma new_rw_run_inv:
  assumes "wb_inv a" and "wb_charge a = Map.empty"
  shows "rw_run_inv ((new_replay_window maxBytes maxEvents, a), [])"
proof -
  have "case_sum (entry_lease (new_replay_window maxBytes maxEvents))
      (case_sum (slice_lease (new_replay_window maxBytes maxEvents)) (list_lof id [])) = Map.empty"
    by (simp add: fun_eq_iff entry_lease_def slice_lease_def list_lof_def new_replay_window_def split: sum.splits)
  then show ?thesis using assms
    by (simp add: rw_run_inv_def wb.rw_inv_def wb.rw_holds_def wb.owns_def rw_wf_def new_replay_window_def)
qed

lemma sorted_map_eqI:
  fixes g :: "'a \<Rightarrow> int"
  assumes "sorted_wrt (<) (map g xs)" and "map g ys = [a..b]" and "set ys \<subseteq> set xs"
  shows "ys = filter (\<lambda>x. a \<le> g x \<and> g x \<le> b) xs"
proof -
  let ?f = "filter (\<lambda>x. a \<le> g x \<and> g x \<le> b) xs"
  have inj: "inj_on g (set xs)" using assms(1) by (metis distinct_map strict_sorted_iff strict_sorted_simps)
  have "set (map g ?f) = {a..b}"
  proof (rule equalityI)
    show "{a..b} \<subseteq> set (map g ?f)"
    proof
      fix q assume q: "q \<in> {a..b}"
      then have "q \<in> set (map g ys)" using assms(2) by simp
      then show "q \<in> set (map g ?f)" using assms(3) q by auto
    qed
  qed auto
  then have "map g ?f = [a..b]"
    by (intro strict_sorted_equal) (use assms(1) in \<open>simp_all add: sorted_wrt_map sorted_wrt_filter\<close>)
  then have "map g ys = map g ?f" using assms(2) by simp
  then show ?thesis using inj assms(3) by (intro map_inj_on [of g ys ?f]) (auto intro: inj_on_subset)
qed

lemma new_worker_bytes_charge: "wb_charge (new_worker_bytes limit c) = Map.empty"
  by (simp add: new_worker_bytes_def wb_charge_def fun_eq_iff)

lemma new_rw_run: "rw_run_inv ((new_replay_window maxBytes maxEvents, new_worker_bytes limit c), [])"
  by (rule new_rw_run_inv [OF new_worker_bytes_inv new_worker_bytes_charge])

lemma rw_run_ok:
  "rw_run_inv (rw_run (new_replay_window maxBytes maxEvents) (new_worker_bytes limit c) ops) \<and>
   rw_extends (set (rw_accepted 0 ops)) (new_replay_window maxBytes maxEvents)
     (fst (fst (rw_run (new_replay_window maxBytes maxEvents) (new_worker_bytes limit c) ops)))"
  using rw_fold_ok [OF new_rw_run [of maxBytes maxEvents limit c], of ops] by (simp add: rw_run_def new_replay_window_def)

lemma rw_slice_facts_extends:
  assumes ext: "rw_extends F w w'" and wf: "rw_wf w" and k: "k < length (rw_slices w)"
  shows "rw_slice_facts w' k = rw_slice_facts w k"
proof -
  obtain fs sls where fs: "map en_fact (rw_heap w') = map en_fact (rw_heap w) @ fs"
    and sls: "map rl_selected (rw_slices w') = map rl_selected (rw_slices w) @ sls"
    using ext by (auto simp: rw_extends_def)
  have "length (rw_slices w) \<le> length (rw_slices w')" using arg_cong [OF sls, of length] by simp
  then have "rl_selected (rw_slices w' ! k) = map rl_selected (rw_slices w') ! k" using k by simp
  then have sel: "rl_selected (rw_slices w' ! k) = rl_selected (rw_slices w ! k)" using k by (simp add: sls nth_append)
  have "en_fact (rw_heap w' ! i) = en_fact (rw_heap w ! i)" if "i < length (rw_heap w)" for i
  proof -
    have "length (rw_heap w) \<le> length (rw_heap w')" using arg_cong [OF fs, of length] by simp
    then have "en_fact (rw_heap w' ! i) = map en_fact (rw_heap w') ! i" using that by simp
    then show ?thesis using that by (simp add: fs nth_append)
  qed
  moreover have "i < length (rw_heap w)" if "i \<in> set (rl_selected (rw_slices w ! k))" for i
    using that wf nth_mem [OF k] by (auto simp: rw_wf_def)
  ultimately show ?thesis by (simp add: rw_slice_facts_def sel)
qed

lemma rw_select_slice:
  assumes inv: "rw_run_inv ((w, acc), others)" and facts: "set (map en_fact (rw_heap w)) \<subseteq> set fs"
    and sorted: "sorted_wrt (<) (map (re_seq \<circ> rf_event) fs)"
    and sel: "rw_select replay_reserve a t (w, acc) = (Some k, (w', acc'))"
  shows "rw_slice_facts w' k = filter (\<lambda>f. a < re_seq (rf_event f) \<and> re_seq (rf_event f) \<le> t) fs \<and>
    map (re_seq \<circ> rf_event) (rw_slice_facts w' k) = [a + 1..t] \<and>
    list_all (\<lambda>f. \<not> resize_needs_baseline (rf_event f)) (rw_slice_facts w' k) \<and> k < length (rw_slices w')"
proof -
  have h: "wb.rw_inv w (list_lof id others) acc" and wf: "rw_wf w"
    using inv by (simp_all add: rw_run_inv_def wb.rw_inv_def wb.rw_holds_def)
  have case_facts: "if a = t
      then w' = w\<lparr>rw_slices := rw_slices w @ [\<lparr>rl_selected = [], rl_references = None, rl_released = False\<rparr>]\<rparr> \<and> acc' = acc
      else \<exists>l. replay_reserve acc (64 + 64 * (t - a)) = (Some l, acc') \<and>
        w' = (rw_add_refs (selection a t w) w)\<lparr>rw_slices := rw_slices (rw_add_refs (selection a t w) w) @
               [\<lparr>rl_selected = selection a t w, rl_references = Some l, rl_released = False\<rparr>]\<rparr>"
    by (rule conjunct2 [OF conjunct2 [OF conjunct2 [OF conjunct2 [OF rw_select_cases [OF wf sel]]]]])
  have sc: "k = length (rw_slices w)" "a \<le> t" "map (entry_seq w) (selection a t w) = [a + 1..t]"
    "\<forall>i \<in> set (selection a t w). \<not> resize_needs_baseline (rf_event (en_fact (rw_heap w ! i)))"
    using rw_select_cases [OF wf sel] by (blast dest: conjunct1 conjunct2)+
  have kept: "rw_kept w w'" using wb.rw_inv_select [OF h sel [unfolded replay_reserve_def]] by blast
  have "rw_slices (rw_add_refs is v) = rw_slices v" for "is" v
    by (induction "is" arbitrary: v) (simp_all add: rw_add_refs_def)
  moreover have "selection a t w = []" if "a = t" using that by (auto simp: selection_def filter_empty_conv)
  ultimately have slice: "rl_selected (rw_slices w' ! k) = selection a t w \<and> k < length (rw_slices w')"
    using case_facts sc(1) by (cases "a = t") auto
  have lt: "i < length (rw_heap w)" if "i \<in> set (selection a t w)" for i
    using that wf by (auto simp: selection_def rw_wf_def)
  have "en_fact (rw_heap w' ! i) = en_fact (rw_heap w ! i)" if "i < length (rw_heap w)" for i
  proof -
    have facts: "map en_fact (rw_heap w') = map en_fact (rw_heap w)" using kept by (simp add: rw_kept_def)
    then have "length (rw_heap w') = length (rw_heap w)" by (metis length_map)
    then show ?thesis using that facts nth_map [of i "rw_heap w'" en_fact] by simp
  qed
  then have eq: "rw_slice_facts w' k = map (\<lambda>i. en_fact (rw_heap w ! i)) (selection a t w)"
    using lt by (simp add: rw_slice_facts_def slice)
  have seqs: "map (re_seq \<circ> rf_event) (rw_slice_facts w' k) = [a + 1..t]"
    using sc(3) by (simp add: eq entry_seq_def [abs_def] comp_def)
  have "en_fact (rw_heap w ! i) \<in> set fs" if "i \<in> set (selection a t w)" for i
    using subsetD [OF facts, of "en_fact (rw_heap w ! i)"] lt [OF that] by simp
  then have "set (rw_slice_facts w' k) \<subseteq> set fs" unfolding eq by auto
  from sorted_map_eqI [OF sorted seqs this]
  have "rw_slice_facts w' k = filter (\<lambda>f. a < re_seq (rf_event f) \<and> re_seq (rf_event f) \<le> t) fs"
    by (simp only: add1_zle_eq comp_apply)
  moreover have "list_all (\<lambda>f. \<not> resize_needs_baseline (rf_event f)) (rw_slice_facts w' k)"
    using sc(4) by (simp add: eq list_all_iff)
  ultimately show ?thesis using seqs slice by simp
qed

subsection \<open>Draining\<close>

lemma release_entries_frame:
  "rw_entries (fst (fold (rw_release_entry release) is s)) = rw_entries (fst s)"
  "rw_pins (fst (fold (rw_release_entry release) is s)) = rw_pins (fst s)"
  "rw_slices (fst (fold (rw_release_entry release) is s)) = rw_slices (fst s)"
  by (induction "is" arbitrary: s) (simp_all add: rw_release_entry_def Let_def)

lemma rw_evict_frame:
  "rw_pins (fst (rw_evict release s)) = rw_pins (fst s) \<and> rw_slices (fst (rw_evict release s)) = rw_slices (fst s)"
  by (simp add: rw_evict_def rw_release_entry_def rw_leave_window_def Let_def split: list.splits)

lemma rw_clear_frame:
  "rw_entries (fst (rw_clear release s)) = [] \<and> rw_pins (fst (rw_clear release s)) = rw_pins (fst s) \<and>
   rw_slices (fst (rw_clear release s)) = rw_slices (fst s)"
proof (induction "length (rw_entries (fst s))" arbitrary: s)
  case 0
  then show ?case by (simp add: rw_clear.simps [of release s])
next
  case (Suc n)
  have "rw_clear release s = rw_clear release (rw_evict release s)" using Suc.hyps(2) by (subst rw_clear.simps) auto
  moreover have "n = length (rw_entries (fst (rw_evict release s)))" using Suc.hyps(2) by simp
  ultimately show ?case using Suc.hyps(1) [of "rw_evict release s"] rw_evict_frame [of release s] by simp
qed

definition drained :: "nat \<Rightarrow> nat \<Rightarrow> nat \<Rightarrow> rw_state \<Rightarrow> bool" where
  "drained i j k S \<longleftrightarrow> rw_entries (fst (fst S)) = [] \<and> list_all rl_released (take i (rw_slices (fst (fst S)))) \<and>
     list_all rp_released (take j (rw_pins (fst (fst S)))) \<and> list_all (\<lambda>x. x = None) (take k (snd S))"

definition sizes :: "rw_state \<Rightarrow> nat \<times> nat \<times> nat" where
  "sizes S = (length (rw_slices (fst (fst S))), length (rw_pins (fst (fst S))), length (snd S))"

lemma list_all_take_Suc: "list_all P (take (Suc i) xs) \<longleftrightarrow> list_all P (take i xs) \<and> (i < length xs \<longrightarrow> P (xs ! i))"
  by (cases "i < length xs") (auto simp: take_Suc_conv_app_nth)

lemma release_slice_frame:
  "rw_entries (fst (rw_release_slice release k s)) = rw_entries (fst s)"
  "rw_pins (fst (rw_release_slice release k s)) = rw_pins (fst s)"
  "rw_slices (fst (rw_release_slice release k s)) = (rw_slices (fst s))[k := (rw_slices (fst s) ! k)\<lparr>rl_released := True\<rparr>]"
proof -
  have same: "rl_released x \<Longrightarrow> x\<lparr>rl_released := True\<rparr> = x" for x :: replay_slice by simp
  show "rw_entries (fst (rw_release_slice release k s)) = rw_entries (fst s)"
    "rw_pins (fst (rw_release_slice release k s)) = rw_pins (fst s)"
    "rw_slices (fst (rw_release_slice release k s)) = (rw_slices (fst s))[k := (rw_slices (fst s) ! k)\<lparr>rl_released := True\<rparr>]"
    by (simp_all add: rw_release_slice_def release_entries_frame same Let_def split: option.split)
qed

lemma release_pin_frame:
  "rw_entries (fst (rw_release_pin release k s)) = rw_entries (fst s)"
  "rw_slices (fst (rw_release_pin release k s)) = rw_slices (fst s)"
  "rw_pins (fst (rw_release_pin release k s)) = (rw_pins (fst s))[k := (rw_pins (fst s) ! k)\<lparr>rp_released := True\<rparr>]"
proof -
  have same: "rp_released x \<Longrightarrow> x\<lparr>rp_released := True\<rparr> = x" for x :: replay_pin by simp
  show "rw_entries (fst (rw_release_pin release k s)) = rw_entries (fst s)"
    "rw_slices (fst (rw_release_pin release k s)) = rw_slices (fst s)"
    "rw_pins (fst (rw_release_pin release k s)) = (rw_pins (fst s))[k := (rw_pins (fst s) ! k)\<lparr>rp_released := True\<rparr>]"
    by (simp_all add: rw_release_pin_def rw_release_entry_def same Let_def)
qed

lemma drain_slice:
  assumes "drained i j k S"
  shows "drained (Suc i) j k (rw_step (RwReleaseSlice i) S) \<and> sizes (rw_step (RwReleaseSlice i) S) = sizes S"
proof -
  obtain s others where S: "S = (s, others)" by fastforce
  show ?thesis using assms
    by (cases "i < length (rw_slices (fst s))")
      (simp_all add: S drained_def sizes_def list_all_take_Suc release_slice_frame take_update_cancel)
qed

lemma drain_pin:
  assumes "drained i j k S"
  shows "drained i (Suc j) k (rw_step (RwReleasePin j) S) \<and> sizes (rw_step (RwReleasePin j) S) = sizes S"
proof -
  obtain s others where S: "S = (s, others)" by fastforce
  show ?thesis using assms
    by (cases "j < length (rw_pins (fst s))")
      (simp_all add: S drained_def sizes_def list_all_take_Suc release_pin_frame take_update_cancel)
qed

lemma drain_other:
  assumes "drained i j k S"
  shows "drained i j (Suc k) (rw_step (RwOtherRelease k) S) \<and> sizes (rw_step (RwOtherRelease k) S) = sizes S"
proof -
  obtain s others where S: "S = (s, others)" by fastforce
  show ?thesis using assms
    by (cases "k < length others")
      (simp_all add: S other_release_def drained_def sizes_def list_all_take_Suc take_update_cancel split: option.split)
qed

definition drain_ops :: "rw_state \<Rightarrow> rw_op list" where
  "drain_ops S = (case sizes S of (i, j, k) \<Rightarrow>
     RwClear # map RwReleaseSlice [0..<i] @ map RwReleasePin [0..<j] @ map RwOtherRelease [0..<k])"

lemma drain_fold:
  assumes "\<And>m T. D m T \<Longrightarrow> D (Suc m) (rw_step (f m) T) \<and> sizes (rw_step (f m) T) = sizes T" and "D 0 S"
  shows "D n (fold rw_step (map f [0..<n]) S) \<and> sizes (fold rw_step (map f [0..<n]) S) = sizes S"
proof (induction n)
  case (Suc n)
  then show ?case using assms(1) [of n "fold rw_step (map f [0..<n]) S"] by simp
qed (simp add: assms(2))

lemma drain_all:
  assumes "sizes S = (i, j, k)"
  shows "drained i j k (fold rw_step (drain_ops S) S) \<and> sizes (fold rw_step (drain_ops S) S) = (i, j, k)"
proof -
  define S1 where "S1 = rw_step RwClear S"
  define S2 where "S2 = fold rw_step (map RwReleaseSlice [0..<i]) S1"
  define S3 where "S3 = fold rw_step (map RwReleasePin [0..<j]) S2"
  have S1: "drained 0 0 0 S1 \<and> sizes S1 = sizes S"
    by (cases S rule: prod.exhaust) (simp add: S1_def drained_def sizes_def rw_clear_frame)
  then have S2: "drained i 0 0 S2 \<and> sizes S2 = sizes S1"
    unfolding S2_def by (intro drain_fold [of "\<lambda>m. drained m 0 0"] drain_slice) simp_all
  then have S3: "drained i j 0 S3 \<and> sizes S3 = sizes S2"
    unfolding S3_def by (intro drain_fold [of "\<lambda>m. drained i m 0"] drain_pin) simp_all
  then have "drained i j k (fold rw_step (map RwOtherRelease [0..<k]) S3) \<and> sizes (fold rw_step (map RwOtherRelease [0..<k]) S3) = sizes S3"
    by (intro drain_fold [of "\<lambda>m. drained i j m"] drain_other) simp_all
  moreover have "fold rw_step (drain_ops S) S = fold rw_step (map RwOtherRelease [0..<k]) S3"
    by (simp add: drain_ops_def assms S1_def S2_def S3_def)
  ultimately show ?thesis using S1 S2 S3 assms by simp
qed

subsection \<open>Properties\<close>

definition entry_held :: "replay_entry \<Rightarrow> (handle \<times> number) option" where
  "entry_held e = (if 0 < en_refs e then Some (en_lease e, en_charge e) else None)"

definition slice_held :: "replay_slice \<Rightarrow> (handle \<times> number) option" where
  "slice_held sl = (if rl_released sl then None
     else map_option (\<lambda>l. (l, 64 + 64 * int (length (rl_selected sl)))) (rl_references sl))"

lemma rw_run_used:
  assumes "rw_run_inv S"
  shows "wb_used (snd (fst S)) = cell_sum (held \<circ> entry_held) (rw_heap (fst (fst S))) +
    cell_sum (held \<circ> slice_held) (rw_slices (fst (fst S))) + cell_sum (held \<circ> id) (snd S)"
proof -
  let ?w = "fst (fst S)"
  have own: "wb.owns (snd (fst S)) (case_sum (entry_lease ?w) (case_sum (slice_lease ?w) (list_lof id (snd S))))"
    using assms by (simp add: rw_run_inv_def wb.rw_inv_def wb.rw_holds_def)
  have fin: "finite (dom (case_sum (slice_lease ?w) (list_lof id (snd S))))"
    by (rule finite_subset [of _ "Inl ` {..<length (rw_slices ?w)} \<union> Inr ` {..<length (snd S)}"])
      (auto simp: slice_lease_def list_lof_def split: sum.splits if_splits)
  have "entry_lease ?w = list_lof entry_held (rw_heap ?w)" "slice_lease ?w = list_lof slice_held (rw_slices ?w)"
    by (simp_all add: entry_lease_def slice_lease_def list_lof_def entry_held_def slice_held_def fun_eq_iff)
  then show ?thesis
    using wb.owns_total_sum [OF own] lof_total_sum [OF fin] by (simp add: lof_total_list_lof)
qed

lemma rw_drained_unused:
  assumes inv: "rw_run_inv T" and "sizes T = (i, j, k)" and "drained i j k T"
  shows "wb_used (snd (fst T)) = 0"
proof -
  let ?w = "fst (fst T)"
  have d: "rw_entries ?w = []" "\<And>x. x \<in> set (rw_slices ?w) \<Longrightarrow> rl_released x" "\<And>x. x \<in> set (rw_pins ?w) \<Longrightarrow> rp_released x"
    "\<And>x. x \<in> set (snd T) \<Longrightarrow> x = None"
    using assms(2,3) by (auto simp: drained_def sizes_def list_all_iff)
  have pins: "cell_sum (pin_on n) (rw_pins ?w) = cell_sum (\<lambda>_. 0) (rw_pins ?w)" for n
    by (rule cell_sum_cong) (simp add: pin_on_def d(3))
  have slices: "cell_sum (slice_on n) (rw_slices ?w) = cell_sum (\<lambda>_. 0) (rw_slices ?w)" for n
    by (rule cell_sum_cong) (simp add: slice_on_def d(2))
  have "wanted_refs ?w n = 0" for n by (simp add: wanted_refs_def d(1) cell_sum_zero pins slices)
  then have "en_refs e = 0" if "e \<in> set (rw_heap ?w)" for e
    using that inv by (auto simp: in_set_conv_nth rw_run_inv_def wb.rw_inv_def wb.rw_holds_def)
  then have "cell_sum (held \<circ> entry_held) (rw_heap ?w) = cell_sum (\<lambda>_. 0) (rw_heap ?w)"
    by (intro cell_sum_cong) (simp add: entry_held_def)
  moreover have "cell_sum (held \<circ> slice_held) (rw_slices ?w) = cell_sum (\<lambda>_. 0) (rw_slices ?w)"
    by (rule cell_sum_cong) (simp add: slice_held_def d(2))
  moreover have "cell_sum (held \<circ> id) (snd T) = cell_sum (\<lambda>_. 0) (snd T)"
    by (rule cell_sum_cong) (drule d(4), simp)
  ultimately show ?thesis using rw_run_used [OF inv] by (simp add: cell_sum_zero)
qed

lemma rw_wf_ring:
  assumes "rw_wf w"
  shows "rw_retainedBytes w \<le> max 0 (rw_maxBytes w)" and "rw_retainedEvents w \<le> max 1 (rw_maxEvents w)"
    and "rw_retainedBytes w = sum_list (map (\<lambda>i. en_charge (rw_heap w ! i)) (rw_entries w))"
    and "sorted_wrt (<) (map (entry_seq w) (rw_entries w) @ [rw_latestSeq w + 1])"
    and "set (map (\<lambda>i. en_fact (rw_heap w ! i)) (rw_entries w)) \<subseteq> set (map en_fact (rw_heap w))"
proof -
  show "rw_retainedBytes w \<le> max 0 (rw_maxBytes w)" "rw_retainedEvents w \<le> max 1 (rw_maxEvents w)"
    "rw_retainedBytes w = sum_list (map (\<lambda>i. en_charge (rw_heap w ! i)) (rw_entries w))"
    using assms by (cases "rw_entries w = []"; simp add: rw_wf_def rw_retainedBytes_def rw_retainedEvents_def max_def)+
  have "\<And>i. i \<in> set (rw_entries w) \<Longrightarrow> entry_seq w i < rw_latestSeq w + 1" using assms by (simp add: rw_wf_def)
  then show "sorted_wrt (<) (map (entry_seq w) (rw_entries w) @ [rw_latestSeq w + 1])"
    using assms by (simp add: sorted_wrt_append rw_wf_def)
  show "set (map (\<lambda>i. en_fact (rw_heap w ! i)) (rw_entries w)) \<subseteq> set (map en_fact (rw_heap w))"
    using assms by (auto simp: rw_wf_def)
qed

text \<open>
  C13. The slice \<open>select(afterSeq, throughSeq)\<close> returns holds exactly the accepted facts with sequence
  numbers afterSeq + 1, ..., throughSeq, without a gap and without a resize that needs a baseline. It
  keeps them whatever the window does afterwards (evictions, \<open>clear\<close> and releases included).
\<close>

theorem replay_slice_exact:
  assumes "rw_select replay_reserve a t (fst (rw_run (new_replay_window maxBytes maxEvents) (new_worker_bytes limit c) ops)) = (Some k, s)"
  shows "(let S = fold rw_step later (s, snd (rw_run (new_replay_window maxBytes maxEvents) (new_worker_bytes limit c) ops)) in
    rw_slice_facts (fst (fst S)) k = filter (\<lambda>f. a < re_seq (rf_event f) \<and> re_seq (rf_event f) \<le> t) (rw_accepted 0 ops) \<and>
    map (re_seq \<circ> rf_event) (rw_slice_facts (fst (fst S)) k) = [a + 1..t] \<and>
    list_all (\<lambda>f. \<not> resize_needs_baseline (rf_event f)) (rw_slice_facts (fst (fst S)) k))"
proof -
  let ?S = "rw_run (new_replay_window maxBytes maxEvents) (new_worker_bytes limit c) ops"
  obtain w acc others where S: "?S = ((w, acc), others)" by (metis prod.exhaust)
  obtain w' acc' where s: "s = (w', acc')" by fastforce
  have inv: "rw_run_inv ((w, acc), others)" and ext: "rw_extends (set (rw_accepted 0 ops)) (new_replay_window maxBytes maxEvents) w"
    using rw_run_ok [of maxBytes maxEvents limit c ops] by (simp_all add: S)
  have "set (map en_fact (rw_heap w)) \<subseteq> set (rw_accepted 0 ops)"
    using ext by (auto simp: rw_extends_def new_replay_window_def)
  note * = rw_select_slice [OF inv this conjunct1 [OF rw_accepted_sorted], of a t k w' acc']
  have sel: "rw_select replay_reserve a t (w, acc) = (Some k, (w', acc'))" using assms by (simp add: S s)
  have "rw_step (RwSelect a t) ((w, acc), others) = (s, others)" using sel s by simp
  then have inv': "rw_run_inv (s, others)" using rw_step_ok [OF inv, of "RwSelect a t"] by (simp add: rw_step_ok_def)
  then have "rw_wf w'" by (simp add: s rw_run_inv_def wb.rw_inv_def wb.rw_holds_def)
  with rw_fold_ok [OF inv', of later] * [OF sel]
  have "rw_slice_facts (fst (fst (fold rw_step later (s, others)))) k = rw_slice_facts w' k"
    by (intro rw_slice_facts_extends) (auto simp: s)
  then show ?thesis using * [OF sel] unfolding S Let_def snd_conv by metis
qed

definition sample_fact :: "number \<Rightarrow> retained_fact" where
  "sample_fact seq = \<lparr>rf_event = RevOutput \<lparr>rr_serverId = ''s'', rr_relayInstanceId = ''r'', rr_runId = ''n''\<rparr> seq,
     rf_bytes = Some [104, 105]\<rparr>"

definition sample_ops :: "rw_op list" where
  "sample_ops = [RwAppend (sample_fact 1), RwAppend (sample_fact 2), RwPin 1, RwAppend (sample_fact 3), RwEvictOldest]"

theorem replay_slice_exact_witness:
  "(let S = rw_run (new_replay_window 4096 8) (new_worker_bytes 65536 0) sample_ops; r = rw_select replay_reserve 1 3 (fst S) in
    fst r = Some 0 \<and>
    map (re_seq \<circ> rf_event) (rw_slice_facts (fst (fst (fold rw_step [RwClear, RwReleaseSlice 0] (snd r, snd S)))) 0) = [2, 3])"
proof -
  let ?S = "rw_run (new_replay_window 4096 8) (new_worker_bytes 65536 0) sample_ops"
  have r: "fst (rw_select replay_reserve 1 3 (fst ?S)) = Some 0" by code_simp
  then have "rw_select replay_reserve 1 3 (fst ?S) = (Some 0, snd (rw_select replay_reserve 1 3 (fst ?S)))"
    by (metis prod.collapse)
  note exact = replay_slice_exact [OF this, of "[RwClear, RwReleaseSlice 0]"]
  have "[1 + 1..3] = [2, 3::int]" by code_simp
  then show ?thesis using exact r unfolding Let_def by metis
qed

text \<open>
  C15. The window never charges more or less than it retains: after any run the worker's account counts
  the charge of every entry that the ring, a pin or a slice still refers to, the reference list of
  every unreleased slice and the leases of the other clients, nothing else; and the reference count
  of every entry is the number of these holders.
\<close>

theorem replay_accounting:
  "let S = rw_run (new_replay_window maxBytes maxEvents) (new_worker_bytes limit c) ops; w = fst (fst S) in
     wb_used (snd (fst S)) = cell_sum (held \<circ> entry_held) (rw_heap w) + cell_sum (held \<circ> slice_held) (rw_slices w) +
       cell_sum (held \<circ> id) (snd S) \<and>
     map en_refs (rw_heap w) = map (wanted_refs w) [0..<length (rw_heap w)]"
proof -
  let ?S = "rw_run (new_replay_window maxBytes maxEvents) (new_worker_bytes limit c) ops"
  have inv: "rw_run_inv ?S" using rw_run_ok by blast
  then have "map en_refs (rw_heap (fst (fst ?S))) = map (wanted_refs (fst (fst ?S))) [0..<length (rw_heap (fst (fst ?S)))]"
    by (intro nth_equalityI) (simp_all add: rw_run_inv_def wb.rw_inv_def wb.rw_holds_def)
  then show ?thesis using rw_run_used [OF inv] by (simp add: Let_def)
qed

text \<open>
  C31. The ring stays within its limits: at most maxBytes charged bytes and maxEvents facts (one fact is
  kept when maxEvents is 0), \<open>retainedBytes\<close> is the sum of the charges of the ring, and its facts are
  accepted facts in strictly increasing order of sequence number, none newer than \<open>latestSeq\<close>.
\<close>

theorem replay_bounds:
  "let w = fst (fst (rw_run (new_replay_window maxBytes maxEvents) (new_worker_bytes limit c) ops)) in
     rw_retainedBytes w \<le> max 0 maxBytes \<and> rw_retainedEvents w \<le> max 1 maxEvents \<and>
     rw_retainedBytes w = sum_list (map (\<lambda>i. en_charge (rw_heap w ! i)) (rw_entries w)) \<and>
     sorted_wrt (<) (map (entry_seq w) (rw_entries w) @ [rw_latestSeq w + 1]) \<and>
     set (map (\<lambda>i. en_fact (rw_heap w ! i)) (rw_entries w)) \<subseteq> set (rw_accepted 0 ops)"
proof -
  let ?w = "fst (fst (rw_run (new_replay_window maxBytes maxEvents) (new_worker_bytes limit c) ops))"
  have wf: "rw_wf ?w" and ext: "rw_extends (set (rw_accepted 0 ops)) (new_replay_window maxBytes maxEvents) ?w"
    using rw_run_ok [of maxBytes maxEvents limit c ops] by (simp_all add: rw_run_inv_def wb.rw_inv_def wb.rw_holds_def)
  have lim: "rw_maxBytes ?w = maxBytes" "rw_maxEvents ?w = maxEvents" and facts: "set (map en_fact (rw_heap ?w)) \<subseteq> set (rw_accepted 0 ops)"
    using ext by (auto simp: rw_extends_def new_replay_window_def)
  show ?thesis using rw_wf_ring [OF wf, unfolded lim] subset_trans [OF rw_wf_ring(5) [OF wf] facts] unfolding Let_def by blast
qed

text \<open>
  C32. Nothing leaks: from every state a run reaches, \<open>clear\<close> followed by the release of the slices, the
  pins and the other clients' leases returns the worker's account to 0 used bytes.
\<close>

theorem replay_drains:
  "let S = rw_run (new_replay_window maxBytes maxEvents) (new_worker_bytes limit c) ops in
     wb_used (snd (fst (fold rw_step (drain_ops S) S))) = 0"
proof -
  define S where "S = rw_run (new_replay_window maxBytes maxEvents) (new_worker_bytes limit c) ops"
  obtain i j k where sz: "sizes S = (i, j, k)" by (metis prod.exhaust)
  have "rw_run_inv (fold rw_step (drain_ops S) S)" unfolding S_def using rw_fold_ok rw_run_ok by blast
  then show ?thesis using rw_drained_unused drain_all [OF sz] unfolding S_def Let_def by blast
qed

end
