(* ===== verification/Delivery_Credit.thy ===== *)
theory Delivery_Credit
  imports Terminal_Protocol Runtime_Bytes
begin

text \<open>
  \<open>RuntimeComposition\<close> and \<open>TerminalDeliveryCredit\<close>
  (\<^verbatim>\<open>apps/server/src/terminal/runtime-composition.ts\<close>, \<^verbatim>\<open>terminal-delivery-credit.ts\<close>): how much of one
  subscription's delivery attempt may be queued and in flight. Every queued frame is a record with a
  256-byte lease on the runtime account; handing it to the carrier turns its bytes into debt, and only
  the client's own progress and acknowledgements pay the debt.

  Record objects are cells of \<open>dc_heap\<close> in the order they were admitted; \<open>dc_records\<close> is the JavaScript
  set of records, as handles in insertion order.
\<close>

subsection \<open>Composition\<close>

record runtime_composition =
  co_serverId :: ident
  co_relayInstanceId :: ident
  co_budgets :: budgets

datatype composition_error = InvalidRuntimeComposition

definition new_runtime_composition ::
  "ident \<Rightarrow> ident \<Rightarrow> budgets \<Rightarrow> runtime_bytes \<Rightarrow> composition_error + runtime_composition" where
  "new_runtime_composition serverId relayInstanceId budgets bytes =
     (case validateEffectiveBudgets budgets of
        None \<Rightarrow> Inl InvalidRuntimeComposition
      | Some validated \<Rightarrow>
          if \<not> OpaqueIdSchema serverId \<or> \<not> OpaqueIdSchema relayInstanceId \<or> rb_limit bytes > validated runtimeBytes
          then Inl InvalidRuntimeComposition
          else Inr \<lparr>co_serverId = serverId, co_relayInstanceId = relayInstanceId, co_budgets = validated\<rparr>)"

definition composition_owns :: "runtime_composition \<Rightarrow> ident \<Rightarrow> ident \<Rightarrow> bool" where
  "composition_owns c serverId relayInstanceId \<longleftrightarrow> serverId = co_serverId c \<and> relayInstanceId = co_relayInstanceId c"

subsection \<open>State\<close>

datatype credit_type = CtRunEvent | CtBaselineStart | CtBaselineChunk | CtBaselineEnd

record credit_record =
  dr_bytes :: number
  dr_type :: credit_type
  dr_seq :: number
  dr_ordinal :: number
  dr_sent :: bool
  dr_lease :: handle

record credit_baseline =
  cb_descriptor :: baseline_descriptor
  cb_chunks :: number
  cb_payloadBytes :: number
  cb_sentOrdinal :: number
  cb_parsedOrdinal :: number
  cb_endQueued :: bool
  cb_endSent :: bool

datatype delivery_mode = ModeBaseline | ModeReplay

record delivery_credit =
  dc_attempt :: number
  dc_mode :: delivery_mode
  dc_atSeq :: number
  dc_heap :: "credit_record list"
  dc_records :: "handle list"
  dc_baseline :: "credit_baseline option"
  dc_retired :: bool
  dc_queuedBytes :: number
  dc_debtBytes :: number
  dc_lastQueued :: number
  dc_lastSent :: number
  dc_lastApplied :: number
  dc_installed :: bool

datatype credit_error = InvalidCreditBoundary

definition new_delivery_credit ::
  "number \<Rightarrow> delivery_mode \<Rightarrow> number \<Rightarrow> number option \<Rightarrow> credit_error + delivery_credit" where
  "new_delivery_credit attempt mode atSeq appliedSeq =
     (if \<not> isSafeInteger attempt \<or> attempt < 1 \<or> \<not> isSafeInteger atSeq \<or> atSeq < 0 \<or>
         (mode = ModeReplay \<and> (case appliedSeq of None \<Rightarrow> True | Some a \<Rightarrow> a > atSeq)) \<or>
         (case appliedSeq of None \<Rightarrow> False | Some a \<Rightarrow> \<not> isSafeInteger a \<or> a < 0)
      then Inl InvalidCreditBoundary
      else let lastQueued = (if mode = ModeReplay then the appliedSeq else atSeq) in
        Inr \<lparr>dc_attempt = attempt, dc_mode = mode, dc_atSeq = atSeq, dc_heap = [], dc_records = [], dc_baseline = None,
             dc_retired = False, dc_queuedBytes = 0, dc_debtBytes = 0, dc_lastQueued = lastQueued, dc_lastSent = lastQueued,
             dc_lastApplied = (if mode = ModeReplay then the appliedSeq else - 1), dc_installed = (mode = ModeReplay)\<rparr>)"

subsection \<open>Operations\<close>

text \<open>The guards of \<open>record\<close> that depend on the event.\<close>

fun dc_admits_event :: "budgets \<Rightarrow> delivery_credit \<Rightarrow> external_event \<Rightarrow> number \<Rightarrow> bool" where
  "dc_admits_event budgets d (XRunEvent subscription event) payloadBytes \<longleftrightarrow>
     \<not> (re_seq event \<noteq> dc_lastQueued d + 1 \<or>
        (dc_mode d = ModeBaseline \<and> \<not> (case dc_baseline d of None \<Rightarrow> False | Some b \<Rightarrow> cb_endQueued b)))"
| "dc_admits_event budgets d (XBaselineStart run descriptor) payloadBytes \<longleftrightarrow>
     (case validateBaselineDescriptor descriptor (M0_LIMITS historyLines) of
        None \<Rightarrow> False
      | Some descriptor \<Rightarrow>
          \<not> (dc_mode d \<noteq> ModeBaseline \<or> dc_baseline d \<noteq> None \<or> bd_atSeq descriptor \<noteq> dc_atSeq d \<or>
             rc_historyLines (bd_coverage descriptor) > budgets historyLines \<or>
             ge_cols (bd_currentGeometry descriptor) > budgets maxCols \<or>
             ge_rows (bd_currentGeometry descriptor) > budgets maxRows \<or>
             bd_vtBytes descriptor > budgets baselineVtBytes \<or>
             bd_tailBytes descriptor > budgets baselineTailBytes \<or>
             bd_chunkCount descriptor > budgets baselineChunks))"
| "dc_admits_event budgets d (XBaselineChunk chunk) payloadBytes \<longleftrightarrow>
     (case dc_baseline d of
        None \<Rightarrow> False
      | Some b \<Rightarrow>
          \<not> (cb_endQueued b \<or> bk_baselineId chunk \<noteq> bd_baselineId (cb_descriptor b) \<or> bk_ordinal chunk \<noteq> cb_chunks b \<or>
             cb_chunks b \<ge> bd_chunkCount (cb_descriptor b) \<or> payloadBytes < 1 \<or> payloadBytes > 65536 \<or>
             payloadBytes > bd_vtBytes (cb_descriptor b) + bd_tailBytes (cb_descriptor b) - cb_payloadBytes b))"
| "dc_admits_event budgets d (XBaselineEnd finish) payloadBytes \<longleftrightarrow>
     (case dc_baseline d of
        None \<Rightarrow> False
      | Some b \<Rightarrow>
          \<not> (cb_endQueued b \<or> be_baselineId finish \<noteq> bd_baselineId (cb_descriptor b) \<or>
             be_chunkCount finish \<noteq> bd_chunkCount (cb_descriptor b) \<or> be_chunkCount finish \<noteq> cb_chunks b \<or>
             be_totalBytes finish \<noteq> cb_payloadBytes b \<or>
             be_totalBytes finish \<noteq> bd_vtBytes (cb_descriptor b) + bd_tailBytes (cb_descriptor b) \<or>
             be_atSeq finish \<noteq> dc_atSeq d))"
| "dc_admits_event budgets d _ payloadBytes \<longleftrightarrow> False"

definition dc_admits_bytes :: "budgets \<Rightarrow> delivery_credit \<Rightarrow> number \<Rightarrow> bool" where
  "dc_admits_bytes budgets d bytes \<longleftrightarrow>
     \<not> (dc_retired d \<or> \<not> isSafeInteger bytes \<or> bytes < 1 \<or>
        bytes > budgets outboundConnectionBytes - dc_queuedBytes d - dc_debtBytes d \<or>
        int (length (dc_records d)) \<ge> budgets postNEvents + budgets baselineChunks + 2)"

fun credit_event :: "external_event \<Rightarrow> credit_type \<times> number \<times> number" where
  "credit_event (XRunEvent subscription event) = (CtRunEvent, re_seq event, - 1)"
| "credit_event (XBaselineStart run descriptor) = (CtBaselineStart, - 1, - 1)"
| "credit_event (XBaselineChunk chunk) = (CtBaselineChunk, - 1, bk_ordinal chunk)"
| "credit_event _ = (CtBaselineEnd, - 1, - 1)"

text \<open>The bookkeeping of \<open>record\<close> once the lease is granted.\<close>

fun dc_note_event :: "external_event \<Rightarrow> number \<Rightarrow> delivery_credit \<Rightarrow> delivery_credit" where
  "dc_note_event (XRunEvent subscription event) payloadBytes d = d\<lparr>dc_lastQueued := re_seq event\<rparr>"
| "dc_note_event (XBaselineStart run descriptor) payloadBytes d =
     d\<lparr>dc_baseline := Some \<lparr>cb_descriptor = descriptor, cb_chunks = 0, cb_payloadBytes = 0, cb_sentOrdinal = - 1,
        cb_parsedOrdinal = - 1, cb_endQueued = False, cb_endSent = False\<rparr>\<rparr>"
| "dc_note_event (XBaselineChunk chunk) payloadBytes d =
     d\<lparr>dc_baseline := map_option (\<lambda>b. b\<lparr>cb_chunks := cb_chunks b + 1, cb_payloadBytes := cb_payloadBytes b + payloadBytes\<rparr>)
        (dc_baseline d)\<rparr>"
| "dc_note_event (XBaselineEnd finish) payloadBytes d =
     d\<lparr>dc_baseline := map_option (cb_endQueued_update (\<lambda>_. True)) (dc_baseline d)\<rparr>"
| "dc_note_event _ payloadBytes d = d"

definition dc_push :: "external_event \<Rightarrow> number \<Rightarrow> handle \<Rightarrow> delivery_credit \<Rightarrow> delivery_credit" where
  "dc_push event bytes lease d =
     (case credit_event event of (t, seq, ordinal) \<Rightarrow>
        d\<lparr>dc_heap := dc_heap d @ [\<lparr>dr_bytes = bytes, dr_type = t, dr_seq = seq, dr_ordinal = ordinal, dr_sent = False,
              dr_lease = lease\<rparr>],
          dc_records := dc_records d @ [length (dc_heap d)],
          dc_queuedBytes := dc_queuedBytes d + bytes\<rparr>)"

definition dc_record ::
  "budgets \<Rightarrow> external_event \<Rightarrow> number \<Rightarrow> number \<Rightarrow> delivery_credit \<times> runtime_bytes \<Rightarrow>
     handle option \<times> delivery_credit \<times> runtime_bytes" where
  "dc_record budgets event bytes payloadBytes s =
     (if \<not> dc_admits_bytes budgets (fst s) bytes \<or> \<not> dc_admits_event budgets (fst s) event payloadBytes then (None, s)
      else case rb_reserve False (snd s) 256 of
        (None, a) \<Rightarrow> (None, (fst s, a))
      | (Some lease, a) \<Rightarrow>
          (Some (length (dc_heap (fst s))), (dc_note_event event payloadBytes (dc_push event bytes lease (fst s)), a)))"

definition dc_eligible :: "budgets \<Rightarrow> handle \<Rightarrow> delivery_credit \<Rightarrow> bool" where
  "dc_eligible budgets h d \<longleftrightarrow> \<not> dc_retired d \<and> h \<in> set (dc_records d) \<and> \<not> dr_sent (dc_heap d ! h) \<and>
     dr_bytes (dc_heap d ! h) \<le> budgets subscriptionCreditBytes - dc_debtBytes d"

definition dc_note_sent :: "credit_record \<Rightarrow> delivery_credit \<Rightarrow> delivery_credit" where
  "dc_note_sent r d = (case dr_type r of
     CtRunEvent \<Rightarrow> d\<lparr>dc_lastSent := dr_seq r\<rparr>
   | CtBaselineChunk \<Rightarrow> d\<lparr>dc_baseline := map_option (cb_sentOrdinal_update (\<lambda>_. dr_ordinal r)) (dc_baseline d)\<rparr>
   | CtBaselineEnd \<Rightarrow> d\<lparr>dc_baseline := map_option (cb_endSent_update (\<lambda>_. True)) (dc_baseline d)\<rparr>
   | CtBaselineStart \<Rightarrow> d)"

definition dc_handoff :: "budgets \<Rightarrow> handle \<Rightarrow> delivery_credit \<Rightarrow> bool \<times> delivery_credit" where
  "dc_handoff budgets h d =
     (if \<not> dc_eligible budgets h d then (False, d)
      else let r = dc_heap d ! h in
        (True, dc_note_sent r (d\<lparr>dc_heap := (dc_heap d)[h := r\<lparr>dr_sent := True\<rparr>],
           dc_queuedBytes := dc_queuedBytes d - dr_bytes r, dc_debtBytes := dc_debtBytes d + dr_bytes r\<rparr>)))"

definition dc_release :: "handle \<Rightarrow> delivery_credit \<times> runtime_bytes \<Rightarrow> delivery_credit \<times> runtime_bytes" where
  "dc_release h s =
     (let d = fst s; r = dc_heap d ! h in
      if h \<notin> set (dc_records d) then s
      else let d = d\<lparr>dc_records := remove1 h (dc_records d)\<rparr>;
               d = (if dr_sent r then d\<lparr>dc_debtBytes := dc_debtBytes d - dr_bytes r\<rparr>
                    else d\<lparr>dc_queuedBytes := dc_queuedBytes d - dr_bytes r\<rparr>)
           in (d, rb_release (snd s) (dr_lease r)))"

definition dc_release_where ::
  "(credit_record \<Rightarrow> bool) \<Rightarrow> delivery_credit \<times> runtime_bytes \<Rightarrow> delivery_credit \<times> runtime_bytes" where
  "dc_release_where P s = fold dc_release (filter (\<lambda>h. P (dc_heap (fst s) ! h)) (dc_records (fst s))) s"

definition dc_progress ::
  "ident \<Rightarrow> number \<Rightarrow> delivery_credit \<times> runtime_bytes \<Rightarrow> bool \<times> delivery_credit \<times> runtime_bytes" where
  "dc_progress baselineId ordinal s =
     (let d = fst s in
      case dc_baseline d of
        None \<Rightarrow> (False, s)
      | Some b \<Rightarrow>
          if dc_retired d \<or> baselineId \<noteq> bd_baselineId (cb_descriptor b) \<or> \<not> isSafeInteger ordinal \<or> ordinal < 0 \<or>
             ordinal > cb_sentOrdinal b
          then (False, s)
          else if ordinal \<le> cb_parsedOrdinal b then (True, s)
          else (True, dc_release_where
                  (\<lambda>r. dr_sent r \<and> (dr_type r = CtBaselineStart \<or> (dr_type r = CtBaselineChunk \<and> dr_ordinal r \<le> ordinal)))
                  (d\<lparr>dc_baseline := Some (b\<lparr>cb_parsedOrdinal := ordinal\<rparr>)\<rparr>, snd s)))"

definition dc_ack :: "number \<Rightarrow> delivery_credit \<times> runtime_bytes \<Rightarrow> bool \<times> delivery_credit \<times> runtime_bytes" where
  "dc_ack appliedSeq s =
     (let d = fst s in
      if dc_retired d \<or> \<not> isSafeInteger appliedSeq \<or> appliedSeq < 0 then (False, s)
      else if \<not> dc_installed d
      then if appliedSeq \<noteq> dc_atSeq d \<or> \<not> (case dc_baseline d of None \<Rightarrow> False | Some b \<Rightarrow> cb_endSent b) then (False, s)
           else (True, dc_release_where (\<lambda>r. dr_sent r \<and> dr_type r \<noteq> CtRunEvent)
                   (d\<lparr>dc_installed := True, dc_lastApplied := appliedSeq\<rparr>, snd s))
      else if appliedSeq \<le> dc_lastApplied d then (True, s)
      else if appliedSeq > dc_lastSent d \<or>
              \<not> list_ex (\<lambda>h. dr_sent (dc_heap d ! h) \<and> dr_type (dc_heap d ! h) = CtRunEvent \<and> dr_seq (dc_heap d ! h) = appliedSeq)
                  (dc_records d)
      then (False, s)
      else (True, dc_release_where (\<lambda>r. dr_sent r \<and> dr_type r = CtRunEvent \<and> dr_seq r \<le> appliedSeq)
              (d\<lparr>dc_lastApplied := appliedSeq\<rparr>, snd s)))"

definition dc_retire :: "delivery_credit \<times> runtime_bytes \<Rightarrow> delivery_credit \<times> runtime_bytes" where
  "dc_retire s =
     (if dc_retired (fst s) then s
      else let s = dc_release_where (\<lambda>_. True) ((fst s)\<lparr>dc_retired := True\<rparr>, snd s)
           in ((fst s)\<lparr>dc_baseline := None\<rparr>, snd s))"

record credit_snapshot =
  cs_attempt :: number
  cs_queuedBytes :: number
  cs_debtBytes :: number
  cs_items :: number
  cs_installed :: bool
  cs_appliedSeq :: number
  cs_sentSeq :: number
  cs_retired :: bool

definition dc_snapshot :: "delivery_credit \<Rightarrow> credit_snapshot" where
  "dc_snapshot d = \<lparr>cs_attempt = dc_attempt d, cs_queuedBytes = dc_queuedBytes d, cs_debtBytes = dc_debtBytes d,
     cs_items = int (length (dc_records d)), cs_installed = dc_installed d, cs_appliedSeq = dc_lastApplied d,
     cs_sentSeq = dc_lastSent d, cs_retired = dc_retired d\<rparr>"

subsection \<open>Invariant\<close>

definition sent_bytes :: "credit_record \<Rightarrow> number" where "sent_bytes r = (if dr_sent r then dr_bytes r else 0)"
definition unsent_bytes :: "credit_record \<Rightarrow> number" where "unsent_bytes r = (if dr_sent r then 0 else dr_bytes r)"

definition records_sum :: "(credit_record \<Rightarrow> number) \<Rightarrow> credit_record list \<Rightarrow> handle list \<Rightarrow> number" where
  "records_sum f heap hs = sum_list (map (\<lambda>h. f (heap ! h)) hs)"

definition dc_wf :: "budgets \<Rightarrow> delivery_credit \<Rightarrow> bool" where
  "dc_wf budgets d \<longleftrightarrow> distinct (dc_records d) \<and> (\<forall>h \<in> set (dc_records d). h < length (dc_heap d)) \<and>
     (\<forall>r \<in> set (dc_heap d). 1 \<le> dr_bytes r) \<and>
     dc_queuedBytes d = records_sum unsent_bytes (dc_heap d) (dc_records d) \<and>
     dc_debtBytes d = records_sum sent_bytes (dc_heap d) (dc_records d) \<and>
     dc_queuedBytes d + dc_debtBytes d \<le> max 0 (budgets outboundConnectionBytes) \<and>
     dc_debtBytes d \<le> max 0 (budgets subscriptionCreditBytes) \<and>
     int (length (dc_records d)) \<le> max 0 (budgets postNEvents + budgets baselineChunks + 2)"

definition dc_lease :: "delivery_credit \<Rightarrow> handle \<Rightarrow> (handle \<times> number) option" where
  "dc_lease d h = (if h \<in> set (dc_records d) then Some (dr_lease (dc_heap d ! h), 256) else None)"

type_synonym dc_state = "(delivery_credit \<times> runtime_bytes) \<times> (handle \<times> number) option list"

definition dc_inv :: "budgets \<Rightarrow> dc_state \<Rightarrow> bool" where
  "dc_inv budgets S \<longleftrightarrow> dc_wf budgets (fst (fst S)) \<and>
     rb.owns (snd (fst S)) (case_sum (dc_lease (fst (fst S))) (list_lof id (snd S)))"

lemma records_sum_delete: "records_sum f heap (xs @ ys) = records_sum f heap (xs @ h # ys) - f (heap ! h)"
  by (simp add: records_sum_def)

lemma records_sum_push:
  assumes "\<And>h. h \<in> set hs \<Longrightarrow> h < length heap"
  shows "records_sum f (heap @ [r]) (hs @ [length heap]) = records_sum f heap hs + f r"
proof -
  have "sum_list (map (\<lambda>h. f ((heap @ [r]) ! h)) hs) = sum_list (map (\<lambda>h. f (heap ! h)) hs)"
    by (rule arg_cong [where f = sum_list], rule map_cong) (use assms in \<open>simp_all add: nth_append\<close>)
  then show ?thesis by (simp add: records_sum_def)
qed

lemma records_sum_set:
  assumes "distinct hs" and "h \<in> set hs" and "h < length heap"
  shows "records_sum f (heap[h := r]) hs = records_sum f heap hs - f (heap ! h) + f r"
proof -
  obtain xs ys where hs: "hs = xs @ h # ys" using assms(2) by (metis split_list)
  have "sum_list (map (\<lambda>k. f (heap[h := r] ! k)) zs) = sum_list (map (\<lambda>k. f (heap ! k)) zs)" if "h \<notin> set zs" for zs
  proof (rule arg_cong [where f = sum_list], rule map_cong)
    fix k assume "k \<in> set zs"
    then have "h \<noteq> k" using that by auto
    then show "f (heap[h := r] ! k) = f (heap ! k)" by simp
  qed simp
  then show ?thesis using assms hs by (simp add: records_sum_def)
qed

lemma dc_wf_bytes: "dc_wf budgets d \<Longrightarrow> h \<in> set (dc_records d) \<Longrightarrow> 1 \<le> dr_bytes (dc_heap d ! h)"
  by (simp add: dc_wf_def)

text \<open>What \<open>release\<close> leaves alone.\<close>

definition dc_released :: "delivery_credit \<Rightarrow> number \<Rightarrow> number \<Rightarrow> handle list \<Rightarrow> delivery_credit" where
  "dc_released d queued debt hs = d\<lparr>dc_records := hs, dc_queuedBytes := queued, dc_debtBytes := debt\<rparr>"

lemma dc_released_simps [simp]:
  "dc_heap (dc_released d q e hs) = dc_heap d" "dc_records (dc_released d q e hs) = hs"
  "dc_queuedBytes (dc_released d q e hs) = q" "dc_debtBytes (dc_released d q e hs) = e"
  "dc_mode (dc_released d q e hs) = dc_mode d" "dc_atSeq (dc_released d q e hs) = dc_atSeq d"
  "dc_baseline (dc_released d q e hs) = dc_baseline d" "dc_retired (dc_released d q e hs) = dc_retired d"
  "dc_lastQueued (dc_released d q e hs) = dc_lastQueued d" "dc_lastSent (dc_released d q e hs) = dc_lastSent d"
  "dc_lastApplied (dc_released d q e hs) = dc_lastApplied d" "dc_installed (dc_released d q e hs) = dc_installed d"
  "dc_released (dc_released d q' e' hs') q e hs = dc_released d q e hs"
  by (simp_all add: dc_released_def)

lemma dc_release_eq:
  assumes "h \<in> set (dc_records d)"
  shows "dc_release h (d, a) =
    (dc_released d (dc_queuedBytes d - unsent_bytes (dc_heap d ! h)) (dc_debtBytes d - sent_bytes (dc_heap d ! h)) (remove1 h (dc_records d)),
     rb_release a (dr_lease (dc_heap d ! h)))"
  using assms by (simp add: dc_release_def dc_released_def sent_bytes_def unsent_bytes_def Let_def)

lemma dc_release_inv:
  assumes inv: "dc_inv budgets ((d, a), others)" and h: "h \<in> set (dc_records d)"
  shows "\<exists>q e a'. dc_release h (d, a) = (dc_released d q e (remove1 h (dc_records d)), a') \<and>
    dc_inv budgets ((dc_released d q e (remove1 h (dc_records d)), a'), others)"
proof -
  have wf: "dc_wf budgets d" and own: "rb.owns a (case_sum (dc_lease d) (list_lof id others))"
    using inv by (simp_all add: dc_inv_def)
  obtain xs ys where split: "dc_records d = xs @ h # ys" "h \<notin> set xs" using h by (metis split_list_first)
  have ys: "h \<notin> set ys" and rem: "remove1 h (dc_records d) = xs @ ys"
    using wf split by (auto simp: dc_wf_def remove1_append)
  let ?q = "dc_queuedBytes d - unsent_bytes (dc_heap d ! h)" and ?e = "dc_debtBytes d - sent_bytes (dc_heap d ! h)"
  let ?d = "dc_released d ?q ?e (xs @ ys)"
  have nn: "0 \<le> unsent_bytes (dc_heap d ! h)" "0 \<le> sent_bytes (dc_heap d ! h)"
    using dc_wf_bytes [OF wf h] by (simp_all add: sent_bytes_def unsent_bytes_def)
  have "dc_wf budgets ?d" using wf nn split unfolding dc_wf_def by (auto simp: records_sum_delete [of _ _ xs ys h])
  moreover have "dc_lease ?d = (dc_lease d)(h := None)" using split ys by (auto simp: dc_lease_def fun_eq_iff)
  moreover have "rb.owns (rb_release a (dr_lease (dc_heap d ! h))) ((case_sum (dc_lease d) (list_lof id others))(Inl h := None))"
    by (rule rb.owns_release [OF own]) (use h in \<open>simp add: dc_lease_def\<close>)
  ultimately show ?thesis using dc_release_eq [OF h, of a] rem
    by (intro exI [of _ ?q] exI [of _ ?e] exI [of _ "rb_release a (dr_lease (dc_heap d ! h))"]) (simp add: dc_inv_def case_sum_upd)
qed

lemma dc_fold_release_inv:
  assumes "dc_inv budgets ((d, a), others)" and "distinct hs" and "set hs \<subseteq> set (dc_records d)"
  shows "\<exists>q e a'. fold dc_release hs (d, a) = (dc_released d q e (filter (\<lambda>h. h \<notin> set hs) (dc_records d)), a') \<and>
    dc_inv budgets ((dc_released d q e (filter (\<lambda>h. h \<notin> set hs) (dc_records d)), a'), others)"
  using assms
proof (induction hs arbitrary: d a)
  case Nil
  have "dc_released d (dc_queuedBytes d) (dc_debtBytes d) (dc_records d) = d" by (simp add: dc_released_def)
  then show ?case using Nil by (metis (no_types, lifting) eq_id_iff filter_True fold_simps(1) list.set(1) empty_iff)
next
  case (Cons h hs)
  from dc_release_inv [OF Cons.prems(1), of h] Cons.prems(3) obtain q e a1 where
    one: "dc_release h (d, a) = (dc_released d q e (remove1 h (dc_records d)), a1)"
      "dc_inv budgets ((dc_released d q e (remove1 h (dc_records d)), a1), others)" by auto
  have dist: "distinct (dc_records d)" using Cons.prems(1) by (simp add: dc_inv_def dc_wf_def)
  then have "set hs \<subseteq> set (remove1 h (dc_records d))" using Cons.prems(2,3) by auto
  moreover have "filter (\<lambda>k. k \<notin> set hs) (remove1 h (dc_records d)) = filter (\<lambda>k. k \<notin> set (h # hs)) (dc_records d)"
    using dist by (auto simp: distinct_remove1_removeAll removeAll_filter_not_eq intro: filter_cong)
  ultimately show ?case using Cons.IH [OF one(2)] Cons.prems(2) one(1) by simp
qed

lemma dc_release_where_inv:
  assumes inv: "dc_inv budgets ((d, a), others)"
  shows "\<exists>q e a'. dc_release_where P (d, a) = (dc_released d q e (filter (\<lambda>h. \<not> P (dc_heap d ! h)) (dc_records d)), a') \<and>
    dc_inv budgets ((dc_released d q e (filter (\<lambda>h. \<not> P (dc_heap d ! h)) (dc_records d)), a'), others)"
proof -
  let ?hs = "filter (\<lambda>h. P (dc_heap d ! h)) (dc_records d)"
  have "filter (\<lambda>h. h \<notin> set ?hs) (dc_records d) = filter (\<lambda>h. \<not> P (dc_heap d ! h)) (dc_records d)"
    by (rule filter_cong) auto
  then show ?thesis using dc_fold_release_inv [OF inv, of ?hs] inv
    by (simp add: dc_release_where_def dc_inv_def dc_wf_def)
qed

lemma dc_inv_frame:
  assumes "dc_inv budgets ((d, a), others)" and "dc_heap d' = dc_heap d" "dc_records d' = dc_records d"
    "dc_queuedBytes d' = dc_queuedBytes d" "dc_debtBytes d' = dc_debtBytes d"
  shows "dc_inv budgets ((d', a), others)"
proof -
  have "dc_lease d' = dc_lease d" using assms(2-) by (simp add: dc_lease_def fun_eq_iff)
  then show ?thesis using assms by (simp add: dc_inv_def dc_wf_def records_sum_def)
qed

lemma dc_note_event_frame [simp]:
  "dc_heap (dc_note_event e n d) = dc_heap d" "dc_records (dc_note_event e n d) = dc_records d"
  "dc_queuedBytes (dc_note_event e n d) = dc_queuedBytes d" "dc_debtBytes (dc_note_event e n d) = dc_debtBytes d"
  "dc_retired (dc_note_event e n d) = dc_retired d" "dc_mode (dc_note_event e n d) = dc_mode d"
  "dc_atSeq (dc_note_event e n d) = dc_atSeq d" "dc_lastSent (dc_note_event e n d) = dc_lastSent d"
  "dc_lastApplied (dc_note_event e n d) = dc_lastApplied d" "dc_installed (dc_note_event e n d) = dc_installed d"
  by (cases e; simp)+

lemma dc_note_sent_frame [simp]:
  "dc_heap (dc_note_sent r d) = dc_heap d" "dc_records (dc_note_sent r d) = dc_records d"
  "dc_queuedBytes (dc_note_sent r d) = dc_queuedBytes d" "dc_debtBytes (dc_note_sent r d) = dc_debtBytes d"
  "dc_retired (dc_note_sent r d) = dc_retired d" "dc_mode (dc_note_sent r d) = dc_mode d"
  "dc_atSeq (dc_note_sent r d) = dc_atSeq d" "dc_lastQueued (dc_note_sent r d) = dc_lastQueued d"
  "dc_lastApplied (dc_note_sent r d) = dc_lastApplied d" "dc_installed (dc_note_sent r d) = dc_installed d"
  by (cases "dr_type r"; simp add: dc_note_sent_def)+

lemma dc_push_fields:
  "dc_heap (dc_push e n l d) = dc_heap d @ [\<lparr>dr_bytes = n, dr_type = fst (credit_event e), dr_seq = fst (snd (credit_event e)),
     dr_ordinal = snd (snd (credit_event e)), dr_sent = False, dr_lease = l\<rparr>]"
  "dc_records (dc_push e n l d) = dc_records d @ [length (dc_heap d)]"
  "dc_queuedBytes (dc_push e n l d) = dc_queuedBytes d + n" "dc_debtBytes (dc_push e n l d) = dc_debtBytes d"
  by (simp_all add: dc_push_def split: prod.split)

lemma dc_push_inv:
  assumes inv: "dc_inv budgets ((d, a), others)" and adm: "dc_admits_bytes budgets d n"
    and res: "rb_reserve False a 256 = (Some l, a')"
  shows "dc_inv budgets ((dc_push e n l d, a'), others)"
proof -
  let ?d = "dc_push e n l d" and ?h = "length (dc_heap d)"
  have wf: "dc_wf budgets d" and own: "rb.owns a (case_sum (dc_lease d) (list_lof id others))"
    using inv by (simp_all add: dc_inv_def)
  have lt: "\<And>h. h \<in> set (dc_records d) \<Longrightarrow> h < ?h" using wf by (simp add: dc_wf_def)
  have n: "1 \<le> n" "n \<le> budgets outboundConnectionBytes - dc_queuedBytes d - dc_debtBytes d"
    "int (length (dc_records d)) < budgets postNEvents + budgets baselineChunks + 2"
    using adm by (auto simp: dc_admits_bytes_def)
  have dist: "distinct (dc_records ?d)" using lt wf by (auto simp: dc_push_fields dc_wf_def)
  have "dc_wf budgets ?d" using wf n lt dist unfolding dc_wf_def dc_push_fields
    by (auto simp: records_sum_push [OF lt] sent_bytes_def unsent_bytes_def less_SucI)
  moreover have "dc_lease ?d = (dc_lease d)(?h \<mapsto> (l, 256))"
    using lt by (fastforce simp: dc_lease_def dc_push_fields fun_eq_iff nth_append)
  moreover have "?h \<notin> set (dc_records d)" using lt by blast
  then have "rb.owns a' ((case_sum (dc_lease d) (list_lof id others))(Inl ?h \<mapsto> (l, 256)))"
    by (intro rb.owns_reserve [OF own res]) (simp add: dc_lease_def)
  ultimately show ?thesis by (simp add: dc_inv_def case_sum_upd)
qed

lemma dc_record_inv:
  assumes inv: "dc_inv budgets ((d, a), others)" and step: "dc_record budgets e n p (d, a) = (res, (d', a'))"
  shows "dc_inv budgets ((d', a'), others)"
proof -
  obtain r b where r: "rb_reserve False a 256 = (r, b)" by fastforce
  show ?thesis
  proof (cases "dc_admits_bytes budgets d n \<and> dc_admits_event budgets d e p")
    case False
    then have "dc_record budgets e n p (d, a) = (None, (d, a))" by (auto simp: dc_record_def)
    then show ?thesis using step inv by simp
  next
    case True
    then have eq: "dc_record budgets e n p (d, a) = (case (r, b) of (None, a) \<Rightarrow> (None, (d, a))
        | (Some l, a) \<Rightarrow> (Some (length (dc_heap d)), (dc_note_event e p (dc_push e n l d), a)))"
      by (simp add: dc_record_def r split: option.split)
    show ?thesis
    proof (cases r)
      case None
      then show ?thesis using eq step inv r rb.reserve_None [of False a 256 b] by simp
    next
      case (Some l)
      have "dc_inv budgets ((dc_push e n l d, b), others)"
        by (rule dc_push_inv [OF inv]) (use True r Some in simp_all)
      then have "dc_inv budgets ((dc_note_event e p (dc_push e n l d), b), others)" by (rule dc_inv_frame) simp_all
      then show ?thesis using eq step Some by simp
    qed
  qed
qed

lemma dc_handoff_inv:
  assumes inv: "dc_inv budgets ((d, a), others)" and step: "dc_handoff budgets h d = (ok, d')"
  shows "dc_inv budgets ((d', a), others)"
proof (cases "dc_eligible budgets h d")
  case False
  then show ?thesis using inv step by (simp add: dc_handoff_def)
next
  case True
  have wf: "dc_wf budgets d" and own: "rb.owns a (case_sum (dc_lease d) (list_lof id others))"
    using inv by (simp_all add: dc_inv_def)
  let ?r = "dc_heap d ! h"
  let ?d = "d\<lparr>dc_heap := (dc_heap d)[h := ?r\<lparr>dr_sent := True\<rparr>],
     dc_queuedBytes := dc_queuedBytes d - dr_bytes ?r, dc_debtBytes := dc_debtBytes d + dr_bytes ?r\<rparr>"
  have h: "h \<in> set (dc_records d)" "\<not> dr_sent ?r" "dr_bytes ?r \<le> budgets subscriptionCreditBytes - dc_debtBytes d"
    using True by (simp_all add: dc_eligible_def)
  have lt: "h < length (dc_heap d)" using h(1) wf by (simp add: dc_wf_def)
  have dist: "distinct (dc_records d)" using wf by (simp add: dc_wf_def)
  have "1 \<le> dr_bytes ?r" by (rule dc_wf_bytes [OF wf h(1)])
  then have heap: "\<forall>r \<in> set (dc_heap ?d). 1 \<le> dr_bytes r"
    using wf by (auto simp: dc_wf_def dest!: set_list_update_cases)
  have "dc_wf budgets ?d" using wf h heap
    by (simp add: dc_wf_def records_sum_set [OF dist h(1) lt] sent_bytes_def unsent_bytes_def)
  moreover have "dc_lease ?d = dc_lease d" using lt by (auto simp: dc_lease_def fun_eq_iff nth_list_update)
  ultimately have "dc_inv budgets ((?d, a), others)" using own by (simp add: dc_inv_def)
  then have "dc_inv budgets ((dc_note_sent ?r ?d, a), others)" by (rule dc_inv_frame) simp_all
  then show ?thesis using step True by (simp add: dc_handoff_def Let_def)
qed

lemma dc_progress_cases:
  assumes "dc_inv budgets ((d, a), others)" and "dc_progress i n (d, a) = (ok, (d', a'))"
  shows "dc_inv budgets ((d', a'), others) \<and> (d' = d \<or> (\<exists>b q e hs. dc_baseline d = Some b \<and> n \<le> cb_sentOrdinal b \<and>
    d' = dc_released (d\<lparr>dc_baseline := Some (b\<lparr>cb_parsedOrdinal := n\<rparr>)\<rparr>) q e hs))"
proof (cases "d' = d \<and> a' = a")
  case True
  then show ?thesis using assms(1) by simp
next
  case False
  obtain b where b: "dc_baseline d = Some b" using assms(2) False by (cases "dc_baseline d") (simp_all add: dc_progress_def)
  let ?d = "d\<lparr>dc_baseline := Some (b\<lparr>cb_parsedOrdinal := n\<rparr>)\<rparr>"
  let ?P = "\<lambda>r. dr_sent r \<and> (dr_type r = CtBaselineStart \<or> (dr_type r = CtBaselineChunk \<and> dr_ordinal r \<le> n))"
  have eq: "dc_release_where ?P (?d, a) = (d', a')" and n: "n \<le> cb_sentOrdinal b"
    using assms(2) False b by (simp_all add: dc_progress_def split: if_splits)
  have "dc_inv budgets ((?d, a), others)" by (rule dc_inv_frame [OF assms(1)]) simp_all
  from dc_release_where_inv [OF this, of ?P] show ?thesis unfolding eq using b n by blast
qed

lemma dc_ack_cases:
  assumes "dc_inv budgets ((d, a), others)" and "dc_ack n (d, a) = (ok, (d', a'))"
  shows "dc_inv budgets ((d', a'), others) \<and> (d' = d \<or> (\<exists>q e hs.
    d' = dc_released (d\<lparr>dc_installed := True, dc_lastApplied := n\<rparr>) q e hs \<and>
    ((\<not> dc_installed d \<and> n = dc_atSeq d) \<or> (dc_installed d \<and> n \<le> dc_lastSent d))))"
proof (cases "d' = d \<and> a' = a")
  case True
  then show ?thesis using assms(1) by simp
next
  case False
  let ?d = "d\<lparr>dc_installed := True, dc_lastApplied := n\<rparr>"
  have inv: "dc_inv budgets ((?d, a), others)" by (rule dc_inv_frame [OF assms(1)]) simp_all
  have fin: ?thesis if rel: "dc_release_where P (?d, a) = (d', a')"
    and why: "(\<not> dc_installed d \<and> n = dc_atSeq d) \<or> (dc_installed d \<and> n \<le> dc_lastSent d)" for P
  proof -
    obtain q e hs where "d' = dc_released ?d q e hs" "dc_inv budgets ((d', a'), others)"
      using dc_release_where_inv [OF inv, of P] rel by auto
    then show ?thesis using why by blast
  qed
  show ?thesis
  proof (cases "dc_installed d")
    case True
    then have same: "d\<lparr>dc_lastApplied := n\<rparr> = ?d" by simp
    have "dc_release_where (\<lambda>r. dr_sent r \<and> dr_type r = CtRunEvent \<and> dr_seq r \<le> n) (d\<lparr>dc_lastApplied := n\<rparr>, a) = (d', a')" "n \<le> dc_lastSent d"
      using assms(2) False True by (simp_all add: dc_ack_def Let_def split: if_splits)
    then show ?thesis using fin True unfolding same by blast
  next
    case not: False
    then have "dc_release_where (\<lambda>r. dr_sent r \<and> dr_type r \<noteq> CtRunEvent) (?d, a) = (d', a')" "n = dc_atSeq d"
      using assms(2) False by (simp_all add: dc_ack_def Let_def split: if_splits)
    then show ?thesis using fin not by blast
  qed
qed

lemma dc_retire_cases:
  assumes inv: "dc_inv budgets ((d, a), others)" and step: "dc_retire (d, a) = (d', a')"
  shows "dc_inv budgets ((d', a'), others) \<and> dc_retired d' \<and> (\<not> dc_retired d \<longrightarrow> dc_records d' = [])"
proof (cases "dc_retired d")
  case True
  then show ?thesis using assms by (simp add: dc_retire_def)
next
  case False
  have "dc_inv budgets ((d\<lparr>dc_retired := True\<rparr>, a), others)" by (rule dc_inv_frame [OF inv]) simp_all
  from dc_release_where_inv [OF this, of "\<lambda>_. True"] obtain q e b where
    r: "dc_release_where (\<lambda>_. True) (d\<lparr>dc_retired := True\<rparr>, a) = (dc_released (d\<lparr>dc_retired := True\<rparr>) q e [], b)"
      "dc_inv budgets ((dc_released (d\<lparr>dc_retired := True\<rparr>) q e [], b), others)" by auto
  have d': "d' = (dc_released (d\<lparr>dc_retired := True\<rparr>) q e [])\<lparr>dc_baseline := None\<rparr>" "a' = b"
    using step False r(1) by (simp_all add: dc_retire_def)
  have "dc_inv budgets ((d', b), others)" unfolding d'(1) by (rule dc_inv_frame [OF r(2)]) simp_all
  then show ?thesis by (simp add: d')
qed

subsection \<open>Runs\<close>

datatype dc_op =
    DcRecord external_event number number
  | DcHandoff handle
  | DcProgress ident number
  | DcAck number
  | DcRetire
  | DcOtherReserve number
  | DcOtherRelease handle

fun dc_step :: "budgets \<Rightarrow> dc_op \<Rightarrow> dc_state \<Rightarrow> dc_state" where
  "dc_step budgets (DcRecord e bytes payload) (s, others) = (snd (dc_record budgets e bytes payload s), others)"
| "dc_step budgets (DcHandoff h) (s, others) = ((snd (dc_handoff budgets h (fst s)), snd s), others)"
| "dc_step budgets (DcProgress i n) (s, others) = (snd (dc_progress i n s), others)"
| "dc_step budgets (DcAck n) (s, others) = (snd (dc_ack n s), others)"
| "dc_step budgets DcRetire (s, others) = (dc_retire s, others)"
| "dc_step budgets (DcOtherReserve n) (s, others) =
     (case other_reserve (rb_reserve False) n (snd s, others) of (a, others) \<Rightarrow> ((fst s, a), others))"
| "dc_step budgets (DcOtherRelease j) (s, others) =
     (case other_release rb_release j (snd s, others) of (a, others) \<Rightarrow> ((fst s, a), others))"

definition dc_run :: "budgets \<Rightarrow> delivery_credit \<Rightarrow> runtime_bytes \<Rightarrow> dc_op list \<Rightarrow> dc_state" where
  "dc_run budgets d a ops = fold (dc_step budgets) ops ((d, a), [])"

lemma dc_step_inv:
  assumes "dc_inv budgets S"
  shows "dc_inv budgets (dc_step budgets op S)"
proof -
  obtain d a others where S: "S = ((d, a), others)" by (metis prod.exhaust)
  have inv: "dc_inv budgets ((d, a), others)" using assms S by simp
  then have own: "rb.owns a (case_sum (dc_lease d) (list_lof id others))" and wf: "dc_wf budgets d" by (simp_all add: dc_inv_def)
  show ?thesis
  proof (cases op)
    case (DcRecord e n p)
    obtain res d' a' where "dc_record budgets e n p (d, a) = (res, (d', a'))" by (metis prod.exhaust)
    then show ?thesis using dc_record_inv [OF inv] S DcRecord by simp
  next
    case (DcHandoff h)
    obtain ok d' where "dc_handoff budgets h d = (ok, d')" by fastforce
    then show ?thesis using dc_handoff_inv [OF inv] S DcHandoff by simp
  next
    case (DcProgress i n)
    obtain ok d' a' where "dc_progress i n (d, a) = (ok, (d', a'))" by (metis prod.exhaust)
    then show ?thesis using dc_progress_cases [OF inv] S DcProgress by simp
  next
    case (DcAck n)
    obtain ok d' a' where "dc_ack n (d, a) = (ok, (d', a'))" by (metis prod.exhaust)
    then show ?thesis using dc_ack_cases [OF inv] S DcAck by simp
  next
    case DcRetire
    obtain d' a' where "dc_retire (d, a) = (d', a')" by fastforce
    then show ?thesis using dc_retire_cases [OF inv] S DcRetire by simp
  next
    case (DcOtherReserve n)
    obtain a' o' where "other_reserve (rb_reserve False) n (a, others) = (a', o')" by fastforce
    then show ?thesis using rb.owns_other_reserve [OF own] wf S DcOtherReserve by (simp add: dc_inv_def)
  next
    case (DcOtherRelease j)
    obtain a' o' where "other_release rb_release j (a, others) = (a', o')" by fastforce
    then show ?thesis using rb.owns_other_release [OF own] wf S DcOtherRelease by (simp add: dc_inv_def)
  qed
qed

lemma dc_run_inv:
  assumes "dc_inv budgets S"
  shows "dc_inv budgets (fold (dc_step budgets) ops S)"
  using assms by (induction ops arbitrary: S) (simp_all add: dc_step_inv)

lemma new_dc_inv:
  assumes "new_delivery_credit attempt mode atSeq appliedSeq = Inr d" and "new_runtime_bytes limit c = Inr a"
  shows "dc_inv budgets ((d, a), [])"
proof -
  have d: "dc_heap d = []" "dc_records d = []" "dc_queuedBytes d = 0" "dc_debtBytes d = 0"
    using assms(1) by (auto simp: new_delivery_credit_def Let_def split: if_splits)
  have "rb_charge a = Map.empty" "rb_inv a"
    using assms(2) new_runtime_bytes_inv [OF assms(2)] by (auto simp: new_runtime_bytes_def rb_charge_def fun_eq_iff split: if_splits)
  moreover have "case_sum (dc_lease d) (list_lof id []) = Map.empty"
    by (simp add: fun_eq_iff dc_lease_def list_lof_def d split: sum.split)
  ultimately show ?thesis by (simp add: dc_inv_def dc_wf_def d records_sum_def rb.owns_def)
qed

subsection \<open>The stream of one attempt\<close>

definition credit_shape :: "credit_record \<Rightarrow> credit_type \<times> number \<times> number" where
  "credit_shape r = (dr_type r, dr_seq r, dr_ordinal r)"

definition baseline_shape :: "credit_baseline option \<Rightarrow> (credit_type \<times> number \<times> number) list" where
  "baseline_shape b = (case b of None \<Rightarrow> [] | Some b \<Rightarrow>
     (CtBaselineStart, - 1, - 1) # map (\<lambda>i. (CtBaselineChunk, - 1, i)) [0..cb_chunks b - 1] @
     (if cb_endQueued b then [(CtBaselineEnd, - 1, - 1)] else []))"

definition events_shape :: "number \<Rightarrow> number \<Rightarrow> (credit_type \<times> number \<times> number) list" where
  "events_shape start latest = map (\<lambda>q. (CtRunEvent, q, - 1)) [start + 1..latest]"

definition baseline_ok :: "credit_baseline \<Rightarrow> bool" where
  "baseline_ok b \<longleftrightarrow> 0 \<le> cb_chunks b \<and> cb_sentOrdinal b < cb_chunks b \<and>
     (if cb_endQueued b
      then cb_chunks b = bd_chunkCount (cb_descriptor b) \<and>
           cb_payloadBytes b = bd_vtBytes (cb_descriptor b) + bd_tailBytes (cb_descriptor b)
      else \<not> cb_endSent b)"

text \<open>The records admitted so far are a baseline transfer, complete before the first run event, then consecutive run events.\<close>

definition stream_ok ::
  "number \<Rightarrow> delivery_mode \<Rightarrow> number \<Rightarrow> credit_baseline option \<Rightarrow> number \<Rightarrow> (credit_type \<times> number \<times> number) list \<Rightarrow> bool" where
  "stream_ok start mode atSeq b latest shapes \<longleftrightarrow>
     shapes = baseline_shape b @ events_shape start latest \<and> start \<le> latest \<and>
     (mode = ModeBaseline \<longrightarrow> start = atSeq) \<and>
     (case b of
        None \<Rightarrow> mode = ModeBaseline \<longrightarrow> latest = start
      | Some b \<Rightarrow> mode = ModeBaseline \<and> baseline_ok b \<and> (\<not> cb_endQueued b \<longrightarrow> latest = start))"

definition dc_shape :: "number \<Rightarrow> delivery_credit \<Rightarrow> bool" where
  "dc_shape start d \<longleftrightarrow>
     stream_ok start (dc_mode d) (dc_atSeq d) (dc_baseline d) (dc_lastQueued d) (map credit_shape (dc_heap d)) \<and>
     dc_lastSent d \<le> dc_lastQueued d \<and> dc_lastApplied d \<le> dc_lastQueued d \<and> (dc_mode d = ModeReplay \<longrightarrow> dc_installed d)"

lemma events_shape_extend: "start \<le> latest \<Longrightarrow> events_shape start (latest + 1) = events_shape start latest @ [(CtRunEvent, latest + 1, - 1)]"
  by (simp add: events_shape_def upto_rec2 [of "start + 1" "latest + 1"])

lemma events_shape_empty [simp]: "events_shape n n = []"
  by (simp add: events_shape_def)

lemma chunk_shape_extend:
  "0 \<le> n \<Longrightarrow> map (\<lambda>i. (CtBaselineChunk, - 1 :: number, i)) [0..n] = map (\<lambda>i. (CtBaselineChunk, - 1, i)) [0..n - 1] @ [(CtBaselineChunk, - 1, n)]"
  by (simp add: upto_rec2 [of 0 n])

lemma dc_push_shape:
  "map credit_shape (dc_heap (dc_note_event e p (dc_push e n l d))) = map credit_shape (dc_heap d) @ [credit_event e]"
  by (simp add: dc_push_fields credit_shape_def)

lemma dc_push_same [simp]:
  "dc_baseline (dc_push e n l d) = dc_baseline d" "dc_mode (dc_push e n l d) = dc_mode d" "dc_atSeq (dc_push e n l d) = dc_atSeq d"
  "dc_lastQueued (dc_push e n l d) = dc_lastQueued d" "dc_lastSent (dc_push e n l d) = dc_lastSent d"
  "dc_lastApplied (dc_push e n l d) = dc_lastApplied d" "dc_installed (dc_push e n l d) = dc_installed d"
  "dc_retired (dc_push e n l d) = dc_retired d"
  by (simp_all add: dc_push_def split: prod.split)

lemma stream_ok_event:
  "stream_ok start mode atSeq b latest shapes \<Longrightarrow>
     (mode = ModeBaseline \<Longrightarrow> case b of None \<Rightarrow> False | Some b \<Rightarrow> cb_endQueued b) \<Longrightarrow>
     stream_ok start mode atSeq b (latest + 1) (shapes @ [(CtRunEvent, latest + 1, - 1)])"
  by (cases b) (auto simp: stream_ok_def events_shape_extend)

lemma stream_ok_start:
  "stream_ok start ModeBaseline atSeq None latest shapes \<Longrightarrow>
     stream_ok start ModeBaseline atSeq (Some \<lparr>cb_descriptor = d, cb_chunks = 0, cb_payloadBytes = 0, cb_sentOrdinal = - 1,
        cb_parsedOrdinal = - 1, cb_endQueued = False, cb_endSent = False\<rparr>) latest (shapes @ [(CtBaselineStart, - 1, - 1)])"
  by (simp add: stream_ok_def baseline_shape_def baseline_ok_def)

lemma stream_ok_chunk:
  "stream_ok start mode atSeq (Some b) latest shapes \<Longrightarrow> \<not> cb_endQueued b \<Longrightarrow>
     stream_ok start mode atSeq (Some (b\<lparr>cb_chunks := cb_chunks b + 1, cb_payloadBytes := n\<rparr>)) latest (shapes @ [(CtBaselineChunk, - 1, cb_chunks b)])"
  by (simp add: stream_ok_def baseline_shape_def baseline_ok_def chunk_shape_extend [of "cb_chunks b"])

lemma stream_ok_end:
  "stream_ok start mode atSeq (Some b) latest shapes \<Longrightarrow> \<not> cb_endQueued b \<Longrightarrow> cb_chunks b = bd_chunkCount (cb_descriptor b) \<Longrightarrow>
     cb_payloadBytes b = bd_vtBytes (cb_descriptor b) + bd_tailBytes (cb_descriptor b) \<Longrightarrow>
     stream_ok start mode atSeq (Some (b\<lparr>cb_endQueued := True\<rparr>)) latest (shapes @ [(CtBaselineEnd, - 1, - 1)])"
  by (simp add: stream_ok_def baseline_shape_def baseline_ok_def)

lemma stream_ok_baseline:
  assumes "stream_ok start mode atSeq (Some b) latest shapes"
  shows "n < cb_chunks b \<Longrightarrow> stream_ok start mode atSeq (Some (b\<lparr>cb_sentOrdinal := n\<rparr>)) latest shapes"
    and "cb_endQueued b \<Longrightarrow> stream_ok start mode atSeq (Some (b\<lparr>cb_endSent := True\<rparr>)) latest shapes"
    and "stream_ok start mode atSeq (Some (b\<lparr>cb_parsedOrdinal := n\<rparr>)) latest shapes"
  using assms unfolding stream_ok_def baseline_shape_def baseline_ok_def by auto

lemma dc_admits_chunk:
  "dc_admits_event budgets d (XBaselineChunk chunk) p \<Longrightarrow> \<exists>b. dc_baseline d = Some b \<and> \<not> cb_endQueued b \<and> bk_ordinal chunk = cb_chunks b"
  by (cases "dc_baseline d") simp_all

lemma dc_admits_end:
  "dc_admits_event budgets d (XBaselineEnd finish) p \<Longrightarrow> \<exists>b. dc_baseline d = Some b \<and> \<not> cb_endQueued b \<and>
     cb_chunks b = bd_chunkCount (cb_descriptor b) \<and> cb_payloadBytes b = bd_vtBytes (cb_descriptor b) + bd_tailBytes (cb_descriptor b)"
  by (cases "dc_baseline d") auto

lemma dc_admits_start:
  "dc_admits_event budgets d (XBaselineStart run descriptor) p \<Longrightarrow> dc_baseline d = None \<and> dc_mode d = ModeBaseline"
  by (cases "validateBaselineDescriptor descriptor (M0_LIMITS historyLines)") auto

lemma dc_record_shape:
  assumes sh: "dc_shape start d" and adm: "dc_admits_event budgets d e p"
  shows "dc_shape start (dc_note_event e p (dc_push e n l d))"
proof (cases e)
  case (XRunEvent sub event)
  have seq: "re_seq event = dc_lastQueued d + 1" and ok: "dc_mode d = ModeBaseline \<Longrightarrow> case dc_baseline d of None \<Rightarrow> False | Some b \<Rightarrow> cb_endQueued b"
    using adm XRunEvent by simp_all
  then show ?thesis using sh XRunEvent stream_ok_event [OF _ ok] dc_push_shape [of e p n l d] by (simp add: dc_shape_def)
next
  case (XBaselineStart run descriptor)
  then show ?thesis using sh dc_admits_start [OF adm [unfolded XBaselineStart]] stream_ok_start dc_push_shape [of e p n l d]
    by (simp add: dc_shape_def)
next
  case (XBaselineChunk chunk)
  then obtain b where b: "dc_baseline d = Some b" "\<not> cb_endQueued b" "bk_ordinal chunk = cb_chunks b"
    using adm dc_admits_chunk by blast
  then show ?thesis using sh XBaselineChunk stream_ok_chunk dc_push_shape [of e p n l d] by (simp add: dc_shape_def)
next
  case (XBaselineEnd finish)
  then obtain b where b: "dc_baseline d = Some b" "\<not> cb_endQueued b" "cb_chunks b = bd_chunkCount (cb_descriptor b)"
      "cb_payloadBytes b = bd_vtBytes (cb_descriptor b) + bd_tailBytes (cb_descriptor b)"
    using adm dc_admits_end by blast
  then show ?thesis using sh XBaselineEnd stream_ok_end dc_push_shape [of e p n l d] by (simp add: dc_shape_def)
qed (use adm in simp_all)

lemma stream_ok_member:
  assumes "stream_ok start mode atSeq b latest shapes"
  shows "(CtRunEvent, q, i) \<in> set shapes \<Longrightarrow> q \<le> latest"
    and "(CtBaselineChunk, q, i) \<in> set shapes \<Longrightarrow> b = Some x \<Longrightarrow> i < cb_chunks x"
    and "(CtBaselineEnd, q, i) \<in> set shapes \<Longrightarrow> b = Some x \<Longrightarrow> cb_endQueued x"
proof -
  have set: "set shapes = set (baseline_shape b) \<union> set (events_shape start latest)" using assms by (simp add: stream_ok_def)
  show "(CtRunEvent, q, i) \<in> set shapes \<Longrightarrow> q \<le> latest"
    unfolding set by (cases b) (auto simp: baseline_shape_def events_shape_def split: if_splits)
  show "(CtBaselineChunk, q, i) \<in> set shapes \<Longrightarrow> b = Some x \<Longrightarrow> i < cb_chunks x"
    unfolding set by (auto simp: baseline_shape_def events_shape_def split: if_splits)
  show "(CtBaselineEnd, q, i) \<in> set shapes \<Longrightarrow> b = Some x \<Longrightarrow> cb_endQueued x"
    unfolding set by (auto simp: baseline_shape_def events_shape_def split: if_splits)
qed

lemma dc_handoff_shape:
  assumes sh: "dc_shape start d" and wf: "dc_wf budgets d" and step: "dc_handoff budgets h d = (ok, d')"
  shows "dc_shape start d'"
proof (cases "dc_eligible budgets h d")
  case False
  then show ?thesis using sh step by (simp add: dc_handoff_def)
next
  case True
  let ?r = "dc_heap d ! h" and ?b = "dc_baseline d" and ?shapes = "map credit_shape (dc_heap d)"
  let ?d = "d\<lparr>dc_heap := (dc_heap d)[h := ?r\<lparr>dr_sent := True\<rparr>],
     dc_queuedBytes := dc_queuedBytes d - dr_bytes ?r, dc_debtBytes := dc_debtBytes d + dr_bytes ?r\<rparr>"
  have lt: "h < length (dc_heap d)" using True wf by (simp add: dc_eligible_def dc_wf_def)
  have same: "map credit_shape ((dc_heap d)[h := ?r\<lparr>dr_sent := True\<rparr>]) = ?shapes"
    by (rule nth_equalityI) (simp_all add: nth_list_update [OF lt] credit_shape_def)
  have d': "d' = dc_note_sent ?r ?d" using step True by (simp add: dc_handoff_def Let_def)
  have st: "stream_ok start (dc_mode d) (dc_atSeq d) ?b (dc_lastQueued d) ?shapes" using sh by (simp add: dc_shape_def)
  have mem: "(dr_type ?r, dr_seq ?r, dr_ordinal ?r) \<in> set ?shapes" using nth_mem [OF lt] by (auto simp: credit_shape_def image_iff)
  note in_stream = stream_ok_member [OF st]
  show ?thesis
  proof (cases "dr_type ?r")
    case CtRunEvent
    then show ?thesis using in_stream(1) mem sh unfolding d' by (simp add: dc_shape_def dc_note_sent_def same)
  next
    case CtBaselineStart
    then show ?thesis using sh unfolding d' by (simp add: dc_shape_def dc_note_sent_def same)
  next
    case CtBaselineChunk
    show ?thesis
    proof (cases ?b)
      case (Some b)
      then have "dr_ordinal ?r < cb_chunks b" using in_stream(2) mem CtBaselineChunk by metis
      then show ?thesis using CtBaselineChunk Some sh stream_ok_baseline(1) unfolding d' by (simp add: dc_shape_def dc_note_sent_def same)
    qed (use CtBaselineChunk sh in \<open>simp add: d' dc_shape_def dc_note_sent_def same\<close>)
  next
    case CtBaselineEnd
    show ?thesis
    proof (cases ?b)
      case (Some b)
      then have "cb_endQueued b" using in_stream(3) mem CtBaselineEnd by metis
      then show ?thesis using CtBaselineEnd Some sh stream_ok_baseline(2) unfolding d' by (simp add: dc_shape_def dc_note_sent_def same)
    qed (use CtBaselineEnd sh in \<open>simp add: d' dc_shape_def dc_note_sent_def same\<close>)
  qed
qed

lemma dc_progress_shape:
  assumes "dc_shape start d" and "dc_inv budgets ((d, a), others)" and "dc_progress i n (d, a) = (ok, (d', a'))"
  shows "dc_shape start d' \<and> dc_retired d' = dc_retired d"
proof (cases "d' = d")
  case False
  then obtain b q e hs where b: "dc_baseline d = Some b" "d' = dc_released (d\<lparr>dc_baseline := Some (b\<lparr>cb_parsedOrdinal := n\<rparr>)\<rparr>) q e hs"
    using dc_progress_cases [OF assms(2,3)] by blast
  then show ?thesis using assms(1) stream_ok_baseline(3) by (simp add: dc_shape_def)
qed (use assms in simp)

lemma dc_ack_shape:
  assumes sh: "dc_shape start d" and "dc_inv budgets ((d, a), others)" and "dc_ack n (d, a) = (ok, (d', a'))"
  shows "dc_shape start d' \<and> dc_retired d' = dc_retired d"
proof (cases "d' = d")
  case False
  then obtain q e hs where d': "d' = dc_released (d\<lparr>dc_installed := True, dc_lastApplied := n\<rparr>) q e hs"
    and why: "(\<not> dc_installed d \<and> n = dc_atSeq d) \<or> (dc_installed d \<and> n \<le> dc_lastSent d)"
    using dc_ack_cases [OF assms(2,3)] by blast
  have base: "dc_mode d = ModeBaseline \<Longrightarrow> dc_atSeq d \<le> dc_lastQueued d" "dc_lastSent d \<le> dc_lastQueued d"
      "dc_mode d = ModeReplay \<Longrightarrow> dc_installed d"
    using sh by (auto simp: dc_shape_def stream_ok_def)
  have "n \<le> dc_lastQueued d" using why base by (cases "dc_mode d") auto
  then show ?thesis using sh d' by (simp add: dc_shape_def)
qed (use sh in simp)

lemma dc_record_retired: "dc_retired (fst (snd (dc_record budgets e n p (d, a)))) = dc_retired d"
  by (simp add: dc_record_def split: prod.split option.split)

lemma dc_record_shape':
  assumes "dc_shape start d"
  shows "dc_shape start (fst (snd (dc_record budgets e n p (d, a))))"
  using assms dc_record_shape [OF assms] by (auto simp: dc_record_def split: prod.split option.split)

lemma dc_handoff_retired: "dc_retired (snd (dc_handoff budgets h d)) = dc_retired d"
  by (simp add: dc_handoff_def Let_def)

lemma dc_step_shape:
  assumes inv: "dc_inv budgets S" and sh: "dc_retired (fst (fst S)) \<or> dc_shape start (fst (fst S))"
  shows "dc_retired (fst (fst (dc_step budgets op S))) \<or> dc_shape start (fst (fst (dc_step budgets op S)))"
proof -
  obtain d a others where S: "S = ((d, a), others)" by (metis prod.exhaust)
  have inv: "dc_inv budgets ((d, a), others)" and wf: "dc_wf budgets d" and sh: "dc_retired d \<or> dc_shape start d"
    using assms S by (simp_all add: dc_inv_def)
  show ?thesis
  proof (cases op)
    case (DcRecord e n p)
    then show ?thesis using sh dc_record_retired dc_record_shape' S by auto
  next
    case (DcHandoff h)
    obtain ok d' where "dc_handoff budgets h d = (ok, d')" by fastforce
    then show ?thesis using sh dc_handoff_shape [OF _ wf] dc_handoff_retired [of budgets h d] S DcHandoff by auto
  next
    case (DcProgress i n)
    obtain ok d' a' where step: "dc_progress i n (d, a) = (ok, (d', a'))" by (metis prod.exhaust)
    have "dc_retired d' = dc_retired d"
      using dc_progress_cases [OF inv step] by (auto simp: dc_released_def)
    then show ?thesis using sh dc_progress_shape [OF _ inv step] S DcProgress step by auto
  next
    case (DcAck n)
    obtain ok d' a' where step: "dc_ack n (d, a) = (ok, (d', a'))" by (metis prod.exhaust)
    have "dc_retired d' = dc_retired d" using dc_ack_cases [OF inv step] by (auto simp: dc_released_def)
    then show ?thesis using sh dc_ack_shape [OF _ inv step] S DcAck step by auto
  next
    case DcRetire
    obtain d' a' where step: "dc_retire (d, a) = (d', a')" by fastforce
    then show ?thesis using dc_retire_cases [OF inv step] S DcRetire by simp
  qed (use sh S in \<open>simp_all split: prod.split\<close>)
qed

lemma dc_run_shape:
  assumes "dc_inv budgets S" and "dc_retired (fst (fst S)) \<or> dc_shape start (fst (fst S))"
  shows "dc_retired (fst (fst (fold (dc_step budgets) ops S))) \<or> dc_shape start (fst (fst (fold (dc_step budgets) ops S)))"
  using assms
proof (induction ops arbitrary: S)
  case (Cons op ops)
  show ?case using Cons.IH [OF dc_step_inv [OF Cons.prems(1), of op] dc_step_shape [OF Cons.prems, of op]] by simp
qed simp

lemma new_dc_shape:
  assumes "new_delivery_credit attempt mode atSeq appliedSeq = Inr d"
  shows "dc_shape (if mode = ModeReplay then the appliedSeq else atSeq) d"
  using assms by (auto simp: new_delivery_credit_def dc_shape_def stream_ok_def baseline_shape_def Let_def split: if_splits option.splits)
    (use delivery_mode.exhaust in blast)?

lemma dc_retired_step:
  assumes "dc_inv budgets S" and "dc_retired (fst (fst S))" and "dc_records (fst (fst S)) = []"
  shows "dc_retired (fst (fst (dc_step budgets op S))) \<and> dc_records (fst (fst (dc_step budgets op S))) = []"
proof -
  obtain d a others where S: "S = ((d, a), others)" by (metis prod.exhaust)
  show ?thesis using assms(2,3)
    by (cases op) (simp_all add: S dc_record_def dc_admits_bytes_def dc_handoff_def dc_eligible_def dc_progress_def dc_ack_def
      dc_retire_def Let_def split: option.split prod.split)
qed

lemma dc_retired_run:
  assumes "dc_inv budgets S" and "dc_retired (fst (fst S))" and "dc_records (fst (fst S)) = []"
  shows "dc_retired (fst (fst (fold (dc_step budgets) ops S))) \<and> dc_records (fst (fst (fold (dc_step budgets) ops S))) = []"
  using assms
proof (induction ops arbitrary: S)
  case (Cons op ops)
  show ?case using Cons.IH [OF dc_step_inv [OF Cons.prems(1), of op]] dc_retired_step [OF Cons.prems, of op] by simp
qed simp

text \<open>A retired attempt holds no records; this is so from the call of \<open>retire\<close> on.\<close>

lemma dc_retired_empty:
  assumes "dc_inv budgets S" and "dc_retired (fst (fst S)) \<Longrightarrow> dc_records (fst (fst S)) = []"
  shows "dc_retired (fst (fst (dc_step budgets op S))) \<Longrightarrow> dc_records (fst (fst (dc_step budgets op S))) = []"
proof -
  obtain d a others where S: "S = ((d, a), others)" by (metis prod.exhaust)
  have inv: "dc_inv budgets ((d, a), others)" using assms(1) S by simp
  assume r: "dc_retired (fst (fst (dc_step budgets op S)))"
  show ?thesis
  proof (cases "dc_retired d")
    case True
    then show ?thesis using dc_retired_step [OF assms(1)] assms(2) S by simp
  next
    case False
    show ?thesis
    proof (cases op)
      case DcRetire
      obtain d' a' where "dc_retire (d, a) = (d', a')" by fastforce
      then show ?thesis using dc_retire_cases [OF inv] False S DcRetire by simp
    next
      case (DcRecord e n p)
      then show ?thesis using r False dc_record_retired S by simp
    next
      case (DcHandoff h)
      then show ?thesis using r False dc_handoff_retired S by simp
    next
      case (DcProgress i n)
      obtain ok d' a' where step: "dc_progress i n (d, a) = (ok, (d', a'))" by (metis prod.exhaust)
      have "dc_retired d' = dc_retired d" using dc_progress_cases [OF inv step] by (auto simp: dc_released_def)
      then show ?thesis using r False S DcProgress step by simp
    next
      case (DcAck n)
      obtain ok d' a' where step: "dc_ack n (d, a) = (ok, (d', a'))" by (metis prod.exhaust)
      have "dc_retired d' = dc_retired d" using dc_ack_cases [OF inv step] by (auto simp: dc_released_def)
      then show ?thesis using r False S DcAck step by simp
    qed (use r False S in \<open>simp_all split: prod.splits\<close>)
  qed
qed

lemma dc_run_retired_empty:
  assumes "dc_inv budgets S" and "dc_retired (fst (fst S)) \<Longrightarrow> dc_records (fst (fst S)) = []"
  shows "dc_retired (fst (fst (fold (dc_step budgets) ops S))) \<Longrightarrow> dc_records (fst (fst (fold (dc_step budgets) ops S))) = []"
  using assms
proof (induction ops arbitrary: S)
  case (Cons op ops)
  show ?case using Cons.IH [OF _ dc_step_inv [OF Cons.prems(2), of op] dc_retired_empty [OF Cons.prems(2,3), of op]] Cons.prems(1) by simp
qed simp

lemma dc_inv_total:
  assumes "dc_inv budgets S"
  shows "rb_total (snd (fst S)) = 256 * int (length (dc_records (fst (fst S)))) + cell_sum (held \<circ> id) (snd S)"
proof -
  let ?d = "fst (fst S)"
  have own: "rb.owns (snd (fst S)) (case_sum (dc_lease ?d) (list_lof id (snd S)))" and dist: "distinct (dc_records ?d)"
    using assms by (simp_all add: dc_inv_def dc_wf_def)
  have dom: "dom (dc_lease ?d) = set (dc_records ?d)" by (auto simp: dc_lease_def dom_def)
  have "lof_total (dc_lease ?d) = (\<Sum>h \<in> set (dc_records ?d). 256)"
    unfolding lof_total_def dom by (rule sum.cong) (simp_all add: dc_lease_def)
  then have "lof_total (dc_lease ?d) = 256 * int (length (dc_records ?d))" using dist by (simp add: distinct_card)
  then show ?thesis using rb.owns_total_sum [OF own] by (simp add: lof_total_list_lof)
qed

subsection \<open>Properties\<close>

text \<open>
  C17. The two counters are exact and bounded in every reachable state: \<open>queuedBytes\<close> is the bytes of the
  records not yet handed off, \<open>debtBytes\<close> those of the records handed off and not yet paid; together
  they stay within the connection budget, the debt within the subscription credit, the records within
  their number; and the runtime account counts 256 bytes per record beside the other clients' leases.
\<close>

theorem credit_accounting:
  assumes "new_delivery_credit attempt mode atSeq appliedSeq = Inr d" and "new_runtime_bytes limit c = Inr a"
  shows "(let S = dc_run budgets d a ops; D = fst (fst S) in
    dc_queuedBytes D = records_sum unsent_bytes (dc_heap D) (dc_records D) \<and>
    dc_debtBytes D = records_sum sent_bytes (dc_heap D) (dc_records D) \<and>
    dc_queuedBytes D + dc_debtBytes D \<le> max 0 (budgets outboundConnectionBytes) \<and>
    dc_debtBytes D \<le> max 0 (budgets subscriptionCreditBytes) \<and>
    cs_items (dc_snapshot D) \<le> max 0 (budgets postNEvents + budgets baselineChunks + 2) \<and>
    rb_total (snd (fst S)) = 256 * cs_items (dc_snapshot D) + cell_sum (held \<circ> id) (snd S))"
proof -
  have inv: "dc_inv budgets (dc_run budgets d a ops)"
    unfolding dc_run_def by (rule dc_run_inv [OF new_dc_inv [OF assms]])
  then show ?thesis using dc_inv_total [OF inv] by (simp add: dc_inv_def dc_wf_def dc_snapshot_def Let_def)
qed

definition sample_credit :: delivery_credit where
  "sample_credit = (case new_delivery_credit 1 ModeReplay 10 (Some 5) of Inr d \<Rightarrow> d)"

definition sample_account :: runtime_bytes where
  "sample_account = (case new_runtime_bytes 4096 0 of Inr a \<Rightarrow> a)"

definition sample_budgets :: budgets where "sample_budgets = M0_LIMITS"

definition sample_event :: "number \<Rightarrow> external_event" where
  "sample_event seq = (let run = \<lparr>rr_serverId = ''s'', rr_relayInstanceId = ''r'', rr_runId = ''n''\<rparr> in
     XRunEvent \<lparr>sr_run = run, sr_connection = \<lparr>cr_connectionId = ''k'', cr_generation = 1\<rparr>, sr_subscriptionId = ''u'', sr_viewId = ''v''\<rparr>
       (RevOutput run seq))"

lemma sample_credit_new: "new_delivery_credit 1 ModeReplay 10 (Some 5) = Inr sample_credit"
  by code_simp

lemma sample_account_new: "new_runtime_bytes 4096 0 = Inr sample_account"
  by code_simp

definition sample_credit_ops :: "dc_op list" where
  "sample_credit_ops = [DcRecord (sample_event 6) 100 0, DcRecord (sample_event 7) 50 0, DcOtherReserve 9, DcHandoff 0]"

theorem credit_accounting_witness:
  "(let S = dc_run sample_budgets sample_credit sample_account sample_credit_ops in
    dc_queuedBytes (fst (fst S)) = 50 \<and> dc_debtBytes (fst (fst S)) = 100 \<and> rb_total (snd (fst S)) = 521)"
proof -
  let ?S = "dc_run sample_budgets sample_credit sample_account sample_credit_ops"
  have "records_sum unsent_bytes (dc_heap (fst (fst ?S))) (dc_records (fst (fst ?S))) = 50"
    "records_sum sent_bytes (dc_heap (fst (fst ?S))) (dc_records (fst (fst ?S))) = 100"
    "256 * cs_items (dc_snapshot (fst (fst ?S))) + cell_sum (held \<circ> id) (snd ?S) = 521" by code_simp+
  then show ?thesis
    using credit_accounting [OF sample_credit_new sample_account_new, of sample_budgets sample_credit_ops] unfolding Let_def by metis
qed

text \<open>
  C16. What an attempt admits is a well-formed recovery stream: until it is retired, the records admitted so
  far are, in order, the start of the baseline, its chunks 0, 1, 2, ... and its end, then the run events
  numbered consecutively from the boundary (\<open>atSeq\<close>, or \<open>appliedSeq\<close> in replay mode). No run event of a
  baseline attempt precedes the end of the baseline, the end is admitted only when the announced chunks
  and bytes are complete, and neither \<open>sentSeq\<close> nor \<open>appliedSeq\<close> passes the newest queued event.
\<close>

theorem credit_stream_wellformed:
  assumes "new_delivery_credit attempt mode atSeq appliedSeq = Inr d" and "new_runtime_bytes limit c = Inr a"
    and "\<not> dc_retired (fst (fst (dc_run budgets d a ops)))"
  shows "dc_shape (if mode = ModeReplay then the appliedSeq else atSeq) (fst (fst (dc_run budgets d a ops)))"
  using dc_run_shape [OF new_dc_inv [OF assms(1,2)], of "if mode = ModeReplay then the appliedSeq else atSeq" budgets ops]
    new_dc_shape [OF assms(1)] assms(3) by (simp add: dc_run_def)

theorem credit_stream_wellformed_witness:
  "map credit_shape (dc_heap (fst (fst (dc_run sample_budgets sample_credit sample_account sample_credit_ops)))) =
     [(CtRunEvent, 6, - 1), (CtRunEvent, 7, - 1)] \<and>
   dc_shape 5 (fst (fst (dc_run sample_budgets sample_credit sample_account sample_credit_ops)))"
proof -
  let ?D = "fst (fst (dc_run sample_budgets sample_credit sample_account sample_credit_ops))"
  have "\<not> dc_retired ?D" by code_simp
  moreover have "map credit_shape (dc_heap ?D) = [(CtRunEvent, 6, - 1), (CtRunEvent, 7, - 1)]" by code_simp
  ultimately show ?thesis
    using credit_stream_wellformed [OF sample_credit_new sample_account_new, of sample_budgets sample_credit_ops] by simp
qed

definition paid_records :: "delivery_credit \<Rightarrow> delivery_credit \<Rightarrow> handle list" where
  "paid_records D D' = filter (\<lambda>h. h \<notin> set (dc_records D')) (dc_records D)"

lemma records_sum_split:
  "records_sum f heap hs = records_sum f heap (filter (\<lambda>h. \<not> P h) hs) + records_sum f heap (filter P hs)"
  by (induction hs) (simp_all add: records_sum_def)

lemma records_sum_sent:
  assumes "list_all (\<lambda>h. dr_sent (heap ! h)) hs"
  shows "records_sum sent_bytes heap hs = records_sum dr_bytes heap hs" and "records_sum unsent_bytes heap hs = 0"
  using assms by (induction hs) (simp_all add: records_sum_def sent_bytes_def unsent_bytes_def)

lemma dc_release_where_pays:
  assumes inv: "dc_inv budgets ((E, acc), others)" and rel: "dc_release_where P (E, acc) = (D', acc')" and P: "\<And>r. P r \<Longrightarrow> dr_sent r"
  shows "dc_queuedBytes D' = dc_queuedBytes E" and "dc_debtBytes D' = dc_debtBytes E - records_sum dr_bytes (dc_heap E) (paid_records E D')"
    and "rb_total acc' = rb_total acc - 256 * int (length (paid_records E D'))"
proof -
  let ?P = "\<lambda>h. P (dc_heap E ! h)"
  obtain q e where D': "D' = dc_released E q e (filter (\<lambda>h. \<not> ?P h) (dc_records E))" and inv': "dc_inv budgets ((D', acc'), others)"
    using dc_release_where_inv [OF inv, of P] rel by auto
  have paid: "paid_records E D' = filter ?P (dc_records E)" unfolding paid_records_def D' by (rule filter_cong) auto
  have sent: "list_all (\<lambda>h. dr_sent (dc_heap E ! h)) (filter ?P (dc_records E))" using P by (simp add: list_all_iff)
  note sums = records_sum_split [of _ "dc_heap E" "dc_records E" ?P] records_sum_sent [OF sent]
  have wf: "dc_wf budgets E" "dc_wf budgets D'" using inv inv' by (simp_all add: dc_inv_def)
  then show "dc_queuedBytes D' = dc_queuedBytes E" using sums(1) [of unsent_bytes] sums(3) by (simp add: dc_wf_def D')
  show "dc_debtBytes D' = dc_debtBytes E - records_sum dr_bytes (dc_heap E) (paid_records E D')"
    unfolding paid using wf sums(1) [of sent_bytes] sums(2) by (simp add: dc_wf_def D')
  have "length (dc_records E) = length (dc_records D') + length (paid_records E D')"
    unfolding paid using sum_length_filter_compl [of ?P "dc_records E"] by (simp add: D')
  then show "rb_total acc' = rb_total acc - 256 * int (length (paid_records E D'))"
    using dc_inv_total [OF inv] dc_inv_total [OF inv'] by simp
qed

text \<open>
  C33. What an acknowledgement pays. If \<open>ack(n)\<close> returns true, the client is installed afterwards and one of three things happened: \<open>n\<close> is at or
  below the applied position of an installed client (whether or not this attempt sent it) and nothing changes; or \<open>n\<close> is the sequence number of
  a run event in flight and exactly the run events in flight up to \<open>n\<close> are paid; or the baseline was sent to its end, \<open>n\<close> is its boundary and
  exactly the baseline records in flight are paid. In every case the queue is untouched, the debt falls by exactly the bytes of the
  paid records, and the shared account gets back exactly their 256-byte leases.
\<close>

theorem credit_ack_exact:
  assumes "new_delivery_credit attempt mode atSeq appliedSeq = Inr d" and "new_runtime_bytes limit c = Inr a"
    and "fst (dc_run budgets d a ops) = (D, acc)" and "dc_ack n (D, acc) = (True, (D', acc'))"
  shows "dc_installed D' \<and> dc_queuedBytes D' = dc_queuedBytes D \<and>
    dc_debtBytes D' = dc_debtBytes D - sum_list (map (\<lambda>h. dr_bytes (dc_heap D ! h)) (paid_records D D')) \<and>
    rb_total acc' = rb_total acc - 256 * int (length (paid_records D D')) \<and>
    ((dc_installed D \<and> n \<le> dc_lastApplied D \<and> D' = D \<and> acc' = acc) \<or>
     (dc_installed D \<and> dc_lastApplied D < n \<and> n \<le> dc_lastSent D \<and> dc_lastApplied D' = n \<and>
      list_ex (\<lambda>h. credit_shape (dc_heap D ! h) = (CtRunEvent, n, dr_ordinal (dc_heap D ! h)) \<and> dr_sent (dc_heap D ! h)) (dc_records D) \<and>
      dc_records D' = filter (\<lambda>h. \<not> (dr_sent (dc_heap D ! h) \<and> dr_type (dc_heap D ! h) = CtRunEvent \<and> dr_seq (dc_heap D ! h) \<le> n)) (dc_records D)) \<or>
     (\<not> dc_installed D \<and> n = dc_atSeq D \<and> map_option cb_endSent (dc_baseline D) = Some True \<and> dc_lastApplied D' = n \<and>
      dc_records D' = filter (\<lambda>h. \<not> (dr_sent (dc_heap D ! h) \<and> dr_type (dc_heap D ! h) \<noteq> CtRunEvent)) (dc_records D)))"
proof -
  have inv0: "dc_inv budgets (dc_run budgets d a ops)"
    unfolding dc_run_def by (rule dc_run_inv [OF new_dc_inv [OF assms(1,2)]])
  then have inv: "dc_inv budgets ((D, acc), snd (dc_run budgets d a ops))" using assms(3) by (metis prod.collapse)
  have rel: "(\<exists>q e. D' = dc_released E q e (filter (\<lambda>h. \<not> P (dc_heap D ! h)) (dc_records D))) \<and> dc_queuedBytes D' = dc_queuedBytes D \<and>
      dc_debtBytes D' = dc_debtBytes D - sum_list (map (\<lambda>h. dr_bytes (dc_heap D ! h)) (paid_records D D')) \<and>
      rb_total acc' = rb_total acc - 256 * int (length (paid_records D D'))"
    if "\<And>r. P r \<Longrightarrow> dr_sent r" "dc_release_where P (E, acc) = (D', acc')" "dc_heap E = dc_heap D" "dc_records E = dc_records D"
      "dc_queuedBytes E = dc_queuedBytes D" "dc_debtBytes E = dc_debtBytes D" for P E
  proof -
    note E = dc_inv_frame [OF inv that(3-6)]
    have "paid_records E D' = paid_records D D'" using that(4) by (simp add: paid_records_def)
    then show ?thesis using dc_release_where_inv [OF E, of P] dc_release_where_pays [OF E that(2,1)] that(2-6) by (auto simp: records_sum_def)
  qed
  show ?thesis
  proof (cases "dc_installed D")
    case True
    show ?thesis
    proof (cases "n \<le> dc_lastApplied D")
      case le: True
      then show ?thesis using True assms(4) by (simp add: dc_ack_def paid_records_def split: if_splits)
    next
      case False
      have sent: "n \<le> dc_lastSent D" "list_ex (\<lambda>h. dr_sent (dc_heap D ! h) \<and> dr_type (dc_heap D ! h) = CtRunEvent \<and> dr_seq (dc_heap D ! h) = n) (dc_records D)"
        and eq: "dc_release_where (\<lambda>r. dr_sent r \<and> dr_type r = CtRunEvent \<and> dr_seq r \<le> n) (D\<lparr>dc_lastApplied := n\<rparr>, acc) = (D', acc')"
        using assms(4) True False by (simp_all add: dc_ack_def Let_def split: if_splits)
      from rel [OF _ eq] show ?thesis using sent True False by (auto simp: list_ex_iff credit_shape_def)
    qed
  next
    case False
    have why: "n = dc_atSeq D" "map_option cb_endSent (dc_baseline D) = Some True"
      and eq: "dc_release_where (\<lambda>r. dr_sent r \<and> dr_type r \<noteq> CtRunEvent) (D\<lparr>dc_installed := True, dc_lastApplied := n\<rparr>, acc) = (D', acc')"
      using assms(4) False by (simp_all add: dc_ack_def Let_def split: if_splits option.splits)
    from rel [OF _ eq] show ?thesis using why False by auto
  qed
qed

theorem credit_ack_exact_witness:
  "(let s = fst (dc_run sample_budgets sample_credit sample_account sample_credit_ops) in
    fst (dc_ack 6 s) \<and> dc_lastApplied (fst (snd (dc_ack 6 s))) = 6 \<and> dc_records (fst (snd (dc_ack 6 s))) = [1])"
proof -
  let ?s = "fst (dc_run sample_budgets sample_credit sample_account sample_credit_ops)"
  have eq: "dc_ack 6 (fst ?s, snd ?s) = (True, (fst (snd (dc_ack 6 ?s)), snd (snd (dc_ack 6 ?s))))" by code_simp
  have "dc_lastApplied (fst ?s) = 5" "filter (\<lambda>h. \<not> (dr_sent (dc_heap (fst ?s) ! h) \<and> dr_type (dc_heap (fst ?s) ! h) = CtRunEvent \<and>
    dr_seq (dc_heap (fst ?s) ! h) \<le> 6)) (dc_records (fst ?s)) = [1]" "dc_installed (fst ?s)" "fst (dc_ack 6 ?s)" by code_simp+
  then show ?thesis
    using credit_ack_exact [OF sample_credit_new sample_account_new _ eq, of sample_budgets sample_credit_ops] by (simp add: Let_def)
qed

text \<open>
  C34. \<open>retire\<close> is final and complete: however the run continues, a retired attempt holds no record, has no
  queued and no owed bytes and nothing of the runtime account, and refuses every further call.
\<close>

theorem credit_retired_empty:
  assumes "new_delivery_credit attempt mode atSeq appliedSeq = Inr d" and "new_runtime_bytes limit c = Inr a"
  shows "(let S = dc_run budgets d a (ops @ DcRetire # later); D = fst (fst S) in
    dc_retired D \<and> dc_records D = [] \<and> dc_queuedBytes D = 0 \<and> dc_debtBytes D = 0 \<and>
    rb_total (snd (fst S)) = cell_sum (held \<circ> id) (snd S) \<and>
    fst (dc_record budgets e n p (fst S)) = None \<and> \<not> fst (dc_handoff budgets h D) \<and>
    \<not> fst (dc_progress i m (fst S)) \<and> \<not> fst (dc_ack q (fst S)))"
proof -
  have inv: "dc_inv budgets (dc_run budgets d a xs)" for xs
    unfolding dc_run_def by (rule dc_run_inv [OF new_dc_inv [OF assms]])
  let ?S = "dc_run budgets d a (ops @ DcRetire # later)" and ?T = "dc_run budgets d a (ops @ [DcRetire])"
  have "\<not> dc_retired (fst (fst ((d, a), [])))" using assms(1) by (auto simp: new_delivery_credit_def Let_def split: if_splits)
  then have empty: "dc_retired (fst (fst ?T)) \<Longrightarrow> dc_records (fst (fst ?T)) = []"
    unfolding dc_run_def using dc_run_retired_empty [OF new_dc_inv [OF assms], of budgets "ops @ [DcRetire]"] by blast
  obtain D0 a0 others where T0: "dc_run budgets d a ops = ((D0, a0), others)" by (metis prod.exhaust)
  obtain D1 a1 where ret: "dc_retire (D0, a0) = (D1, a1)" by fastforce
  have "?T = ((D1, a1), others)" using T0 ret by (simp add: dc_run_def)
  moreover have "dc_retired D1" using dc_retire_cases [OF inv [of ops, unfolded T0] ret] by simp
  ultimately have "dc_retired (fst (fst ?T))" by simp
  moreover have "?S = fold (dc_step budgets) later ?T" by (simp add: dc_run_def)
  ultimately have r: "dc_retired (fst (fst ?S))" "dc_records (fst (fst ?S)) = []"
    using dc_retired_run [OF inv] empty by simp_all
  then show ?thesis using inv [of "ops @ DcRetire # later"] dc_inv_total [OF inv, of "ops @ DcRetire # later"]
    by (simp add: dc_inv_def dc_wf_def records_sum_def dc_record_def dc_admits_bytes_def dc_handoff_def dc_eligible_def
        dc_progress_def dc_ack_def Let_def split: option.split)
qed

theorem credit_retired_empty_witness:
  "(let S = dc_run sample_budgets sample_credit sample_account (sample_credit_ops @ [DcRetire, DcRecord (sample_event 8) 10 0]) in
    dc_records (fst (fst S)) = [] \<and> rb_total (snd (fst S)) = 9)"
proof -
  let ?S = "dc_run sample_budgets sample_credit sample_account (sample_credit_ops @ [DcRetire, DcRecord (sample_event 8) 10 0])"
  have "cell_sum (held \<circ> id) (snd ?S) = 9" by code_simp
  then show ?thesis using credit_retired_empty [OF sample_credit_new sample_account_new, of sample_budgets sample_credit_ops
      "[DcRecord (sample_event 8) 10 0]"] by (simp add: Let_def)
qed

end
