(* ===== verification/Run_Registry.thy ===== *)
theory Run_Registry
  imports Delivery_Credit Pipe_Protocol
begin

text \<open>
  \<open>RunRegistry\<close>, \<open>WorkerPool\<close> and the clock of the local runtime (\<^verbatim>\<open>apps/server/src/terminal/run-registry.ts\<close>,
  \<^verbatim>\<open>worker-pool.ts\<close>, \<^verbatim>\<open>local-runtime-clock.ts\<close>). The registry holds one confirmed status per run and an
  8192-byte lease on the runtime account for each; the pool decides which worker a run is placed on.

  The registry's single business observer is represented by what it is told: \<open>rg_notes\<close> lists the facts handed to
  \<open>changed\<close> while an observer is installed, \<^const>\<open>None\<close> for a removed run. An exception of the observer stays inside \<open>notify\<close>.
  A pipe session is only asked for its worker and whether it is ready, so \<open>wp_ready\<close> is a parameter of the placement.
\<close>

subsection \<open>Clock\<close>

text \<open>
  \<open>v\<close> is the floored reading of the monotonic source. \<open>ck_timer\<close> says that the 25 ms timer is set, \<open>ck_failures\<close> counts calls of \<open>failed\<close>.
  When the timer fires, \<open>tick\<close> is foreign code: \<open>stops\<close> says that it called \<open>stop\<close>, \<open>throws\<close> that it threw.
\<close>

record local_clock =
  ck_last :: number
  ck_timer :: bool
  ck_running :: bool
  ck_stopped :: bool
  ck_failures :: nat

definition new_local_clock :: local_clock where
  "new_local_clock = \<lparr>ck_last = 0, ck_timer = False, ck_running = False, ck_stopped = False, ck_failures = 0\<rparr>"

definition clock_now :: "number \<Rightarrow> local_clock \<Rightarrow> number option \<times> local_clock" where
  "clock_now v c = (if \<not> isSafeInteger v \<or> v < ck_last c \<or> v < 0 then (None, c) else (Some v, c\<lparr>ck_last := v\<rparr>))"

definition clock_start :: "local_clock \<Rightarrow> local_clock" where
  "clock_start c = (if ck_running c \<or> ck_stopped c then c else c\<lparr>ck_running := True, ck_timer := True\<rparr>)"

definition clock_stop :: "local_clock \<Rightarrow> local_clock" where
  "clock_stop c = (if ck_stopped c then c else c\<lparr>ck_stopped := True, ck_running := False, ck_timer := False\<rparr>)"

definition clock_fire :: "number \<Rightarrow> bool \<Rightarrow> bool \<Rightarrow> local_clock \<Rightarrow> local_clock" where
  "clock_fire v stops throws c =
     (if \<not> ck_timer c then c
      else let c = c\<lparr>ck_timer := False\<rparr> in
        if \<not> ck_running c then c
        else case clock_now v c of
          (None, c) \<Rightarrow> (clock_stop c)\<lparr>ck_failures := Suc (ck_failures c)\<rparr>
        | (Some _, c) \<Rightarrow>
            let c = (if stops then clock_stop c else c) in
            if throws then (clock_stop c)\<lparr>ck_failures := Suc (ck_failures c)\<rparr>
            else if ck_running c then c\<lparr>ck_timer := True\<rparr> else c)"

subsection \<open>Registry state\<close>

record reg_entry =
  ry_run :: run_ref
  ry_worker :: worker_ref
  ry_status :: run_status
  ry_capacityOwned :: bool
  ry_dispatched :: bool
  ry_lease :: handle

type_synonym run_fact = "run_ref \<times> worker_ref \<times> run_status option"

record run_registry =
  rg_composition :: runtime_composition
  rg_maxRuns :: number
  rg_entries :: "(ident \<times> reg_entry) list"
  rg_observed :: bool
  rg_notes :: "run_fact list"

datatype registry_error = InvalidRunLimit | RunObserverOwned

definition new_run_registry :: "runtime_composition \<Rightarrow> number \<Rightarrow> registry_error + run_registry" where
  "new_run_registry c limit =
     (if \<not> isSafeInteger limit \<or> limit < 1 \<or> limit > co_budgets c maxRuns then Inl InvalidRunLimit
      else Inr \<lparr>rg_composition = c, rg_maxRuns = limit, rg_entries = [], rg_observed = False, rg_notes = []\<rparr>)"

definition rg_observeBusiness :: "bool \<Rightarrow> run_registry \<Rightarrow> registry_error + run_registry" where
  "rg_observeBusiness observer rg = (if observer \<and> rg_observed rg then Inl RunObserverOwned else Inr (rg\<lparr>rg_observed := observer\<rparr>))"

definition rg_notify :: "reg_entry \<Rightarrow> bool \<Rightarrow> run_registry \<Rightarrow> run_registry" where
  "rg_notify e removed rg =
     (if rg_observed rg then rg\<lparr>rg_notes := rg_notes rg @ [(ry_run e, ry_worker e, if removed then None else Some (ry_status e))]\<rparr> else rg)"

definition reserved_status :: "run_ref \<Rightarrow> geometry \<Rightarrow> run_status" where
  "reserved_status run geometry = \<lparr>st_run = run, st_status = RunUnverifiable, st_geometry = geometry, st_controlEpoch = 0, st_controlHolder = None,
     st_receivedSeq = None, st_parsedSeq = None, st_recovery = RecoveryUnavailable, st_reason = None, st_exitCode = None, st_signal = None\<rparr>"

definition rg_reserve ::
  "run_ref \<Rightarrow> worker_ref \<Rightarrow> geometry \<Rightarrow> run_registry \<times> runtime_bytes \<Rightarrow> bool \<times> run_registry \<times> runtime_bytes" where
  "rg_reserve run worker geometry S = (case S of (rg, a) \<Rightarrow>
     if \<not> composition_owns (rg_composition rg) (rr_serverId run) (rr_relayInstanceId run) \<or>
        \<not> composition_owns (rg_composition rg) (wr_serverId worker) (wr_relayInstanceId worker) \<or>
        map_of (rg_entries rg) (rr_runId run) \<noteq> None \<or> int (length (rg_entries rg)) \<ge> rg_maxRuns rg then (False, S)
     else if \<not> RunStatusSchema (reserved_status run geometry) then (False, S)
     else case rb_reserve False a 8192 of
       (None, a) \<Rightarrow> (False, rg, a)
     | (Some lease, a) \<Rightarrow>
         let e = \<lparr>ry_run = run, ry_worker = worker, ry_status = reserved_status run geometry, ry_capacityOwned = True, ry_dispatched = False,
               ry_lease = lease\<rparr>
         in (True, rg_notify e False (rg\<lparr>rg_entries := AList.update (rr_runId run) e (rg_entries rg)\<rparr>), a))"

text \<open>The guard the operations below share: the entry of a run, when it is that run and that worker.\<close>

definition rg_entry :: "run_ref \<Rightarrow> worker_ref \<Rightarrow> run_registry \<Rightarrow> reg_entry option" where
  "rg_entry run worker rg = (case map_of (rg_entries rg) (rr_runId run) of
     None \<Rightarrow> None
   | Some e \<Rightarrow> if sameRunRef (ry_run e) run \<and> sameWorkerRef (ry_worker e) worker then Some e else None)"

definition rg_get :: "run_ref \<Rightarrow> run_registry \<Rightarrow> (worker_ref \<times> run_status \<times> bool) option" where
  "rg_get run rg = (case map_of (rg_entries rg) (rr_runId run) of
     None \<Rightarrow> None
   | Some e \<Rightarrow> if sameRunRef run (ry_run e) then Some (ry_worker e, ry_status e, ry_capacityOwned e) else None)"

definition rg_put :: "reg_entry \<Rightarrow> run_registry \<Rightarrow> run_registry" where
  "rg_put e rg = rg\<lparr>rg_entries := AList.update (rr_runId (ry_run e)) e (rg_entries rg)\<rparr>"

definition seq_or_none :: "number option \<Rightarrow> number" where
  "seq_or_none s = (case s of None \<Rightarrow> -1 | Some n \<Rightarrow> n)"

definition rg_observe :: "worker_ref \<Rightarrow> run_status \<Rightarrow> run_registry \<Rightarrow> bool \<times> run_registry" where
  "rg_observe worker status rg =
     (if \<not> RunStatusSchema status then (False, rg)
      else case rg_entry (st_run status) worker rg of
        None \<Rightarrow> (False, rg)
      | Some e \<Rightarrow>
          if st_status (ry_status e) = RunExited \<and> st_status status \<noteq> RunExited then (False, rg)
          else if st_status (ry_status e) = RunExited \<and> seq_or_none (st_parsedSeq status) < seq_or_none (st_parsedSeq (ry_status e)) then (True, rg)
          else let e = e\<lparr>ry_status := status\<rparr> in (True, rg_notify e False (rg_put e rg)))"

definition rg_observeExit :: "worker_ref \<Rightarrow> run_ref \<Rightarrow> number option \<Rightarrow> string option \<Rightarrow> run_registry \<Rightarrow> bool \<times> run_registry" where
  "rg_observeExit worker run exitCode sig rg = (case rg_entry run worker rg of
     None \<Rightarrow> (False, rg)
   | Some e \<Rightarrow>
       if st_status (ry_status e) = RunExited then (True, rg)
       else let status = (ry_status e)\<lparr>st_status := RunExited, st_exitCode := exitCode, st_signal := sig\<rparr> in
         if \<not> RunStatusSchema status then (False, rg)
         else let e = e\<lparr>ry_status := status\<rparr> in (True, rg_notify e False (rg_put e rg)))"

definition lost_status :: "run_status \<Rightarrow> run_status" where
  "lost_status status = status\<lparr>st_status := RunUnverifiable, st_recovery := RecoveryUnavailable\<rparr>"

definition rg_contactLost :: "worker_ref \<Rightarrow> run_registry \<Rightarrow> run_registry" where
  "rg_contactLost worker rg =
     fold (\<lambda>(k, e) rg.
       if sameWorkerRef (ry_worker e) worker \<and> st_status (ry_status e) \<noteq> RunExited
       then let e = e\<lparr>ry_status := lost_status (ry_status e)\<rparr> in rg_notify e False (rg\<lparr>rg_entries := AList.update k e (rg_entries rg)\<rparr>)
       else rg) (rg_entries rg) rg"

definition rg_isDispatched :: "run_ref \<Rightarrow> run_registry \<Rightarrow> bool" where
  "rg_isDispatched run rg = (case map_of (rg_entries rg) (rr_runId run) of None \<Rightarrow> False | Some e \<Rightarrow> sameRunRef run (ry_run e) \<and> ry_dispatched e)"

definition rg_markDispatched :: "run_ref \<Rightarrow> worker_ref \<Rightarrow> run_registry \<Rightarrow> bool \<times> run_registry" where
  "rg_markDispatched run worker rg = (case rg_entry run worker rg of None \<Rightarrow> (False, rg) | Some e \<Rightarrow> (True, rg_put (e\<lparr>ry_dispatched := True\<rparr>) rg))"

definition rg_remove :: "reg_entry \<Rightarrow> run_registry \<times> runtime_bytes \<Rightarrow> run_registry \<times> runtime_bytes" where
  "rg_remove e S = (case S of (rg, a) \<Rightarrow>
     (rg_notify e True (rg\<lparr>rg_entries := AList.delete (rr_runId (ry_run e)) (rg_entries rg)\<rparr>), rb_release a (ry_lease e)))"

definition rg_cancelReservation :: "run_ref \<Rightarrow> worker_ref \<Rightarrow> run_registry \<times> runtime_bytes \<Rightarrow> bool \<times> run_registry \<times> runtime_bytes" where
  "rg_cancelReservation run worker S = (case rg_entry run worker (fst S) of
     None \<Rightarrow> (False, S)
   | Some e \<Rightarrow> if ry_dispatched e then (False, S) else (True, rg_remove e S))"

definition rg_retireRefusedSpawn :: "run_ref \<Rightarrow> worker_ref \<Rightarrow> run_registry \<times> runtime_bytes \<Rightarrow> bool \<times> run_registry \<times> runtime_bytes" where
  "rg_retireRefusedSpawn run worker S = (case rg_entry run worker (fst S) of
     None \<Rightarrow> (False, S)
   | Some e \<Rightarrow> if \<not> ry_dispatched e \<or> st_status (ry_status e) \<noteq> RunUnverifiable then (False, S) else (True, rg_remove e S))"

definition rg_releaseCapacity :: "run_ref \<Rightarrow> worker_ref \<Rightarrow> run_registry \<Rightarrow> bool \<times> run_registry" where
  "rg_releaseCapacity run worker rg = (case rg_entry run worker rg of
     None \<Rightarrow> (False, rg)
   | Some e \<Rightarrow> if \<not> ry_capacityOwned e then (False, rg) else (True, rg_put (e\<lparr>ry_capacityOwned := False\<rparr>) rg))"

definition rg_list :: "run_registry \<Rightarrow> run_status list" where
  "rg_list rg = map (ry_status \<circ> snd) (rg_entries rg)"

definition rg_count :: "run_registry \<Rightarrow> number" where
  "rg_count rg = int (length (rg_entries rg))"

definition rg_dispose :: "run_registry \<times> runtime_bytes \<Rightarrow> run_registry \<times> runtime_bytes" where
  "rg_dispose S = (case S of (rg, a) \<Rightarrow>
     (rg\<lparr>rg_entries := []\<rparr>, fold (\<lambda>(k, e) a. rb_release a (ry_lease e)) (rg_entries rg) a))"

subsection \<open>Pool state\<close>

record pipe_session_view =
  sv_composition :: handle
  sv_worker :: worker_ref

record pool_worker =
  pw_worker :: worker_ref
  pw_session :: handle
  pw_runs :: "ident list"
  pw_lease :: handle

record placement =
  pl_worker :: worker_ref
  pl_session :: handle
  pl_run :: run_ref

record worker_pool =
  wp_compositionId :: handle
  wp_composition :: runtime_composition
  wp_maxWorkers :: number
  wp_runsPerWorker :: number
  wp_workers :: "pool_worker list"
  wp_placements :: "(ident \<times> placement) list"

datatype pool_error = InvalidPoolLimits | PoolTypeError

definition new_worker_pool ::
  "handle \<Rightarrow> runtime_composition \<Rightarrow> runtime_bytes \<Rightarrow> number \<Rightarrow> number \<Rightarrow> number \<Rightarrow> pool_error + worker_pool" where
  "new_worker_pool cid c bytes sessionReserve maxWorkers runsPerWorker =
     (if rb_controlReserve bytes < maxWorkers * sessionReserve \<or> \<not> isSafeInteger maxWorkers \<or> maxWorkers < 1 \<or>
         maxWorkers > co_budgets c maxRuns \<or> \<not> isSafeInteger runsPerWorker \<or> runsPerWorker < 1 \<or> runsPerWorker > co_budgets c maxRuns
      then Inl InvalidPoolLimits
      else Inr \<lparr>wp_compositionId = cid, wp_composition = c, wp_maxWorkers = maxWorkers, wp_runsPerWorker = runsPerWorker, wp_workers = [],
        wp_placements = []\<rparr>)"

definition wp_accepts :: "pipe_session_view \<Rightarrow> worker_pool \<Rightarrow> bool" where
  "wp_accepts session wp \<longleftrightarrow> sv_composition session = wp_compositionId wp \<and>
     composition_owns (wp_composition wp) (wr_serverId (sv_worker session)) (wr_relayInstanceId (sv_worker session))"

definition wp_add :: "handle \<Rightarrow> pipe_session_view \<Rightarrow> worker_pool \<times> runtime_bytes \<Rightarrow> bool \<times> worker_pool \<times> runtime_bytes" where
  "wp_add h session S = (case S of (wp, a) \<Rightarrow>
     if \<not> wp_accepts session wp \<or> int (length (wp_workers wp)) \<ge> wp_maxWorkers wp \<or>
        list_ex (\<lambda>w. wr_workerId (pw_worker w) = wr_workerId (sv_worker session)) (wp_workers wp) then (False, S)
     else case rb_reserve False a 4096 of
       (None, a) \<Rightarrow> (False, wp, a)
     | (Some lease, a) \<Rightarrow>
         (True, wp\<lparr>wp_workers := wp_workers wp @ [\<lparr>pw_worker = sv_worker session, pw_session = h, pw_runs = [], pw_lease = lease\<rparr>]\<rparr>, a))"

text \<open>The selection loop of \<open>reserve\<close>: the index of the worker selected so far.\<close>

definition pool_eligible :: "(handle \<Rightarrow> bool) \<Rightarrow> run_ref \<Rightarrow> number \<Rightarrow> pool_worker \<Rightarrow> bool" where
  "pool_eligible ready run runsPerWorker w \<longleftrightarrow> ready (pw_session w) \<and> wr_serverId (pw_worker w) = rr_serverId run \<and>
     wr_relayInstanceId (pw_worker w) = rr_relayInstanceId run \<and> int (length (pw_runs w)) < runsPerWorker"

fun pool_select :: "(pool_worker \<Rightarrow> bool) \<Rightarrow> nat \<Rightarrow> pool_worker list \<Rightarrow> (nat \<times> pool_worker) option \<Rightarrow> (nat \<times> pool_worker) option" where
  "pool_select ok i [] selected = selected"
| "pool_select ok i (w # ws) selected =
     (if \<not> ok w then pool_select ok (Suc i) ws selected
      else case selected of
        None \<Rightarrow> pool_select ok (Suc i) ws (Some (i, w))
      | Some (j, best) \<Rightarrow> pool_select ok (Suc i) ws (if length (pw_runs w) < length (pw_runs best) then Some (i, w) else selected))"

definition wp_reserve :: "(handle \<Rightarrow> bool) \<Rightarrow> run_ref \<Rightarrow> worker_pool \<Rightarrow> placement option \<times> worker_pool" where
  "wp_reserve ready run wp =
     (if map_of (wp_placements wp) (rr_runId run) \<noteq> None \<or> int (length (wp_placements wp)) \<ge> co_budgets (wp_composition wp) maxRuns then (None, wp)
      else case pool_select (pool_eligible ready run (wp_runsPerWorker wp)) 0 (wp_workers wp) None of
        None \<Rightarrow> (None, wp)
      | Some (i, w) \<Rightarrow>
          let p = \<lparr>pl_worker = pw_worker w, pl_session = pw_session w, pl_run = run\<rparr>
          in (Some p, wp\<lparr>wp_workers := (wp_workers wp)[i := w\<lparr>pw_runs := pw_runs w @ [rr_runId run]\<rparr>],
                wp_placements := AList.update (rr_runId run) p (wp_placements wp)\<rparr>))"

definition wp_get :: "run_ref \<Rightarrow> worker_pool \<Rightarrow> placement option" where
  "wp_get run wp = (case map_of (wp_placements wp) (rr_runId run) of
     None \<Rightarrow> None
   | Some p \<Rightarrow> if rr_serverId (pl_run p) = rr_serverId run \<and> rr_relayInstanceId (pl_run p) = rr_relayInstanceId run then Some p else None)"

fun find_index :: "('a \<Rightarrow> bool) \<Rightarrow> 'a list \<Rightarrow> nat option" where
  "find_index P [] = None"
| "find_index P (x # xs) = (if P x then Some 0 else map_option Suc (find_index P xs))"

text \<open>\<open>release\<close> dereferences the worker it finds: \<^const>\<open>PoolTypeError\<close> when there is none.\<close>

definition wp_release :: "run_ref \<Rightarrow> worker_ref \<Rightarrow> worker_pool \<Rightarrow> (pool_error + bool) \<times> worker_pool" where
  "wp_release run worker wp = (case wp_get run wp of
     None \<Rightarrow> (Inr False, wp)
   | Some p \<Rightarrow>
       if \<not> sameWorkerRef (pl_worker p) worker then (Inr False, wp)
       else let wp = wp\<lparr>wp_placements := AList.delete (rr_runId run) (wp_placements wp)\<rparr> in
         case find_index (\<lambda>w. sameWorkerRef (pw_worker w) worker) (wp_workers wp) of
           None \<Rightarrow> (Inl PoolTypeError, wp)
         | Some i \<Rightarrow> (Inr True, wp\<lparr>wp_workers := (wp_workers wp)[i := (wp_workers wp ! i)\<lparr>pw_runs := remove1 (rr_runId run) (pw_runs (wp_workers wp ! i))\<rparr>]\<rparr>))"

definition wp_sessions :: "worker_pool \<Rightarrow> handle list" where
  "wp_sessions wp = map pw_session (wp_workers wp)"

definition wp_snapshot :: "(handle \<Rightarrow> bool) \<Rightarrow> worker_pool \<Rightarrow> number \<times> number \<times> number" where
  "wp_snapshot ready wp = (int (length (wp_workers wp)), int (length (wp_placements wp)), int (length (filter (ready \<circ> pw_session) (wp_workers wp))))"

definition wp_dispose :: "worker_pool \<times> runtime_bytes \<Rightarrow> worker_pool \<times> runtime_bytes" where
  "wp_dispose S = (case S of (wp, a) \<Rightarrow>
     (wp\<lparr>wp_workers := [], wp_placements := []\<rparr>, fold (\<lambda>w a. rb_release a (pw_lease w)) (wp_workers wp) a))"

subsection \<open>Owners in a map\<close>

definition map_lof :: "('v \<Rightarrow> (nat \<times> int)) \<Rightarrow> ('k \<times> 'v) list \<Rightarrow> 'k \<Rightarrow> (nat \<times> int) option" where
  "map_lof f al k = map_option f (map_of al k)"

lemma map_lof_update: "map_lof f (AList.update k v al) = (map_lof f al)(k \<mapsto> f v)"
  by (auto simp: map_lof_def fun_eq_iff)

lemma map_lof_delete: "map_lof f (AList.delete k al) = (map_lof f al)(k := None)"
  by (auto simp: map_lof_def fun_eq_iff)

lemma map_lof_same: "map_of al k = Some v \<Longrightarrow> f w = f v \<Longrightarrow> map_lof f (AList.update k w al) = map_lof f al"
  by (auto simp: map_lof_def fun_eq_iff)

lemma lof_total_map_lof:
  assumes "distinct_keys al"
  shows "lof_total (map_lof f al) = cell_sum (snd \<circ> f \<circ> snd) al"
proof -
  have "dom (map_lof f al) = fst ` set al" 
    unfolding dom_map_of_conv_image_fst [symmetric] by (simp add: map_lof_def [abs_def] dom_def)
  then have "lof_total (map_lof f al) = (\<Sum>k \<in> fst ` set al. snd (the (map_lof f al k)))" by (simp add: lof_total_def)
  also have "\<dots> = (\<Sum>p \<in> set al. snd (the (map_lof f al (fst p))))"
    using assms by (simp add: sum.reindex distinct_map)
  also have "\<dots> = (\<Sum>p \<in> set al. (snd \<circ> f \<circ> snd) p)"
    using assms by (intro sum.cong) (auto simp: map_lof_def)
  also have "\<dots> = cell_sum (snd \<circ> f \<circ> snd) al"
    unfolding cell_sum_def using assms by (intro sum.distinct_set_conv_list) (simp add: distinct_map)
  finally show ?thesis .
qed

lemma owns_release_map:
  fixes al :: "('k \<times> 'v) list"
  shows "distinct_keys al \<Longrightarrow> rb.owns a (case_sum (map_lof f al) g) \<Longrightarrow> rb.owns (fold (\<lambda>(k, e) a. rb_release a (fst (f e))) al a) (case_sum (map_lof f ([] :: ('k \<times> 'v) list)) g)"
proof (induction al arbitrary: a)
  case Nil
  then show ?case by simp
next
  case (Cons p al)
  obtain k e where p: "p = (k, e)" by fastforce
  have "rb.owns (rb_release a (fst (f e))) ((case_sum (map_lof f (p # al)) g)(Inl k := None))"
    by (rule rb.owns_release [OF Cons.prems(2), of _ _ "snd (f e)"]) (simp add: map_lof_def p)
  moreover have "(map_lof f (p # al))(k := None) = map_lof f al"
    using Cons.prems(1) by (auto simp: map_lof_def fun_eq_iff p map_of_eq_None_iff)
  ultimately show ?case using Cons.IH Cons.prems(1) by (simp add: case_sum_upd p)
qed

subsection \<open>The registry's invariant\<close>

definition entry_lease :: "reg_entry \<Rightarrow> nat \<times> int" where
  "entry_lease e = (ry_lease e, 8192)"

definition entry_ok :: "runtime_composition \<Rightarrow> ident \<Rightarrow> reg_entry \<Rightarrow> bool" where
  "entry_ok c k e \<longleftrightarrow> rr_runId (ry_run e) = k \<and> composition_owns c (rr_serverId (ry_run e)) (rr_relayInstanceId (ry_run e)) \<and>
     composition_owns c (wr_serverId (ry_worker e)) (wr_relayInstanceId (ry_worker e)) \<and>
     RunStatusSchema (ry_status e) \<and> st_run (ry_status e) = ry_run e"

definition reg_ok :: "run_registry \<Rightarrow> bool" where
  "reg_ok rg \<longleftrightarrow> distinct_keys (rg_entries rg) \<and> int (length (rg_entries rg)) \<le> rg_maxRuns rg \<and>
     (\<forall>k e. map_of (rg_entries rg) k = Some e \<longrightarrow> entry_ok (rg_composition rg) k e)"

definition reg_inv :: "(run_registry \<times> runtime_bytes) \<times> (nat \<times> int) option list \<Rightarrow> bool" where
  "reg_inv S \<longleftrightarrow> reg_ok (fst (fst S)) \<and>
     rb.owns (snd (fst S)) (case_sum (map_lof entry_lease (rg_entries (fst (fst S)))) (list_lof id (snd S)))"

lemma rg_notify_simps [simp]:
  "rg_entries (rg_notify e r rg) = rg_entries rg" "rg_maxRuns (rg_notify e r rg) = rg_maxRuns rg" "rg_composition (rg_notify e r rg) = rg_composition rg"
  "rg_observed (rg_notify e r rg) = rg_observed rg"
  by (simp_all add: rg_notify_def)

lemma reg_ok_notify [simp]: "reg_ok (rg_notify e r rg) = reg_ok rg"
  by (simp add: reg_ok_def)

lemma rg_entry_Some: "rg_entry run worker rg = Some e \<longleftrightarrow> map_of (rg_entries rg) (rr_runId run) = Some e \<and> ry_run e = run \<and> ry_worker e = worker"
  by (auto simp: rg_entry_def sameRunRef_eq sameWorkerRef_eq split: option.splits)

text \<open>Replacing an entry by one of the same run, worker and lease.\<close>

definition entry_kept :: "reg_entry \<Rightarrow> reg_entry \<Rightarrow> bool" where
  "entry_kept e e' \<longleftrightarrow> ry_run e' = ry_run e \<and> ry_worker e' = ry_worker e \<and> ry_lease e' = ry_lease e \<and> RunStatusSchema (ry_status e') \<and>
     st_run (ry_status e') = st_run (ry_status e)"

lemma reg_ok_put:
  assumes "reg_ok rg" and "map_of (rg_entries rg) k = Some e" and "entry_kept e e'"
  shows "reg_ok (rg\<lparr>rg_entries := AList.update k e' (rg_entries rg)\<rparr>) \<and>
    map_lof entry_lease (AList.update k e' (rg_entries rg)) = map_lof entry_lease (rg_entries rg)"
  using assms map_lof_same [OF assms(2), of entry_lease e']
  by (auto simp: reg_ok_def entry_ok_def entry_kept_def entry_lease_def distinct_keys_update)

lemma reg_key: "reg_ok rg \<Longrightarrow> map_of (rg_entries rg) k = Some e \<Longrightarrow> rr_runId (ry_run e) = k"
  by (simp add: reg_ok_def entry_ok_def)

text \<open>A registry whose entries are those of another one up to \<open>entry_kept\<close>.\<close>

definition reg_same :: "run_registry \<Rightarrow> run_registry \<Rightarrow> bool" where
  "reg_same rg rg' \<longleftrightarrow> reg_ok rg' \<and> map_lof entry_lease (rg_entries rg') = map_lof entry_lease (rg_entries rg)"

lemma reg_same_refl: "reg_ok rg \<Longrightarrow> reg_same rg rg"
  by (simp add: reg_same_def)

lemma reg_same_put:
  assumes "reg_ok rg" and "rg_entry run worker rg = Some e" and "entry_kept e e'"
  shows "reg_same rg (rg_put e' rg)" "reg_same rg (rg_notify e' r (rg_put e' rg))"
proof -
  have "rr_runId (ry_run e') = rr_runId run" using assms(2,3) by (simp add: rg_entry_Some entry_kept_def)
  then show "reg_same rg (rg_put e' rg)" "reg_same rg (rg_notify e' r (rg_put e' rg))"
    using reg_ok_put [OF assms(1) _ assms(3), of "rr_runId run"] assms(2) by (simp_all add: reg_same_def rg_put_def rg_entry_Some)
qed

lemma entry_kept_ok: "reg_ok rg \<Longrightarrow> map_of (rg_entries rg) k = Some e \<Longrightarrow> RunStatusSchema (ry_status e) \<and> st_run (ry_status e) = ry_run e"
  by (simp add: reg_ok_def entry_ok_def)

lemma rg_observe_same:
  assumes "reg_ok rg"
  shows "reg_same rg (snd (rg_observe worker status rg))"
proof -
  have "reg_same rg (rg_notify (e\<lparr>ry_status := status\<rparr>) False (rg_put (e\<lparr>ry_status := status\<rparr>) rg))"
    if e: "rg_entry (st_run status) worker rg = Some e" and "RunStatusSchema status" for e
    by (rule reg_same_put(2) [OF assms e]) (use e that entry_kept_ok [OF assms] in \<open>auto simp: entry_kept_def rg_entry_Some\<close>)
  then show ?thesis using reg_same_refl [OF assms] by (simp add: rg_observe_def Let_def split: option.split)
qed

lemma rg_observeExit_same:
  assumes "reg_ok rg"
  shows "reg_same rg (snd (rg_observeExit worker run code sig rg))"
proof -
  have "reg_same rg (rg_notify (e\<lparr>ry_status := (ry_status e)\<lparr>st_status := RunExited, st_exitCode := code, st_signal := sig\<rparr>\<rparr>) False
      (rg_put (e\<lparr>ry_status := (ry_status e)\<lparr>st_status := RunExited, st_exitCode := code, st_signal := sig\<rparr>\<rparr>) rg))"
    if e: "rg_entry run worker rg = Some e" and "RunStatusSchema ((ry_status e)\<lparr>st_status := RunExited, st_exitCode := code, st_signal := sig\<rparr>)" for e
    by (rule reg_same_put(2) [OF assms e]) (use that in \<open>simp add: entry_kept_def\<close>)
  then show ?thesis using reg_same_refl [OF assms] by (simp add: rg_observeExit_def Let_def split: option.split)
qed

lemma rg_mark_same:
  assumes "reg_ok rg"
  shows "reg_same rg (snd (rg_markDispatched run worker rg))" "reg_same rg (snd (rg_releaseCapacity run worker rg))"
proof -
  have "reg_same rg (rg_put (e\<lparr>ry_dispatched := True\<rparr>) rg) \<and> reg_same rg (rg_put (e\<lparr>ry_capacityOwned := False\<rparr>) rg)"
    if e: "rg_entry run worker rg = Some e" for e
  proof -
    have "map_of (rg_entries rg) (rr_runId run) = Some e" using e by (simp add: rg_entry_Some)
    from entry_kept_ok [OF assms this] show ?thesis
      by (intro conjI; intro reg_same_put(1) [OF assms e]) (simp_all add: entry_kept_def)
  qed
  then show "reg_same rg (snd (rg_markDispatched run worker rg))" "reg_same rg (snd (rg_releaseCapacity run worker rg))"
    using reg_same_refl [OF assms] by (simp_all add: rg_markDispatched_def rg_releaseCapacity_def split: option.split)
qed

text \<open>Contact loss, as one change per entry.\<close>

definition lose :: "worker_ref \<Rightarrow> ident \<times> reg_entry \<Rightarrow> run_registry \<Rightarrow> run_registry" where
  "lose worker p rg =
     (if sameWorkerRef (ry_worker (snd p)) worker \<and> st_status (ry_status (snd p)) \<noteq> RunExited
      then let e = (snd p)\<lparr>ry_status := lost_status (ry_status (snd p))\<rparr> in rg_notify e False (rg\<lparr>rg_entries := AList.update (fst p) e (rg_entries rg)\<rparr>)
      else rg)"

lemma rg_contactLost_fold: "rg_contactLost worker rg = fold (lose worker) (rg_entries rg) rg"
  by (simp add: rg_contactLost_def lose_def [abs_def] case_prod_beta')

definition lose_entry :: "worker_ref \<Rightarrow> reg_entry \<Rightarrow> reg_entry" where
  "lose_entry worker e =
     (if ry_worker e = worker \<and> st_status (ry_status e) \<noteq> RunExited then e\<lparr>ry_status := lost_status (ry_status e)\<rparr> else e)"

lemma lose_entries: "map_of (rg_entries rg) k = Some e \<Longrightarrow> map_of (rg_entries (lose worker (k, e) rg)) = (map_of (rg_entries rg))(k \<mapsto> lose_entry worker e)"
  by (auto simp: lose_def lose_entry_def Let_def sameWorkerRef_eq)

lemma lose_same:
  assumes "reg_ok rg" and "map_of (rg_entries rg) k = Some e"
  shows "reg_same rg (lose worker (k, e) rg)"
proof -
  have "entry_kept e (e\<lparr>ry_status := lost_status (ry_status e)\<rparr>)"
    using entry_kept_ok [OF assms] by (auto simp: entry_kept_def lost_status_def RunStatusSchema_def)
  from reg_ok_put [OF assms this] show ?thesis using reg_same_refl [OF assms(1)] by (simp add: lose_def Let_def reg_same_def)
qed

lemma lose_fold:
  assumes "reg_ok rg" and "distinct_keys ps" and "\<forall>(k, e) \<in> set ps. map_of (rg_entries rg) k = Some e"
  shows "reg_same rg (fold (lose worker) ps rg) \<and>
    map_of (rg_entries (fold (lose worker) ps rg)) = (\<lambda>k. if k \<in> fst ` set ps then map_option (lose_entry worker) (map_of (rg_entries rg) k) else map_of (rg_entries rg) k)"
  using assms
proof (induction ps arbitrary: rg)
  case Nil
  then show ?case by (simp add: reg_same_refl)
next
  case (Cons p ps)
  obtain k e where p: "p = (k, e)" by fastforce
  have k: "map_of (rg_entries rg) k = Some e" using Cons.prems(3) p by simp
  let ?rg = "lose worker (k, e) rg"
  have same: "reg_same rg ?rg" by (rule lose_same [OF Cons.prems(1) k])
  have knew: "k \<notin> fst ` set ps" using Cons.prems(2) p by simp
  have rest: "\<forall>(k', e') \<in> set ps. map_of (rg_entries ?rg) k' = Some e'"
  proof clarify
    fix k' e'
    assume k': "(k', e') \<in> set ps"
    then have "k' \<noteq> k" using knew by force
    then show "map_of (rg_entries ?rg) k' = Some e'" using Cons.prems(3) k' by (auto simp: lose_entries [OF k])
  qed
  have "reg_ok ?rg" using same by (simp add: reg_same_def)
  from Cons.IH [OF this _ rest] Cons.prems(2) p same knew show ?case
    by (auto simp: reg_same_def lose_entries [OF k] fun_eq_iff k)
qed

lemma rg_contactLost_same:
  assumes "reg_ok rg"
  shows "reg_same rg (rg_contactLost worker rg) \<and>
    map_of (rg_entries (rg_contactLost worker rg)) = (\<lambda>k. map_option (lose_entry worker) (map_of (rg_entries rg) k))"
proof -
  have d: "distinct_keys (rg_entries rg)" using assms by (simp add: reg_ok_def)
  have "\<forall>(k, e) \<in> set (rg_entries rg). map_of (rg_entries rg) k = Some e" using d by auto
  moreover have "k \<notin> fst ` set (rg_entries rg) \<Longrightarrow> map_of (rg_entries rg) k = None" for k by (simp add: map_of_eq_None_iff)
  ultimately show ?thesis using lose_fold [OF assms d, of worker] by (auto simp: rg_contactLost_fold fun_eq_iff)
qed

text \<open>The operations that change the account.\<close>

lemma rg_reserve_inv:
  assumes inv: "reg_inv ((rg, a), others)" and step: "rg_reserve run worker geometry (rg, a) = (ok, S)"
  shows "reg_inv (S, others)"
proof (cases ok)
  case False
  then have "S = (rg, a)" using step rb.reserve_None [of False a 8192] by (auto simp: rg_reserve_def Let_def split: if_splits prod.splits option.splits)
  then show ?thesis using inv by simp
next
  case True
  then obtain lease a' where res: "rb_reserve False a 8192 = (Some lease, a')" and new: "map_of (rg_entries rg) (rr_runId run) = None"
    and own: "composition_owns (rg_composition rg) (rr_serverId run) (rr_relayInstanceId run)"
      "composition_owns (rg_composition rg) (wr_serverId worker) (wr_relayInstanceId worker)"
    and len: "int (length (rg_entries rg)) < rg_maxRuns rg" and sch: "RunStatusSchema (reserved_status run geometry)"
    using step by (auto simp: rg_reserve_def split: if_splits prod.splits option.splits)
  let ?e = "\<lparr>ry_run = run, ry_worker = worker, ry_status = reserved_status run geometry, ry_capacityOwned = True, ry_dispatched = False, ry_lease = lease\<rparr>"
  have S: "S = (rg_notify ?e False (rg\<lparr>rg_entries := AList.update (rr_runId run) ?e (rg_entries rg)\<rparr>), a')"
    using step res new own len sch by (simp add: rg_reserve_def Let_def)
  have "rb.owns a' ((case_sum (map_lof entry_lease (rg_entries rg)) (list_lof id others))(Inl (rr_runId run) \<mapsto> (lease, 8192)))"
    using inv new by (intro rb.owns_reserve [OF _ res]) (auto simp: reg_inv_def map_lof_def)
  moreover have "reg_ok (rg\<lparr>rg_entries := AList.update (rr_runId run) ?e (rg_entries rg)\<rparr>)"
    using inv new own len sch by (auto simp: reg_inv_def reg_ok_def entry_ok_def distinct_keys_update reserved_status_def)
  ultimately show ?thesis by (simp add: reg_inv_def S map_lof_update entry_lease_def case_sum_upd)
qed

lemma rg_remove_inv:
  assumes inv: "reg_inv ((rg, a), others)" and e: "map_of (rg_entries rg) k = Some e"
  shows "reg_inv (rg_remove e (rg, a), others)"
proof -
  have ok: "reg_ok rg" and own: "rb.owns a (case_sum (map_lof entry_lease (rg_entries rg)) (list_lof id others))" using inv by (simp_all add: reg_inv_def)
  have k: "rr_runId (ry_run e) = k" by (rule reg_key [OF ok e])
  have "rb.owns (rb_release a (ry_lease e)) ((case_sum (map_lof entry_lease (rg_entries rg)) (list_lof id others))(Inl k := None))"
    by (rule rb.owns_release [OF own]) (simp add: map_lof_def e entry_lease_def)
  moreover have "reg_ok (rg\<lparr>rg_entries := AList.delete k (rg_entries rg)\<rparr>)"
  proof -
    have "Suc (length (AList.delete k (rg_entries rg))) = length (rg_entries rg)" using length_delete_present [OF _ e] ok by (simp add: reg_ok_def)
    then show ?thesis using ok by (auto simp: reg_ok_def distinct_keys_delete split: if_splits)
  qed
  ultimately show ?thesis by (simp add: rg_remove_def reg_inv_def k map_lof_delete case_sum_upd)
qed

lemma rg_dispose_inv:
  assumes inv: "reg_inv ((rg, a), others)"
  shows "reg_inv (rg_dispose (rg, a), others)"
proof -
  have "rb.owns (fold (\<lambda>(k, e) a. rb_release a (fst (entry_lease e))) (rg_entries rg) a)
      (case_sum (map_lof entry_lease ([] :: (ident \<times> reg_entry) list)) (list_lof id others))"
    using inv by (intro owns_release_map) (simp_all add: reg_inv_def reg_ok_def)
  moreover have "0 \<le> rg_maxRuns rg" using inv by (simp add: reg_inv_def reg_ok_def)
  ultimately show ?thesis by (simp add: rg_dispose_def reg_inv_def reg_ok_def entry_lease_def)
qed

lemma reg_inv_same: "reg_inv ((rg, a), others) \<Longrightarrow> reg_same rg rg' \<Longrightarrow> reg_inv ((rg', a), others)"
  by (simp add: reg_inv_def reg_same_def)

subsection \<open>Runs of the registry\<close>

datatype rg_op =
    RgReserve run_ref worker_ref geometry
  | RgObserve worker_ref run_status
  | RgObserveExit worker_ref run_ref "number option" "string option"
  | RgContactLost worker_ref
  | RgMarkDispatched run_ref worker_ref
  | RgCancelReservation run_ref worker_ref
  | RgRetireRefusedSpawn run_ref worker_ref
  | RgReleaseCapacity run_ref worker_ref
  | RgObserveBusiness bool
  | RgDispose
  | RgOtherReserve bool number
  | RgOtherRelease handle

type_synonym reg_state = "(run_registry \<times> runtime_bytes) \<times> (nat \<times> int) option list"

definition on_registry :: "(run_registry \<Rightarrow> run_registry) \<Rightarrow> reg_state \<Rightarrow> reg_state" where
  "on_registry f S = ((f (fst (fst S)), snd (fst S)), snd S)"

fun rg_step :: "rg_op \<Rightarrow> reg_state \<Rightarrow> reg_state" where
  "rg_step (RgReserve run worker geometry) S = (snd (rg_reserve run worker geometry (fst S)), snd S)"
| "rg_step (RgObserve worker status) S = on_registry (\<lambda>rg. snd (rg_observe worker status rg)) S"
| "rg_step (RgObserveExit worker run code sig) S = on_registry (\<lambda>rg. snd (rg_observeExit worker run code sig rg)) S"
| "rg_step (RgContactLost worker) S = on_registry (rg_contactLost worker) S"
| "rg_step (RgMarkDispatched run worker) S = on_registry (\<lambda>rg. snd (rg_markDispatched run worker rg)) S"
| "rg_step (RgCancelReservation run worker) S = (snd (rg_cancelReservation run worker (fst S)), snd S)"
| "rg_step (RgRetireRefusedSpawn run worker) S = (snd (rg_retireRefusedSpawn run worker (fst S)), snd S)"
| "rg_step (RgReleaseCapacity run worker) S = on_registry (\<lambda>rg. snd (rg_releaseCapacity run worker rg)) S"
| "rg_step (RgObserveBusiness observer) S = on_registry (\<lambda>rg. case rg_observeBusiness observer rg of Inl _ \<Rightarrow> rg | Inr rg \<Rightarrow> rg) S"
| "rg_step RgDispose S = (rg_dispose (fst S), snd S)"
| "rg_step (RgOtherReserve control n) S = (case other_reserve (rb_reserve control) n (snd (fst S), snd S) of (a, others) \<Rightarrow> ((fst (fst S), a), others))"
| "rg_step (RgOtherRelease j) S = (case other_release rb_release j (snd (fst S), snd S) of (a, others) \<Rightarrow> ((fst (fst S), a), others))"

lemma reg_inv_on: "reg_inv S \<Longrightarrow> (\<And>rg. reg_ok rg \<Longrightarrow> reg_same rg (f rg)) \<Longrightarrow> reg_inv (on_registry f S)"
  using reg_inv_same [of "fst (fst S)" "snd (fst S)" "snd S" "f (fst (fst S))"] by (simp add: on_registry_def reg_inv_def)

lemma rg_removal_inv:
  assumes "reg_inv S"
  shows "reg_inv (snd (rg_cancelReservation run worker (fst S)), snd S)" "reg_inv (snd (rg_retireRefusedSpawn run worker (fst S)), snd S)"
proof -
  obtain rg a others where S: "S = ((rg, a), others)" by (cases S; cases "fst S") auto
  have "reg_inv (rg_remove e (rg, a), others)" if "rg_entry run worker rg = Some e" for e
    using rg_remove_inv assms that unfolding S rg_entry_Some by blast
  then show "reg_inv (snd (rg_cancelReservation run worker (fst S)), snd S)" "reg_inv (snd (rg_retireRefusedSpawn run worker (fst S)), snd S)"
    using assms unfolding S by (simp_all add: rg_cancelReservation_def rg_retireRefusedSpawn_def split: option.split)
qed

lemma rg_step_inv:
  assumes inv: "reg_inv S"
  shows "reg_inv (rg_step op S)"
proof -
  obtain rg a others where S: "S = ((rg, a), others)" by (cases S; cases "fst S") auto
  have own: "rb.owns a (case_sum (map_lof entry_lease (rg_entries rg)) (list_lof id others))" and ok: "reg_ok rg" using inv by (simp_all add: S reg_inv_def)
  show ?thesis
  proof (cases op)
    case (RgReserve run worker geometry)
    show ?thesis using rg_reserve_inv [OF inv [unfolded S], of run worker geometry "fst (rg_reserve run worker geometry (rg, a))"] by (simp add: S RgReserve)
  next
    case (RgOtherReserve control n)
    obtain a' o' where "other_reserve (rb_reserve control) n (a, others) = (a', o')" by fastforce
    then show ?thesis using rb.owns_other_reserve [OF own] ok S RgOtherReserve by (simp add: reg_inv_def)
  next
    case (RgOtherRelease j)
    obtain a' o' where "other_release rb_release j (a, others) = (a', o')" by fastforce
    then show ?thesis using rb.owns_other_release [OF own] ok S RgOtherRelease by (simp add: reg_inv_def)
  next
    case (RgObserveBusiness observer)
    have "reg_same r (case rg_observeBusiness observer r of Inl _ \<Rightarrow> r | Inr r \<Rightarrow> r)" if "reg_ok r" for r
      using that by (simp add: rg_observeBusiness_def reg_same_def reg_ok_def)
    then show ?thesis using reg_inv_on [OF inv] by (simp add: RgObserveBusiness)
  qed (use inv rg_dispose_inv [OF inv [unfolded S]] rg_removal_inv [OF inv] reg_inv_on [OF inv] rg_observe_same rg_observeExit_same rg_contactLost_same
      rg_mark_same in \<open>simp_all add: S\<close>)
qed

lemma rg_run_inv: "reg_inv S \<Longrightarrow> reg_inv (fold rg_step ops S)"
  by (induction ops arbitrary: S) (simp_all add: rg_step_inv)

lemma new_runtime_bytes_owns:
  assumes "new_runtime_bytes n r = Inr a" and "\<And>p. lof p = None"
  shows "rb.owns a lof"
proof -
  have "dom lof = {}" using assms(2) by auto
  moreover have "rb_leases a = []" using assms(1) by (auto simp: new_runtime_bytes_def split: if_splits)
  ultimately show ?thesis using new_runtime_bytes_inv [OF assms(1)] assms(2) by (simp add: rb.owns_def rb_charge_def)
qed

lemma new_registry_inv:
  assumes "new_run_registry c limit = Inr rg" and "new_runtime_bytes n r = Inr a"
  shows "reg_inv ((rg, a), [])"
proof -
  have "rb.owns a (case_sum (map_lof entry_lease ([] :: (ident \<times> reg_entry) list)) (list_lof id []))"
    by (rule new_runtime_bytes_owns [OF assms(2)]) (simp add: map_lof_def list_lof_def split: sum.split)
  then show ?thesis using assms(1) by (auto simp: reg_inv_def reg_ok_def new_run_registry_def split: if_splits)
qed

text \<open>An exited run the worker was sent, and what the registry knows of its sequence.\<close>

definition exited_at :: "run_ref \<Rightarrow> worker_ref \<Rightarrow> number \<Rightarrow> run_registry \<Rightarrow> bool" where
  "exited_at run worker n rg \<longleftrightarrow> (\<exists>e. rg_entry run worker rg = Some e \<and> ry_dispatched e \<and> st_status (ry_status e) = RunExited \<and>
     n \<le> seq_or_none (st_parsedSeq (ry_status e)))"

lemma rg_entry_put:
  "rg_entry run worker (rg_put e rg) = (if rr_runId run = rr_runId (ry_run e) then if ry_run e = run \<and> ry_worker e = worker then Some e else None
     else rg_entry run worker rg)"
  by (auto simp: rg_entry_def rg_put_def sameRunRef_eq sameWorkerRef_eq)

lemma rg_entry_notify [simp]: "rg_entry run worker (rg_notify e r rg) = rg_entry run worker rg"
  by (simp add: rg_entry_def)

lemma exited_at_put:
  assumes "exited_at run worker n rg" and "rg_entry run' worker' rg = Some e" and "ry_run e' = ry_run e" and "ry_worker e' = ry_worker e"
    and "ry_dispatched e \<Longrightarrow> ry_dispatched e'" and "st_status (ry_status e) = RunExited \<Longrightarrow> st_status (ry_status e') = RunExited \<and>
      seq_or_none (st_parsedSeq (ry_status e)) \<le> seq_or_none (st_parsedSeq (ry_status e'))"
  shows "exited_at run worker n (rg_put e' rg)"
proof (cases "rr_runId run = rr_runId run'")
  case True
  then obtain e0 where "rg_entry run worker rg = Some e0" "ry_dispatched e0" "st_status (ry_status e0) = RunExited" "n \<le> seq_or_none (st_parsedSeq (ry_status e0))"
    using assms(1) by (auto simp: exited_at_def)
  moreover from this have "e0 = e" using True assms(2) by (simp add: rg_entry_Some)
  ultimately show ?thesis using assms by (auto simp: exited_at_def rg_entry_put rg_entry_Some)
next
  case False
  then have "rr_runId run \<noteq> rr_runId (ry_run e')" using assms(2,3) by (simp add: rg_entry_Some)
  then show ?thesis using assms(1) by (simp add: exited_at_def rg_entry_put)
qed

lemma exited_at_remove:
  assumes ex: "exited_at run worker n rg" and e: "rg_entry run' worker' rg = Some e" and no: "\<not> (ry_dispatched e \<and> st_status (ry_status e) = RunExited)"
  shows "exited_at run worker n (fst (rg_remove e (rg, a)))"
proof -
  have "rr_runId run \<noteq> rr_runId run'"
  proof
    assume same: "rr_runId run = rr_runId run'"
    obtain e0 where "rg_entry run worker rg = Some e0" "ry_dispatched e0" "st_status (ry_status e0) = RunExited" using ex by (auto simp: exited_at_def)
    then show False using e no same by (simp add: rg_entry_Some)
  qed
  moreover have "rr_runId (ry_run e) = rr_runId run'" using e by (simp add: rg_entry_Some)
  ultimately show ?thesis using ex by (simp add: exited_at_def rg_remove_def rg_entry_def)
qed

lemma exited_at_notify [simp]: "exited_at run worker n (rg_notify e r rg) = exited_at run worker n rg"
  by (simp add: exited_at_def)

lemma exited_at_status:
  assumes "exited_at run worker n rg"
  shows "exited_at run worker n (snd (rg_observe worker' status rg))" "exited_at run worker n (snd (rg_observeExit worker' run' code sig rg))"
    "exited_at run worker n (snd (rg_markDispatched run' worker' rg))" "exited_at run worker n (snd (rg_releaseCapacity run' worker' rg))"
proof -
  show "exited_at run worker n (snd (rg_observe worker' status rg))"
  proof (cases "rg_entry (st_run status) worker' rg")
    case (Some e)
    have "exited_at run worker n (rg_put (e\<lparr>ry_status := status\<rparr>) rg)"
      if "st_status (ry_status e) = RunExited \<Longrightarrow> st_status status = RunExited \<and> seq_or_none (st_parsedSeq (ry_status e)) \<le> seq_or_none (st_parsedSeq status)"
      by (rule exited_at_put [OF assms Some]) (use that in simp_all)
    then show ?thesis using assms Some by (auto simp: rg_observe_def Let_def)
  qed (use assms in \<open>simp add: rg_observe_def\<close>)
  show "exited_at run worker n (snd (rg_observeExit worker' run' code sig rg))"
  proof (cases "rg_entry run' worker' rg")
    case (Some e)
    let ?e = "e\<lparr>ry_status := (ry_status e)\<lparr>st_status := RunExited, st_exitCode := code, st_signal := sig\<rparr>\<rparr>"
    have "exited_at run worker n (rg_put ?e rg)" by (rule exited_at_put [OF assms Some]) simp_all
    then show ?thesis using assms Some by (simp add: rg_observeExit_def Let_def)
  qed (use assms in \<open>simp add: rg_observeExit_def\<close>)
  have "exited_at run worker n (rg_put (e\<lparr>ry_dispatched := True\<rparr>) rg) \<and> exited_at run worker n (rg_put (e\<lparr>ry_capacityOwned := False\<rparr>) rg)"
    if "rg_entry run' worker' rg = Some e" for e
    by (intro conjI; rule exited_at_put [OF assms that]) simp_all
  then show "exited_at run worker n (snd (rg_markDispatched run' worker' rg))" "exited_at run worker n (snd (rg_releaseCapacity run' worker' rg))"
    using assms by (simp_all add: rg_markDispatched_def rg_releaseCapacity_def split: option.split)
qed

lemma exited_at_lost:
  assumes "reg_ok rg" and "exited_at run worker n rg"
  shows "exited_at run worker n (rg_contactLost worker' rg)"
proof -
  obtain e where e: "map_of (rg_entries rg) (rr_runId run) = Some e" "ry_run e = run" "ry_worker e = worker" "ry_dispatched e"
    "st_status (ry_status e) = RunExited" "n \<le> seq_or_none (st_parsedSeq (ry_status e))"
    using assms(2) by (auto simp: exited_at_def rg_entry_Some)
  then have "lose_entry worker' e = e" by (simp add: lose_entry_def)
  then have "map_of (rg_entries (rg_contactLost worker' rg)) (rr_runId run) = Some e"
    using rg_contactLost_same [OF assms(1), of worker'] e(1) by simp
  then show ?thesis using e by (auto simp: exited_at_def rg_entry_Some)
qed

lemma exited_at_reserve:
  assumes "exited_at run worker n rg"
  shows "exited_at run worker n (fst (snd (rg_reserve run' worker' geometry (rg, a))))"
proof -
  have "exited_at run worker n (rg\<lparr>rg_entries := AList.update (rr_runId run') e (rg_entries rg)\<rparr>)" if "map_of (rg_entries rg) (rr_runId run') = None" for e
    using assms that by (auto simp: exited_at_def rg_entry_Some split: if_splits)
  then show ?thesis using assms by (simp add: rg_reserve_def Let_def split: prod.split option.split)
qed

lemma rg_step_exited:
  assumes inv: "reg_inv S" and ex: "exited_at run worker n (fst (fst S))" and op: "op \<noteq> RgDispose"
  shows "exited_at run worker n (fst (fst (rg_step op S)))"
proof -
  obtain rg a others where S: "S = ((rg, a), others)" by (cases S; cases "fst S") auto
  have ok: "reg_ok rg" and ex': "exited_at run worker n rg" using inv ex by (simp_all add: S reg_inv_def)
  have rm: "exited_at run worker n (fst (rg_remove e (rg, a)))"
    if "rg_entry run' worker' rg = Some e" "\<not> (ry_dispatched e \<and> st_status (ry_status e) = RunExited)" for e run' worker'
    by (rule exited_at_remove [OF ex' that])
  show ?thesis
  proof (cases op)
    case (RgCancelReservation run' worker')
    then show ?thesis using ex' rm by (simp add: S rg_cancelReservation_def split: option.split)
  next
    case (RgRetireRefusedSpawn run' worker')
    then show ?thesis using ex' rm by (simp add: S rg_retireRefusedSpawn_def split: option.split)
  next
    case (RgObserveBusiness observer)
    then show ?thesis using ex' by (simp add: S on_registry_def rg_observeBusiness_def exited_at_def rg_entry_def)
  qed (use op ex' exited_at_status [OF ex'] exited_at_lost [OF ok ex'] exited_at_reserve [OF ex'] in \<open>simp_all add: S on_registry_def split: prod.split\<close>)
qed

lemma rg_run_exited:
  "reg_inv S \<Longrightarrow> exited_at run worker n (fst (fst S)) \<Longrightarrow> RgDispose \<notin> set ops \<Longrightarrow> exited_at run worker n (fst (fst (fold rg_step ops S)))"
proof (induction ops arbitrary: S)
  case (Cons op ops)
  from rg_step_exited [OF Cons.prems(1,2), of op] Cons.prems(3) show ?case
    using Cons.IH [OF rg_step_inv [OF Cons.prems(1), of op]] by auto
qed simp

lemma rg_step_fixed: "rg_maxRuns (fst (fst (rg_step op S))) = rg_maxRuns (fst (fst S)) \<and> rg_composition (fst (fst (rg_step op S))) = rg_composition (fst (fst S))"
proof -
  obtain rg a others where S: "S = ((rg, a), others)" by (cases S; cases "fst S") auto
  have "rg_maxRuns (fold (lose worker) ps rg) = rg_maxRuns rg \<and> rg_composition (fold (lose worker) ps rg) = rg_composition rg" for worker ps
    by (induction ps arbitrary: rg) (simp_all add: lose_def Let_def)
  then show ?thesis
    by (cases op) (simp_all add: S on_registry_def rg_reserve_def rg_observe_def rg_observeExit_def rg_contactLost_fold rg_markDispatched_def rg_put_def
      rg_cancelReservation_def rg_retireRefusedSpawn_def rg_remove_def rg_releaseCapacity_def rg_observeBusiness_def rg_dispose_def Let_def
      split: option.split prod.split)
qed

lemma rg_run_fixed:
  "rg_maxRuns (fst (fst (fold rg_step ops S))) = rg_maxRuns (fst (fst S)) \<and> rg_composition (fst (fst (fold rg_step ops S))) = rg_composition (fst (fst S))"
  by (induction ops arbitrary: S) (simp_all add: rg_step_fixed)

subsection \<open>The pool's invariant\<close>

definition worker_lease :: "pool_worker \<Rightarrow> (nat \<times> int) option" where
  "worker_lease w = Some (pw_lease w, 4096)"

text \<open>The worker list and the placements say the same.\<close>

definition placed_ok :: "pool_worker list \<Rightarrow> (ident \<Rightarrow> placement option) \<Rightarrow> bool" where
  "placed_ok ws pl \<longleftrightarrow>
     (\<forall>k p. pl k = Some p \<longrightarrow> rr_runId (pl_run p) = k \<and> (\<exists>w \<in> set ws. pw_worker w = pl_worker p \<and> pw_session w = pl_session p \<and> k \<in> set (pw_runs w))) \<and>
     (\<forall>w \<in> set ws. \<forall>k \<in> set (pw_runs w). \<exists>p. pl k = Some p \<and> pl_worker p = pw_worker w)"

definition pool_ok :: "worker_pool \<Rightarrow> bool" where
  "pool_ok wp \<longleftrightarrow> distinct (map (wr_workerId \<circ> pw_worker) (wp_workers wp)) \<and> int (length (wp_workers wp)) \<le> wp_maxWorkers wp \<and> 0 \<le> wp_runsPerWorker wp \<and>
     (\<forall>w \<in> set (wp_workers wp). distinct (pw_runs w) \<and> int (length (pw_runs w)) \<le> wp_runsPerWorker wp) \<and>
     distinct_keys (wp_placements wp) \<and> int (length (wp_placements wp)) \<le> co_budgets (wp_composition wp) maxRuns \<and>
     placed_ok (wp_workers wp) (map_of (wp_placements wp))"

definition pool_inv :: "(worker_pool \<times> runtime_bytes) \<times> (nat \<times> int) option list \<Rightarrow> bool" where
  "pool_inv S \<longleftrightarrow> pool_ok (fst (fst S)) \<and>
     rb.owns (snd (fst S)) (case_sum (list_lof worker_lease (wp_workers (fst (fst S)))) (list_lof id (snd S)))"

lemma pool_select_Cons:
  obtains "pool_select ok i (w # ws) sel = pool_select ok (Suc i) ws sel" and "ok w \<longrightarrow> (\<exists>j b. sel = Some (j, b) \<and> length (pw_runs b) \<le> length (pw_runs w))"
  | "pool_select ok i (w # ws) sel = pool_select ok (Suc i) ws (Some (i, w))" and "ok w" and "\<forall>j b. sel = Some (j, b) \<longrightarrow> length (pw_runs w) \<le> length (pw_runs b)"
proof (cases "ok w")
  case True
  show ?thesis
  proof (cases sel)
    case None
    then show ?thesis using True that by simp
  next
    case (Some p)
    obtain j b where "p = (j, b)" by fastforce
    then show ?thesis using True Some that by (cases "length (pw_runs w) < length (pw_runs b)") simp_all
  qed
qed (use that in simp)

lemma pool_select_at:
  "pool_select ok i ws sel = Some (j, b) \<Longrightarrow> sel = Some (j, b) \<or> (\<exists>n < length ws. j = i + n \<and> ws ! n = b \<and> ok b)"
proof (induction ws arbitrary: i sel)
  case (Cons w ws)
  show ?case
  proof (cases rule: pool_select_Cons [of ok i w ws sel])
    case 1
    then show ?thesis using Cons.IH [of "Suc i" sel] Cons.prems by force
  next
    case 2
    then consider "Some (i, w) = Some (j, b)" | n where "n < length ws" "j = Suc i + n" "ws ! n = b" "ok b"
      using Cons.IH [of "Suc i" "Some (i, w)"] Cons.prems by auto
    then show ?thesis
    proof cases
      case 1
      then show ?thesis using 2(2) by (intro disjI2 exI [of _ 0]) simp
    next
      case (2 n)
      then show ?thesis by (intro disjI2 exI [of _ "Suc n"]) simp
    qed
  qed
qed simp

lemma pool_select_least:
  "pool_select ok i ws sel = Some (j, b) \<Longrightarrow>
     (\<forall>w \<in> set ws. ok w \<longrightarrow> length (pw_runs b) \<le> length (pw_runs w)) \<and> (\<forall>j' b'. sel = Some (j', b') \<longrightarrow> length (pw_runs b) \<le> length (pw_runs b'))"
proof (induction ws arbitrary: i sel)
  case (Cons w ws)
  show ?case
  proof (cases rule: pool_select_Cons [of ok i w ws sel])
    case 1
    then show ?thesis using Cons.IH [of "Suc i" sel] Cons.prems by (auto intro: order_trans)
  next
    case 2
    then show ?thesis using Cons.IH [of "Suc i" "Some (i, w)"] Cons.prems by (auto intro: order_trans)
  qed
qed simp

lemma pool_select_none: "pool_select ok i ws sel = None \<Longrightarrow> sel = None \<and> (\<forall>w \<in> set ws. \<not> ok w)"
proof (induction ws arbitrary: i sel)
  case (Cons w ws)
  show ?case
  proof (cases rule: pool_select_Cons [of ok i w ws sel])
    case 1
    then show ?thesis using Cons.IH [of "Suc i" sel] Cons.prems by auto
  next
    case 2
    then show ?thesis using Cons.IH [of "Suc i" "Some (i, w)"] Cons.prems by auto
  qed
qed simp

lemma find_index_Some: "find_index P xs = Some i \<longleftrightarrow> i < length xs \<and> P (xs ! i) \<and> (\<forall>j < i. \<not> P (xs ! j))"
proof (induction xs arbitrary: i)
  case (Cons x xs)
  show ?case
  proof (cases i)
    case 0
    then show ?thesis by auto
  next
    case (Suc n)
    then show ?thesis using Cons.IH [of n] by (auto simp: All_less_Suc2)
  qed
qed simp

lemma find_index_None: "find_index P xs = None \<longleftrightarrow> (\<forall>x \<in> set xs. \<not> P x)"
  by (induction xs) auto

lemma pool_worker_unique:
  "distinct (map (wr_workerId \<circ> pw_worker) ws) \<Longrightarrow> v \<in> set ws \<Longrightarrow> w \<in> set ws \<Longrightarrow> pw_worker v = pw_worker w \<Longrightarrow> v = w"
  by (auto simp: distinct_map inj_on_def)

lemma pool_update_ids:
  "i < length ws \<Longrightarrow> pw_worker w' = pw_worker (ws ! i) \<Longrightarrow> map (wr_workerId \<circ> pw_worker) (ws[i := w']) = map (wr_workerId \<circ> pw_worker) ws"
  by (metis (no_types, lifting) comp_apply list_update_id map_update)

lemma placed_worker:
  "placed_ok ws pl \<Longrightarrow> pl k = Some p \<Longrightarrow> \<exists>w \<in> set ws. pw_worker w = pl_worker p \<and> pw_session w = pl_session p \<and> k \<in> set (pw_runs w)"
  unfolding placed_ok_def by blast

lemma placed_run: "placed_ok ws pl \<Longrightarrow> w \<in> set ws \<Longrightarrow> k \<in> set (pw_runs w) \<Longrightarrow> \<exists>p. pl k = Some p \<and> pl_worker p = pw_worker w"
  unfolding placed_ok_def by blast

lemma wp_reserve_ok:
  assumes ok: "pool_ok wp" and step: "wp_reserve ready run wp = (Some p, wp')"
  shows "pool_ok wp' \<and> list_lof worker_lease (wp_workers wp') = list_lof worker_lease (wp_workers wp)"
proof -
  let ?ws = "wp_workers wp" and ?k = "rr_runId run" and ?pl = "map_of (wp_placements wp)"
  obtain i w where sel: "pool_select (pool_eligible ready run (wp_runsPerWorker wp)) 0 ?ws None = Some (i, w)" and
    new: "?pl ?k = None" and room: "int (length (wp_placements wp)) < co_budgets (wp_composition wp) maxRuns"
    using step by (auto simp: wp_reserve_def Let_def split: if_splits option.splits)
  let ?w = "w\<lparr>pw_runs := pw_runs w @ [?k]\<rparr>"
  have p: "p = \<lparr>pl_worker = pw_worker w, pl_session = pw_session w, pl_run = run\<rparr>" and
    wp': "wp' = wp\<lparr>wp_workers := ?ws[i := ?w], wp_placements := AList.update ?k p (wp_placements wp)\<rparr>"
    using step sel new room by (auto simp: wp_reserve_def Let_def)
  from pool_select_at [OF sel] have i: "i < length ?ws" "?ws ! i = w" and el: "pool_eligible ready run (wp_runsPerWorker wp) w" by auto
  have d: "distinct ?ws" using ok by (simp add: pool_ok_def distinct_map)
  have set: "set (?ws[i := ?w]) = insert ?w (set ?ws - {w})" using List.set_update_distinct [OF d i(1)] i(2) by simp
  have placed: "placed_ok ?ws ?pl" using ok by (simp add: pool_ok_def)
  have w: "w \<in> set ?ws" using i by (metis nth_mem)
  have fresh: "?k \<notin> set (pw_runs v)" if "v \<in> set ?ws" for v using placed_run [OF placed that, of ?k] new by auto
  have "placed_ok (?ws[i := ?w]) (?pl(?k \<mapsto> p))"
    unfolding placed_ok_def set
  proof (intro conjI allI impI ballI)
    fix k q
    assume q: "(?pl(?k \<mapsto> p)) k = Some q"
    show "rr_runId (pl_run q) = k" using q p placed by (auto simp: placed_ok_def split: if_splits)
    show "\<exists>v \<in> insert ?w (set ?ws - {w}). pw_worker v = pl_worker q \<and> pw_session v = pl_session q \<and> k \<in> set (pw_runs v)"
    proof (cases "k = ?k")
      case True
      then show ?thesis using q p by (intro bexI [of _ ?w]) auto
    next
      case False
      then obtain v where v: "v \<in> set ?ws" "pw_worker v = pl_worker q" "pw_session v = pl_session q" "k \<in> set (pw_runs v)"
        using q placed by (auto simp: placed_ok_def)
      show ?thesis
      proof (cases "v = w")
        case True
        then show ?thesis using v by (intro bexI [of _ ?w]) auto
      next
        case False
        then show ?thesis using v by (intro bexI [of _ v]) auto
      qed
    qed
  next
    fix v k
    assume "v \<in> insert ?w (set ?ws - {w})" and "k \<in> set (pw_runs v)"
    then show "\<exists>q. (?pl(?k \<mapsto> p)) k = Some q \<and> pl_worker q = pw_worker v"
      using placed w fresh p by (auto simp: placed_ok_def)
  qed
  moreover have "\<forall>v \<in> set (?ws[i := ?w]). distinct (pw_runs v) \<and> int (length (pw_runs v)) \<le> wp_runsPerWorker wp"
    unfolding set using ok w fresh [OF w] el by (auto simp: pool_ok_def pool_eligible_def)
  ultimately have "pool_ok wp'" using ok new room pool_update_ids [OF i(1), of ?w] i(2) by (simp add: pool_ok_def wp' distinct_keys_update)
  moreover have "list_lof worker_lease (?ws[i := ?w]) = list_lof worker_lease ?ws"
    using i by (auto simp: list_lof_update fun_eq_iff list_lof_def worker_lease_def)
  ultimately show ?thesis by (simp add: wp')
qed

lemma wp_release_ok:
  assumes ok: "pool_ok wp" and step: "wp_release run worker wp = (res, wp')"
  shows "res \<noteq> Inl PoolTypeError \<and> pool_ok wp' \<and> list_lof worker_lease (wp_workers wp') = list_lof worker_lease (wp_workers wp)"
proof (cases "\<exists>p. wp_get run wp = Some p \<and> sameWorkerRef (pl_worker p) worker")
  case False
  then show ?thesis using step ok by (auto simp: wp_release_def split: option.splits if_splits)
next
  case True
  let ?ws = "wp_workers wp" and ?k = "rr_runId run" and ?pl = "map_of (wp_placements wp)"
  obtain p where g: "wp_get run wp = Some p" and pw: "pl_worker p = worker" using True by (auto simp: sameWorkerRef_eq)
  then have pk: "?pl ?k = Some p" by (auto simp: wp_get_def split: option.splits if_splits)
  have placed: "placed_ok ?ws ?pl" using ok by (simp add: pool_ok_def)
  obtain v where v: "v \<in> set ?ws" "pw_worker v = worker" "?k \<in> set (pw_runs v)" using placed_worker [OF placed pk] pw by auto
  then obtain i where fi: "find_index (\<lambda>w. sameWorkerRef (pw_worker w) worker) ?ws = Some i"
    by (cases "find_index (\<lambda>w. sameWorkerRef (pw_worker w) worker) ?ws") (auto simp: find_index_None sameWorkerRef_eq)
  then have i: "i < length ?ws" "pw_worker (?ws ! i) = worker" by (simp_all add: find_index_Some sameWorkerRef_eq)
  have ids: "distinct (map (wr_workerId \<circ> pw_worker) ?ws)" using ok by (simp add: pool_ok_def)
  have same: "u = ?ws ! i" if "u \<in> set ?ws" "pw_worker u = worker" for u using pool_worker_unique [OF ids that(1), of "?ws ! i"] i that(2) by simp
  let ?w = "(?ws ! i)\<lparr>pw_runs := remove1 ?k (pw_runs (?ws ! i))\<rparr>"
  have wp': "res = Inr True" "wp' = wp\<lparr>wp_placements := AList.delete ?k (wp_placements wp), wp_workers := ?ws[i := ?w]\<rparr>"
    using step g pw fi by (auto simp: wp_release_def Let_def sameWorkerRef_eq)
  have set: "set (?ws[i := ?w]) = insert ?w (set ?ws - {?ws ! i})" using ids i by (intro List.set_update_distinct) (simp_all add: distinct_map)
  have mem: "?ws ! i \<in> set ?ws" using i by simp
  have dr: "distinct (pw_runs (?ws ! i))" using ok mem by (simp add: pool_ok_def)
  have "placed_ok (?ws[i := ?w]) (?pl(?k := None))"
    unfolding placed_ok_def set
  proof (intro conjI allI impI ballI)
    fix k q
    assume q: "(?pl(?k := None)) k = Some q"
    then have kq: "k \<noteq> ?k" "?pl k = Some q" by (auto split: if_splits)
    show "rr_runId (pl_run q) = k" using kq placed by (auto simp: placed_ok_def)
    obtain u where u: "u \<in> set ?ws" "pw_worker u = pl_worker q" "pw_session u = pl_session q" "k \<in> set (pw_runs u)" using kq placed by (auto simp: placed_ok_def)
    show "\<exists>v \<in> insert ?w (set ?ws - {?ws ! i}). pw_worker v = pl_worker q \<and> pw_session v = pl_session q \<and> k \<in> set (pw_runs v)"
    proof (cases "u = ?ws ! i")
      case True
      then show ?thesis using u kq(1) by (intro bexI [of _ ?w]) (auto simp: in_set_remove1)
    next
      case False
      then show ?thesis using u by (intro bexI [of _ u]) auto
    qed
  next
    fix u k
    assume u: "u \<in> insert ?w (set ?ws - {?ws ! i})" and k: "k \<in> set (pw_runs u)"
    show "\<exists>q. (?pl(?k := None)) k = Some q \<and> pl_worker q = pw_worker u"
    proof (cases "u = ?w")
      case True
      then have "k \<noteq> ?k" "k \<in> set (pw_runs (?ws ! i))" using k dr by auto
      then show ?thesis using placed_run [OF placed mem, of k] True by simp
    next
      case False
      then have "u \<in> set ?ws" "u \<noteq> ?ws ! i" using u by auto
      then obtain q where q: "?pl k = Some q" "pl_worker q = pw_worker u" using placed_run [OF placed _ k] by blast
      have "k \<noteq> ?k" using q pk pw same [OF \<open>u \<in> set ?ws\<close>] \<open>u \<noteq> ?ws ! i\<close> by auto
      then show ?thesis using q by simp
    qed
  qed
  moreover have "\<forall>u \<in> set (?ws[i := ?w]). distinct (pw_runs u) \<and> int (length (pw_runs u)) \<le> wp_runsPerWorker wp"
    unfolding set using ok mem dr length_remove1 [of ?k "pw_runs (?ws ! i)"] by (auto simp: pool_ok_def split: if_splits)
  moreover have "Suc (length (AList.delete ?k (wp_placements wp))) = length (wp_placements wp)"
    using length_delete_present [OF _ pk] ok by (simp add: pool_ok_def)
  ultimately have "pool_ok wp'" using ok pool_update_ids [OF i(1), of ?w] by (simp add: pool_ok_def wp' distinct_keys_delete)
  moreover have "list_lof worker_lease (?ws[i := ?w]) = list_lof worker_lease ?ws"
    using i by (auto simp: list_lof_update fun_eq_iff list_lof_def worker_lease_def)
  ultimately show ?thesis by (simp add: wp')
qed

lemma wp_add_inv:
  assumes inv: "pool_inv ((wp, a), others)" and step: "wp_add h session (wp, a) = (ok, S)"
  shows "pool_inv (S, others)"
proof (cases ok)
  case False
  then have "S = (wp, a)" using step rb.reserve_None [of False a 4096] by (auto simp: wp_add_def split: if_splits prod.splits option.splits)
  then show ?thesis using inv by simp
next
  case True
  then obtain lease a' where res: "rb_reserve False a 4096 = (Some lease, a')" and len: "int (length (wp_workers wp)) < wp_maxWorkers wp"
    and new: "\<not> list_ex (\<lambda>w. wr_workerId (pw_worker w) = wr_workerId (sv_worker session)) (wp_workers wp)" and acc: "wp_accepts session wp"
    using step by (auto simp: wp_add_def split: if_splits prod.splits option.splits)
  let ?w = "\<lparr>pw_worker = sv_worker session, pw_session = h, pw_runs = [], pw_lease = lease\<rparr>"
  have S: "S = (wp\<lparr>wp_workers := wp_workers wp @ [?w]\<rparr>, a')" using step res len new acc by (simp add: wp_add_def)
  have own: "rb.owns a (case_sum (list_lof worker_lease (wp_workers wp)) (list_lof id others))" and ok: "pool_ok wp" using inv by (simp_all add: pool_inv_def)
  have "rb.owns a' ((case_sum (list_lof worker_lease (wp_workers wp)) (list_lof id others))(Inl (length (wp_workers wp)) \<mapsto> (lease, 4096)))"
    by (rule rb.owns_reserve [OF own res]) (simp add: list_lof_def)
  moreover have "list_lof worker_lease (wp_workers wp @ [?w]) = (list_lof worker_lease (wp_workers wp))(length (wp_workers wp) \<mapsto> (lease, 4096))"
    by (rule list_lof_append) (simp add: worker_lease_def)
  moreover have "placed_ok (wp_workers wp @ [?w]) (map_of (wp_placements wp))" using ok by (auto simp: pool_ok_def placed_ok_def)
  then have "pool_ok (wp\<lparr>wp_workers := wp_workers wp @ [?w]\<rparr>)"
    using ok len new by (auto simp: pool_ok_def list_ex_iff)
  ultimately show ?thesis by (simp add: pool_inv_def S case_sum_upd)
qed

lemma owns_release_list:
  "rb.owns a (case_sum (list_lof worker_lease ws) g) \<Longrightarrow> rb.owns (fold (\<lambda>w a. rb_release a (pw_lease w)) ws a) (case_sum (list_lof worker_lease []) g)"
proof (induction ws arbitrary: a rule: rev_induct)
  case (snoc w ws)
  have "fold (\<lambda>w a. rb_release a (pw_lease w)) (ws @ [w]) a = fold (\<lambda>w a. rb_release a (pw_lease w)) ws (rb_release a (pw_lease w))"
  proof -
    have comm: "rb_release (rb_release a l) k = rb_release (rb_release a k) l" for a l k
      by (auto simp: rb_release_def Let_def nth_list_update list_update_swap)
    have "rb_release (fold (\<lambda>w a. rb_release a (pw_lease w)) ws a) l = fold (\<lambda>w a. rb_release a (pw_lease w)) ws (rb_release a l)" for l
      by (induction ws arbitrary: a) (simp_all add: comm)
    then show ?thesis by simp
  qed
  moreover have "rb.owns (rb_release a (pw_lease w)) ((case_sum (list_lof worker_lease (ws @ [w])) g)(Inl (length ws) := None))"
    by (rule rb.owns_release [OF snoc.prems, of _ _ 4096]) (simp add: list_lof_def worker_lease_def)
  moreover have "(list_lof worker_lease (ws @ [w]))(length ws := None) = list_lof worker_lease ws"
    by (auto simp: list_lof_def fun_eq_iff nth_append)
  ultimately show ?case using snoc.IH by (simp add: case_sum_upd)
qed simp

datatype wp_op =
    WpAdd handle pipe_session_view
  | WpReserve "handle \<Rightarrow> bool" run_ref
  | WpRelease run_ref worker_ref
  | WpDispose
  | WpOtherReserve bool number
  | WpOtherRelease handle

type_synonym pool_state = "(worker_pool \<times> runtime_bytes) \<times> (nat \<times> int) option list"

fun wp_step :: "wp_op \<Rightarrow> pool_state \<Rightarrow> pool_state" where
  "wp_step (WpAdd h session) S = (snd (wp_add h session (fst S)), snd S)"
| "wp_step (WpReserve ready run) S = ((snd (wp_reserve ready run (fst (fst S))), snd (fst S)), snd S)"
| "wp_step (WpRelease run worker) S = ((snd (wp_release run worker (fst (fst S))), snd (fst S)), snd S)"
| "wp_step WpDispose S = (wp_dispose (fst S), snd S)"
| "wp_step (WpOtherReserve control n) S = (case other_reserve (rb_reserve control) n (snd (fst S), snd S) of (a, others) \<Rightarrow> ((fst (fst S), a), others))"
| "wp_step (WpOtherRelease j) S = (case other_release rb_release j (snd (fst S), snd S) of (a, others) \<Rightarrow> ((fst (fst S), a), others))"

lemma wp_step_inv:
  assumes inv: "pool_inv S"
  shows "pool_inv (wp_step op S)"
proof -
  obtain wp a others where S: "S = ((wp, a), others)" by (cases S; cases "fst S") auto
  have own: "rb.owns a (case_sum (list_lof worker_lease (wp_workers wp)) (list_lof id others))" and ok: "pool_ok wp" using inv by (simp_all add: S pool_inv_def)
  show ?thesis
  proof (cases op)
    case (WpAdd h session)
    show ?thesis using wp_add_inv [OF inv [unfolded S], of h session "fst (wp_add h session (wp, a))"] by (simp add: S WpAdd)
  next
    case (WpReserve ready run)
    obtain res wp' where r: "wp_reserve ready run wp = (res, wp')" by fastforce
    have "res = None \<Longrightarrow> wp' = wp" using r by (auto simp: wp_reserve_def Let_def split: if_splits option.splits)
    then show ?thesis using wp_reserve_ok [OF ok] r own ok by (cases res) (auto simp: S WpReserve pool_inv_def)
  next
    case (WpRelease run worker)
    show ?thesis using wp_release_ok [OF ok, of run worker "fst (wp_release run worker wp)" "snd (wp_release run worker wp)"] own by (simp add: S WpRelease pool_inv_def)
  next
    case WpDispose
    have "pool_ok (wp\<lparr>wp_workers := [], wp_placements := []\<rparr>)" using ok by (auto simp: pool_ok_def placed_ok_def)
    then show ?thesis using owns_release_list [OF own] by (simp add: S WpDispose wp_dispose_def pool_inv_def)
  next
    case (WpOtherReserve control n)
    obtain a' o' where "other_reserve (rb_reserve control) n (a, others) = (a', o')" by fastforce
    then show ?thesis using rb.owns_other_reserve [OF own] ok S WpOtherReserve by (simp add: pool_inv_def)
  next
    case (WpOtherRelease j)
    obtain a' o' where "other_release rb_release j (a, others) = (a', o')" by fastforce
    then show ?thesis using rb.owns_other_release [OF own] ok S WpOtherRelease by (simp add: pool_inv_def)
  qed
qed

lemma wp_run_inv: "pool_inv S \<Longrightarrow> pool_inv (fold wp_step ops S)"
  by (induction ops arbitrary: S) (simp_all add: wp_step_inv)

lemma new_pool_inv:
  assumes "new_worker_pool cid c bytes sr mw rp = Inr wp" and "new_runtime_bytes n r = Inr a"
  shows "pool_inv ((wp, a), [])"
proof -
  have "rb.owns a (case_sum (list_lof worker_lease []) (list_lof id []))"
    by (rule new_runtime_bytes_owns [OF assms(2)]) (simp add: list_lof_def split: sum.split)
  then show ?thesis using assms(1) by (auto simp: pool_inv_def pool_ok_def placed_ok_def new_worker_pool_def split: if_splits)
qed

lemma pool_holders:
  assumes "pool_ok wp"
  shows "length (filter (\<lambda>w. k \<in> set (pw_runs w)) (wp_workers wp)) = (if map_of (wp_placements wp) k = None then 0 else 1)"
proof (cases "map_of (wp_placements wp) k")
  case None
  have "k \<notin> set (pw_runs w)" if "w \<in> set (wp_workers wp)" for w
    using placed_run [of "wp_workers wp" "map_of (wp_placements wp)" w k] assms that None by (auto simp: pool_ok_def)
  then show ?thesis using None by (simp add: filter_empty_conv)
next
  case (Some p)
  have placed: "placed_ok (wp_workers wp) (map_of (wp_placements wp))" and ids: "distinct (map (wr_workerId \<circ> pw_worker) (wp_workers wp))"
    using assms by (simp_all add: pool_ok_def)
  obtain w where w: "w \<in> set (wp_workers wp)" "pw_worker w = pl_worker p" "k \<in> set (pw_runs w)" using placed_worker [OF placed Some] by blast
  have "set (filter (\<lambda>w. k \<in> set (pw_runs w)) (wp_workers wp)) = {w}"
  proof (intro equalityI subsetI)
    fix v
    assume "v \<in> set (filter (\<lambda>w. k \<in> set (pw_runs w)) (wp_workers wp))"
    then have v: "v \<in> set (wp_workers wp)" "k \<in> set (pw_runs v)" by auto
    then have "pw_worker v = pl_worker p" using placed_run [OF placed v] Some by auto
    then show "v \<in> {w}" using pool_worker_unique [OF ids v(1) w(1)] w(2) by simp
  qed (use w in simp)
  moreover have "distinct (filter (\<lambda>w. k \<in> set (pw_runs w)) (wp_workers wp))" using ids by (simp add: distinct_map)
  ultimately show ?thesis using Some distinct_card by fastforce
qed

subsection \<open>A sample runtime\<close>

definition sample_composition :: runtime_composition where
  "sample_composition = \<lparr>co_serverId = ''s'', co_relayInstanceId = ''r'', co_budgets = M0_LIMITS\<rparr>"

definition sample_run :: "ident \<Rightarrow> run_ref" where
  "sample_run i = \<lparr>rr_serverId = ''s'', rr_relayInstanceId = ''r'', rr_runId = i\<rparr>"

definition sample_worker :: "ident \<Rightarrow> worker_ref" where
  "sample_worker i = \<lparr>wr_serverId = ''s'', wr_relayInstanceId = ''r'', wr_workerId = i, wr_workerIncarnationId = ''1''\<rparr>"

definition sample_geometry :: geometry where
  "sample_geometry = \<lparr>ge_cols = 80, ge_rows = 24\<rparr>"

definition sample_bytes :: runtime_bytes where
  "sample_bytes = (case new_runtime_bytes 100000 20000 of Inr a \<Rightarrow> a)"

definition sample_registry :: run_registry where
  "sample_registry = (case new_run_registry sample_composition 8 of Inr rg \<Rightarrow> rg)"

definition sample_pool :: worker_pool where
  "sample_pool = (case new_worker_pool 0 sample_composition sample_bytes 100 4 2 of Inr wp \<Rightarrow> wp)"

lemma sample_bytes_new: "new_runtime_bytes 100000 20000 = Inr sample_bytes"
  by (simp add: sample_bytes_def new_runtime_bytes_def isSafeInteger_def MAX_SAFE_INTEGER_def)

lemma sample_registry_new: "new_run_registry sample_composition 8 = Inr sample_registry"
  by (simp add: sample_registry_def new_run_registry_def isSafeInteger_def MAX_SAFE_INTEGER_def sample_composition_def)

lemma sample_pool_new: "new_worker_pool 0 sample_composition sample_bytes 100 4 2 = Inr sample_pool"
  by (simp add: sample_pool_def new_worker_pool_def isSafeInteger_def MAX_SAFE_INTEGER_def sample_composition_def sample_bytes_def new_runtime_bytes_def)

definition live_status :: "number \<Rightarrow> run_status" where
  "live_status n = (reserved_status (sample_run ''1'') sample_geometry)\<lparr>st_status := RunLive, st_parsedSeq := Some n\<rparr>"

definition sample_registry_ops :: "rg_op list" where
  "sample_registry_ops = [RgReserve (sample_run ''1'') (sample_worker ''w'') sample_geometry, RgOtherReserve False 100,
     RgReserve (sample_run ''2'') (sample_worker ''w'') sample_geometry, RgMarkDispatched (sample_run ''1'') (sample_worker ''w''),
     RgObserve (sample_worker ''w'') (live_status 5), RgObserveExit (sample_worker ''w'') (sample_run ''1'') (Some 0) None]"

abbreviation sample_registry_state :: reg_state where
  "sample_registry_state \<equiv> fold rg_step sample_registry_ops ((sample_registry, sample_bytes), [])"

definition sample_pool_ops :: "wp_op list" where
  "sample_pool_ops = [WpAdd 0 \<lparr>sv_composition = 0, sv_worker = sample_worker ''w''\<rparr>, WpAdd 1 \<lparr>sv_composition = 0, sv_worker = sample_worker ''v''\<rparr>,
     WpReserve (\<lambda>_. True) (sample_run ''1''), WpReserve (\<lambda>_. True) (sample_run ''2''), WpRelease (sample_run ''1'') (sample_worker ''w'')]"

text \<open>
  \<open>retireRefusedSpawn\<close> judges by the current status only: a run that was reported live and whose worker then lost contact is unverifiable
  again and can be dropped.
\<close>

lemma live_run_retired:
  "(let S = fold rg_step [RgReserve (sample_run ''1'') (sample_worker ''w'') sample_geometry, RgMarkDispatched (sample_run ''1'') (sample_worker ''w''),
       RgObserve (sample_worker ''w'') (live_status 5)] ((sample_registry, sample_bytes), []);
       S' = fold rg_step [RgContactLost (sample_worker ''w''), RgRetireRefusedSpawn (sample_run ''1'') (sample_worker ''w'')] S
   in map_option (st_status \<circ> fst \<circ> snd) (rg_get (sample_run ''1'') (fst (fst S))) = Some RunLive \<and> rg_get (sample_run ''1'') (fst (fst S')) = None)"
  by code_simp

subsection \<open>The properties\<close>

text \<open>
  C23. The registry never holds more runs than its limit, holds exactly 8192 accounted bytes for each of them whatever else uses the
  runtime account, and what it reports is well formed: every status it lists satisfies the protocol's schema, and the status it returns for a
  run is that of the run asked for, which belongs to this server instance.
\<close>

theorem registry_accounting:
  assumes "new_run_registry c limit = Inr rg0" and "new_runtime_bytes n r = Inr a0" and "fold rg_step ops ((rg0, a0), []) = ((rg, a), others)"
  shows "rg_count rg \<le> limit \<and> rb_total a = 8192 * rg_count rg + cell_sum held others \<and> rb_total a \<le> rb_limit a \<and>
    list_all RunStatusSchema (rg_list rg) \<and>
    (\<forall>run worker status owned. rg_get run rg = Some (worker, status, owned) \<longrightarrow>
       st_run status = run \<and> composition_owns c (rr_serverId run) (rr_relayInstanceId run))"
proof -
  have "reg_inv ((rg, a), others)" using rg_run_inv [OF new_registry_inv [OF assms(1,2)], of ops] assms(3) by simp
  then have ok: "reg_ok rg" and own: "rb.owns a (case_sum (map_lof entry_lease (rg_entries rg)) (list_lof id others))" by (simp_all add: reg_inv_def)
  have fixed: "rg_maxRuns rg = limit" "rg_composition rg = c"
    using rg_run_fixed [of ops "((rg0, a0), [])"] assms(1,3) by (auto simp: new_run_registry_def split: if_splits)
  have d: "distinct_keys (rg_entries rg)" using ok by (simp add: reg_ok_def)
  have "cell_sum (snd \<circ> entry_lease \<circ> snd) es = 8192 * int (length es)" for es :: "(ident \<times> reg_entry) list"
    by (induction es) (simp_all add: entry_lease_def)
  then have "rb_total a = 8192 * rg_count rg + cell_sum held others"
    using rb.owns_total_sum [OF own] by (simp add: lof_total_map_lof [OF d] lof_total_list_lof rg_count_def)
  moreover have "list_all RunStatusSchema (rg_list rg)"
    using ok d by (fastforce simp: rg_list_def list_all_iff reg_ok_def entry_ok_def)
  moreover have "rg_get run rg = Some (worker, status, owned) \<longrightarrow> st_run status = run \<and> composition_owns c (rr_serverId run) (rr_relayInstanceId run)" for run worker status owned
    using ok fixed by (auto simp: rg_get_def sameRunRef_eq reg_ok_def entry_ok_def split: option.splits if_splits)
  ultimately show ?thesis using ok fixed rb.total_limit [OF rb.owns_inv [OF own]] by (auto simp: rg_count_def reg_ok_def)
qed

theorem registry_accounting_witness:
  "rg_count (fst (fst sample_registry_state)) = 2 \<and> rb_total (snd (fst sample_registry_state)) = 8192 * 2 + 100 \<and>
   list_all RunStatusSchema (rg_list (fst (fst sample_registry_state)))"
proof -
  have S: "sample_registry_state = ((fst (fst sample_registry_state), snd (fst sample_registry_state)), snd sample_registry_state)" by simp
  have "rg_count (fst (fst sample_registry_state)) = 2" "cell_sum held (snd sample_registry_state) = 100" by code_simp+
  then show ?thesis using registry_accounting [OF sample_registry_new sample_bytes_new S] by simp
qed

text \<open>
  C24. An exit is final. Once the registry reports a dispatched run as exited, then until the registry itself is disposed the run stays listed
  under its worker and stays exited, whatever delayed statuses, exit events, contact losses, cancellations and refusals arrive, and the
  sequence number known of it never goes back.
\<close>

theorem registry_exit_final:
  assumes "new_run_registry c limit = Inr rg0" and "new_runtime_bytes n r = Inr a0" and "S = fold rg_step ops ((rg0, a0), [])"
    and "rg_get run (fst (fst S)) = Some (worker, status, owned)" and "st_status status = RunExited" and "rg_isDispatched run (fst (fst S))"
    and "RgDispose \<notin> set later"
  shows "\<exists>status' owned'. rg_get run (fst (fst (fold rg_step later S))) = Some (worker, status', owned') \<and> st_status status' = RunExited \<and>
    seq_or_none (st_parsedSeq status) \<le> seq_or_none (st_parsedSeq status')"
proof -
  have inv: "reg_inv S" using rg_run_inv [OF new_registry_inv [OF assms(1,2)]] assms(3) by simp
  have "exited_at run worker (seq_or_none (st_parsedSeq status)) (fst (fst S))"
    using assms(4-6) by (auto simp: exited_at_def rg_get_def rg_isDispatched_def rg_entry_Some sameRunRef_eq split: option.splits if_splits)
  from rg_run_exited [OF inv this assms(7)] show ?thesis
    by (auto simp: exited_at_def rg_get_def rg_entry_Some sameRunRef_eq)
qed

theorem registry_exit_final_witness:
  "\<exists>status' owned'. rg_get (sample_run ''1'') (fst (fst (fold rg_step [RgObserve (sample_worker ''w'') (live_status 9), RgContactLost (sample_worker ''w'')]
     sample_registry_state))) = Some (sample_worker ''w'', status', owned') \<and> st_status status' = RunExited \<and> 5 \<le> seq_or_none (st_parsedSeq status')"
proof -
  let ?st = "(live_status 5)\<lparr>st_status := RunExited, st_exitCode := Some 0, st_signal := None\<rparr>"
  have g: "rg_get (sample_run ''1'') (fst (fst sample_registry_state)) = Some (sample_worker ''w'', ?st, True)"
    "rg_isDispatched (sample_run ''1'') (fst (fst sample_registry_state))" "seq_or_none (st_parsedSeq ?st) = 5" by code_simp+
  have "st_status ?st = RunExited" by simp
  from registry_exit_final [OF sample_registry_new sample_bytes_new refl g(1) this g(2), of "[RgObserve (sample_worker ''w'') (live_status 9), RgContactLost (sample_worker ''w'')]"]
  show ?thesis using g(3) by simp
qed

text \<open>
  C26. Every placed run is on exactly one worker of the pool and every other run on none; no worker has more runs than allowed; the pool
  holds 4096 accounted bytes per worker; releasing a run never fails. A run is placed on a ready worker of its own server with room, one with the
  fewest runs, and is refused only if it is already placed, the pool is full or there is no such worker.
\<close>

theorem pool_placement_exact:
  assumes "new_worker_pool cid c bytes sr mw rp = Inr wp0" and "new_runtime_bytes n r = Inr a0" and "fold wp_step ops ((wp0, a0), []) = ((wp, a), others)"
  shows "(\<forall>k. length (filter (\<lambda>w. k \<in> set (pw_runs w)) (wp_workers wp)) = (if map_of (wp_placements wp) k = None then 0 else 1)) \<and>
    list_all (\<lambda>w. int (length (pw_runs w)) \<le> wp_runsPerWorker wp) (wp_workers wp) \<and>
    rb_total a = 4096 * int (length (wp_workers wp)) + cell_sum held others \<and>
    (\<forall>run worker. fst (wp_release run worker wp) \<noteq> Inl PoolTypeError) \<and>
    (\<forall>ready run. case fst (wp_reserve ready run wp) of
        Some p \<Rightarrow> (\<exists>w \<in> set (wp_workers wp). pl_worker p = pw_worker w \<and> pool_eligible ready run (wp_runsPerWorker wp) w \<and>
          (\<forall>v \<in> set (wp_workers wp). pool_eligible ready run (wp_runsPerWorker wp) v \<longrightarrow> length (pw_runs w) \<le> length (pw_runs v)))
      | None \<Rightarrow> map_of (wp_placements wp) (rr_runId run) \<noteq> None \<or> int (length (wp_placements wp)) \<ge> co_budgets (wp_composition wp) maxRuns \<or>
          (\<forall>v \<in> set (wp_workers wp). \<not> pool_eligible ready run (wp_runsPerWorker wp) v))"
proof -
  have "pool_inv ((wp, a), others)" using wp_run_inv [OF new_pool_inv [OF assms(1,2)], of ops] assms(3) by simp
  then have ok: "pool_ok wp" and own: "rb.owns a (case_sum (list_lof worker_lease (wp_workers wp)) (list_lof id others))" by (simp_all add: pool_inv_def)
  have "cell_sum (held \<circ> worker_lease) ws = 4096 * int (length ws)" for ws by (induction ws) (simp_all add: worker_lease_def)
  then have "rb_total a = 4096 * int (length (wp_workers wp)) + cell_sum held others"
    using rb.owns_total_sum [OF own] by (simp add: lof_total_list_lof)
  moreover have "fst (wp_release run worker wp) \<noteq> Inl PoolTypeError" for run worker
    using wp_release_ok [OF ok, of run worker "fst (wp_release run worker wp)" "snd (wp_release run worker wp)"] by simp
  moreover have "case fst (wp_reserve ready run wp) of
        Some p \<Rightarrow> (\<exists>w \<in> set (wp_workers wp). pl_worker p = pw_worker w \<and> pool_eligible ready run (wp_runsPerWorker wp) w \<and>
          (\<forall>v \<in> set (wp_workers wp). pool_eligible ready run (wp_runsPerWorker wp) v \<longrightarrow> length (pw_runs w) \<le> length (pw_runs v)))
      | None \<Rightarrow> map_of (wp_placements wp) (rr_runId run) \<noteq> None \<or> int (length (wp_placements wp)) \<ge> co_budgets (wp_composition wp) maxRuns \<or>
          (\<forall>v \<in> set (wp_workers wp). \<not> pool_eligible ready run (wp_runsPerWorker wp) v)" for ready run
  proof (cases "pool_select (pool_eligible ready run (wp_runsPerWorker wp)) 0 (wp_workers wp) None")
    case None
    then show ?thesis using pool_select_none [OF None] by (simp add: wp_reserve_def)
  next
    case (Some p)
    obtain i w where p: "p = (i, w)" by fastforce
    have "w \<in> set (wp_workers wp) \<and> pool_eligible ready run (wp_runsPerWorker wp) w" using pool_select_at [OF Some [unfolded p]] by auto
    then show ?thesis using pool_select_least [OF Some [unfolded p]] Some p by (auto simp: wp_reserve_def Let_def)
  qed
  moreover have "list_all (\<lambda>w. int (length (pw_runs w)) \<le> wp_runsPerWorker wp) (wp_workers wp)" using ok by (simp add: pool_ok_def list_all_iff)
  ultimately show ?thesis using pool_holders [OF ok] by simp
qed

theorem pool_placement_exact_witness:
  "(let S = fold wp_step sample_pool_ops ((sample_pool, sample_bytes), []) in
    length (filter (\<lambda>w. ''2'' \<in> set (pw_runs w)) (wp_workers (fst (fst S)))) = 1 \<and> map pw_runs (wp_workers (fst (fst S))) = [[], [''2'']] \<and>
    rb_total (snd (fst S)) = 4096 * 2)"
proof -
  let ?S = "fold wp_step sample_pool_ops ((sample_pool, sample_bytes), [])"
  have S: "?S = ((fst (fst ?S), snd (fst ?S)), snd ?S)" by simp
  have runs: "map pw_runs (wp_workers (fst (fst ?S))) = [[], [''2'']]" "map_of (wp_placements (fst (fst ?S))) ''2'' \<noteq> None" "cell_sum held (snd ?S) = 0" by code_simp+
  from arg_cong [OF runs(1), of length] have len: "length (wp_workers (fst (fst ?S))) = 2" by simp
  note ex = pool_placement_exact [OF sample_pool_new sample_bytes_new S]
  from ex have "length (filter (\<lambda>w. ''2'' \<in> set (pw_runs w)) (wp_workers (fst (fst ?S)))) = (if map_of (wp_placements (fst (fst ?S))) ''2'' = None then 0 else 1)"
    by blast
  moreover from ex have "rb_total (snd (fst ?S)) = 4096 * int (length (wp_workers (fst (fst ?S)))) + cell_sum held (snd ?S)" by blast
  ultimately show ?thesis using runs len unfolding Let_def by simp
qed

end
