(* ===== verification/Business_Events.thy ===== *)
theory Business_Events
  imports Pipe_Protocol Json_Text
begin

text \<open>
  The business-event protocol (\<^verbatim>\<open>packages/protocol/src/business-events.ts\<close>): kinds, filters, cursors, records,
  changes and frames.

  A record is modelled by the fields that the event stream and its mirror inspect; \<open>'x\<close> stands for the fields of
  the stored record that neither looks at (names, paths, settings). The runtime fact is modelled in full.
\<close>

datatype (plugins only: code size) business_kind = KRepo | KTask | KTab | KRun | KOperation | KConfig | KRuntime

definition BUSINESS_KINDS :: "business_kind list" where
  "BUSINESS_KINDS = [KRepo, KTask, KTab, KRun, KOperation, KConfig, KRuntime]"

fun kind_name :: "business_kind \<Rightarrow> string" where
  "kind_name KRepo = ''repo''"
| "kind_name KTask = ''task''"
| "kind_name KTab = ''tab''"
| "kind_name KRun = ''run''"
| "kind_name KOperation = ''operation''"
| "kind_name KConfig = ''config''"
| "kind_name KRuntime = ''runtime''"

definition LIMIT_frameBytes :: number where "LIMIT_frameBytes = 256 * 1024"
definition LIMIT_windowBytes :: number where "LIMIT_windowBytes = 8 * 1024 * 1024"
definition LIMIT_windowItems :: number where "LIMIT_windowItems = 4096"
definition LIMIT_journalItems :: number where "LIMIT_journalItems = 4096"
definition LIMIT_snapshotBytes :: number where "LIMIT_snapshotBytes = 16 * 1024 * 1024"
definition LIMIT_snapshotItems :: number where "LIMIT_snapshotItems = 65536"
definition LIMIT_subscriptions :: number where "LIMIT_subscriptions = 32"

text \<open>A filter is its optional list of kinds.\<close>

type_synonym business_filter = "business_kind list option"

definition BusinessFilterSchema :: "business_filter \<Rightarrow> bool" where
  "BusinessFilterSchema f \<longleftrightarrow> (case f of None \<Rightarrow> True | Some kinds \<Rightarrow> 1 \<le> length kinds \<and> length kinds \<le> length BUSINESS_KINDS)"

definition normalizedBusinessKinds :: "business_filter \<Rightarrow> business_kind list" where
  "normalizedBusinessKinds f = filter (\<lambda>kind. case f of None \<Rightarrow> True | Some kinds \<Rightarrow> kind \<in> set kinds) BUSINESS_KINDS"

definition businessFilterIdentity :: "business_filter \<Rightarrow> string" where
  "businessFilterIdentity f = join '','' (map kind_name (normalizedBusinessKinds f))"

record business_cursor =
  bc_serverId :: ident
  bc_relayInstanceId :: ident
  bc_streamId :: ident
  bc_sequence :: number
  bc_filter :: string

definition BusinessCursorSchema :: "business_cursor \<Rightarrow> bool" where
  "BusinessCursorSchema c \<longleftrightarrow> OpaqueIdSchema (bc_serverId c) \<and> OpaqueIdSchema (bc_relayInstanceId c) \<and>
     OpaqueIdSchema (bc_streamId c) \<and> SequenceSchema (bc_sequence c) \<and> 1 \<le> length (bc_filter c) \<and> length (bc_filter c) \<le> 128"

text \<open>\<open>BusinessRuntimeFact\<close>: the run status without \<open>receivedSeq\<close>, \<open>parsedSeq\<close> and \<open>reason\<close>.\<close>

record runtime_fact =
  bf_run :: run_ref
  bf_status :: run_status_kind
  bf_geometry :: geometry
  bf_controlEpoch :: number
  bf_controlHolder :: "control_holder option"
  bf_recovery :: recovery_state
  bf_exitCode :: "number option"
  bf_signal :: "string option"

definition BusinessRuntimeFactSchema :: "runtime_fact \<Rightarrow> bool" where
  "BusinessRuntimeFactSchema r \<longleftrightarrow> RunRefSchema (bf_run r) \<and> GeometrySchema (bf_geometry r) \<and> SequenceSchema (bf_controlEpoch r) \<and>
     optional ControlHolderSchema (bf_controlHolder r) \<and> optional (\<lambda>s. length s \<le> 64) (bf_signal r)"

datatype run_lifecycle = LcStarting | LcRunning | LcExited | LcStoppedWithServer | LcInterrupted

datatype 'x business_record =
    RepoRec (rec_id: string) (rec_repoId: ident) (rec_revision: number) (rec_rest: 'x)
  | TaskRec (rec_id: string) (rec_taskId: ident) (rec_revision: number) (rec_rest: 'x)
  | TabRec (rec_id: string) (rec_tabId: ident) (rec_revision: number) (rec_latestRun: "run_ref option") (rec_rest: 'x)
  | RunRec (rec_id: string) (rec_run: run_ref) (rec_runTab: "ident option") (rec_lifecycle: run_lifecycle) (rec_startedAtMs: number)
      (rec_rest: 'x)
  | OperationRec (rec_id: string) (rec_operationId: ident) (rec_revision: number) (rec_state: string) (rec_rest: 'x)
  | ConfigRec (rec_id: string) (rec_revision: number) (rec_rest: 'x)
  | RuntimeRec (rec_id: string) (rec_fact: runtime_fact)

fun rec_kind :: "'x business_record \<Rightarrow> business_kind" where
  "rec_kind (RepoRec _ _ _ _) = KRepo"
| "rec_kind (TaskRec _ _ _ _) = KTask"
| "rec_kind (TabRec _ _ _ _ _) = KTab"
| "rec_kind (RunRec _ _ _ _ _ _) = KRun"
| "rec_kind (OperationRec _ _ _ _ _) = KOperation"
| "rec_kind (ConfigRec _ _ _) = KConfig"
| "rec_kind (RuntimeRec _ _) = KRuntime"

text \<open>\<open>"revision" in record\<close>.\<close>

fun record_revision :: "'x business_record \<Rightarrow> number option" where
  "record_revision (RepoRec _ _ r _) = Some r"
| "record_revision (TaskRec _ _ r _) = Some r"
| "record_revision (TabRec _ _ r _ _) = Some r"
| "record_revision (OperationRec _ _ r _ _) = Some r"
| "record_revision (ConfigRec _ r _) = Some r"
| "record_revision _ = None"

datatype 'x business_change = Upsert "'x business_record" | Delete business_kind string

fun change_kind :: "'x business_change \<Rightarrow> business_kind" where
  "change_kind (Upsert r) = rec_kind r"
| "change_kind (Delete k i) = k"

text \<open>\<open>rest\<close> decides what the schemas of the uninspected fields decide.\<close>

definition BusinessRecordSchema :: "('x business_record \<Rightarrow> bool) \<Rightarrow> 'x business_record \<Rightarrow> bool" where
  "BusinessRecordSchema rest r \<longleftrightarrow>
     (case r of ConfigRec i _ _ \<Rightarrow> i \<in> {''server'', ''entry''} | _ \<Rightarrow> 1 \<le> length (rec_id r) \<and> length (rec_id r) \<le> 512) \<and>
     (case r of RuntimeRec _ f \<Rightarrow> BusinessRuntimeFactSchema f | _ \<Rightarrow> rest r)"

fun BusinessChangeSchema :: "('x business_record \<Rightarrow> bool) \<Rightarrow> 'x business_change \<Rightarrow> bool" where
  "BusinessChangeSchema rest (Upsert r) \<longleftrightarrow> BusinessRecordSchema rest r"
| "BusinessChangeSchema rest (Delete k i) \<longleftrightarrow> 1 \<le> length i \<and> length i \<le> 512"

datatype reset_reason =
    RsIdentity | RsGeneration | RsFilter | RsGap | RsOverflow | RsPublicationUncertain | RsUnavailable

datatype frame_error = ErSnapshotTooLarge | ErBusy | ErUnavailable

fun reset_name :: "reset_reason \<Rightarrow> string" where
  "reset_name RsIdentity = ''identity''"
| "reset_name RsGeneration = ''generation''"
| "reset_name RsFilter = ''filter''"
| "reset_name RsGap = ''gap''"
| "reset_name RsOverflow = ''overflow''"
| "reset_name RsPublicationUncertain = ''publication-uncertain''"
| "reset_name RsUnavailable = ''unavailable''"

fun error_name :: "frame_error \<Rightarrow> string" where
  "error_name ErSnapshotTooLarge = ''snapshot-too-large''"
| "error_name ErBusy = ''busy''"
| "error_name ErUnavailable = ''unavailable''"

datatype 'x business_frame =
    SnapshotBegin ident
  | SnapshotPage ident number "'x business_record list"
  | SnapshotEnd ident number business_cursor
  | Ready business_cursor
  | Changes business_cursor business_cursor "'x business_change list"
  | Reset reset_reason
  | ErrorFrame frame_error

fun BusinessFrameSchema :: "('x business_record \<Rightarrow> bool) \<Rightarrow> 'x business_frame \<Rightarrow> bool" where
  "BusinessFrameSchema rest (SnapshotBegin i) \<longleftrightarrow> OpaqueIdSchema i"
| "BusinessFrameSchema rest (SnapshotPage i page records) \<longleftrightarrow> OpaqueIdSchema i \<and> SequenceSchema page \<and>
     int (length records) \<le> LIMIT_snapshotItems \<and> list_all (BusinessRecordSchema rest) records"
| "BusinessFrameSchema rest (SnapshotEnd i pages cursor) \<longleftrightarrow> OpaqueIdSchema i \<and> SequenceSchema pages \<and> BusinessCursorSchema cursor"
| "BusinessFrameSchema rest (Ready cursor) \<longleftrightarrow> BusinessCursorSchema cursor"
| "BusinessFrameSchema rest (Changes after cursor changes) \<longleftrightarrow> BusinessCursorSchema after \<and> BusinessCursorSchema cursor \<and>
     int (length changes) \<le> LIMIT_journalItems \<and> list_all (BusinessChangeSchema rest) changes"
| "BusinessFrameSchema rest (Reset reason) \<longleftrightarrow> True"
| "BusinessFrameSchema rest (ErrorFrame reason) \<longleftrightarrow> True"

definition businessRunId :: "run_ref \<Rightarrow> string" where
  "businessRunId run = stringify (JsArr [JsStr (rr_relayInstanceId run), JsStr (rr_runId run)])"

definition sameBusinessCursor :: "business_cursor \<Rightarrow> business_cursor \<Rightarrow> bool" where
  "sameBusinessCursor a b \<longleftrightarrow> bc_serverId a = bc_serverId b \<and> bc_relayInstanceId a = bc_relayInstanceId b \<and>
     bc_streamId a = bc_streamId b \<and> bc_filter a = bc_filter b \<and> bc_sequence a = bc_sequence b"

subsection \<open>Lemmas\<close>

lemma sameBusinessCursor_iff [simp]: "sameBusinessCursor a b \<longleftrightarrow> a = b"
  by (cases a; cases b) (auto simp: sameBusinessCursor_def)

lemma businessRunId_inj:
  "businessRunId r = businessRunId s \<longleftrightarrow> rr_relayInstanceId r = rr_relayInstanceId s \<and> rr_runId r = rr_runId s"
  using pair_key_inj by (simp add: businessRunId_def pair_key_def)

lemma kind_name_inj: "kind_name k = kind_name l \<longleftrightarrow> k = l"
  by (cases k; cases l; simp)

end
