(* ===== verification/Business_Stream.thy ===== *)
theory Business_Stream
  imports Business_Events
begin

text \<open>
  \<open>BusinessEventStream\<close> (\<^verbatim>\<open>apps/server/src/business/event-stream.ts\<close>): the publication order of business facts. A
  publication appends one numbered batch to a bounded window and hands it to every subscriber; a
  subscription resumes from the window or is refused with a reason; an invalidation starts a new
  generation and resets the subscribers.

  Parameters (\<open>stream_env\<close>): \<open>createId\<close> (its n-th result), the encoded size of a batch, the schemas of the
  uninspected record fields, and the subscribers' \<open>emit\<close>, which may throw depending on what it was given
  before. Subscriber objects are cells of \<open>es_heap\<close>; \<open>sb_log\<close> lists the frames \<open>emit\<close> took and \<open>sb_since\<close> the
  cursor position the subscription started from.
\<close>

record 'x stream_env =
  ev_createId :: "nat \<Rightarrow> ident"
  ev_encodedBytes :: "'x business_change list \<Rightarrow> number"
  ev_rest :: "'x business_record \<Rightarrow> bool"
  ev_emits :: "handle \<Rightarrow> 'x business_frame list \<Rightarrow> 'x business_frame \<Rightarrow> bool"

record 'x batch =
  ba_sequence :: number
  ba_changes :: "'x business_change list"
  ba_bytes :: number

record 'x subscriber =
  sb_filter :: business_filter
  sb_cursor :: business_cursor
  sb_since :: number
  sb_log :: "'x business_frame list"

record window_limits =
  wl_bytes :: number
  wl_items :: number
  wl_subscriptions :: number

record 'x event_stream =
  es_serverId :: ident
  es_relayInstanceId :: ident
  es_limits :: window_limits
  es_ids :: nat
  es_streamId :: ident
  es_sequence :: number
  es_bytes :: number
  es_window :: "'x batch list"
  es_subscribers :: "handle list"
  es_heap :: "'x subscriber list"
  es_unavailable :: bool

datatype stream_error = InvalidBusinessLimits | BusinessAuthorityUnavailable | InvalidBusinessRecord

definition new_event_stream ::
  "'x stream_env \<Rightarrow> ident \<Rightarrow> ident \<Rightarrow> window_limits \<Rightarrow> stream_error + 'x event_stream" where
  "new_event_stream env serverId relayInstanceId limits =
     (if list_ex (\<lambda>v. \<not> isSafeInteger v \<or> v < 1) [wl_bytes limits, wl_items limits, wl_subscriptions limits]
      then Inl InvalidBusinessLimits
      else Inr \<lparr>es_serverId = serverId, es_relayInstanceId = relayInstanceId, es_limits = limits, es_ids = 1,
        es_streamId = ev_createId env 0, es_sequence = 0, es_bytes = 0, es_window = [], es_subscribers = [], es_heap = [],
        es_unavailable = False\<rparr>)"

definition es_cursor :: "'x event_stream \<Rightarrow> business_filter \<Rightarrow> business_cursor" where
  "es_cursor s f = \<lparr>bc_serverId = es_serverId s, bc_relayInstanceId = es_relayInstanceId s, bc_streamId = es_streamId s,
     bc_sequence = es_sequence s, bc_filter = businessFilterIdentity f\<rparr>"

definition es_capture ::
  "'x stream_env \<Rightarrow> 'x business_record list \<Rightarrow> 'x business_record list \<Rightarrow> business_filter \<Rightarrow> 'x event_stream \<Rightarrow>
     stream_error + ('x business_record list \<times> business_cursor)" where
  "es_capture env records runtime f s =
     (if es_unavailable s then Inl BusinessAuthorityUnavailable
      else let kinds = normalizedBusinessKinds f;
               kept = filter (\<lambda>value. rec_kind value \<in> set kinds) (records @ runtime)
           in if list_all (BusinessRecordSchema (ev_rest env)) kept then Inr (kept, es_cursor s f) else Inl InvalidBusinessRecord)"

definition es_reset :: "'x stream_env \<Rightarrow> reset_reason \<Rightarrow> handle \<Rightarrow> 'x event_stream \<Rightarrow> 'x event_stream" where
  "es_reset env reason h s = (let sub = es_heap s ! h in
     if ev_emits env h (sb_log sub) (Reset reason)
     then s\<lparr>es_heap := (es_heap s)[h := sub\<lparr>sb_log := sb_log sub @ [Reset reason]\<rparr>]\<rparr> else s)"

definition es_invalidate :: "'x stream_env \<Rightarrow> reset_reason \<Rightarrow> bool \<Rightarrow> 'x event_stream \<Rightarrow> 'x event_stream" where
  "es_invalidate env reason unavailable s =
     (let previous = es_subscribers s;
          s = s\<lparr>es_subscribers := [], es_window := [], es_bytes := 0, es_sequence := 0, es_streamId := ev_createId env (es_ids s),
                es_ids := Suc (es_ids s), es_unavailable := es_unavailable s \<or> unavailable\<rparr>
      in fold (es_reset env reason) previous s)"

definition es_deliver :: "'x stream_env \<Rightarrow> 'x batch \<Rightarrow> handle \<Rightarrow> 'x event_stream \<Rightarrow> 'x event_stream" where
  "es_deliver env batch h s =
     (let sub = es_heap s ! h;
          kinds = normalizedBusinessKinds (sb_filter sub);
          after = sb_cursor sub;
          cursor = after\<lparr>bc_sequence := ba_sequence batch\<rparr>;
          changes = filter (\<lambda>change. change_kind change \<in> set kinds) (ba_changes batch);
          sub = sub\<lparr>sb_cursor := cursor\<rparr>;
          frame = Changes after cursor changes
      in if ev_emits env h (sb_log sub) frame
         then s\<lparr>es_heap := (es_heap s)[h := sub\<lparr>sb_log := sb_log sub @ [frame]\<rparr>]\<rparr>
         else s\<lparr>es_heap := (es_heap s)[h := sub], es_subscribers := remove1 h (es_subscribers s)\<rparr>)"

text \<open>The eviction loop of \<open>publish\<close>. On an empty window with a positive byte count the code would fail on \<open>shift()!\<close>.\<close>

function es_trim :: "'x event_stream \<Rightarrow> 'x event_stream" where
  "es_trim s =
     (if es_window s \<noteq> [] \<and> (int (length (es_window s)) > wl_items (es_limits s) \<or> es_bytes s > wl_bytes (es_limits s))
      then es_trim (s\<lparr>es_bytes := es_bytes s - ba_bytes (hd (es_window s)), es_window := tl (es_window s)\<rparr>) else s)"
  by pat_completeness auto
termination by (relation "measure (\<lambda>s. length (es_window s))") auto

declare es_trim.simps [simp del]

definition es_append :: "'x batch \<Rightarrow> 'x event_stream \<Rightarrow> 'x event_stream" where
  "es_append batch s =
     es_trim (s\<lparr>es_sequence := ba_sequence batch, es_window := es_window s @ [batch], es_bytes := es_bytes s + ba_bytes batch\<rparr>)"

definition es_publish :: "'x stream_env \<Rightarrow> 'x business_change list \<Rightarrow> 'x event_stream \<Rightarrow> 'x event_stream" where
  "es_publish env input s =
     (if es_unavailable s \<or> input = [] then s
      else if \<not> list_all (BusinessChangeSchema (ev_rest env)) input then es_invalidate env RsPublicationUncertain False s
      else let bytes = ev_encodedBytes env input in
        if int (length input) > LIMIT_journalItems \<or> bytes > min (wl_bytes (es_limits s)) (LIMIT_frameBytes - 2048) \<or>
           es_sequence s = MAX_SAFE_INTEGER
        then es_invalidate env RsOverflow False s
        else let batch = \<lparr>ba_sequence = es_sequence s + 1, ba_changes = input, ba_bytes = bytes\<rparr>
             in fold (es_deliver env batch) (es_subscribers s) (es_append batch s))"

datatype subscribe_result = Subscribed handle | Refused reset_reason | Busy

definition es_replay :: "'x stream_env \<Rightarrow> handle \<Rightarrow> number \<Rightarrow> 'x event_stream \<Rightarrow> 'x event_stream" where
  "es_replay env h since s =
     fold (\<lambda>batch s. if h \<notin> set (es_subscribers s) \<or> ba_sequence batch \<le> since then s else es_deliver env batch h s) (es_window s) s"

definition es_subscribe ::
  "'x stream_env \<Rightarrow> business_filter \<Rightarrow> business_cursor \<Rightarrow> 'x event_stream \<Rightarrow> subscribe_result \<times> 'x event_stream" where
  "es_subscribe env f since s =
     (if es_unavailable s then (Refused RsUnavailable, s)
      else if bc_serverId since \<noteq> es_serverId s \<or> bc_relayInstanceId since \<noteq> es_relayInstanceId s then (Refused RsIdentity, s)
      else if bc_streamId since \<noteq> es_streamId s then (Refused RsGeneration, s)
      else if bc_filter since \<noteq> businessFilterIdentity f then (Refused RsFilter, s)
      else if bc_sequence since > es_sequence s \<or>
              bc_sequence since < (case es_window s of [] \<Rightarrow> es_sequence s + 1 | b # _ \<Rightarrow> ba_sequence b) - 1
      then (Refused RsGap, s)
      else if int (length (es_subscribers s)) \<ge> wl_subscriptions (es_limits s) then (Busy, s)
      else let h = length (es_heap s);
               sub = \<lparr>sb_filter = f, sb_cursor = since, sb_since = bc_sequence since, sb_log = []\<rparr>;
               s = s\<lparr>es_heap := es_heap s @ [sub], es_subscribers := es_subscribers s @ [h]\<rparr>
           in (Subscribed h, es_replay env h (bc_sequence since) s))"

definition es_dispose :: "handle \<Rightarrow> 'x event_stream \<Rightarrow> 'x event_stream" where
  "es_dispose h s = s\<lparr>es_subscribers := remove1 h (es_subscribers s)\<rparr>"

definition es_close :: "'x stream_env \<Rightarrow> 'x event_stream \<Rightarrow> 'x event_stream" where
  "es_close env s = es_invalidate env RsUnavailable True s"

definition es_retained :: "'x event_stream \<Rightarrow> number \<times> number \<times> number" where
  "es_retained s = (es_bytes s, int (length (es_window s)), int (length (es_subscribers s)))"

subsection \<open>Delivery\<close>

definition batch_frame :: "business_cursor \<Rightarrow> business_filter \<Rightarrow> 'x batch \<Rightarrow> 'x business_frame" where
  "batch_frame c f b = Changes (c\<lparr>bc_sequence := ba_sequence b - 1\<rparr>) (c\<lparr>bc_sequence := ba_sequence b\<rparr>)
     (filter (\<lambda>change. change_kind change \<in> set (normalizedBusinessKinds f)) (ba_changes b))"

text \<open>One delivery as a function of the subscriber alone: the frame, whether \<open>emit\<close> takes it and the subscriber afterwards.\<close>

definition deliver_frame :: "'x batch \<Rightarrow> 'x subscriber \<Rightarrow> 'x business_frame" where
  "deliver_frame b sub = Changes (sb_cursor sub) ((sb_cursor sub)\<lparr>bc_sequence := ba_sequence b\<rparr>)
     (filter (\<lambda>change. change_kind change \<in> set (normalizedBusinessKinds (sb_filter sub))) (ba_changes b))"

definition deliver_takes :: "'x stream_env \<Rightarrow> 'x batch \<Rightarrow> handle \<Rightarrow> 'x subscriber \<Rightarrow> bool" where
  "deliver_takes env b h sub = ev_emits env h (sb_log sub) (deliver_frame b sub)"

definition deliver_sub :: "'x stream_env \<Rightarrow> 'x batch \<Rightarrow> handle \<Rightarrow> 'x subscriber \<Rightarrow> 'x subscriber" where
  "deliver_sub env b h sub = sub\<lparr>sb_cursor := (sb_cursor sub)\<lparr>bc_sequence := ba_sequence b\<rparr>,
     sb_log := (if deliver_takes env b h sub then sb_log sub @ [deliver_frame b sub] else sb_log sub)\<rparr>"

lemma es_deliver_eq:
  "es_deliver env b h s = s\<lparr>es_heap := (es_heap s)[h := deliver_sub env b h (es_heap s ! h)],
     es_subscribers := (if deliver_takes env b h (es_heap s ! h) then es_subscribers s else remove1 h (es_subscribers s))\<rparr>"
  by (simp add: es_deliver_def deliver_sub_def deliver_takes_def deliver_frame_def Let_def)

definition es_same :: "'x event_stream \<Rightarrow> 'x event_stream \<Rightarrow> bool" where
  "es_same s s' \<longleftrightarrow> es_serverId s' = es_serverId s \<and> es_relayInstanceId s' = es_relayInstanceId s \<and> es_limits s' = es_limits s \<and>
     es_ids s' = es_ids s \<and> es_streamId s' = es_streamId s \<and> es_sequence s' = es_sequence s \<and> es_bytes s' = es_bytes s \<and>
     es_window s' = es_window s \<and> es_unavailable s' = es_unavailable s \<and> length (es_heap s') = length (es_heap s)"

lemma es_same_refl [simp]: "es_same s s"
  by (simp add: es_same_def)

lemma es_same_trans: "es_same s t \<Longrightarrow> es_same t u \<Longrightarrow> es_same s u"
  by (simp add: es_same_def)

lemma es_deliver_same [simp]: "es_same s (es_deliver env b h s)"
  by (simp add: es_same_def es_deliver_eq)

lemma es_same_cursor: "es_same s s' \<Longrightarrow> es_cursor s' = es_cursor s"
  by (simp add: es_same_def es_cursor_def fun_eq_iff)

lemma fold_deliver:
  assumes "distinct hs" and "\<And>h. h \<in> set hs \<Longrightarrow> h < length (es_heap s)" and "distinct (es_subscribers s)"
  shows "es_same s (fold (es_deliver env b) hs s) \<and>
    (\<forall>h. es_heap (fold (es_deliver env b) hs s) ! h = (if h \<in> set hs then deliver_sub env b h (es_heap s ! h) else es_heap s ! h)) \<and>
    es_subscribers (fold (es_deliver env b) hs s) =
      filter (\<lambda>h. h \<notin> set hs \<or> deliver_takes env b h (es_heap s ! h)) (es_subscribers s)"
  using assms
proof (induction hs arbitrary: s)
  case (Cons k hs)
  let ?s = "es_deliver env b k s"
  have "k < length (es_heap s)" using Cons.prems(2) by simp
  then have heap: "es_heap ?s ! h = (if h = k then deliver_sub env b k (es_heap s ! k) else es_heap s ! h)" for h
    by (simp add: es_deliver_eq nth_list_update)
  have subs: "es_subscribers ?s = filter (\<lambda>h. h \<noteq> k \<or> deliver_takes env b k (es_heap s ! k)) (es_subscribers s)"
    using Cons.prems(3) by (simp add: es_deliver_eq distinct_remove1_removeAll removeAll_filter_not_eq) (auto intro: filter_cong)
  have len: "\<And>h. h \<in> set hs \<Longrightarrow> h < length (es_heap ?s)" using Cons.prems(2) by (simp add: es_deliver_eq)
  have dist: "distinct (es_subscribers ?s)" using Cons.prems(3) by (simp add: subs)
  have IH: "es_same ?s (fold (es_deliver env b) hs ?s)"
    "\<forall>h. es_heap (fold (es_deliver env b) hs ?s) ! h = (if h \<in> set hs then deliver_sub env b h (es_heap ?s ! h) else es_heap ?s ! h)"
    "es_subscribers (fold (es_deliver env b) hs ?s) = filter (\<lambda>h. h \<notin> set hs \<or> deliver_takes env b h (es_heap ?s ! h)) (es_subscribers ?s)"
    using Cons.IH [of ?s, OF _ len dist] Cons.prems(1) by simp_all
  have "filter (\<lambda>h. h \<notin> set hs \<or> deliver_takes env b h (es_heap ?s ! h)) (es_subscribers ?s) =
      filter (\<lambda>h. h \<notin> set (k # hs) \<or> deliver_takes env b h (es_heap s ! h)) (es_subscribers s)"
    unfolding subs filter_filter using Cons.prems(1) by (intro filter_cong) (auto simp: heap)
  moreover have "es_same s (fold (es_deliver env b) hs ?s)" by (rule es_same_trans [OF es_deliver_same IH(1)])
  moreover have "es_heap (fold (es_deliver env b) hs ?s) ! h = (if h \<in> set (k # hs) then deliver_sub env b h (es_heap s ! h) else es_heap s ! h)" for h
    using IH(2) Cons.prems(1) by (auto simp: heap)
  ultimately show ?case using IH(3) by simp
qed simp

definition replay_step :: "'x stream_env \<Rightarrow> handle \<Rightarrow> 'x batch \<Rightarrow> 'x event_stream \<Rightarrow> 'x event_stream" where
  "replay_step env h b s = (if h \<in> set (es_subscribers s) then es_deliver env b h s else s)"

lemma es_replay_eq: "es_replay env h since s = fold (replay_step env h) (filter (\<lambda>b. since < ba_sequence b) (es_window s)) s"
proof -
  have "fold (\<lambda>batch s. if h \<notin> set (es_subscribers s) \<or> ba_sequence batch \<le> since then s else es_deliver env batch h s) bs t =
      fold (replay_step env h) (filter (\<lambda>b. since < ba_sequence b) bs) t" for bs t
    by (induction bs arbitrary: t) (auto simp: replay_step_def not_less)
  then show ?thesis by (simp add: es_replay_def)
qed

text \<open>The subscriber \<open>h\<close> was given the batches \<open>bs\<close>, the last of which has number \<open>n\<close>; nothing else changed.\<close>

definition replayed :: "handle \<Rightarrow> business_cursor \<Rightarrow> number \<Rightarrow> 'x batch list \<Rightarrow> 'x event_stream \<Rightarrow> 'x event_stream \<Rightarrow> bool" where
  "replayed h c n bs s s' \<longleftrightarrow> es_same s s' \<and> distinct (es_subscribers s') \<and>
     (\<forall>k. k \<noteq> h \<longrightarrow> es_heap s' ! k = es_heap s ! k) \<and> set (es_subscribers s') \<subseteq> set (es_subscribers s) \<and>
     length (es_subscribers s') \<le> length (es_subscribers s) \<and>
     sb_filter (es_heap s' ! h) = sb_filter (es_heap s ! h) \<and> sb_since (es_heap s' ! h) = sb_since (es_heap s ! h) \<and>
     (h \<in> set (es_subscribers s') \<longrightarrow> sb_cursor (es_heap s' ! h) = c\<lparr>bc_sequence := n\<rparr> \<and>
       sb_log (es_heap s' ! h) = sb_log (es_heap s ! h) @ map (batch_frame c (sb_filter (es_heap s ! h))) bs)"

lemma replayed_step:
  assumes "ba_sequence b = m + 1" and h: "h < length (es_heap s)" and dist: "distinct (es_subscribers s)"
    and cur: "h \<in> set (es_subscribers s) \<Longrightarrow> sb_cursor (es_heap s ! h) = c\<lparr>bc_sequence := m\<rparr>"
  shows "replayed h c (m + 1) [b] s (replay_step env h b s)"
proof (cases "h \<in> set (es_subscribers s)")
  case False
  then show ?thesis using dist by (simp add: replayed_def replay_step_def)
next
  case True
  have "deliver_frame b (es_heap s ! h) = batch_frame c (sb_filter (es_heap s ! h)) b"
    using cur [OF True] assms(1) by (simp add: deliver_frame_def batch_frame_def)
  moreover have "h \<notin> set (remove1 h (es_subscribers s))" using dist by simp
  ultimately show ?thesis using True h dist cur [OF True] assms(1) set_remove1_subset [of h "es_subscribers s"]
    by (auto simp: replayed_def replay_step_def es_deliver_eq deliver_sub_def es_same_def length_remove1)
qed

lemma replayed_trans:
  assumes "replayed h c m bs s t" and "replayed h c n cs t u"
  shows "replayed h c n (bs @ cs) s u"
  using assms es_same_trans [of s t u] unfolding replayed_def by auto

lemma replay_fold:
  assumes "map ba_sequence bs = [m + 1..n]" and "m \<le> n" and "h < length (es_heap s)" and "distinct (es_subscribers s)"
    and "h \<in> set (es_subscribers s) \<Longrightarrow> sb_cursor (es_heap s ! h) = c\<lparr>bc_sequence := m\<rparr>"
  shows "replayed h c n bs s (fold (replay_step env h) bs s)"
  using assms
proof (induction bs arbitrary: s m)
  case Nil
  then have "m = n" by (cases "m < n") (auto simp: upto_rec1)
  then show ?case using Nil by (simp add: replayed_def)
next
  case (Cons b bs)
  have mn: "m < n" using Cons.prems(1,2) by (cases "m < n") auto
  then have b: "ba_sequence b = m + 1" "map ba_sequence bs = [(m + 1) + 1..n]"
    using Cons.prems(1) by (simp_all add: upto_rec1 [of "m + 1" n])
  let ?s = "replay_step env h b s"
  have one: "replayed h c (m + 1) [b] s ?s" by (rule replayed_step [OF b(1) Cons.prems(3-5)])
  then have "replayed h c n bs ?s (fold (replay_step env h) bs ?s)"
    using Cons.prems(3) mn by (intro Cons.IH [OF b(2)]) (auto simp: replayed_def es_same_def)
  from replayed_trans [OF one this] show ?case by simp
qed

subsection \<open>Invariant\<close>

text \<open>
  \<open>hist\<close> is the history of the current generation, all its batches in order. The window is a suffix of it, and a
  subscriber was given exactly the batches after the position it started from.
\<close>

definition sub_ok :: "'x batch list \<Rightarrow> 'x event_stream \<Rightarrow> 'x subscriber \<Rightarrow> bool" where
  "sub_ok hist s sub \<longleftrightarrow> sb_cursor sub = es_cursor s (sb_filter sub) \<and> 0 \<le> sb_since sub \<and> sb_since sub \<le> es_sequence s \<and>
     sb_log sub = map (batch_frame (es_cursor s (sb_filter sub)) (sb_filter sub)) (filter (\<lambda>b. sb_since sub < ba_sequence b) hist)"

definition es_window_ok :: "'x batch list \<Rightarrow> 'x event_stream \<Rightarrow> bool" where
  "es_window_ok hist s \<longleftrightarrow> map ba_sequence hist = [1..es_sequence s] \<and> 0 \<le> es_sequence s \<and> (\<exists>k. es_window s = drop k hist) \<and>
     es_bytes s = sum_list (map ba_bytes (es_window s)) \<and> es_bytes s \<le> wl_bytes (es_limits s) \<and>
     int (length (es_window s)) \<le> wl_items (es_limits s) \<and>
     1 \<le> wl_bytes (es_limits s) \<and> 1 \<le> wl_items (es_limits s) \<and> 1 \<le> wl_subscriptions (es_limits s)"

definition es_inv :: "'x batch list \<Rightarrow> 'x event_stream \<Rightarrow> bool" where
  "es_inv hist s \<longleftrightarrow> es_window_ok hist s \<and> distinct (es_subscribers s) \<and>
     int (length (es_subscribers s)) \<le> wl_subscriptions (es_limits s) \<and>
     (\<forall>h \<in> set (es_subscribers s). h < length (es_heap s) \<and> sub_ok hist s (es_heap s ! h))"

lemma batch_frame_seq [simp]: "batch_frame (c\<lparr>bc_sequence := n\<rparr>) f b = batch_frame c f b"
  by (simp add: batch_frame_def)

lemma hist_after:
  assumes "map ba_sequence hist = [1..n]" and "0 \<le> m" and "m \<le> n"
  shows "map ba_sequence (take (nat m) hist) = [1..m]" and "map ba_sequence (drop (nat m) hist) = [m + 1..n]"
    and "filter (\<lambda>b. m < ba_sequence b) hist = drop (nat m) hist"
proof -
  have "[1..n] = [1..m] @ [m + 1..n]"
    using assms(2,3) by (cases "m = 0") (simp_all add: upto_split2)
  then have split: "map ba_sequence hist = [1..m] @ [m + 1..n]" using assms(1) by simp
  then have t: "map ba_sequence (take (nat m) hist) = [1..m]" and d: "map ba_sequence (drop (nat m) hist) = [m + 1..n]"
    by (metis append_eq_conv_conj diff_add_cancel length_upto take_map, metis append_eq_conv_conj diff_add_cancel drop_map length_upto)
  have "ba_sequence b \<in> set (map ba_sequence (take (nat m) hist))" if "b \<in> set (take (nat m) hist)" for b using that by simp
  then have "filter (\<lambda>b. m < ba_sequence b) (take (nat m) hist) = []" unfolding t by (fastforce simp: filter_empty_conv)
  moreover have "ba_sequence b \<in> set (map ba_sequence (drop (nat m) hist))" if "b \<in> set (drop (nat m) hist)" for b using that by simp
  then have "filter (\<lambda>b. m < ba_sequence b) (drop (nat m) hist) = drop (nat m) hist" unfolding d by (fastforce simp: filter_id_conv)
  ultimately show "filter (\<lambda>b. m < ba_sequence b) hist = drop (nat m) hist"
    by (metis append_Nil append_take_drop_id filter_append)
  show "map ba_sequence (take (nat m) hist) = [1..m]" "map ba_sequence (drop (nat m) hist) = [m + 1..n]" by (fact t, fact d)
qed

lemma es_trim_spec:
  assumes "es_bytes s = sum_list (map ba_bytes (es_window s))" and "0 \<le> wl_bytes (es_limits s)" and "0 \<le> wl_items (es_limits s)"
  shows "\<exists>k. es_trim s = s\<lparr>es_window := drop k (es_window s), es_bytes := sum_list (map ba_bytes (drop k (es_window s)))\<rparr> \<and>
    sum_list (map ba_bytes (drop k (es_window s))) \<le> wl_bytes (es_limits s) \<and>
    int (length (drop k (es_window s))) \<le> wl_items (es_limits s)"
  using assms
proof (induction "length (es_window s)" arbitrary: s)
  case 0
  then show ?case by (intro exI [of _ 0]) (simp add: es_trim.simps [of s])
next
  case (Suc n)
  obtain b bs where w: "es_window s = b # bs" using Suc.hyps(2) by (cases "es_window s") auto
  show ?case
  proof (cases "int (length (es_window s)) > wl_items (es_limits s) \<or> es_bytes s > wl_bytes (es_limits s)")
    case False
    then show ?thesis using Suc.prems by (intro exI [of _ 0]) (simp add: es_trim.simps [of s])
  next
    case True
    let ?s = "s\<lparr>es_bytes := es_bytes s - ba_bytes b, es_window := bs\<rparr>"
    have eq: "es_trim s = es_trim ?s" using True w by (subst es_trim.simps) auto
    have "n = length (es_window ?s)" using Suc.hyps(2) w by simp
    from Suc.hyps(1) [OF this] obtain k where
      "es_trim ?s = ?s\<lparr>es_window := drop k bs, es_bytes := sum_list (map ba_bytes (drop k bs))\<rparr>"
      "sum_list (map ba_bytes (drop k bs)) \<le> wl_bytes (es_limits s)" "int (length (drop k bs)) \<le> wl_items (es_limits s)"
      using Suc.prems w by auto
    then show ?thesis using eq w by (intro exI [of _ "Suc k"]) simp
  qed
qed

lemma es_append_ok:
  assumes ok: "es_window_ok hist s" and b: "ba_sequence b = es_sequence s + 1"
  shows "es_window_ok (hist @ [b]) (es_append b s) \<and> es_sequence (es_append b s) = es_sequence s + 1 \<and>
    es_heap (es_append b s) = es_heap s \<and> es_subscribers (es_append b s) = es_subscribers s \<and> es_limits (es_append b s) = es_limits s \<and>
    es_ids (es_append b s) = es_ids s \<and> es_unavailable (es_append b s) = es_unavailable s \<and>
    es_cursor (es_append b s) f = (es_cursor s f)\<lparr>bc_sequence := es_sequence s + 1\<rparr>"
proof -
  let ?s = "s\<lparr>es_sequence := ba_sequence b, es_window := es_window s @ [b], es_bytes := es_bytes s + ba_bytes b\<rparr>"
  obtain k where win: "es_window s = drop k hist" using ok by (auto simp: es_window_ok_def)
  have suffix: "\<exists>j. es_window s @ [b] = drop j (hist @ [b])"
  proof (cases "k \<le> length hist")
    case True
    then show ?thesis using win by (intro exI [of _ k]) simp
  next
    case False
    then show ?thesis using win by (intro exI [of _ "length hist"]) simp
  qed
  have "es_bytes ?s = sum_list (map ba_bytes (es_window ?s))" using ok by (simp add: es_window_ok_def)
  then obtain n where trim: "es_append b s = ?s\<lparr>es_window := drop n (es_window ?s), es_bytes := sum_list (map ba_bytes (drop n (es_window ?s)))\<rparr>"
      "sum_list (map ba_bytes (drop n (es_window ?s))) \<le> wl_bytes (es_limits s)" "int (length (drop n (es_window ?s))) \<le> wl_items (es_limits s)"
    using es_trim_spec [of ?s] ok by (auto simp: es_append_def es_window_ok_def)
  have "\<exists>j. drop n (es_window s @ [b]) = drop j (hist @ [b])" using suffix by (metis drop_drop)
  moreover have "[1..es_sequence s + 1] = [1..es_sequence s] @ [es_sequence s + 1]"
    using ok by (simp add: es_window_ok_def upto_rec2 [of 1 "es_sequence s + 1"])
  ultimately show ?thesis using ok trim b by (simp add: es_window_ok_def es_cursor_def)
qed

lemma fold_resets: "es_same s (fold (es_reset env reason) hs s) \<and> es_subscribers (fold (es_reset env reason) hs s) = es_subscribers s"
proof (induction hs arbitrary: s)
  case (Cons h hs)
  have "es_same s (es_reset env reason h s)" "es_subscribers (es_reset env reason h s) = es_subscribers s"
    by (simp_all add: es_reset_def es_same_def Let_def)
  then show ?case using Cons.IH [of "es_reset env reason h s"] es_same_trans [of s "es_reset env reason h s"] by simp
qed simp

lemma es_invalidate_inv:
  assumes "es_inv hist s"
  shows "es_inv [] (es_invalidate env reason u s) \<and> es_ids (es_invalidate env reason u s) = Suc (es_ids s) \<and>
    es_streamId (es_invalidate env reason u s) = ev_createId env (es_ids s) \<and>
    es_sequence (es_invalidate env reason u s) = 0 \<and> es_subscribers (es_invalidate env reason u s) = []"
proof -
  let ?s = "s\<lparr>es_subscribers := [], es_window := [], es_bytes := 0, es_sequence := 0, es_streamId := ev_createId env (es_ids s),
    es_ids := Suc (es_ids s), es_unavailable := es_unavailable s \<or> u\<rparr>"
  have "es_same ?s (es_invalidate env reason u s) \<and> es_subscribers (es_invalidate env reason u s) = []"
    using fold_resets [of ?s env reason "es_subscribers s"] by (simp add: es_invalidate_def Let_def)
  then show ?thesis using assms by (auto simp: es_inv_def es_window_ok_def es_same_def)
qed

lemma sub_ok_deliver:
  assumes ok: "sub_ok hist s sub" and takes: "deliver_takes env b h sub" and b: "ba_sequence b = es_sequence s + 1"
    and c: "es_cursor s' (sb_filter sub) = (es_cursor s (sb_filter sub))\<lparr>bc_sequence := es_sequence s + 1\<rparr>" and "es_sequence s' = es_sequence s + 1"
  shows "sub_ok (hist @ [b]) s' (deliver_sub env b h sub)"
proof -
  have "deliver_frame b sub = batch_frame (es_cursor s (sb_filter sub)) (sb_filter sub) b"
    using ok b by (simp add: deliver_frame_def batch_frame_def sub_ok_def es_cursor_def)
  then show ?thesis using assms by (simp add: sub_ok_def deliver_sub_def)
qed

lemma es_publish_accepted:
  assumes inv: "es_inv hist s" and b: "ba_sequence b = es_sequence s + 1"
  shows "es_inv (hist @ [b]) (fold (es_deliver env b) (es_subscribers s) (es_append b s)) \<and>
    es_ids (fold (es_deliver env b) (es_subscribers s) (es_append b s)) = es_ids s \<and>
    es_sequence (fold (es_deliver env b) (es_subscribers s) (es_append b s)) = es_sequence s + 1"
proof -
  let ?t = "es_append b s"
  let ?u = "fold (es_deliver env b) (es_subscribers s) ?t"
  have win: "es_window_ok hist s" and dist: "distinct (es_subscribers s)"
    and subs: "\<And>h. h \<in> set (es_subscribers s) \<Longrightarrow> h < length (es_heap s) \<and> sub_ok hist s (es_heap s ! h)"
    and cap: "int (length (es_subscribers s)) \<le> wl_subscriptions (es_limits s)"
    using inv by (auto simp: es_inv_def)
  have t: "es_window_ok (hist @ [b]) ?t" "es_sequence ?t = es_sequence s + 1" "es_heap ?t = es_heap s" "es_subscribers ?t = es_subscribers s"
    "es_limits ?t = es_limits s" "es_ids ?t = es_ids s"
    using es_append_ok [OF win b] by simp_all
  have cur: "es_cursor ?t f = (es_cursor s f)\<lparr>bc_sequence := es_sequence s + 1\<rparr>" for f using es_append_ok [OF win b] by simp
  have f: "es_same ?t ?u" "\<And>h. h \<in> set (es_subscribers s) \<Longrightarrow> es_heap ?u ! h = deliver_sub env b h (es_heap s ! h)"
    "es_subscribers ?u = filter (\<lambda>h. h \<notin> set (es_subscribers s) \<or> deliver_takes env b h (es_heap s ! h)) (es_subscribers s)"
    using fold_deliver [of "es_subscribers s" ?t env b] dist subs t by simp_all
  have cu: "es_cursor ?u = es_cursor ?t" by (rule es_same_cursor [OF f(1)])
  have same: "es_sequence ?u = es_sequence ?t" "es_limits ?u = es_limits s" "length (es_heap ?u) = length (es_heap s)" "es_ids ?u = es_ids s"
    "es_window ?u = es_window ?t" "es_bytes ?u = es_bytes ?t"
    using f(1) t by (simp_all add: es_same_def)
  have "sub_ok (hist @ [b]) ?u (es_heap ?u ! h)" if h: "h \<in> set (es_subscribers ?u)" for h
  proof -
    have "h \<in> set (es_subscribers s)" "deliver_takes env b h (es_heap s ! h)" using h f(3) by auto
    then show ?thesis using sub_ok_deliver [of hist s "es_heap s ! h" env b h ?u] subs f(2) b cu cur same t by simp
  qed
  moreover have "es_window_ok (hist @ [b]) ?u" using t(1) same t(5) by (simp add: es_window_ok_def)
  moreover have "length (es_subscribers ?u) \<le> length (es_subscribers s)" by (simp only: f(3) length_filter_le)
  then have "int (length (es_subscribers ?u)) \<le> wl_subscriptions (es_limits s)" using cap by linarith
  moreover have "distinct (es_subscribers ?u)" "\<And>h. h \<in> set (es_subscribers ?u) \<Longrightarrow> h < length (es_heap ?u)"
    using dist subs same by (auto simp: f(3))
  ultimately show ?thesis using same t unfolding es_inv_def by simp
qed

lemma window_after:
  assumes ok: "es_window_ok hist s" and m: "m \<le> es_sequence s"
    "(case es_window s of [] \<Rightarrow> es_sequence s + 1 | b # _ \<Rightarrow> ba_sequence b) - 1 \<le> m"
  shows "filter (\<lambda>b. m < ba_sequence b) (es_window s) = filter (\<lambda>b. m < ba_sequence b) hist \<and> 0 \<le> m"
proof -
  obtain k where k: "es_window s = drop k hist" "k \<le> length hist"
    using ok unfolding es_window_ok_def by (metis drop_all le_cases order_refl)
  have seqs: "map ba_sequence hist = [1..es_sequence s]" "0 \<le> es_sequence s" using ok by (simp_all add: es_window_ok_def)
  have len: "int (length hist) = es_sequence s" using arg_cong [OF seqs(1), of length] seqs(2) by simp
  have kth: "map ba_sequence (drop k hist) = [int k + 1..es_sequence s]" "map ba_sequence (take k hist) = [1..int k]"
    using hist_after(1,2) [OF seqs(1), of "int k"] k(2) len by simp_all
  have "int k \<le> m"
  proof (cases "es_window s")
    case Nil
    then have "k = length hist" using k by simp
    then show ?thesis using m(2) Nil len by simp
  next
    case (Cons b bs)
    then have "[int k + 1..es_sequence s] = ba_sequence b # map ba_sequence bs" using kth(1) k(1) by simp
    then have "ba_sequence b = int k + 1" by (cases "int k + 1 \<le> es_sequence s") (auto simp: upto_rec1)
    then show ?thesis using m(2) Cons by simp
  qed
  then have "filter (\<lambda>b. m < ba_sequence b) (take k hist) = []"
    using kth(2) by (force simp: filter_empty_conv dest: arg_cong [where f = set])
  then show ?thesis using k(1) \<open>int k \<le> m\<close> by (metis append_Nil append_take_drop_id filter_append of_nat_0_le_iff order_trans)
qed

lemma es_subscribe_inv:
  assumes inv: "es_inv hist s" and step: "es_subscribe env f since s = (Subscribed h, s')"
  shows "es_inv hist s' \<and> es_ids s' = es_ids s \<and> es_sequence s' = es_sequence s \<and>
    since = (es_cursor s f)\<lparr>bc_sequence := bc_sequence since\<rparr> \<and> sb_since (es_heap s' ! h) = bc_sequence since \<and> sb_filter (es_heap s' ! h) = f"
proof -
  let ?m = "bc_sequence since" and ?h = "length (es_heap s)"
  let ?sub = "\<lparr>sb_filter = f, sb_cursor = since, sb_since = ?m, sb_log = []\<rparr>"
  let ?s = "s\<lparr>es_heap := es_heap s @ [?sub], es_subscribers := es_subscribers s @ [?h]\<rparr>"
  have g: "bc_serverId since = es_serverId s" "bc_relayInstanceId since = es_relayInstanceId s" "bc_streamId since = es_streamId s"
    "bc_filter since = businessFilterIdentity f" "?m \<le> es_sequence s"
    "(case es_window s of [] \<Rightarrow> es_sequence s + 1 | b # _ \<Rightarrow> ba_sequence b) - 1 \<le> ?m"
    "int (length (es_subscribers s)) < wl_subscriptions (es_limits s)" and h: "h = ?h" and s': "s' = es_replay env ?h ?m ?s"
    using step by (auto simp: es_subscribe_def Let_def split: if_splits)
  have win: "es_window_ok hist s" and dist: "distinct (es_subscribers s)"
    and subs: "\<And>h. h \<in> set (es_subscribers s) \<Longrightarrow> h < ?h \<and> sub_ok hist s (es_heap s ! h)"
    using inv by (auto simp: es_inv_def)
  have m: "filter (\<lambda>b. ?m < ba_sequence b) (es_window s) = filter (\<lambda>b. ?m < ba_sequence b) hist" "0 \<le> ?m"
    using window_after [OF win g(5,6)] by simp_all
  have seqs: "map ba_sequence hist = [1..es_sequence s]" using win by (simp add: es_window_ok_def)
  have since: "since = (es_cursor s f)\<lparr>bc_sequence := ?m\<rparr>" using g by (cases since) (simp add: es_cursor_def)
  let ?bs = "filter (\<lambda>b. ?m < ba_sequence b) hist"
  have "map ba_sequence ?bs = [?m + 1..es_sequence s]" using hist_after [OF seqs m(2) g(5)] by simp
  then have r: "replayed ?h (es_cursor s f) (es_sequence s) ?bs ?s s'"
    unfolding s' es_replay_eq using m g(5) since dist subs by (simp, intro replay_fold) auto
  have same: "es_same ?s s'" and cur: "es_cursor s' = es_cursor s"
    using r es_same_cursor [of ?s s'] by (simp_all add: replayed_def es_cursor_def fun_eq_iff)
  have seq: "es_sequence s' = es_sequence s" using same by (simp add: es_same_def)
  have "k < length (es_heap s') \<and> sub_ok hist s' (es_heap s' ! k)" if k: "k \<in> set (es_subscribers s')" for k
  proof (cases "k = ?h")
    case True
    then have "sb_cursor (es_heap s' ! k) = (es_cursor s f)\<lparr>bc_sequence := es_sequence s\<rparr>" "sb_log (es_heap s' ! k) = map (batch_frame (es_cursor s f) f) ?bs"
      "sb_filter (es_heap s' ! k) = f" "sb_since (es_heap s' ! k) = ?m"
      using r k by (simp_all add: replayed_def)
    moreover have "(es_cursor s f)\<lparr>bc_sequence := es_sequence s\<rparr> = es_cursor s f" by (simp add: es_cursor_def)
    ultimately show ?thesis using True same m(2) g(5) cur seq by (simp add: sub_ok_def es_same_def)
  next
    case False
    then have "k \<in> set (es_subscribers s)" "es_heap s' ! k = (es_heap s @ [?sub]) ! k" using r k by (auto simp: replayed_def)
    then show ?thesis using subs [of k] same cur seq by (auto simp: nth_append sub_ok_def es_same_def)
  qed
  moreover have "distinct (es_subscribers s')" "length (es_subscribers s') \<le> length (es_subscribers s) + 1" using r by (simp_all add: replayed_def)
  moreover have "es_window_ok hist s'" using win same by (simp add: es_window_ok_def es_same_def)
  ultimately have "es_inv hist s'" using same g(7) unfolding es_inv_def by (auto simp: es_same_def)
  then show ?thesis using r same since h by (simp add: replayed_def es_same_def)
qed

lemma es_subscribe_refused: "es_subscribe env f since s = (res, s') \<Longrightarrow> (\<And>h. res \<noteq> Subscribed h) \<Longrightarrow> s' = s"
  by (auto simp: es_subscribe_def Let_def split: if_splits)

lemma es_dispose_inv:
  assumes "es_inv hist s"
  shows "es_inv hist (es_dispose h s)"
proof -
  have "es_cursor (es_dispose h s) = es_cursor s" by (simp add: es_dispose_def es_cursor_def fun_eq_iff)
  then have "sub_ok hist (es_dispose h s) = sub_ok hist s" by (simp add: sub_ok_def es_dispose_def fun_eq_iff)
  moreover have "length (remove1 h (es_subscribers s)) \<le> length (es_subscribers s)" by (simp add: length_remove1)
  ultimately show ?thesis using assms set_remove1_subset [of h "es_subscribers s"]
    by (auto simp: es_inv_def es_window_ok_def es_dispose_def)
qed

subsection \<open>Runs\<close>

datatype 'x es_op =
    EsPublish "'x business_change list"
  | EsSubscribe business_filter business_cursor
  | EsDispose handle
  | EsInvalidate reset_reason bool
  | EsClose

text \<open>A step on the stream, and on the history: a new generation starts an empty one, an accepted publication extends it.\<close>

fun es_step :: "'x stream_env \<Rightarrow> 'x es_op \<Rightarrow> 'x event_stream \<Rightarrow> 'x event_stream" where
  "es_step env (EsPublish changes) s = es_publish env changes s"
| "es_step env (EsSubscribe f since) s = snd (es_subscribe env f since s)"
| "es_step env (EsDispose h) s = es_dispose h s"
| "es_step env (EsInvalidate reason u) s = es_invalidate env reason u s"
| "es_step env EsClose s = es_close env s"

fun published :: "'x es_op \<Rightarrow> 'x business_change list" where
  "published (EsPublish changes) = changes"
| "published _ = []"

definition hist_step :: "'x stream_env \<Rightarrow> 'x es_op \<Rightarrow> 'x event_stream \<times> 'x batch list \<Rightarrow> 'x event_stream \<times> 'x batch list" where
  "hist_step env op S = (let s = fst S; s' = es_step env op s in
     (s', if es_ids s' \<noteq> es_ids s then []
          else if es_sequence s' \<noteq> es_sequence s
          then snd S @ [\<lparr>ba_sequence = es_sequence s', ba_changes = published op, ba_bytes = ev_encodedBytes env (published op)\<rparr>]
          else snd S))"

definition es_run :: "'x stream_env \<Rightarrow> 'x event_stream \<Rightarrow> 'x es_op list \<Rightarrow> 'x event_stream \<times> 'x batch list" where
  "es_run env s ops = fold (hist_step env) ops (s, [])"

lemma es_publish_cases:
  "es_publish env input s = s \<or> (\<exists>r. es_publish env input s = es_invalidate env r False s) \<or>
   (let b = \<lparr>ba_sequence = es_sequence s + 1, ba_changes = input, ba_bytes = ev_encodedBytes env input\<rparr> in
     es_publish env input s = fold (es_deliver env b) (es_subscribers s) (es_append b s))"
proof (cases "es_unavailable s \<or> input = []")
  case False
  then show ?thesis by (cases "list_all (BusinessChangeSchema (ev_rest env)) input") (auto simp: es_publish_def Let_def)
qed (simp add: es_publish_def)

lemma hist_step_inv:
  assumes inv: "es_inv hist s"
  shows "es_inv (snd (hist_step env op (s, hist))) (fst (hist_step env op (s, hist)))"
proof (cases op)
  case (EsPublish input)
  let ?b = "\<lparr>ba_sequence = es_sequence s + 1, ba_changes = input, ba_bytes = ev_encodedBytes env input\<rparr>"
  consider "es_publish env input s = s" | r where "es_publish env input s = es_invalidate env r False s"
    | "es_publish env input s = fold (es_deliver env ?b) (es_subscribers s) (es_append ?b s)"
    using es_publish_cases [of env input s] unfolding Let_def by blast
  then show ?thesis
  proof cases
    case 1
    then show ?thesis using inv EsPublish by (simp add: hist_step_def)
  next
    case (2 r)
    then show ?thesis using es_invalidate_inv [OF inv] EsPublish by (simp add: hist_step_def)
  next
    case 3
    then show ?thesis using es_publish_accepted [OF inv, of ?b env] EsPublish by (simp add: hist_step_def)
  qed
next
  case (EsSubscribe f since)
  obtain res s' where step: "es_subscribe env f since s = (res, s')" by fastforce
  show ?thesis
  proof (cases res)
    case (Subscribed h)
    then show ?thesis using es_subscribe_inv [OF inv, of env f since h s'] step EsSubscribe by (simp add: hist_step_def)
  qed (use es_subscribe_refused [OF step] step inv EsSubscribe in \<open>simp_all add: hist_step_def\<close>)
next
  case (EsDispose h)
  then show ?thesis using es_dispose_inv [OF inv] by (simp add: hist_step_def es_dispose_def)
qed (use es_invalidate_inv [OF inv] in \<open>simp_all add: hist_step_def es_close_def\<close>)

lemma es_run_inv:
  assumes "es_inv (snd S) (fst S)"
  shows "es_inv (snd (fold (hist_step env) ops S)) (fst (fold (hist_step env) ops S))"
  using assms
proof (induction ops arbitrary: S)
  case (Cons op ops)
  show ?case using Cons.IH [of "hist_step env op S"] hist_step_inv [OF Cons.prems, of env op] by simp
qed simp

lemma new_event_stream_inv: "new_event_stream env sid rid limits = Inr s \<Longrightarrow> es_inv [] s"
  by (auto simp: new_event_stream_def es_inv_def es_window_ok_def not_less split: if_splits)

text \<open>What \<open>publish\<close> checked of every batch of the history.\<close>

definition batch_ok :: "'x stream_env \<Rightarrow> 'x batch \<Rightarrow> bool" where
  "batch_ok env b \<longleftrightarrow> list_all (BusinessChangeSchema (ev_rest env)) (ba_changes b) \<and> int (length (ba_changes b)) \<le> LIMIT_journalItems"

lemma es_publish_checked:
  assumes "es_inv hist s" and "es_ids (es_publish env input s) = es_ids s" and "es_sequence (es_publish env input s) \<noteq> es_sequence s"
  shows "list_all (BusinessChangeSchema (ev_rest env)) input \<and> int (length input) \<le> LIMIT_journalItems \<and> es_sequence s \<noteq> MAX_SAFE_INTEGER"
proof (rule ccontr)
  assume no: "\<not> ?thesis"
  have "es_publish env input s = s \<or> (\<exists>r. es_publish env input s = es_invalidate env r False s)"
    using no by (auto simp: es_publish_def Let_def)
  then show False using assms es_invalidate_inv [OF assms(1), of env] by auto
qed

lemma es_other_sequence:
  assumes inv: "es_inv hist s" and "es_ids (es_step env op s) = es_ids s" and "es_sequence (es_step env op s) \<noteq> es_sequence s"
  shows "\<exists>input. op = EsPublish input"
proof (cases op)
  case (EsSubscribe f since)
  obtain res s' where step: "es_subscribe env f since s = (res, s')" by fastforce
  show ?thesis
  proof (cases res)
    case (Subscribed h)
    then show ?thesis using es_subscribe_inv [OF inv, of env f since h s'] step assms EsSubscribe by simp
  qed (use es_subscribe_refused [OF step] step assms EsSubscribe in simp_all)
qed (use assms es_invalidate_inv [OF inv] in \<open>simp_all add: es_dispose_def es_close_def\<close>)

lemma es_step_sequence:
  assumes inv: "es_inv hist s"
  shows "es_sequence (es_step env op s) \<in> {0, es_sequence s, es_sequence s + 1}"
proof (cases op)
  case (EsPublish input)
  let ?b = "\<lparr>ba_sequence = es_sequence s + 1, ba_changes = input, ba_bytes = ev_encodedBytes env input\<rparr>"
  consider "es_publish env input s = s" | r where "es_publish env input s = es_invalidate env r False s"
    | "es_publish env input s = fold (es_deliver env ?b) (es_subscribers s) (es_append ?b s)"
    using es_publish_cases [of env input s] unfolding Let_def by blast
  then show ?thesis
    using es_invalidate_inv [OF inv, of env] es_publish_accepted [OF inv, of ?b env] EsPublish by cases simp_all
next
  case (EsSubscribe f since)
  obtain res s' where step: "es_subscribe env f since s = (res, s')" by fastforce
  show ?thesis
  proof (cases res)
    case (Subscribed h)
    then show ?thesis using es_subscribe_inv [OF inv, of env f since h s'] step EsSubscribe by simp
  qed (use es_subscribe_refused [OF step] step EsSubscribe in simp_all)
qed (use es_invalidate_inv [OF inv] in \<open>simp_all add: es_dispose_def es_close_def\<close>)

lemma es_invalidated_sequence:
  assumes inv: "es_inv hist s" and "es_ids (es_step env op s) \<noteq> es_ids s"
  shows "es_sequence (es_step env op s) = 0"
proof (cases op)
  case (EsPublish input)
  let ?b = "\<lparr>ba_sequence = es_sequence s + 1, ba_changes = input, ba_bytes = ev_encodedBytes env input\<rparr>"
  consider "es_publish env input s = s" | r where "es_publish env input s = es_invalidate env r False s"
    | "es_publish env input s = fold (es_deliver env ?b) (es_subscribers s) (es_append ?b s)"
    using es_publish_cases [of env input s] unfolding Let_def by blast
  then show ?thesis
    using assms es_invalidate_inv [OF inv, of env] es_publish_accepted [OF inv, of ?b env] EsPublish by cases simp_all
next
  case (EsSubscribe f since)
  obtain res s' where step: "es_subscribe env f since s = (res, s')" by fastforce
  show ?thesis
  proof (cases res)
    case (Subscribed h)
    then show ?thesis using es_subscribe_inv [OF inv, of env f since h s'] step assms EsSubscribe by simp
  qed (use es_subscribe_refused [OF step] step assms EsSubscribe in simp_all)
qed (use assms es_invalidate_inv [OF inv] in \<open>simp_all add: es_dispose_def es_close_def\<close>)

lemma es_run_checked:
  assumes "es_inv (snd S) (fst S)" and "list_all (batch_ok env) (snd S)" and "es_sequence (fst S) \<le> MAX_SAFE_INTEGER"
  shows "list_all (batch_ok env) (snd (fold (hist_step env) ops S)) \<and> es_sequence (fst (fold (hist_step env) ops S)) \<le> MAX_SAFE_INTEGER"
  using assms
proof (induction ops arbitrary: S)
  case (Cons op ops)
  obtain s hist where S: "S = (s, hist)" by fastforce
  have inv: "es_inv hist s" and ok: "list_all (batch_ok env) hist" "es_sequence s \<le> MAX_SAFE_INTEGER" using Cons.prems S by simp_all
  let ?s = "es_step env op s"
  have "list_all (batch_ok env) (snd (hist_step env op S)) \<and> es_sequence ?s \<le> MAX_SAFE_INTEGER"
  proof (cases "es_ids ?s = es_ids s \<and> es_sequence ?s \<noteq> es_sequence s")
    case True
    then obtain input where op: "op = EsPublish input" using es_other_sequence [OF inv, of env op] by auto
    have "list_all (BusinessChangeSchema (ev_rest env)) input \<and> int (length input) \<le> LIMIT_journalItems \<and> es_sequence s \<noteq> MAX_SAFE_INTEGER"
      using es_publish_checked [OF inv, of env input] True op by simp
    moreover have "es_sequence ?s \<le> es_sequence s + 1"
      using es_step_sequence [OF inv, of env op] inv by (auto simp: es_inv_def es_window_ok_def)
    ultimately show ?thesis using ok True op by (auto simp: S hist_step_def batch_ok_def Let_def)
  next
    case False
    then have "es_sequence ?s = es_sequence s \<or> es_ids ?s \<noteq> es_ids s" by blast
    moreover have "es_sequence ?s \<in> {0, es_sequence s}" if "es_ids ?s \<noteq> es_ids s"
      using that inv es_invalidated_sequence [OF inv] by simp
    ultimately show ?thesis using ok False by (auto simp: S hist_step_def Let_def MAX_SAFE_INTEGER_def)
  qed
  moreover have "fst (hist_step env op S) = ?s" by (simp add: S hist_step_def Let_def)
  ultimately show ?case using Cons.IH [of "hist_step env op S"] hist_step_inv [OF inv, of env op] S by simp
qed simp

subsection \<open>Generations\<close>

definition same_generation :: "'x event_stream \<Rightarrow> 'x event_stream \<Rightarrow> bool" where
  "same_generation s s' \<longleftrightarrow> es_serverId s' = es_serverId s \<and> es_relayInstanceId s' = es_relayInstanceId s \<and>
     es_ids s' = es_ids s \<and> es_streamId s' = es_streamId s"

lemma es_append_generation: "same_generation s (es_append b s)"
proof -
  have "same_generation t (es_trim t)" for t :: "'x event_stream"
  proof (induction t rule: es_trim.induct)
    case (1 t)
    show ?case
    proof (cases "es_window t \<noteq> [] \<and> (int (length (es_window t)) > wl_items (es_limits t) \<or> es_bytes t > wl_bytes (es_limits t))")
      case True
      then have "es_trim t = es_trim (t\<lparr>es_bytes := es_bytes t - ba_bytes (hd (es_window t)), es_window := tl (es_window t)\<rparr>)"
        by (subst es_trim.simps) simp
      then show ?thesis using 1 True by (simp add: same_generation_def)
    next
      case False
      then have "es_trim t = t" by (subst es_trim.simps) auto
      then show ?thesis by (simp add: same_generation_def)
    qed
  qed
  from this [of "s\<lparr>es_sequence := ba_sequence b, es_window := es_window s @ [b], es_bytes := es_bytes s + ba_bytes b\<rparr>"]
  show ?thesis by (simp add: same_generation_def es_append_def)
qed

lemma fold_deliver_generation: "same_generation s (fold (es_deliver env b) hs s)"
proof (induction hs arbitrary: s)
  case (Cons h hs)
  show ?case using Cons.IH [of "es_deliver env b h s"] by (simp add: same_generation_def es_deliver_eq)
qed (simp add: same_generation_def)

lemma es_replay_generation: "same_generation s (es_replay env h m s)"
proof -
  have "same_generation s (fold (replay_step env h) bs s)" for bs
  proof (induction bs arbitrary: s)
    case (Cons b bs)
    show ?case using Cons.IH [of "replay_step env h b s"] by (auto simp: same_generation_def replay_step_def es_deliver_eq)
  qed (simp add: same_generation_def)
  then show ?thesis by (simp add: es_replay_eq)
qed

definition generation_ok :: "'x stream_env \<Rightarrow> 'x event_stream \<Rightarrow> bool" where
  "generation_ok env s \<longleftrightarrow> 0 < es_ids s \<and> es_streamId s = ev_createId env (es_ids s - 1)"

text \<open>A step either stays in its generation or starts the next one.\<close>

lemma es_step_generation:
  assumes "generation_ok env s"
  shows "generation_ok env (es_step env op s) \<and> es_ids s \<le> es_ids (es_step env op s) \<and>
    es_serverId (es_step env op s) = es_serverId s \<and> es_relayInstanceId (es_step env op s) = es_relayInstanceId s"
proof -
  have inv: "generation_ok env (es_invalidate env r u s) \<and> es_ids s \<le> es_ids (es_invalidate env r u s) \<and>
      es_serverId (es_invalidate env r u s) = es_serverId s \<and> es_relayInstanceId (es_invalidate env r u s) = es_relayInstanceId s" for r u
    using fold_resets [of _ env r "es_subscribers s"] by (simp add: es_invalidate_def generation_ok_def es_same_def Let_def)
  have same: ?thesis if "same_generation s (es_step env op s)" using that assms by (simp add: same_generation_def generation_ok_def)
  show ?thesis
  proof (cases op)
    case (EsPublish input)
    consider "es_publish env input s = s" | r where "es_publish env input s = es_invalidate env r False s"
      | b where "es_publish env input s = fold (es_deliver env b) (es_subscribers s) (es_append b s)"
      using es_publish_cases [of env input s] unfolding Let_def by blast
    then show ?thesis
    proof cases
      case 1
      then show ?thesis using same EsPublish by (simp add: same_generation_def)
    next
      case (2 r)
      then show ?thesis using inv EsPublish by simp
    next
      case (3 b)
      then show ?thesis using same EsPublish es_append_generation [of s b] fold_deliver_generation [of "es_append b s" env b "es_subscribers s"]
        by (simp add: same_generation_def)
    qed
  next
    case (EsSubscribe f since)
    have "same_generation s (snd (es_subscribe env f since s))"
      by (simp add: es_subscribe_def Let_def same_generation_def es_replay_generation [unfolded same_generation_def])
    then show ?thesis using same EsSubscribe by simp
  next
    case (EsDispose h)
    then show ?thesis using same by (simp add: same_generation_def es_dispose_def)
  qed (use inv in \<open>simp_all add: es_close_def\<close>)
qed

lemma es_fold_generation:
  assumes "generation_ok env s"
  shows "generation_ok env (fold (es_step env) ops s) \<and> es_ids s \<le> es_ids (fold (es_step env) ops s) \<and>
    es_serverId (fold (es_step env) ops s) = es_serverId s \<and> es_relayInstanceId (fold (es_step env) ops s) = es_relayInstanceId s"
  using assms
proof (induction ops arbitrary: s)
  case (Cons op ops)
  show ?case using Cons.IH [of "es_step env op s"] es_step_generation [OF Cons.prems, of op] by simp
qed simp

lemma es_run_fold: "fst (es_run env s ops) = fold (es_step env) ops s"
proof -
  have "fst (fold (hist_step env) ops S) = fold (es_step env) ops (fst S)" for S
    by (induction ops arbitrary: S) (simp_all add: hist_step_def Let_def)
  then show ?thesis by (simp add: es_run_def)
qed

subsection \<open>Properties\<close>

definition sample_env :: "unit stream_env" where
  "sample_env = \<lparr>ev_createId = (\<lambda>n. replicate (Suc n) (CHR ''g'')), ev_encodedBytes = (\<lambda>cs. 40 * int (length cs)),
     ev_rest = (\<lambda>_. True), ev_emits = (\<lambda>_ _ _. True)\<rparr>"

definition sample_limits :: window_limits where
  "sample_limits = \<lparr>wl_bytes = 100, wl_items = 2, wl_subscriptions = 4\<rparr>"

definition sample_stream :: "unit event_stream" where
  "sample_stream = (case new_event_stream sample_env ''s'' ''r'' sample_limits of Inr s \<Rightarrow> s)"

lemma sample_stream_new: "new_event_stream sample_env ''s'' ''r'' sample_limits = Inr sample_stream"
  by (simp add: sample_stream_def new_event_stream_def sample_limits_def isSafeInteger_def MAX_SAFE_INTEGER_def)

definition sample_change :: "number \<Rightarrow> unit business_change" where
  "sample_change n = Upsert (ConfigRec ''server'' n ())"

definition sample_stream_ops :: "unit es_op list" where
  "sample_stream_ops = [EsPublish [sample_change 1],
     EsSubscribe (Some [KConfig]) \<lparr>bc_serverId = ''s'', bc_relayInstanceId = ''r'', bc_streamId = ''g'', bc_sequence = 1, bc_filter = ''config''\<rparr>,
     EsPublish [sample_change 2, Delete KTab ''t''], EsPublish [sample_change 3]]"

text \<open>
  C4. Every live subscriber was given exactly the batches published after its position, each once, in order and
  filtered to its kinds: the frames it took are those of the batches of the current generation with
  sequence numbers above the one it subscribed from, and its cursor is the stream's. The batches of a
  generation are numbered 1, 2, 3, ... without a gap.
\<close>

theorem stream_delivery_exact:
  assumes "new_event_stream env serverId relayInstanceId limits = Inr s0" and "es_run env s0 ops = (s, hist)"
    and "h \<in> set (es_subscribers s)" and "es_heap s ! h = sub"
  shows "sb_log sub = map (batch_frame (es_cursor s (sb_filter sub)) (sb_filter sub)) (filter (\<lambda>b. sb_since sub < ba_sequence b) hist) \<and>
    sb_cursor sub = es_cursor s (sb_filter sub) \<and> map ba_sequence hist = [1..es_sequence s]"
proof -
  have "es_inv hist s"
    using es_run_inv [of "(s0, [])" env ops] new_event_stream_inv [OF assms(1)] assms(2) by (simp add: es_run_def)
  then show ?thesis using assms(3,4) by (auto simp: es_inv_def es_window_ok_def sub_ok_def)
qed

theorem stream_delivery_exact_witness:
  "(let s = fst (es_run sample_env sample_stream sample_stream_ops); sub = es_heap s ! 0 in
    es_subscribers s = [0] \<and> map (\<lambda>f. case f of Changes a c ch \<Rightarrow> (bc_sequence c, ch) | _ \<Rightarrow> (0, [])) (sb_log sub) = [(2, [sample_change 2]), (3, [sample_change 3])] \<and>
    sb_cursor sub = es_cursor s (sb_filter sub))"
proof -
  let ?r = "es_run sample_env sample_stream sample_stream_ops"
  have "es_subscribers (fst ?r) = [0]" by code_simp
  moreover have "map (\<lambda>f. case f of Changes a c ch \<Rightarrow> (bc_sequence c, ch) | _ \<Rightarrow> (0, [])) (map (batch_frame (es_cursor (fst ?r) (sb_filter (es_heap (fst ?r) ! 0)))
      (sb_filter (es_heap (fst ?r) ! 0))) (filter (\<lambda>b. sb_since (es_heap (fst ?r) ! 0) < ba_sequence b) (snd ?r))) =
      [(2, [sample_change 2]), (3, [sample_change 3])]" by code_simp
  ultimately show ?thesis
    using stream_delivery_exact [OF sample_stream_new, of sample_stream_ops "fst ?r" "snd ?r" 0, OF _ _ refl] by (simp add: Let_def)
qed

text \<open>
  C35. The stream keeps within its limits: \<open>retained\<close> never reports more bytes, batches or subscriptions than
  allowed, the byte count is the sum over the window, and the window is a suffix of the generation's history.
\<close>

theorem stream_retained_bounded:
  assumes "new_event_stream env serverId relayInstanceId limits = Inr s0" and "es_run env s0 ops = (s, hist)"
  shows "(case es_retained s of (bytes, items, subscriptions) \<Rightarrow>
    bytes \<le> wl_bytes (es_limits s) \<and> items \<le> wl_items (es_limits s) \<and> subscriptions \<le> wl_subscriptions (es_limits s) \<and>
    bytes = sum_list (map ba_bytes (es_window s))) \<and> es_window s = drop (length hist - length (es_window s)) hist"
proof -
  have inv: "es_inv hist s"
    using es_run_inv [of "(s0, [])" env ops] new_event_stream_inv [OF assms(1)] assms(2) by (simp add: es_run_def)
  then obtain k where k: "es_window s = drop k hist" by (auto simp: es_inv_def es_window_ok_def)
  then have "es_window s = drop (length hist - length (es_window s)) hist"
    by (cases "k \<le> length hist") simp_all
  then show ?thesis using inv by (simp add: es_inv_def es_window_ok_def es_retained_def)
qed

theorem stream_retained_bounded_witness:
  "(let s = fst (es_run sample_env sample_stream sample_stream_ops) in
    es_retained s = (40, 1, 1)) \<and>
   fst (es_retained (fst (es_run sample_env sample_stream sample_stream_ops))) \<le> 100"
proof -
  let ?s = "fst (es_run sample_env sample_stream sample_stream_ops)"
  have "es_retained ?s = (40, 1, 1)" "wl_bytes (es_limits ?s) = 100" by code_simp+
  then show ?thesis
    using stream_retained_bounded [OF sample_stream_new, of sample_stream_ops ?s "snd (es_run sample_env sample_stream sample_stream_ops)"]
    by (simp add: Let_def split: prod.splits)
qed

text \<open>
  C36. A cursor does not outlive its generation: once the stream was invalidated (the journal overflowed, a
  publication was uncertain, the authority was closed), a subscription from a cursor taken before is
  refused with \<open>generation\<close> or \<open>unavailable\<close>, provided \<open>createId\<close> never repeats an id.
\<close>

theorem stream_generation_fenced:
  assumes "inj (ev_createId env)" and "new_event_stream env serverId relayInstanceId limits = Inr s0"
    and "s1 = fold (es_step env) ops s0" and "s2 = fold (es_step env) later s1" and "es_ids s2 \<noteq> es_ids s1"
  shows "es_subscribe env f (es_cursor s1 f') s2 \<in> {(Refused RsGeneration, s2), (Refused RsUnavailable, s2)}"
proof -
  have "generation_ok env s0" using assms(2) by (auto simp: new_event_stream_def generation_ok_def split: if_splits)
  from es_fold_generation [OF this, of ops] have g1: "generation_ok env s1" by (simp add: assms(3))
  from es_fold_generation [OF g1, of later] have g2: "generation_ok env s2" "es_serverId s2 = es_serverId s1" "es_relayInstanceId s2 = es_relayInstanceId s1"
    by (simp_all add: assms(4))
  have "es_ids s2 - 1 \<noteq> es_ids s1 - 1" using assms(5) g1 g2(1) by (auto simp: generation_ok_def)
  then have "es_streamId s2 \<noteq> es_streamId s1" using g1 g2(1) assms(1) by (simp add: generation_ok_def inj_eq)
  then show ?thesis using g2 by (auto simp: es_subscribe_def es_cursor_def)
qed

theorem stream_generation_fenced_witness:
  "fst (es_subscribe sample_env None (es_cursor (fold (es_step sample_env) [EsPublish [sample_change 1]] sample_stream) None)
     (fold (es_step sample_env) [EsInvalidate RsOverflow False] (fold (es_step sample_env) [EsPublish [sample_change 1]] sample_stream))) \<in>
   {Refused RsGeneration, Refused RsUnavailable}"
proof -
  let ?s1 = "fold (es_step sample_env) [EsPublish [sample_change 1]] sample_stream"
  let ?s2 = "fold (es_step sample_env) [EsInvalidate RsOverflow False] ?s1"
  have "inj (ev_createId sample_env)" by (auto simp: inj_def sample_env_def replicate_eq_replicate)
  moreover have "es_ids ?s2 \<noteq> es_ids ?s1" by code_simp
  ultimately show ?thesis
    using stream_generation_fenced [OF _ sample_stream_new refl refl, of "[EsInvalidate RsOverflow False]" "[EsPublish [sample_change 1]]" None None]
    by auto
qed

end
