(* ===== verification/Business_Mirror.thy ===== *)
theory Business_Mirror
  imports Business_Stream
begin

text \<open>
  \<open>BusinessMirror\<close> (\<^verbatim>\<open>packages/client/src/business-mirror.ts\<close>): the client's copy of the business facts. A paged snapshot
  is staged and installed as a whole; after it the mirror accepts change batches only in unbroken
  cursor order, and every irregularity discards the cursor, so that the next connection starts from a
  snapshot.

  A JavaScript \<open>Map\<close> is an association list in insertion order. Parameters (\<open>mirror_env\<close>): the encoded size of a
  record and the schemas of the uninspected fields. The notifier, which only schedules callbacks, is not
  modelled; \<open>mi_version\<close> counts its marks.
\<close>

record business_identity =
  bi_serverId :: ident
  bi_relayInstanceId :: ident

record 'x mirror_env =
  me_size :: "'x business_record \<Rightarrow> number"
  me_rest :: "'x business_record \<Rightarrow> bool"

record 'x mirror_entry =
  mn_value :: "'x business_record"
  mn_bytes :: number

type_synonym 'x mirror_records = "(string \<times> 'x mirror_entry) list"

record 'x mirror_stage =
  ms_id :: ident
  ms_page :: number
  ms_records :: "'x mirror_records"
  ms_bytes :: number

datatype mirror_status = MsIdle | MsStale | MsSnapshot | MsCurrent | MsDisposed

record 'x mirror =
  mi_status :: mirror_status
  mi_version :: number
  mi_identity :: "business_identity option"
  mi_target :: "business_identity option"
  mi_cursor :: "business_cursor option"
  mi_records :: "'x mirror_records"
  mi_bytes :: number
  mi_stage :: "'x mirror_stage option"
  mi_initialized :: bool
  mi_ready :: bool
  mi_lastError :: "string option"
  mi_filter :: business_filter
  mi_kinds :: "business_kind list"

text \<open>The result of a call: \<^const>\<open>Inl\<close> the reason of \<open>ok: false\<close>.\<close>

type_synonym mirror_result = "string + unit"

definition record_key :: "business_kind \<Rightarrow> string \<Rightarrow> string" where
  "record_key kind i = stringify (JsArr [JsStr (kind_name kind), JsStr i])"

abbreviation value_key :: "'x business_record \<Rightarrow> string" where
  "value_key v \<equiv> record_key (rec_kind v) (rec_id v)"

definition finalOperation :: "string \<Rightarrow> bool" where
  "finalOperation state \<longleftrightarrow> state \<in> {''succeeded'', ''failed'', ''cancelled''}"

definition activeRun :: "run_lifecycle \<Rightarrow> bool" where
  "activeRun l \<longleftrightarrow> l = LcStarting \<or> l = LcRunning"

text \<open>The constructor throws on an invalid filter.\<close>

definition new_mirror :: "business_filter \<Rightarrow> 'x mirror option" where
  "new_mirror f =
     (if \<not> BusinessFilterSchema f then None
      else Some \<lparr>mi_status = MsIdle, mi_version = 0, mi_identity = None, mi_target = None, mi_cursor = None, mi_records = [],
        mi_bytes = 2, mi_stage = None, mi_initialized = False, mi_ready = False, mi_lastError = None, mi_filter = f,
        mi_kinds = normalizedBusinessKinds f\<rparr>)"

definition mi_changed :: "'x mirror \<Rightarrow> 'x mirror" where
  "mi_changed m = m\<lparr>mi_version := mi_version m + 1\<rparr>"

record 'x mirror_snapshot =
  sn_status :: mirror_status
  sn_version :: number
  sn_identity :: "business_identity option"
  sn_cursor :: "business_cursor option"
  sn_records :: "'x business_record list"
  sn_bytes :: number
  sn_stagingItems :: number
  sn_lastError :: "string option"

definition mi_snapshot :: "'x mirror \<Rightarrow> 'x mirror_snapshot" where
  "mi_snapshot m = \<lparr>sn_status = mi_status m, sn_version = mi_version m, sn_identity = mi_identity m, sn_cursor = mi_cursor m,
     sn_records = map (mn_value \<circ> snd) (mi_records m), sn_bytes = mi_bytes m,
     sn_stagingItems = (case mi_stage m of None \<Rightarrow> 0 | Some stage \<Rightarrow> int (length (ms_records stage))), sn_lastError = mi_lastError m\<rparr>"

definition mi_resumeCursor :: "business_identity \<Rightarrow> 'x mirror \<Rightarrow> business_cursor option" where
  "mi_resumeCursor target m = (case mi_cursor m of
     None \<Rightarrow> None
   | Some c \<Rightarrow> if bc_serverId c = bi_serverId target \<and> bc_relayInstanceId c = bi_relayInstanceId target then Some c else None)"

definition mi_stale :: "string \<Rightarrow> bool \<Rightarrow> 'x mirror \<Rightarrow> 'x mirror" where
  "mi_stale reason discardCursor m =
     (if mi_status m = MsDisposed then m
      else mi_changed (m\<lparr>mi_status := MsStale, mi_stage := None, mi_ready := False, mi_lastError := Some reason,
             mi_cursor := (if discardCursor then None else mi_cursor m)\<rparr>))"

definition mi_fail :: "string \<Rightarrow> 'x mirror \<Rightarrow> mirror_result \<times> 'x mirror" where
  "mi_fail reason m = (Inl reason, mi_stale reason True m)"

definition mi_begin :: "business_identity \<Rightarrow> business_cursor option \<Rightarrow> 'x mirror \<Rightarrow> mirror_result \<times> 'x mirror" where
  "mi_begin target since m =
     (if mi_status m = MsDisposed then (Inl ''disposed'', m)
      else if \<not> OpaqueIdSchema (bi_serverId target) \<or> \<not> OpaqueIdSchema (bi_relayInstanceId target) then mi_fail ''identity'' m
      else let resumable = mi_resumeCursor target m in
        if (case since of None \<Rightarrow> False | Some c \<Rightarrow> (case resumable of None \<Rightarrow> True | Some r \<Rightarrow> \<not> sameBusinessCursor c r))
        then mi_fail ''cursor'' m
        else (Inr (), mi_changed (m\<lparr>mi_target := Some target, mi_cursor := since, mi_stage := None, mi_initialized := since \<noteq> None,
               mi_ready := False, mi_status := MsStale, mi_lastError := None\<rparr>)))"

definition mi_bound :: "business_identity \<Rightarrow> 'x mirror \<Rightarrow> business_cursor \<Rightarrow> bool" where
  "mi_bound target m cursor \<longleftrightarrow> bc_serverId cursor = bi_serverId target \<and> bc_relayInstanceId cursor = bi_relayInstanceId target \<and>
     bc_filter cursor = businessFilterIdentity (mi_filter m)"

definition mi_validRecord :: "business_identity \<Rightarrow> 'x mirror \<Rightarrow> 'x business_record \<Rightarrow> bool" where
  "mi_validRecord target m v \<longleftrightarrow> rec_kind v \<in> set (mi_kinds m) \<and>
     (case v of
        RunRec i run _ _ _ _ \<Rightarrow> i = businessRunId run \<and> rr_serverId run = bi_serverId target
      | RuntimeRec i f \<Rightarrow> i = businessRunId (bf_run f) \<and> rr_serverId (bf_run f) = bi_serverId target \<and>
          rr_relayInstanceId (bf_run f) = bi_relayInstanceId target
      | RepoRec i repoId _ _ \<Rightarrow> i = repoId
      | TaskRec i taskId _ _ \<Rightarrow> i = taskId
      | TabRec i tabId _ _ _ \<Rightarrow> i = tabId
      | OperationRec i operationId _ _ _ \<Rightarrow> i = operationId
      | ConfigRec _ _ _ \<Rightarrow> True)"

text \<open>The loop over the records of a snapshot page.\<close>

fun stage_records ::
  "'x mirror_env \<Rightarrow> ('x business_record \<Rightarrow> bool) \<Rightarrow> 'x business_record list \<Rightarrow> 'x mirror_stage \<Rightarrow> string + 'x mirror_stage" where
  "stage_records env valid [] stage = Inr stage"
| "stage_records env valid (v # vs) stage =
     (if \<not> valid v \<or> map_of (ms_records stage) (value_key v) \<noteq> None then Inl ''snapshot-record''
      else let bytes = me_size env v;
               stage' = stage\<lparr>ms_bytes := ms_bytes stage + (bytes + (if ms_records stage \<noteq> [] then 1 else 0)),
                 ms_records := AList.update (value_key v) \<lparr>mn_value = v, mn_bytes = bytes\<rparr> (ms_records stage)\<rparr>
           in if int (length (ms_records stage')) > LIMIT_snapshotItems \<or> ms_bytes stage' > LIMIT_snapshotBytes
              then Inl ''capacity'' else stage_records env valid vs stage')"

text \<open>The loop over the changes of a batch.\<close>

definition outdated :: "'x business_record option \<Rightarrow> 'x business_record \<Rightarrow> bool" where
  "outdated previous v \<longleftrightarrow> (case previous of
     None \<Rightarrow> False
   | Some p \<Rightarrow> (case (record_revision p, record_revision v) of (Some a, Some b) \<Rightarrow> a > b | _ \<Rightarrow> False))"

fun apply_changes ::
  "'x mirror_env \<Rightarrow> ('x business_record \<Rightarrow> bool) \<Rightarrow> business_kind list \<Rightarrow> 'x business_change list \<Rightarrow> 'x mirror_records \<Rightarrow>
     string + 'x mirror_records" where
  "apply_changes env valid kinds [] recs = Inr recs"
| "apply_changes env valid kinds (Delete kind i # cs) recs =
     (if kind \<notin> set kinds then Inl ''filter'' else apply_changes env valid kinds cs (AList.delete (record_key kind i) recs))"
| "apply_changes env valid kinds (Upsert v # cs) recs =
     (if \<not> valid v then Inl ''record''
      else if outdated (map_option mn_value (map_of recs (value_key v))) v then apply_changes env valid kinds cs recs
      else apply_changes env valid kinds cs (AList.update (value_key v) \<lparr>mn_value = v, mn_bytes = me_size env v\<rparr> recs))"

text \<open>\<open>pruneHistory\<close>: the tables of the latest run per tab, then the deletions.\<close>

fun note_latest :: "'x business_record \<Rightarrow> (ident \<times> string) list \<Rightarrow> (ident \<times> string) list" where
  "note_latest (TabRec i _ _ (Some run) _) latest = AList.update i (businessRunId run) latest"
| "note_latest _ latest = latest"

text \<open>\<open>newest\<close>: the newest run of each tab, as its id and start time.\<close>

fun note_newest :: "'x business_record \<Rightarrow> (ident \<times> string \<times> number) list \<Rightarrow> (ident \<times> string \<times> number) list" where
  "note_newest (RunRec i _ (Some tab) _ startedAtMs _) newest =
     (case map_of newest tab of
        None \<Rightarrow> AList.update tab (i, startedAtMs) newest
      | Some prior \<Rightarrow> if startedAtMs \<ge> snd prior then AList.update tab (i, startedAtMs) newest else newest)"
| "note_newest _ newest = newest"

definition latest_runs :: "'x business_record list \<Rightarrow> (ident \<times> string) list" where
  "latest_runs vs =
     (let latest = fold note_latest vs []; newest = fold note_newest vs []
      in fold (\<lambda>(tab, i, _) latest. if map_of latest tab = None then AList.update tab i latest else latest) newest latest)"

fun pruned :: "(ident \<times> string) list \<Rightarrow> 'x business_record \<Rightarrow> bool" where
  "pruned latest (OperationRec _ _ _ state _) \<longleftrightarrow> finalOperation state"
| "pruned latest (RunRec i _ tab lifecycle _ _) \<longleftrightarrow>
     \<not> activeRun lifecycle \<and> (case tab of None \<Rightarrow> True | Some t \<Rightarrow> map_of latest t \<noteq> Some i)"
| "pruned latest _ \<longleftrightarrow> False"

definition mi_pruneHistory :: "'x mirror_records \<Rightarrow> 'x mirror_records" where
  "mi_pruneHistory recs =
     (let latest = latest_runs (map (mn_value \<circ> snd) recs) in filter (\<lambda>(k, e). \<not> pruned latest (mn_value e)) recs)"

definition records_bytes :: "'x mirror_records \<Rightarrow> number" where
  "records_bytes recs = 2 + max 0 (int (length recs) - 1) + sum_list (map (mn_bytes \<circ> snd) recs)"

fun frame_cursor :: "'x business_frame \<Rightarrow> business_cursor option" where
  "frame_cursor (SnapshotEnd _ _ c) = Some c"
| "frame_cursor (Ready c) = Some c"
| "frame_cursor (Changes _ c _) = Some c"
| "frame_cursor _ = None"

fun mi_handle :: "'x mirror_env \<Rightarrow> business_identity \<Rightarrow> 'x business_frame \<Rightarrow> 'x mirror \<Rightarrow> mirror_result \<times> 'x mirror" where
  "mi_handle env target (SnapshotBegin i) m =
     (if mi_initialized m \<or> mi_stage m \<noteq> None then mi_fail ''snapshot-order'' m
      else (Inr (), mi_changed (m\<lparr>mi_stage := Some \<lparr>ms_id = i, ms_page = 0, ms_records = [], ms_bytes = 2\<rparr>, mi_status := MsSnapshot\<rparr>)))"
| "mi_handle env target (SnapshotPage i page records) m = (case mi_stage m of
     None \<Rightarrow> mi_fail ''snapshot-order'' m
   | Some stage \<Rightarrow>
       if ms_id stage \<noteq> i \<or> ms_page stage \<noteq> page then mi_fail ''snapshot-order'' m
       else case stage_records env (mi_validRecord target m) records stage of
         Inl reason \<Rightarrow> mi_fail reason m
       | Inr stage \<Rightarrow> (Inr (), mi_changed (m\<lparr>mi_stage := Some (stage\<lparr>ms_page := ms_page stage + 1\<rparr>)\<rparr>)))"
| "mi_handle env target (SnapshotEnd i pages cursor) m = (case mi_stage m of
     None \<Rightarrow> mi_fail ''snapshot-order'' m
   | Some stage \<Rightarrow>
       if ms_id stage \<noteq> i \<or> ms_page stage \<noteq> pages then mi_fail ''snapshot-order'' m
       else (Inr (), mi_changed (m\<lparr>mi_records := ms_records stage, mi_bytes := ms_bytes stage, mi_identity := Some target,
              mi_stage := None, mi_initialized := True, mi_cursor := Some cursor, mi_status := MsStale\<rparr>)))"
| "mi_handle env target (Changes after cursor changes) m =
     (if \<not> mi_initialized m then mi_fail ''gap'' m
      else case mi_cursor m of
        None \<Rightarrow> mi_fail ''gap'' m
      | Some current \<Rightarrow>
          if \<not> sameBusinessCursor after current \<or> bc_sequence cursor \<noteq> bc_sequence current + 1 \<or>
             \<not> sameBusinessCursor (cursor\<lparr>bc_sequence := bc_sequence current\<rparr>) current
          then mi_fail ''gap'' m
          else case apply_changes env (mi_validRecord target m) (mi_kinds m) changes (mi_records m) of
            Inl reason \<Rightarrow> mi_fail reason m
          | Inr recs \<Rightarrow>
              let recs = mi_pruneHistory recs; bytes = records_bytes recs in
              if int (length recs) > LIMIT_snapshotItems \<or> bytes > LIMIT_snapshotBytes then mi_fail ''capacity'' m
              else (Inr (), mi_changed (m\<lparr>mi_records := recs, mi_bytes := bytes, mi_cursor := Some cursor\<rparr>)))"
| "mi_handle env target (Ready cursor) m =
     (if mi_ready m \<or> \<not> mi_initialized m \<or> (case mi_cursor m of None \<Rightarrow> True | Some c \<Rightarrow> \<not> sameBusinessCursor cursor c)
      then mi_fail ''ready'' m
      else (Inr (), mi_changed (m\<lparr>mi_ready := True, mi_status := MsCurrent\<rparr>)))"
| "mi_handle env target (Reset reason) m = mi_fail (reset_name reason) m"
| "mi_handle env target (ErrorFrame reason) m = mi_fail (error_name reason) m"

definition mi_accept :: "'x mirror_env \<Rightarrow> 'x business_frame \<Rightarrow> 'x mirror \<Rightarrow> mirror_result \<times> 'x mirror" where
  "mi_accept env frame m =
     (if mi_status m = MsDisposed then (Inl ''disposed'', m)
      else case mi_target m of
        None \<Rightarrow> mi_fail ''identity'' m
      | Some target \<Rightarrow>
          if \<not> BusinessFrameSchema (me_rest env) frame then mi_fail ''frame'' m
          else if (case frame_cursor frame of None \<Rightarrow> False | Some c \<Rightarrow> \<not> mi_bound target m c) then mi_fail ''cursor'' m
          else mi_handle env target frame m)"

definition mi_dispose :: "'x mirror \<Rightarrow> 'x mirror" where
  "mi_dispose m =
     (if mi_status m = MsDisposed then m
      else mi_changed (m\<lparr>mi_status := MsDisposed, mi_stage := None, mi_cursor := None, mi_records := [], mi_bytes := 2\<rparr>))"

subsection \<open>Keys and sizes\<close>

lemma record_key_inj: "record_key k i = record_key l j \<longleftrightarrow> k = l \<and> i = j"
  using pair_key_inj [of "kind_name k" i "kind_name l" j] by (simp add: record_key_def pair_key_def kind_name_inj)

definition recs_ok :: "'x mirror_env \<Rightarrow> business_kind list \<Rightarrow> 'x mirror_records \<Rightarrow> bool" where
  "recs_ok env kinds recs \<longleftrightarrow> distinct_keys recs \<and>
     (\<forall>(k, e) \<in> set recs. k = value_key (mn_value e) \<and> mn_bytes e = me_size env (mn_value e) \<and> rec_kind (mn_value e) \<in> set kinds)"

lemma recs_ok_Nil [simp]: "recs_ok env kinds []"
  by (simp add: recs_ok_def)

lemma recs_ok_update:
  assumes "recs_ok env kinds recs" and "rec_kind v \<in> set kinds"
  shows "recs_ok env kinds (AList.update (value_key v) \<lparr>mn_value = v, mn_bytes = me_size env v\<rparr> recs)"
proof -
  have d: "distinct_keys recs" using assms(1) by (simp add: recs_ok_def)
  show ?thesis using assms distinct_keys_update [OF d] unfolding recs_ok_def set_update_distinct [OF d] by auto
qed

lemma recs_ok_delete: "recs_ok env kinds recs \<Longrightarrow> recs_ok env kinds (AList.delete k recs)"
  unfolding recs_ok_def using distinct_keys_delete by (auto simp: AList.delete_eq)

lemma recs_ok_filter: "recs_ok env kinds recs \<Longrightarrow> recs_ok env kinds (filter P recs)"
  unfolding recs_ok_def by (auto intro: distinct_map_filter)

lemma records_bytes_snoc: "records_bytes (recs @ [(k, e)]) = records_bytes recs + mn_bytes e + (if recs \<noteq> [] then 1 else 0)"
  by (cases recs) (simp_all add: records_bytes_def)

text \<open>A set of records within the limits, with its size.\<close>

definition view_ok :: "'x mirror_env \<Rightarrow> business_kind list \<Rightarrow> 'x mirror_records \<Rightarrow> number \<Rightarrow> bool" where
  "view_ok env kinds recs bytes \<longleftrightarrow> recs_ok env kinds recs \<and> bytes = records_bytes recs \<and>
     int (length recs) \<le> LIMIT_snapshotItems \<and> bytes \<le> LIMIT_snapshotBytes"

lemma view_ok_Nil [simp]: "view_ok env kinds [] 2"
  by (simp add: view_ok_def records_bytes_def LIMIT_snapshotItems_def LIMIT_snapshotBytes_def)

lemma stage_records_ok:
  assumes "stage_records env valid vs stage = Inr stage'" and "view_ok env kinds (ms_records stage) (ms_bytes stage)"
    and "\<And>v. valid v \<Longrightarrow> rec_kind v \<in> set kinds"
  shows "view_ok env kinds (ms_records stage') (ms_bytes stage') \<and> ms_id stage' = ms_id stage \<and> ms_page stage' = ms_page stage \<and>
    map (mn_value \<circ> snd) (ms_records stage') = map (mn_value \<circ> snd) (ms_records stage) @ vs \<and> list_all valid vs"
  using assms(1,2)
proof (induction vs arbitrary: stage)
  case (Cons v vs)
  let ?e = "\<lparr>mn_value = v, mn_bytes = me_size env v\<rparr>"
  let ?stage = "stage\<lparr>ms_bytes := ms_bytes stage + (me_size env v + (if ms_records stage \<noteq> [] then 1 else 0)),
    ms_records := AList.update (value_key v) ?e (ms_records stage)\<rparr>"
  have v: "valid v" "map_of (ms_records stage) (value_key v) = None" and
    lim: "int (length (ms_records ?stage)) \<le> LIMIT_snapshotItems" "ms_bytes ?stage \<le> LIMIT_snapshotBytes" and
    rest: "stage_records env valid vs ?stage = Inr stage'"
    using Cons.prems(1) by (auto simp: Let_def split: if_splits)
  have app: "ms_records ?stage = ms_records stage @ [(value_key v, ?e)]" using update_new_append [OF v(2)] by simp
  have "recs_ok env kinds (ms_records ?stage)"
    using recs_ok_update [of env kinds "ms_records stage" v] Cons.prems(2) assms(3) [OF v(1)] by (simp add: view_ok_def)
  moreover have "ms_bytes ?stage = records_bytes (ms_records ?stage)"
    unfolding app records_bytes_snoc using Cons.prems(2) by (simp add: view_ok_def)
  ultimately have "view_ok env kinds (ms_records ?stage) (ms_bytes ?stage)" using lim by (simp add: view_ok_def)
  from Cons.IH [OF rest this] show ?case using v(1) app by simp
qed simp

subsection \<open>Changes as updates of a map\<close>

text \<open>What a set of records says about each resource, and what one change means for it.\<close>

definition mirror_map :: "'x mirror_records \<Rightarrow> (business_kind \<times> string) \<rightharpoonup> 'x business_record" where
  "mirror_map recs p = map_option mn_value (map_of recs (record_key (fst p) (snd p)))"

fun change_spec :: "'x business_change \<Rightarrow> ((business_kind \<times> string) \<rightharpoonup> 'x business_record) \<Rightarrow> (business_kind \<times> string) \<rightharpoonup> 'x business_record" where
  "change_spec (Upsert v) m = (if outdated (m (rec_kind v, rec_id v)) v then m else m((rec_kind v, rec_id v) \<mapsto> v))"
| "change_spec (Delete k i) m = m((k, i) := None)"

lemma mirror_map_update:
  "mirror_map (AList.update (value_key v) e recs) = (mirror_map recs)((rec_kind v, rec_id v) \<mapsto> mn_value e)"
  by (auto simp: mirror_map_def fun_eq_iff record_key_inj)

lemma mirror_map_delete: "mirror_map (AList.delete (record_key k i) recs) = (mirror_map recs)((k, i) := None)"
  by (auto simp: mirror_map_def fun_eq_iff record_key_inj)

lemma apply_changes_spec:
  "apply_changes env valid kinds cs recs = Inr recs' \<Longrightarrow> mirror_map recs' = fold change_spec cs (mirror_map recs)"
proof (induction env valid kinds cs recs rule: apply_changes.induct)
  case (2 env valid kinds kind i cs recs)
  then show ?case by (simp add: mirror_map_delete fun_upd_def split: if_splits)
next
  case (3 env valid kinds v cs recs)
  have "map_option mn_value (map_of recs (value_key v)) = mirror_map recs (rec_kind v, rec_id v)" by (simp add: mirror_map_def)
  then show ?case using 3 by (auto simp: mirror_map_update fun_upd_def split: if_splits)
qed simp

lemma apply_changes_ok:
  "apply_changes env valid kinds cs recs = Inr recs' \<Longrightarrow> recs_ok env kinds recs \<Longrightarrow> (\<And>v. valid v \<Longrightarrow> rec_kind v \<in> set kinds) \<Longrightarrow>
     recs_ok env kinds recs'"
proof (induction env valid kinds cs recs rule: apply_changes.induct)
  case (2 env valid kinds kind i cs recs)
  then show ?case by (auto simp: recs_ok_delete split: if_splits)
next
  case (3 env valid kinds v cs recs)
  then show ?case by (auto simp: recs_ok_update split: if_splits)
qed simp

lemma apply_changes_reason:
  "apply_changes env valid kinds cs recs = Inl reason \<Longrightarrow> reason = ''record'' \<or> reason = ''filter'' \<and> (\<exists>c \<in> set cs. change_kind c \<notin> set kinds)"
  by (induction env valid kinds cs recs rule: apply_changes.induct) (auto split: if_splits)

lemma map_of_filter_values:
  "distinct_keys al \<Longrightarrow> map_of (filter (\<lambda>(k, e). P e) al) k = (case map_of al k of None \<Rightarrow> None | Some e \<Rightarrow> if P e then Some e else None)"
  by (induction al) (auto simp: map_of_eq_None_iff image_iff split: option.splits)

lemma mirror_map_prune:
  assumes "recs_ok env kinds recs"
  shows "mirror_map (mi_pruneHistory recs) =
    (\<lambda>p. case mirror_map recs p of None \<Rightarrow> None | Some v \<Rightarrow> if pruned (latest_runs (map (mn_value \<circ> snd) recs)) v then None else Some v)"
proof
  fix p
  have d: "distinct_keys recs" using assms by (simp add: recs_ok_def)
  show "mirror_map (mi_pruneHistory recs) p = (case mirror_map recs p of None \<Rightarrow> None
      | Some v \<Rightarrow> if pruned (latest_runs (map (mn_value \<circ> snd) recs)) v then None else Some v)"
    unfolding mirror_map_def mi_pruneHistory_def Let_def map_of_filter_values [OF d]
    by (cases "map_of recs (record_key (fst p) (snd p))") simp_all
qed

subsection \<open>The invariant\<close>

definition cursor_ok :: "business_filter \<Rightarrow> business_identity option \<Rightarrow> business_cursor option \<Rightarrow> bool" where
  "cursor_ok f i cursor \<longleftrightarrow> (case cursor of None \<Rightarrow> True | Some c \<Rightarrow>
     i = Some \<lparr>bi_serverId = bc_serverId c, bi_relayInstanceId = bc_relayInstanceId c\<rparr> \<and> bc_filter c = businessFilterIdentity f)"

definition mirror_ok :: "'x mirror_env \<Rightarrow> 'x mirror \<Rightarrow> bool" where
  "mirror_ok env m \<longleftrightarrow> mi_kinds m = normalizedBusinessKinds (mi_filter m) \<and> view_ok env (mi_kinds m) (mi_records m) (mi_bytes m) \<and>
     (\<forall>stage. mi_stage m = Some stage \<longrightarrow> view_ok env (mi_kinds m) (ms_records stage) (ms_bytes stage) \<and> \<not> mi_initialized m) \<and>
     cursor_ok (mi_filter m) (mi_identity m) (mi_cursor m) \<and>
     (mi_initialized m \<and> mi_cursor m \<noteq> None \<longrightarrow> mi_identity m = mi_target m) \<and>
     (mi_ready m \<longrightarrow> mi_initialized m) \<and>
     (mi_status m = MsCurrent \<longrightarrow> mi_ready m \<and> mi_cursor m \<noteq> None)"

lemma cursor_ok_None [simp]: "cursor_ok f i None"
  by (simp add: cursor_ok_def)

lemma mi_changed_simps [simp]:
  "mi_status (mi_changed m) = mi_status m" "mi_identity (mi_changed m) = mi_identity m" "mi_target (mi_changed m) = mi_target m"
  "mi_cursor (mi_changed m) = mi_cursor m" "mi_records (mi_changed m) = mi_records m" "mi_bytes (mi_changed m) = mi_bytes m"
  "mi_stage (mi_changed m) = mi_stage m" "mi_initialized (mi_changed m) = mi_initialized m" "mi_ready (mi_changed m) = mi_ready m"
  "mi_lastError (mi_changed m) = mi_lastError m" "mi_filter (mi_changed m) = mi_filter m" "mi_kinds (mi_changed m) = mi_kinds m"
  by (simp_all add: mi_changed_def)

lemma mirror_ok_changed [simp]: "mirror_ok env (mi_changed m) \<longleftrightarrow> mirror_ok env m"
  by (simp add: mirror_ok_def)

lemma mirror_ok_view: "mirror_ok env m \<Longrightarrow> view_ok env (mi_kinds m) (mi_records m) (mi_bytes m)"
  unfolding mirror_ok_def by blast

lemma mirror_ok_stage: "mirror_ok env m \<Longrightarrow> mi_stage m = Some stage \<Longrightarrow> view_ok env (mi_kinds m) (ms_records stage) (ms_bytes stage)"
  unfolding mirror_ok_def by blast

lemma new_mirror_ok: "new_mirror f = Some m \<Longrightarrow> mirror_ok env m"
  by (auto simp: new_mirror_def mirror_ok_def split: if_splits)

lemma mi_stale_ok: "mirror_ok env m \<Longrightarrow> mirror_ok env (mi_stale reason d m)"
  by (auto simp: mi_stale_def mirror_ok_def)

lemma mi_fail_ok: "mirror_ok env m \<Longrightarrow> mirror_ok env (snd (mi_fail reason m))"
  by (simp add: mi_fail_def mi_stale_ok)

lemma mi_dispose_ok: "mirror_ok env m \<Longrightarrow> mirror_ok env (mi_dispose m)"
  by (auto simp: mi_dispose_def mirror_ok_def)

lemma mi_resumeCursor_Some:
  "mi_resumeCursor target m = Some c \<longleftrightarrow> mi_cursor m = Some c \<and> target = \<lparr>bi_serverId = bc_serverId c, bi_relayInstanceId = bc_relayInstanceId c\<rparr>"
  by (cases target) (auto simp: mi_resumeCursor_def split: option.splits)

lemma mi_begin_ok:
  assumes ok: "mirror_ok env m"
  shows "mirror_ok env (snd (mi_begin target since m))"
proof -
  have good: "mirror_ok env (m\<lparr>mi_target := Some target, mi_cursor := since, mi_stage := None, mi_initialized := since \<noteq> None,
      mi_ready := False, mi_status := MsStale, mi_lastError := None\<rparr>)" if "since = None \<or> mi_resumeCursor target m = since"
  proof (cases since)
    case None
    then show ?thesis using ok by (auto simp: mirror_ok_def)
  next
    case (Some c)
    then have "mi_cursor m = Some c" "target = \<lparr>bi_serverId = bc_serverId c, bi_relayInstanceId = bc_relayInstanceId c\<rparr>"
      using that mi_resumeCursor_Some by auto
    then show ?thesis using ok Some by (auto simp: mirror_ok_def cursor_ok_def)
  qed
  show ?thesis
  proof (cases "since = None \<or> mi_resumeCursor target m = since")
    case True
    then show ?thesis using ok mi_fail_ok [OF ok] good [OF True] by (simp add: mi_begin_def Let_def split: option.split)
  next
    case False
    then show ?thesis using ok mi_fail_ok [OF ok] by (auto simp: mi_begin_def Let_def split: option.splits)
  qed
qed

lemma mi_validRecord_kind: "mi_validRecord target m v \<Longrightarrow> rec_kind v \<in> set (mi_kinds m)"
  by (simp add: mi_validRecord_def)

lemma mi_page_ok:
  assumes ok: "mirror_ok env m" and "mi_stage m = Some stage" and "stage_records env (mi_validRecord target m) vs stage = Inr stage'"
  shows "mirror_ok env (mi_changed (m\<lparr>mi_stage := Some (stage'\<lparr>ms_page := n\<rparr>)\<rparr>))"
proof -
  have "view_ok env (mi_kinds m) (ms_records stage') (ms_bytes stage')"
    using stage_records_ok [OF assms(3) mirror_ok_stage [OF ok assms(2)] mi_validRecord_kind [of target m]] by blast
  then show ?thesis using ok assms(2) by (auto simp: mirror_ok_def)
qed

lemma mi_changes_ok:
  assumes ok: "mirror_ok env m" and "apply_changes env (mi_validRecord target m) (mi_kinds m) cs (mi_records m) = Inr recs"
    and "mi_cursor m = Some current" and "cursor\<lparr>bc_sequence := bc_sequence current\<rparr> = current"
    and "int (length (mi_pruneHistory recs)) \<le> LIMIT_snapshotItems" and "records_bytes (mi_pruneHistory recs) \<le> LIMIT_snapshotBytes"
  shows "mirror_ok env (mi_changed (m\<lparr>mi_records := mi_pruneHistory recs, mi_bytes := records_bytes (mi_pruneHistory recs), mi_cursor := Some cursor\<rparr>))"
proof -
  have "recs_ok env (mi_kinds m) recs"
    using apply_changes_ok [OF assms(2) _ mi_validRecord_kind [of target m]] mirror_ok_view [OF ok] unfolding view_ok_def by blast
  then have "view_ok env (mi_kinds m) (mi_pruneHistory recs) (records_bytes (mi_pruneHistory recs))"
    using assms(5,6) by (simp add: view_ok_def mi_pruneHistory_def Let_def recs_ok_filter)
  moreover have "bc_serverId cursor = bc_serverId current" "bc_relayInstanceId cursor = bc_relayInstanceId current" "bc_filter cursor = bc_filter current"
    using arg_cong [OF assms(4), of bc_serverId] arg_cong [OF assms(4), of bc_relayInstanceId] arg_cong [OF assms(4), of bc_filter] by simp_all
  ultimately show ?thesis using ok assms(3) by (auto simp: mirror_ok_def cursor_ok_def)
qed

lemma mi_handle_ok:
  assumes ok: "mirror_ok env m" and target: "mi_target m = Some target"
    and bound: "\<And>c. frame_cursor frame = Some c \<Longrightarrow> mi_bound target m c"
  shows "mirror_ok env (snd (mi_handle env target frame m))"
proof (cases frame)
  case (SnapshotBegin i)
  have "\<not> mi_initialized m \<Longrightarrow> mirror_ok env (m\<lparr>mi_stage := Some \<lparr>ms_id = i, ms_page = 0, ms_records = [], ms_bytes = 2\<rparr>, mi_status := MsSnapshot\<rparr>)"
    using ok by (auto simp: mirror_ok_def)
  then show ?thesis using mi_fail_ok [OF ok] SnapshotBegin by simp
next
  case (SnapshotPage i page vs)
  then show ?thesis using mi_fail_ok [OF ok] mi_page_ok [OF ok] by (auto split: option.split sum.split)
next
  case (SnapshotEnd i pages c)
  have "target = \<lparr>bi_serverId = bc_serverId c, bi_relayInstanceId = bc_relayInstanceId c\<rparr>" "bc_filter c = businessFilterIdentity (mi_filter m)"
    using bound [of c] SnapshotEnd by (cases target, auto simp: mi_bound_def)+
  then have "mi_stage m = Some stage \<Longrightarrow> mirror_ok env (m\<lparr>mi_records := ms_records stage, mi_bytes := ms_bytes stage, mi_identity := Some target,
      mi_stage := None, mi_initialized := True, mi_cursor := Some c, mi_status := MsStale\<rparr>)" for stage
    using ok target by (auto simp: mirror_ok_def cursor_ok_def)
  then show ?thesis using mi_fail_ok [OF ok] SnapshotEnd by (auto split: option.split)
next
  case (Changes after c cs)
  then show ?thesis using mi_fail_ok [OF ok] mi_changes_ok [OF ok] by (auto simp: Let_def split: option.split sum.split)
next
  case (Ready c)
  have "mi_initialized m \<Longrightarrow> mi_cursor m \<noteq> None \<Longrightarrow> mirror_ok env (m\<lparr>mi_ready := True, mi_status := MsCurrent\<rparr>)"
    using ok by (auto simp: mirror_ok_def)
  then show ?thesis using mi_fail_ok [OF ok] Ready by (auto split: option.split)
qed (use mi_fail_ok [OF ok] in auto)

lemma mi_accept_ok:
  assumes "mirror_ok env m"
  shows "mirror_ok env (snd (mi_accept env frame m))"
proof -
  have "mirror_ok env (snd (mi_handle env target frame m))"
    if "mi_target m = Some target" "\<not> (case frame_cursor frame of None \<Rightarrow> False | Some c \<Rightarrow> \<not> mi_bound target m c)" for target
    by (rule mi_handle_ok [OF assms that(1)]) (use that(2) in simp)
  then show ?thesis using assms mi_fail_ok [OF assms] by (simp add: mi_accept_def split: option.split)
qed

datatype 'x mi_op = MiBegin business_identity "business_cursor option" | MiStale string bool | MiAccept "'x business_frame" | MiDispose

fun mi_step :: "'x mirror_env \<Rightarrow> 'x mi_op \<Rightarrow> 'x mirror \<Rightarrow> 'x mirror" where
  "mi_step env (MiBegin target since) m = snd (mi_begin target since m)"
| "mi_step env (MiStale reason d) m = mi_stale reason d m"
| "mi_step env (MiAccept frame) m = snd (mi_accept env frame m)"
| "mi_step env MiDispose m = mi_dispose m"

lemma mi_step_ok: "mirror_ok env m \<Longrightarrow> mirror_ok env (mi_step env op m)"
  by (cases op) (simp_all add: mi_begin_ok mi_stale_ok mi_accept_ok mi_dispose_ok)

lemma mi_run_ok: "mirror_ok env m \<Longrightarrow> mirror_ok env (fold (mi_step env) ops m)"
  by (induction ops arbitrary: m) (simp_all add: mi_step_ok)

subsection \<open>Following a subscription\<close>

text \<open>What a batch does to the records of a mirror that accepts it.\<close>

fun change_apply :: "'x mirror_env \<Rightarrow> 'x business_change \<Rightarrow> 'x mirror_records \<Rightarrow> 'x mirror_records" where
  "change_apply env (Upsert v) recs =
     (if outdated (map_option mn_value (map_of recs (value_key v))) v then recs
      else AList.update (value_key v) \<lparr>mn_value = v, mn_bytes = me_size env v\<rparr> recs)"
| "change_apply env (Delete k i) recs = AList.delete (record_key k i) recs"

definition batch_apply :: "'x mirror_env \<Rightarrow> business_filter \<Rightarrow> 'x batch \<Rightarrow> 'x mirror_records \<Rightarrow> 'x mirror_records" where
  "batch_apply env f b recs = mi_pruneHistory
     (fold (change_apply env) (filter (\<lambda>change. change_kind change \<in> set (normalizedBusinessKinds f)) (ba_changes b)) recs)"

lemma apply_changes_fold: "apply_changes env valid kinds cs recs = Inr recs' \<Longrightarrow> recs' = fold (change_apply env) cs recs"
  by (induction env valid kinds cs recs rule: apply_changes.induct) (auto split: if_splits)

text \<open>The frames of a log, accepted in turn until one is refused.\<close>

fun mi_feed :: "'x mirror_env \<Rightarrow> 'x business_frame list \<Rightarrow> 'x mirror \<Rightarrow> mirror_result \<times> 'x mirror" where
  "mi_feed env [] m = (Inr (), m)"
| "mi_feed env (f # fs) m = (case mi_accept env f m of (Inl reason, m') \<Rightarrow> (Inl reason, m') | (Inr _, m') \<Rightarrow> mi_feed env fs m')"

text \<open>A live mirror that stands at sequence \<open>n\<close> of the generation of \<open>c\<close>.\<close>

definition mirror_at :: "'x mirror_env \<Rightarrow> business_cursor \<Rightarrow> number \<Rightarrow> 'x mirror \<Rightarrow> bool" where
  "mirror_at env c n m \<longleftrightarrow> mirror_ok env m \<and> mi_status m \<noteq> MsDisposed \<and> mi_initialized m \<and> mi_cursor m = Some (c\<lparr>bc_sequence := n\<rparr>)"

lemma mirror_at_target:
  assumes "mirror_at env c n m"
  shows "mi_target m = Some \<lparr>bi_serverId = bc_serverId c, bi_relayInstanceId = bc_relayInstanceId c\<rparr> \<and> bc_filter c = businessFilterIdentity (mi_filter m)"
  using assms by (auto simp: mirror_at_def mirror_ok_def cursor_ok_def)

lemma cursor_schema_below: "BusinessCursorSchema (c\<lparr>bc_sequence := hi\<rparr>) \<Longrightarrow> 0 \<le> n \<Longrightarrow> n \<le> hi \<Longrightarrow> BusinessCursorSchema (c\<lparr>bc_sequence := n\<rparr>)"
  by (auto simp: BusinessCursorSchema_def SequenceSchema_def isSafeInteger_def)

lemma mi_accept_batch:
  assumes at: "mirror_at env c n m" and seq: "ba_sequence b = n + 1" and n: "0 \<le> n" and schema: "BusinessCursorSchema (c\<lparr>bc_sequence := n + 1\<rparr>)"
    and ok: "list_all (BusinessChangeSchema (me_rest env)) (ba_changes b)" "int (length (ba_changes b)) \<le> LIMIT_journalItems"
  shows "(\<exists>reason m'. mi_accept env (batch_frame c (mi_filter m) b) m = (Inl reason, m') \<and> reason \<in> {''record'', ''capacity''}) \<or>
    (\<exists>m'. mi_accept env (batch_frame c (mi_filter m) b) m = (Inr (), m') \<and> mirror_at env c (n + 1) m' \<and> mi_filter m' = mi_filter m \<and>
      mi_records m' = batch_apply env (mi_filter m) b (mi_records m))"
proof -
  let ?t = "\<lparr>bi_serverId = bc_serverId c, bi_relayInstanceId = bc_relayInstanceId c\<rparr>"
  let ?cs = "filter (\<lambda>change. change_kind change \<in> set (normalizedBusinessKinds (mi_filter m))) (ba_changes b)"
  let ?frame = "batch_frame c (mi_filter m) b"
  have m: "mirror_ok env m" "mi_status m \<noteq> MsDisposed" "mi_initialized m" "mi_cursor m = Some (c\<lparr>bc_sequence := n\<rparr>)"
    using at by (simp_all add: mirror_at_def)
  have kinds: "mi_kinds m = normalizedBusinessKinds (mi_filter m)" using m(1) by (simp add: mirror_ok_def)
  note t = mirror_at_target [OF at]
  have "int (length ?cs) \<le> LIMIT_journalItems" using ok(2) length_filter_le [of _ "ba_changes b"] by (meson of_nat_mono order_trans)
  moreover have "list_all (BusinessChangeSchema (me_rest env)) ?cs" using ok(1) by (auto simp: list_all_iff)
  ultimately have sch: "BusinessFrameSchema (me_rest env) ?frame"
    using schema cursor_schema_below [OF schema n] seq by (simp add: batch_frame_def)
  have acc: "mi_accept env ?frame m = mi_handle env ?t ?frame m"
    using m(2) t sch by (simp add: mi_accept_def batch_frame_def mi_bound_def)
  show ?thesis
  proof (cases "apply_changes env (mi_validRecord ?t m) (mi_kinds m) ?cs (mi_records m)")
    case (Inl reason)
    then have "reason = ''record''" using apply_changes_reason [OF Inl] kinds by auto
    then show ?thesis using acc m(3,4) seq Inl by (simp add: batch_frame_def mi_fail_def)
  next
    case (Inr recs)
    let ?recs = "mi_pruneHistory recs"
    have recs: "?recs = batch_apply env (mi_filter m) b (mi_records m)" using apply_changes_fold [OF Inr] by (simp add: batch_apply_def)
    show ?thesis
    proof (cases "int (length ?recs) > LIMIT_snapshotItems \<or> records_bytes ?recs > LIMIT_snapshotBytes")
      case True
      then show ?thesis using acc m(3,4) seq Inr by (simp add: batch_frame_def mi_fail_def Let_def)
    next
      case False
      let ?m' = "mi_changed (m\<lparr>mi_records := ?recs, mi_bytes := records_bytes ?recs, mi_cursor := Some (c\<lparr>bc_sequence := n + 1\<rparr>)\<rparr>)"
      have "mi_accept env ?frame m = (Inr (), ?m')" using acc m(3,4) seq Inr False by (simp add: batch_frame_def Let_def)
      moreover have "mirror_ok env ?m'" using mi_changes_ok [OF m(1) Inr m(4)] False by simp
      ultimately show ?thesis using recs m by (simp add: mirror_at_def)
    qed
  qed
qed

lemma mi_feed_batches:
  assumes "mirror_at env c n m" and "map ba_sequence bs = [n + 1..hi]" and "0 \<le> n" and "n \<le> hi" and "BusinessCursorSchema (c\<lparr>bc_sequence := hi\<rparr>)"
    and "list_all (\<lambda>b. list_all (BusinessChangeSchema (me_rest env)) (ba_changes b) \<and> int (length (ba_changes b)) \<le> LIMIT_journalItems) bs"
  shows "case mi_feed env (map (batch_frame c (mi_filter m)) bs) m of
      (Inl reason, _) \<Rightarrow> reason \<in> {''record'', ''capacity''}
    | (Inr _, m') \<Rightarrow> mirror_at env c hi m' \<and> mi_records m' = fold (batch_apply env (mi_filter m)) bs (mi_records m)"
  using assms
proof (induction bs arbitrary: n m)
  case Nil
  then have "n = hi" by simp
  then show ?case using Nil by simp
next
  case (Cons b bs)
  have hi: "n + 1 \<le> hi" using Cons.prems(2) by (cases "n + 1 \<le> hi") auto
  then have seqs: "ba_sequence b = n + 1" "map ba_sequence bs = [n + 1 + 1..hi]"
    using Cons.prems(2) upto_rec1 [of "n + 1" hi] by simp_all
  have sch: "BusinessCursorSchema (c\<lparr>bc_sequence := n + 1\<rparr>)" using cursor_schema_below [OF Cons.prems(5), of "n + 1"] Cons.prems(3) hi by simp
  from mi_accept_batch [OF Cons.prems(1) seqs(1) Cons.prems(3) sch] Cons.prems(6)
  consider reason m' where "mi_accept env (batch_frame c (mi_filter m) b) m = (Inl reason, m')" "reason \<in> {''record'', ''capacity''}"
    | m' where "mi_accept env (batch_frame c (mi_filter m) b) m = (Inr (), m')" "mirror_at env c (n + 1) m'" "mi_filter m' = mi_filter m"
      "mi_records m' = batch_apply env (mi_filter m) b (mi_records m)"
    by auto
  then show ?case
  proof cases
    case 1
    then show ?thesis by simp
  next
    case (2 m')
    show ?thesis using Cons.IH [OF 2(2) seqs(2)] Cons.prems(3,5,6) hi 2 by (simp split: prod.splits sum.splits)
  qed
qed

subsection \<open>Snapshots and refusals\<close>

lemma mi_fail_effect:
  assumes "mi_status m \<noteq> MsDisposed" and "mi_fail reason m = (r, m')"
  shows "r = Inl reason \<and> mi_status m' = MsStale \<and> mi_cursor m' = None \<and> mi_stage m' = None \<and> \<not> mi_ready m' \<and>
    mi_records m' = mi_records m \<and> mi_lastError m' = Some reason"
  using assms by (auto simp: mi_fail_def mi_stale_def)

lemma mi_accept_refused:
  assumes "mi_status m \<noteq> MsDisposed" and "mi_accept env frame m = (Inl reason, m')"
  shows "mi_fail reason m = (Inl reason, m')"
proof -
  have "mi_fail reason m = (Inl reason, m')" if "mi_handle env target frame m = (Inl reason, m')" for target
    using that by (cases frame) (auto simp: mi_fail_def Let_def split: option.splits sum.splits if_splits)
  then show ?thesis using assms by (auto simp: mi_accept_def mi_fail_def split: option.splits if_splits)
qed

fun page_frames :: "ident \<Rightarrow> number \<Rightarrow> 'x business_record list list \<Rightarrow> 'x business_frame list" where
  "page_frames i n [] = []"
| "page_frames i n (vs # pages) = SnapshotPage i n vs # page_frames i (n + 1) pages"

lemma mi_accept_page:
  assumes "mirror_ok env m" and "mi_status m \<noteq> MsDisposed" and "mi_stage m = Some stage" and "ms_id stage = i"
    and acc: "mi_accept env (SnapshotPage i n vs) m = (Inr (), m')"
  shows "mirror_ok env m' \<and> mi_status m' \<noteq> MsDisposed \<and> mi_records m' = mi_records m \<and>
    (\<exists>stage'. mi_stage m' = Some stage' \<and> ms_id stage' = i \<and>
      map (mn_value \<circ> snd) (ms_records stage') = map (mn_value \<circ> snd) (ms_records stage) @ vs)"
proof -
  have ok: "mirror_ok env m'" using mi_accept_ok [OF assms(1), of "SnapshotPage i n vs"] acc by simp
  obtain target stage' where "stage_records env (mi_validRecord target m) vs stage = Inr stage'"
    "m' = mi_changed (m\<lparr>mi_stage := Some (stage'\<lparr>ms_page := ms_page stage' + 1\<rparr>)\<rparr>)"
    using acc assms(2,3) by (auto simp: mi_accept_def mi_fail_def split: option.splits if_splits sum.splits)
  then show ?thesis
    using ok assms(2,4) stage_records_ok [OF _ mirror_ok_stage [OF assms(1,3)] mi_validRecord_kind [of target m]] by auto
qed

lemma mi_feed_pages:
  assumes "mirror_ok env m" and "mi_status m \<noteq> MsDisposed" and "mi_stage m = Some stage" and "ms_id stage = i"
    and "mi_feed env (page_frames i n pages @ [SnapshotEnd i k c]) m = (r, m')"
  shows "case r of Inl _ \<Rightarrow> mi_records m' = mi_records m \<and> mi_cursor m' = None
    | Inr _ \<Rightarrow> map (mn_value \<circ> snd) (mi_records m') = map (mn_value \<circ> snd) (ms_records stage) @ concat pages \<and> mi_cursor m' = Some c"
  using assms
proof (induction pages arbitrary: n m stage)
  case Nil
  show ?case
  proof (cases r)
    case (Inl reason)
    then have "mi_accept env (SnapshotEnd i k c) m = (Inl reason, m')" using Nil.prems(5) by (auto split: prod.splits sum.splits)
    from mi_fail_effect [OF Nil.prems(2) mi_accept_refused [OF Nil.prems(2) this]] show ?thesis using Inl by simp
  next
    case (Inr u)
    then have "mi_accept env (SnapshotEnd i k c) m = (Inr (), m')" using Nil.prems(5) by (auto split: prod.splits sum.splits)
    then show ?thesis using Inr Nil.prems(2,3)
      by (auto simp: mi_accept_def mi_fail_def split: option.splits if_splits)
  qed
next
  case (Cons vs pages)
  obtain r1 m1 where a: "mi_accept env (SnapshotPage i n vs) m = (r1, m1)" by fastforce
  show ?case
  proof (cases r1)
    case (Inl reason)
    then have "r = Inl reason" "m' = m1" using Cons.prems(5) a by simp_all
    then show ?thesis using mi_fail_effect [OF Cons.prems(2) mi_accept_refused [OF Cons.prems(2) a [unfolded Inl]]] by simp
  next
    case (Inr u)
    have feed: "mi_feed env (page_frames i (n + 1) pages @ [SnapshotEnd i k c]) m1 = (r, m')" using Cons.prems(5) a Inr by simp
    from mi_accept_page [OF Cons.prems(1-4), of n vs m1] a Inr
    obtain stage' where "mirror_ok env m1" "mi_status m1 \<noteq> MsDisposed" "mi_stage m1 = Some stage'" "ms_id stage' = i" and
      same: "mi_records m1 = mi_records m" and
      vals: "map (mn_value \<circ> snd) (ms_records stage') = map (mn_value \<circ> snd) (ms_records stage) @ vs" by auto
    from Cons.IH [OF this(1-4) feed] same vals show ?thesis by (cases r) simp_all
  qed
qed

subsection \<open>Pruned history\<close>

fun tab_run :: "ident \<Rightarrow> 'x business_record \<Rightarrow> run_ref option" where
  "tab_run t (TabRec i _ _ run _) = (if i = t then run else None)"
| "tab_run t _ = None"

fun tab_start :: "ident \<Rightarrow> 'x business_record \<Rightarrow> number option" where
  "tab_start t (RunRec _ _ tab _ startedAtMs _) = (if tab = Some t then Some startedAtMs else None)"
| "tab_start t _ = None"

text \<open>
  What the pruned history still holds: no settled operation, and of the runs that are no longer active only the one
  its tab names or, where the tab names none, one that started last.
\<close>

fun history_kept :: "'x business_record list \<Rightarrow> 'x business_record \<Rightarrow> bool" where
  "history_kept vs (OperationRec _ _ _ state _) \<longleftrightarrow> \<not> finalOperation state"
| "history_kept vs (RunRec i _ tab lifecycle startedAtMs _) \<longleftrightarrow> activeRun lifecycle \<or>
     (\<exists>t. tab = Some t \<and> ((\<exists>v \<in> set vs. map_option businessRunId (tab_run t v) = Some i) \<or>
       (\<forall>v \<in> set vs. tab_run t v = None \<and> (case tab_start t v of None \<Rightarrow> True | Some n \<Rightarrow> n \<le> startedAtMs))))"
| "history_kept vs _ \<longleftrightarrow> True"

lemma note_latest_map: "map_of (note_latest v l) t = (case tab_run t v of None \<Rightarrow> map_of l t | Some run \<Rightarrow> Some (businessRunId run))"
  by (induction v l rule: note_latest.induct) (auto split: option.split)

lemma latest_named:
  "map_of (fold note_latest vs l) t = Some i \<Longrightarrow> map_of l t = Some i \<or> (\<exists>v \<in> set vs. map_option businessRunId (tab_run t v) = Some i)"
  by (induction vs arbitrary: l) (fastforce simp: note_latest_map split: option.splits)+

lemma latest_unnamed: "map_of (fold note_latest vs l) t = None \<Longrightarrow> map_of l t = None \<and> (\<forall>v \<in> set vs. tab_run t v = None)"
proof (induction vs arbitrary: l)
  case (Cons v vs)
  from Cons.IH [of "note_latest v l"] Cons.prems show ?case by (simp add: note_latest_map split: option.splits)
qed simp

text \<open>The entry of \<open>newest\<close> for one tab.\<close>

definition newest_step :: "ident \<Rightarrow> 'x business_record \<Rightarrow> (string \<times> number) option \<Rightarrow> (string \<times> number) option" where
  "newest_step t v entry = (case tab_start t v of None \<Rightarrow> entry
     | Some n \<Rightarrow> (case entry of None \<Rightarrow> Some (rec_id v, n) | Some prior \<Rightarrow> if n \<ge> snd prior then Some (rec_id v, n) else entry))"

lemma note_newest_map: "map_of (note_newest v l) t = newest_step t v (map_of l t)"
  by (induction v l rule: note_newest.induct) (auto simp: newest_step_def split: option.splits)

lemma note_newest_distinct: "distinct_keys l \<Longrightarrow> distinct_keys (note_newest v l)"
  by (induction v l rule: note_newest.induct) (auto intro: distinct_keys_update split: option.split)

definition newest_of :: "ident \<Rightarrow> 'x business_record list \<Rightarrow> (string \<times> number) option \<Rightarrow> bool" where
  "newest_of t vs entry \<longleftrightarrow> (case entry of None \<Rightarrow> \<forall>v \<in> set vs. tab_start t v = None
     | Some (i, n) \<Rightarrow> (\<exists>v \<in> set vs. rec_id v = i \<and> tab_start t v = Some n) \<and>
         (\<forall>v \<in> set vs. case tab_start t v of None \<Rightarrow> True | Some n' \<Rightarrow> n' \<le> n))"

lemma newest_of_snoc: "newest_of t vs entry \<Longrightarrow> newest_of t (vs @ [v]) (newest_step t v entry)"
  by (fastforce simp: newest_of_def newest_step_def split: option.splits)

lemma newest_fold: "newest_of t vs (map_of (fold note_newest vs []) t) \<and> distinct_keys (fold note_newest vs [])"
proof (induction vs rule: rev_induct)
  case (snoc v vs)
  then show ?case by (simp add: note_newest_map newest_of_snoc note_newest_distinct)
qed (simp add: newest_of_def)

lemma fill_latest:
  "distinct_keys newest \<Longrightarrow> map_of (fold (\<lambda>(tab, i, _) latest. if map_of latest tab = None then AList.update tab i latest else latest) newest latest) t =
     (case map_of latest t of None \<Rightarrow> map_option fst (map_of newest t) | Some i \<Rightarrow> Some i)"
proof (induction newest arbitrary: latest)
  case (Cons e newest)
  obtain tab i n where e: "e = (tab, i, n)" by (cases e) auto
  have "map_of newest tab = None" using Cons.prems e by (simp add: map_of_eq_None_iff)
  then show ?case using Cons e by (auto split: option.splits)
qed (simp split: option.split)

lemma latest_runs_cases:
  assumes "map_of (latest_runs vs) t = Some i"
  shows "(\<exists>v \<in> set vs. map_option businessRunId (tab_run t v) = Some i) \<or>
    (\<forall>v \<in> set vs. tab_run t v = None) \<and> (\<exists>n. newest_of t vs (Some (i, n)))"
proof (cases "map_of (fold note_latest vs []) t")
  case None
  then obtain n where n: "map_of (fold note_newest vs []) t = Some (i, n)"
    using assms newest_fold [of t vs] by (auto simp: latest_runs_def Let_def fill_latest)
  then show ?thesis using newest_fold [of t vs] latest_unnamed [OF None] unfolding n by blast
next
  case (Some j)
  then have "j = i" using assms newest_fold [of t vs] by (simp add: latest_runs_def Let_def fill_latest)
  then show ?thesis using latest_named [OF Some] by simp
qed

lemma recs_ok_key: "recs_ok env kinds recs \<Longrightarrow> (k, e) \<in> set recs \<Longrightarrow> k = value_key (mn_value e)"
  by (auto simp: recs_ok_def)

lemma recs_ok_unique:
  assumes ok: "recs_ok env kinds recs" and "v \<in> mn_value ` snd ` set recs" and "w \<in> mn_value ` snd ` set recs"
    and same: "rec_kind v = rec_kind w" "rec_id v = rec_id w"
  shows "v = w"
proof -
  obtain k e l d where e: "(k, e) \<in> set recs" "mn_value e = v" and d: "(l, d) \<in> set recs" "mn_value d = w" using assms(2,3) by auto
  have "k = l" using recs_ok_key [OF ok e(1)] recs_ok_key [OF ok d(1)] e(2) d(2) same by simp
  moreover have "distinct (map fst recs)" using ok by (simp add: recs_ok_def)
  ultimately have "e = d" using eq_key_imp_eq_value [of recs k e d] e(1) d(1) by blast
  then show ?thesis using e(2) d(2) by simp
qed

lemma prune_values:
  "map (mn_value \<circ> snd) (mi_pruneHistory recs) =
     filter (\<lambda>v. \<not> pruned (latest_runs (map (mn_value \<circ> snd) recs)) v) (map (mn_value \<circ> snd) recs)"
  by (simp add: mi_pruneHistory_def Let_def filter_map o_def case_prod_beta')

lemma tab_run_kept: "tab_run t v \<noteq> None \<Longrightarrow> \<not> pruned latest v"
  by (cases v) simp_all

lemma tab_start_RunRec: "tab_start t v = Some n \<Longrightarrow> \<exists>i run lc x. v = RunRec i run (Some t) lc n x"
  by (cases v) (simp_all split: if_splits)

lemma prune_kept_run:
  assumes uniq: "\<And>v w. v \<in> set vs \<Longrightarrow> w \<in> set vs \<Longrightarrow> rec_kind v = rec_kind w \<Longrightarrow> rec_id v = rec_id w \<Longrightarrow> v = w"
    and r: "RunRec i run (Some t) lc st x \<in> set vs" and latest: "map_of (latest_runs vs) t = Some i"
  shows "history_kept (filter (\<lambda>v. \<not> pruned (latest_runs vs) v) vs) (RunRec i run (Some t) lc st x)"
  using latest_runs_cases [OF latest]
proof
  assume "\<exists>v \<in> set vs. map_option businessRunId (tab_run t v) = Some i"
  then obtain v where v: "v \<in> set vs" "map_option businessRunId (tab_run t v) = Some i" by blast
  then have "\<not> pruned (latest_runs vs) v" by (intro tab_run_kept) auto
  then show ?thesis using v by auto
next
  assume none: "(\<forall>v \<in> set vs. tab_run t v = None) \<and> (\<exists>n. newest_of t vs (Some (i, n)))"
  then obtain n where n: "newest_of t vs (Some (i, n))" by blast
  then obtain w where w: "w \<in> set vs" "rec_id w = i" "tab_start t w = Some n" by (auto simp: newest_of_def)
  from tab_start_RunRec [OF w(3)] obtain i' run' lc' x' where "w = RunRec i' run' (Some t) lc' n x'" by blast
  moreover from this have "w = RunRec i run (Some t) lc st x" using uniq [OF w(1) r] w(2) by simp
  ultimately have "n = st" by simp
  then show ?thesis using none n by (simp add: newest_of_def)
qed

lemma prune_kept:
  assumes ok: "recs_ok env kinds recs" and v: "v \<in> set (map (mn_value \<circ> snd) (mi_pruneHistory recs))"
  shows "history_kept (map (mn_value \<circ> snd) (mi_pruneHistory recs)) v"
proof -
  define vs where "vs = map (mn_value \<circ> snd) recs"
  have uniq: "a \<in> set vs \<Longrightarrow> b \<in> set vs \<Longrightarrow> rec_kind a = rec_kind b \<Longrightarrow> rec_id a = rec_id b \<Longrightarrow> a = b" for a b
    by (rule recs_ok_unique [OF ok]) (auto simp: vs_def)
  have v': "v \<in> set vs" "\<not> pruned (latest_runs vs) v" using v by (auto simp: prune_values vs_def)
  have "history_kept (filter (\<lambda>v. \<not> pruned (latest_runs vs) v) vs) v"
  proof (cases v)
    case (RunRec i run tab lc st x)
    show ?thesis
    proof (cases "activeRun lc")
      case False
      then obtain t where "tab = Some t" "map_of (latest_runs vs) t = Some i" using v'(2) RunRec by (auto split: option.splits)
      then show ?thesis using prune_kept_run [OF uniq] v'(1) RunRec by blast
    qed (simp add: RunRec)
  qed (use v'(2) in simp_all)
  then show ?thesis by (simp only: prune_values vs_def)
qed

lemma latest_runs_named:
  assumes uniq: "\<And>v w. v \<in> set vs \<Longrightarrow> w \<in> set vs \<Longrightarrow> rec_kind v = rec_kind w \<Longrightarrow> rec_id v = rec_id w \<Longrightarrow> v = w"
    and v: "v \<in> set vs" "tab_run t v = Some run"
  shows "map_of (latest_runs vs) t = Some (businessRunId run)"
proof -
  have tab: "rec_kind w = KTab \<and> rec_id w = t" if "tab_run t w \<noteq> None" for w :: "'a business_record"
    using that by (cases w) (simp_all split: if_splits)
  obtain i where i: "map_of (fold note_latest vs []) t = Some i" using latest_unnamed [of vs "[]" t] v by (cases "map_of (fold note_latest vs []) t") auto
  then obtain w where w: "w \<in> set vs" "map_option businessRunId (tab_run t w) = Some i" using latest_named [OF i] by auto
  have "tab_run t w \<noteq> None" "tab_run t v \<noteq> None" using w(2) v(2) by auto
  then have "w = v" using uniq [OF w(1) v(1)] tab by metis
  then show ?thesis using w(2) v(2) i newest_fold [of t vs] by (simp add: latest_runs_def Let_def fill_latest)
qed

text \<open>
  The rule of \<open>pruneHistory\<close> over the resources: \<open>latest\<close> gives each tab the run it names or, where it names none, one of its runs that
  started last; a settled operation and a finished run that is not the latest of its tab are superseded.
\<close>

definition latest_of :: "((business_kind \<times> string) \<rightharpoonup> 'x business_record) \<Rightarrow> ident \<Rightarrow> string option \<Rightarrow> bool" where
  "latest_of M t entry = (case Option.bind (M (KTab, t)) (tab_run t) of
     Some run \<Rightarrow> entry = Some (businessRunId run)
   | None \<Rightarrow> (case entry of
       None \<Rightarrow> \<forall>i v. M (KRun, i) = Some v \<longrightarrow> tab_start t v = None
     | Some i \<Rightarrow> \<exists>v n. M (KRun, i) = Some v \<and> tab_start t v = Some n \<and>
         (\<forall>j w k. M (KRun, j) = Some w \<and> tab_start t w = Some k \<longrightarrow> k \<le> n)))"

fun superseded :: "(ident \<rightharpoonup> string) \<Rightarrow> 'x business_record \<Rightarrow> bool" where
  "superseded latest (OperationRec i operationId task state x) \<longleftrightarrow> state = ''succeeded'' \<or> state = ''failed'' \<or> state = ''cancelled''"
| "superseded latest (RunRec i run tab lifecycle startedAtMs x) \<longleftrightarrow> lifecycle \<noteq> LcStarting \<and> lifecycle \<noteq> LcRunning \<and>
     (case tab of None \<Rightarrow> True | Some t \<Rightarrow> latest t \<noteq> Some i)"
| "superseded latest _ \<longleftrightarrow> False"

lemma pruned_superseded: "pruned latest v = superseded (map_of latest) v"
  by (cases v) (auto simp: finalOperation_def activeRun_def)

lemma mirror_map_iff:
  assumes ok: "recs_ok env kinds recs"
  shows "mirror_map recs p = Some v \<longleftrightarrow> v \<in> set (map (mn_value \<circ> snd) recs) \<and> p = (rec_kind v, rec_id v)"
proof -
  have d: "distinct (map fst recs)" using ok by (simp add: recs_ok_def)
  have "mirror_map recs p = Some v \<longleftrightarrow> (\<exists>e. (record_key (fst p) (snd p), e) \<in> set recs \<and> mn_value e = v)"
    using d by (auto simp: mirror_map_def map_of_eq_Some_iff)
  also have "\<dots> \<longleftrightarrow> (\<exists>k e. (k, e) \<in> set recs \<and> mn_value e = v \<and> p = (rec_kind v, rec_id v))"
    using recs_ok_key [OF ok] by (metis prod.collapse record_key_inj fst_conv snd_conv)
  also have "\<dots> \<longleftrightarrow> v \<in> set (map (mn_value \<circ> snd) recs) \<and> p = (rec_kind v, rec_id v)" by force
  finally show ?thesis .
qed

lemma latest_runs_complete:
  assumes "map_of (latest_runs vs) t = None"
  shows "\<forall>v \<in> set vs. tab_run t v = None \<and> tab_start t v = None"
proof -
  have "map_of (fold note_latest vs []) t = None" "map_of (fold note_newest vs []) t = None"
    using assms newest_fold [of t vs] by (auto simp: latest_runs_def Let_def fill_latest split: option.splits)
  then show ?thesis using latest_unnamed [of vs "[]" t] newest_fold [of t vs] by (simp add: newest_of_def)
qed

lemma tab_start_kind: "tab_start t v = Some n \<Longrightarrow> rec_kind v = KRun"
  using tab_start_RunRec by fastforce

lemma latest_runs_spec:
  assumes ok: "recs_ok env kinds recs"
  shows "latest_of (mirror_map recs) t (map_of (latest_runs (map (mn_value \<circ> snd) recs)) t)"
proof -
  define vs where "vs = map (mn_value \<circ> snd) recs"
  have M: "mirror_map recs p = Some v \<longleftrightarrow> v \<in> set vs \<and> p = (rec_kind v, rec_id v)" for p v using mirror_map_iff [OF ok] by (simp add: vs_def)
  have uniq: "a \<in> set vs \<Longrightarrow> b \<in> set vs \<Longrightarrow> rec_kind a = rec_kind b \<Longrightarrow> rec_id a = rec_id b \<Longrightarrow> a = b" for a b
    by (rule recs_ok_unique [OF ok]) (auto simp: vs_def)
  have tab: "rec_kind v = KTab \<and> rec_id v = t" if "tab_run t v \<noteq> None" for v :: "'a business_record"
    using that by (cases v) (simp_all split: if_splits)
  show ?thesis unfolding vs_def [symmetric]
  proof (cases "Option.bind (mirror_map recs (KTab, t)) (tab_run t)")
    case (Some run)
    then obtain v where "mirror_map recs (KTab, t) = Some v" "tab_run t v = Some run" by (auto simp: bind_eq_Some_conv)
    moreover have "v \<in> set vs" using M calculation(1) by blast
    ultimately have "map_of (latest_runs vs) t = Some (businessRunId run)" using latest_runs_named [OF uniq] by blast
    then show "latest_of (mirror_map recs) t (map_of (latest_runs vs) t)" by (simp add: latest_of_def Some)
  next
    case None
    have none: "tab_run t v = None" if "v \<in> set vs" for v
    proof (rule ccontr)
      assume "tab_run t v \<noteq> None"
      then have "mirror_map recs (KTab, t) = Some v" using tab [of v] M [of "(KTab, t)" v] that by simp
      then show False using None \<open>tab_run t v \<noteq> None\<close> by simp
    qed
    show "latest_of (mirror_map recs) t (map_of (latest_runs vs) t)"
    proof (cases "map_of (latest_runs vs) t")
      case entry: None
      have "tab_start t v = None" if "mirror_map recs (KRun, i) = Some v" for i v using latest_runs_complete [OF entry] M that by blast
      then show ?thesis by (simp add: latest_of_def None entry)
    next
      case (Some i)
      obtain n where n: "newest_of t vs (Some (i, n))" using latest_runs_cases [OF Some] none by auto
      then obtain v where v: "v \<in> set vs" "rec_id v = i" "tab_start t v = Some n" by (auto simp: newest_of_def)
      have "mirror_map recs (KRun, i) = Some v" using v tab_start_kind [OF v(3)] M [of "(KRun, i)" v] by simp
      moreover have "k \<le> n" if "mirror_map recs (KRun, j) = Some w" "tab_start t w = Some k" for j w k
      proof -
        have "w \<in> set vs" using M that(1) by blast
        then have "case tab_start t w of None \<Rightarrow> True | Some n' \<Rightarrow> n' \<le> n" using n by (simp add: newest_of_def)
        then show ?thesis by (simp add: that(2))
      qed
      ultimately show ?thesis using v(3) unfolding latest_of_def None Some option.case by blast
    qed
  qed
qed

lemma mirror_map_value: "mirror_map recs p = Some v \<Longrightarrow> v \<in> set (map (mn_value \<circ> snd) recs)"
  by (auto simp: mirror_map_def image_iff dest!: map_of_SomeD) force

lemma mi_changes_accepted:
  assumes "mi_status m \<noteq> MsDisposed" and "mi_accept env (Changes a c cs) m = (Inr (), m')"
  shows "\<exists>target recs. apply_changes env (mi_validRecord target m) (mi_kinds m) cs (mi_records m) = Inr recs \<and>
    mi_records m' = mi_pruneHistory recs \<and> mi_cursor m = Some a \<and> bc_sequence c = bc_sequence a + 1 \<and> mi_cursor m' = Some c"
proof -
  note sameBusinessCursor_iff [simp del]
  obtain target where h: "mi_handle env target (Changes a c cs) m = (Inr (), m')"
    using assms by (auto simp: mi_accept_def mi_fail_def split: option.splits if_splits)
  obtain current where cur: "mi_cursor m = Some current" using h by (cases "mi_cursor m") (auto simp: mi_fail_def split: if_splits)
  have same: "sameBusinessCursor a current" "bc_sequence c = bc_sequence current + 1"
    using h cur by (auto simp: mi_fail_def split: if_splits)
  then have a: "a = current" by (simp add: sameBusinessCursor_iff)
  show ?thesis
  proof (cases "apply_changes env (mi_validRecord target m) (mi_kinds m) cs (mi_records m)")
    case (Inl reason)
    then show ?thesis using h cur by (simp add: mi_fail_def split: if_splits)
  next
    case (Inr recs)
    then have "mi_records m' = mi_pruneHistory recs \<and> mi_cursor m' = Some c"
      using h cur by (auto simp: mi_fail_def Let_def split: if_splits)
    then show ?thesis using Inr cur same(2) a by blast
  qed
qed

lemma mi_fail_filter: "mi_filter (snd (mi_fail reason m)) = mi_filter m"
  by (simp add: mi_fail_def mi_stale_def)

lemma mi_handle_filter: "mi_filter (snd (mi_handle env target frame m)) = mi_filter m"
  by (cases frame) (simp_all add: mi_fail_filter Let_def split: option.split sum.split)

lemma mi_step_filter: "mi_filter (mi_step env op m) = mi_filter m"
  by (cases op) (simp_all add: mi_begin_def mi_fail_filter mi_stale_def mi_accept_def mi_handle_filter mi_dispose_def Let_def split: option.split)

lemma mi_run_filter: "mi_filter (fold (mi_step env) ops m) = mi_filter m"
  by (induction ops arbitrary: m) (simp_all add: mi_step_filter)

lemma filter_after:
  assumes "map ba_sequence hist = [1..hi]" and "0 \<le> n" and "n \<le> hi"
  shows "map ba_sequence (filter (\<lambda>b. n < ba_sequence b) hist) = [n + 1..hi]"
proof -
  have "map ba_sequence (filter (\<lambda>b. n < ba_sequence b) hist) = filter (\<lambda>k. n < k) (map ba_sequence hist)"
    by (simp add: filter_map o_def)
  also have "\<dots> = filter (\<lambda>k. n < k) ([1..n] @ [n + 1..hi])" using assms upto_split2 [of 1 n hi] by (cases "n = 0") simp_all
  also have "\<dots> = [n + 1..hi]" by (simp add: filter_id_conv)
  finally show ?thesis .
qed

lemma records_bytes_sizes:
  assumes "recs_ok env kinds recs"
  shows "records_bytes recs = 2 + max 0 (int (length recs) - 1) + sum_list (map (me_size env) (map (mn_value \<circ> snd) recs))"
proof -
  have "sum_list (map (mn_bytes \<circ> snd) recs) = sum_list (map (me_size env \<circ> (mn_value \<circ> snd)) recs)"
    using assms by (intro arg_cong [of _ _ sum_list] map_cong) (auto simp: recs_ok_def)
  then show ?thesis by (simp add: records_bytes_def o_assoc)
qed

lemma recs_ok_distinct_values:
  assumes "recs_ok env kinds recs"
  shows "distinct (map (\<lambda>v. (rec_kind v, rec_id v)) (map (mn_value \<circ> snd) recs))"
proof -
  have "map fst recs = map (\<lambda>(k, i). record_key k i) (map (\<lambda>v. (rec_kind v, rec_id v)) (map (mn_value \<circ> snd) recs))"
    using recs_ok_key [OF assms] by auto
  moreover have "distinct (map fst recs)" using assms by (simp add: recs_ok_def)
  ultimately show ?thesis by (metis distinct_map)
qed

subsection \<open>A sample client\<close>

definition sample_menv :: "unit mirror_env" where
  "sample_menv = \<lparr>me_size = (\<lambda>_. 40), me_rest = (\<lambda>_. True)\<rparr>"

definition sample_cursor :: "number \<Rightarrow> business_cursor" where
  "sample_cursor n = \<lparr>bc_serverId = ''s'', bc_relayInstanceId = ''r'', bc_streamId = ''g'', bc_sequence = n, bc_filter = ''config''\<rparr>"

definition sample_mirror :: "unit mirror" where
  "sample_mirror = (case new_mirror (Some [KConfig]) of Some m \<Rightarrow> m)"

definition sample_mirror_ops :: "unit mi_op list" where
  "sample_mirror_ops = [MiBegin \<lparr>bi_serverId = ''s'', bi_relayInstanceId = ''r''\<rparr> None, MiAccept (SnapshotBegin ''x''),
     MiAccept (SnapshotPage ''x'' 0 [ConfigRec ''server'' 1 ()]), MiAccept (SnapshotEnd ''x'' 1 (sample_cursor 1)), MiAccept (Ready (sample_cursor 1))]"

lemma sample_mirror_new: "new_mirror (Some [KConfig]) = Some sample_mirror"
  by (simp add: sample_mirror_def new_mirror_def BusinessFilterSchema_def BUSINESS_KINDS_def)

lemma sample_mirror_current:
  "mi_snapshot (fold (mi_step sample_menv) sample_mirror_ops sample_mirror) = \<lparr>sn_status = MsCurrent, sn_version = 5,
     sn_identity = Some \<lparr>bi_serverId = ''s'', bi_relayInstanceId = ''r''\<rparr>, sn_cursor = Some (sample_cursor 1), sn_records = [ConfigRec ''server'' 1 ()],
     sn_bytes = 42, sn_stagingItems = 0, sn_lastError = None\<rparr>"
  by code_simp

abbreviation sample_client :: "unit mirror" where
  "sample_client \<equiv> fold (mi_step sample_menv) sample_mirror_ops sample_mirror"

lemma sample_client_state:
  "mi_status sample_client = MsCurrent \<and> mi_initialized sample_client \<and> mi_cursor sample_client = Some (sample_cursor 1)"
  by code_simp

subsection \<open>The properties\<close>

text \<open>
  C18. The mirror is well formed at any time, whatever the calls and the frames: it holds one record per resource, only of
  the kinds of its filter, never more than the snapshot limits allow, and \<open>bytes\<close> is exactly the encoded size of the array of the
  records it shows. When it claims to be current, it has a cursor of the server it was begun for and of its filter, and the
  records it shows are those of that server.
\<close>

theorem mirror_wellformed:
  assumes "new_mirror f = Some m0" and "m = fold (mi_step env) ops m0" and "sn = mi_snapshot m"
  shows "distinct (map (\<lambda>v. (rec_kind v, rec_id v)) (sn_records sn)) \<and> list_all (\<lambda>v. rec_kind v \<in> set (normalizedBusinessKinds f)) (sn_records sn) \<and>
    int (length (sn_records sn)) \<le> LIMIT_snapshotItems \<and> sn_bytes sn \<le> LIMIT_snapshotBytes \<and> sn_stagingItems sn \<le> LIMIT_snapshotItems \<and>
    sn_bytes sn = 2 + max 0 (int (length (sn_records sn)) - 1) + sum_list (map (me_size env) (sn_records sn)) \<and>
    (sn_status sn = MsCurrent \<longrightarrow> (\<exists>c. sn_cursor sn = Some c \<and> bc_filter c = businessFilterIdentity f \<and> sn_identity sn = mi_target m \<and>
       sn_identity sn = Some \<lparr>bi_serverId = bc_serverId c, bi_relayInstanceId = bc_relayInstanceId c\<rparr>))"
proof -
  have ok: "mirror_ok env m" using mi_run_ok [OF new_mirror_ok [OF assms(1)]] assms(2) by simp
  have f: "mi_filter m = f" using assms(1,2) by (auto simp: mi_run_filter new_mirror_def split: if_splits)
  have kinds: "mi_kinds m = normalizedBusinessKinds f" using ok f by (simp add: mirror_ok_def)
  have recs: "recs_ok env (normalizedBusinessKinds f) (mi_records m)" and
    lim: "mi_bytes m = records_bytes (mi_records m)" "int (length (mi_records m)) \<le> LIMIT_snapshotItems" "mi_bytes m \<le> LIMIT_snapshotBytes"
    using mirror_ok_view [OF ok] kinds by (simp_all add: view_ok_def)
  have "sn_stagingItems sn \<le> LIMIT_snapshotItems"
  proof (cases "mi_stage m")
    case None
    then show ?thesis by (simp add: assms(3) mi_snapshot_def LIMIT_snapshotItems_def)
  next
    case (Some stage)
    then show ?thesis using mirror_ok_stage [OF ok Some] by (simp add: assms(3) mi_snapshot_def view_ok_def)
  qed
  moreover have "list_all (\<lambda>v. rec_kind v \<in> set (normalizedBusinessKinds f)) (sn_records sn)"
    using recs by (auto simp: assms(3) mi_snapshot_def list_all_iff recs_ok_def)
  moreover have "mi_status m = MsCurrent \<longrightarrow> (\<exists>c. mi_cursor m = Some c \<and> bc_filter c = businessFilterIdentity f \<and> mi_identity m = mi_target m \<and>
      mi_identity m = Some \<lparr>bi_serverId = bc_serverId c, bi_relayInstanceId = bc_relayInstanceId c\<rparr>)"
    using ok f by (auto simp: mirror_ok_def cursor_ok_def)
  ultimately show ?thesis
    using lim records_bytes_sizes [OF recs] recs_ok_distinct_values [OF recs] by (simp add: assms(3) mi_snapshot_def)
qed

theorem mirror_wellformed_witness:
  "sn_status (mi_snapshot sample_client) = MsCurrent \<and> sn_records (mi_snapshot sample_client) = [ConfigRec ''server'' 1 ()] \<and>
   sn_bytes (mi_snapshot sample_client) \<le> LIMIT_snapshotBytes \<and>
   (\<exists>c. sn_cursor (mi_snapshot sample_client) = Some c \<and> bc_filter c = businessFilterIdentity (Some [KConfig]))"
  using mirror_wellformed [OF sample_mirror_new refl refl, of sample_menv sample_mirror_ops] by (auto simp: sample_mirror_current)

text \<open>
  C20. A batch the mirror accepts changes its records exactly as the batch says: an upsert replaces the record of that kind and
  id unless the mirror has a later revision, a deletion removes it. After that exactly the superseded records are dropped:
  settled operations, and finished runs that are not the latest run of their tab. The latest run of a tab is the one its record names
  or, where it names none, one of the tab's runs that started last, so that such a tab keeps one. Nothing else of the history is left.
\<close>

theorem mirror_changes_refine:
  assumes "new_mirror f = Some m0" and "m = fold (mi_step env) ops m0" and "mi_status m \<noteq> MsDisposed"
    and "mi_accept env (Changes a c cs) m = (Inr (), m')"
  shows "(\<exists>latest. (\<forall>t. latest_of (fold change_spec cs (mirror_map (mi_records m))) t (latest t)) \<and>
      mirror_map (mi_records m') = (\<lambda>p. case fold change_spec cs (mirror_map (mi_records m)) p of
        None \<Rightarrow> None | Some v \<Rightarrow> if superseded latest v then None else Some v)) \<and>
    list_all (history_kept (sn_records (mi_snapshot m'))) (sn_records (mi_snapshot m'))"
proof -
  have ok: "mirror_ok env m" using mi_run_ok [OF new_mirror_ok [OF assms(1)]] assms(2) by simp
  from mi_changes_accepted [OF assms(3,4)] obtain target recs where
    recs: "apply_changes env (mi_validRecord target m) (mi_kinds m) cs (mi_records m) = Inr recs" "mi_records m' = mi_pruneHistory recs" by blast
  have rok: "recs_ok env (mi_kinds m) recs"
    using apply_changes_ok [OF recs(1) _ mi_validRecord_kind [of target m]] mirror_ok_view [OF ok] unfolding view_ok_def by blast
  have "list_all (history_kept (sn_records (mi_snapshot m'))) (sn_records (mi_snapshot m'))"
    using prune_kept [OF rok] by (simp add: list_all_iff mi_snapshot_def recs(2))
  then show ?thesis using latest_runs_spec [OF rok] mirror_map_prune [OF rok, unfolded pruned_superseded] apply_changes_spec [OF recs(1)] recs(2)
    by (intro conjI exI [of _ "map_of (latest_runs (map (mn_value \<circ> snd) recs))"]) simp_all
qed

theorem mirror_changes_refine_witness:
  "fst (mi_accept sample_menv (Changes (sample_cursor 1) (sample_cursor 2) [sample_change 2, Delete KConfig ''other'']) sample_client) = Inr () \<and>
   (let sn = mi_snapshot (snd (mi_accept sample_menv (Changes (sample_cursor 1) (sample_cursor 2) [sample_change 2, Delete KConfig ''other'']) sample_client))
    in list_all (history_kept (sn_records sn)) (sn_records sn) \<and> sn_records sn = [ConfigRec ''server'' 2 ()])"
proof -
  let ?f = "Changes (sample_cursor 1) (sample_cursor 2) [sample_change 2, Delete KConfig ''other'']"
  have acc: "fst (mi_accept sample_menv ?f sample_client) = Inr ()"
    "sn_records (mi_snapshot (snd (mi_accept sample_menv ?f sample_client))) = [ConfigRec ''server'' 2 ()]" by code_simp+
  then have "mi_accept sample_menv ?f sample_client = (Inr (), snd (mi_accept sample_menv ?f sample_client))" by (simp add: prod_eq_iff)
  from conjunct2 [OF mirror_changes_refine [OF sample_mirror_new refl _ this]] sample_client_state acc show ?thesis by (simp add: Let_def)
qed

text \<open>
  C21. A snapshot is installed as a whole or not at all. Fed the pages of a snapshot and its end, the mirror either accepts
  all of them and then shows exactly the records of the pages in order, or it refuses some frame, keeps the records it showed before
  and has no cursor, so that the next connection asks for a new snapshot.
\<close>

theorem mirror_snapshot_atomic:
  assumes "new_mirror f = Some m0" and "m = fold (mi_step env) ops m0" and "mi_status m \<noteq> MsDisposed"
    and "mi_feed env (SnapshotBegin i # page_frames i 0 pages @ [SnapshotEnd i n c]) m = (r, m')"
  shows "case r of Inr _ \<Rightarrow> sn_records (mi_snapshot m') = concat pages \<and> mi_cursor m' = Some c
    | Inl _ \<Rightarrow> sn_records (mi_snapshot m') = sn_records (mi_snapshot m) \<and> (\<forall>target. mi_resumeCursor target m' = None)"
proof -
  have ok: "mirror_ok env m" using mi_run_ok [OF new_mirror_ok [OF assms(1)]] assms(2) by simp
  obtain r1 m1 where b: "mi_accept env (SnapshotBegin i) m = (r1, m1)" by fastforce
  show ?thesis
  proof (cases r1)
    case (Inl reason)
    then have "r = Inl reason" "m' = m1" using assms(4) b by simp_all
    then show ?thesis using mi_fail_effect [OF assms(3) mi_accept_refused [OF assms(3) b [unfolded Inl]]]
      by (simp add: mi_snapshot_def mi_resumeCursor_def)
  next
    case (Inr u)
    have ok1: "mirror_ok env m1" using mi_accept_ok [OF ok, of "SnapshotBegin i"] b by simp
    have m1: "mi_status m1 \<noteq> MsDisposed" "mi_stage m1 = Some \<lparr>ms_id = i, ms_page = 0, ms_records = [], ms_bytes = 2\<rparr>" "mi_records m1 = mi_records m"
      using b Inr assms(3) by (auto simp: mi_accept_def mi_fail_def split: option.splits if_splits)
    have "mi_feed env (page_frames i 0 pages @ [SnapshotEnd i n c]) m1 = (r, m')" using assms(4) b Inr by simp
    from mi_feed_pages [OF ok1 m1(1,2) _ this] m1(3) show ?thesis by (cases r) (simp_all add: mi_snapshot_def mi_resumeCursor_def)
  qed
qed

theorem mirror_snapshot_atomic_witness:
  "sn_records (mi_snapshot (snd (mi_feed sample_menv
     (SnapshotBegin ''x'' # page_frames ''x'' 0 [[ConfigRec ''server'' 1 ()], []] @ [SnapshotEnd ''x'' 2 (sample_cursor 1)])
     (fold (mi_step sample_menv) [MiBegin \<lparr>bi_serverId = ''s'', bi_relayInstanceId = ''r''\<rparr> None] sample_mirror)))) = [ConfigRec ''server'' 1 ()]"
proof -
  let ?m = "fold (mi_step sample_menv) [MiBegin \<lparr>bi_serverId = ''s'', bi_relayInstanceId = ''r''\<rparr> None] sample_mirror"
  let ?fs = "SnapshotBegin ''x'' # page_frames ''x'' 0 [[ConfigRec ''server'' 1 ()], []] @ [SnapshotEnd ''x'' 2 (sample_cursor 1)]"
  have r: "fst (mi_feed sample_menv ?fs ?m) = Inr ()" "mi_status ?m \<noteq> MsDisposed" by code_simp+
  then have "mi_feed sample_menv ?fs ?m = (Inr (), snd (mi_feed sample_menv ?fs ?m))" by (simp add: prod_eq_iff)
  from mirror_snapshot_atomic [OF sample_mirror_new refl r(2) this] show ?thesis by simp
qed

text \<open>
  C3. A mirror follows the stream. Take any run of the server's event stream and a subscription still open at its end, and any client
  mirror that holds the subscription's starting cursor. Fed everything the subscription delivered, the mirror never sees a gap, a
  foreign cursor, a malformed frame or a change outside its filter: it ends at the stream's own cursor with every batch since
  its position applied once and in order, or it stopped because a published record is not valid for its server or the records
  exceed its limits.
\<close>

theorem mirror_follows_stream:
  assumes "new_event_stream env serverId relayInstanceId limits = Inr s0" and "es_run env s0 ops = (s, hist)"
    and "h \<in> set (es_subscribers s)" and "es_heap s ! h = sub"
    and "new_mirror (sb_filter sub) = Some m0" and "m = fold (mi_step menv) mops m0" and "mi_status m \<noteq> MsDisposed" and "mi_initialized m"
    and "mi_cursor m = Some ((sb_cursor sub)\<lparr>bc_sequence := sb_since sub\<rparr>)"
    and "me_rest menv = ev_rest env" and "BusinessCursorSchema (sb_cursor sub)"
  shows "case mi_feed menv (sb_log sub) m of
      (Inr _, m') \<Rightarrow> mi_cursor m' = Some (es_cursor s (sb_filter sub)) \<and>
        mi_records m' = fold (batch_apply menv (sb_filter sub)) (filter (\<lambda>b. sb_since sub < ba_sequence b) hist) (mi_records m)
    | (Inl reason, _) \<Rightarrow> reason \<in> {''record'', ''capacity''}"
proof -
  let ?bs = "filter (\<lambda>b. sb_since sub < ba_sequence b) hist" and ?c = "es_cursor s (sb_filter sub)"
  have inv: "es_inv hist s" using es_run_inv [of "(s0, [])" env ops] new_event_stream_inv [OF assms(1)] assms(2) by (simp add: es_run_def)
  have sub: "sub_ok hist s sub" and win: "map ba_sequence hist = [1..es_sequence s]" using inv assms(3,4) by (auto simp: es_inv_def es_window_ok_def)
  have seqs: "map ba_sequence ?bs = [sb_since sub + 1..es_sequence s]" using filter_after [OF win] sub by (simp add: sub_ok_def)
  have "es_sequence s0 = 0" using assms(1) by (auto simp: new_event_stream_def split: if_splits)
  then have "list_all (batch_ok env) hist"
    using es_run_checked [of "(s0, [])" env ops] new_event_stream_inv [OF assms(1)] assms(2) by (simp add: es_run_def MAX_SAFE_INTEGER_def)
  then have bs: "list_all (\<lambda>b. list_all (BusinessChangeSchema (me_rest menv)) (ba_changes b) \<and> int (length (ba_changes b)) \<le> LIMIT_journalItems) ?bs"
    by (auto simp: list_all_iff batch_ok_def assms(10))
  have cur: "sb_cursor sub = ?c" "?c\<lparr>bc_sequence := es_sequence s\<rparr> = ?c" using sub by (simp_all add: sub_ok_def es_cursor_def)
  have at: "mirror_at menv ?c (sb_since sub) m"
    using mi_run_ok [OF new_mirror_ok [OF assms(5)]] assms(6-9) cur by (simp add: mirror_at_def)
  have f: "mi_filter m = sb_filter sub" using assms(5,6) by (auto simp: mi_run_filter new_mirror_def split: if_splits)
  have "sb_log sub = map (batch_frame ?c (mi_filter m)) ?bs" using sub f by (simp add: sub_ok_def)
  then show ?thesis using mi_feed_batches [OF at seqs _ _ _ bs] sub assms(11) cur f
    by (auto simp: sub_ok_def mirror_at_def split: prod.splits sum.splits)
qed

theorem mirror_follows_stream_witness:
  "(let s = fst (es_run sample_env sample_stream sample_stream_ops); sub = es_heap s ! 0 in
    fst (mi_feed sample_menv (sb_log sub) sample_client) = Inr () \<and>
    mi_cursor (snd (mi_feed sample_menv (sb_log sub) sample_client)) = Some (es_cursor s (Some [KConfig])) \<and> bc_sequence (es_cursor s (Some [KConfig])) = 3)"
proof -
  let ?s = "fst (es_run sample_env sample_stream sample_stream_ops)" and ?hist = "snd (es_run sample_env sample_stream sample_stream_ops)"
  let ?sub = "es_heap ?s ! 0"
  have run: "es_run sample_env sample_stream sample_stream_ops = (?s, ?hist)" by simp
  have sub: "0 \<in> set (es_subscribers ?s)" "sb_filter ?sub = Some [KConfig]" "sample_cursor 1 = (sb_cursor ?sub)\<lparr>bc_sequence := sb_since ?sub\<rparr>"
    "BusinessCursorSchema (sb_cursor ?sub)" "fst (mi_feed sample_menv (sb_log ?sub) sample_client) = Inr ()" "bc_sequence (es_cursor ?s (Some [KConfig])) = 3"
    by code_simp+
  have new: "new_mirror (sb_filter ?sub) = Some sample_mirror" using sample_mirror_new by (simp only: sub(2))
  have st: "mi_status sample_client \<noteq> MsDisposed" "mi_initialized sample_client" "mi_cursor sample_client = Some ((sb_cursor ?sub)\<lparr>bc_sequence := sb_since ?sub\<rparr>)"
    using sample_client_state by (simp_all only: sub(3)) simp_all
  have "me_rest sample_menv = ev_rest sample_env" by (simp add: sample_menv_def sample_env_def)
  from mirror_follows_stream [OF sample_stream_new run sub(1) refl new refl st this sub(4)] sub(5,6)
  show ?thesis unfolding sub(2) Let_def by (simp split: prod.splits)
qed

end
