(* ===== verification/Business_Facts.thy ===== *)
theory Business_Facts
  imports Run_Registry Business_Mirror
begin

text \<open>
  \<open>BusinessSnapshots\<close> (\<^verbatim>\<open>apps/server/src/business/snapshot.ts\<close>): the server's live runtime facts, their publication on the event
  stream and the capture of snapshots. The observer of \<open>RunRegistry\<close> and the runtime's terminal events both end in \<open>observe\<close>.

  \<open>failed\<close> arguments are \<open>store.failed\<close> at that moment. The comparison of two values by \<open>JSON.stringify\<close> is their equality: both
  have the keys of the fact schema in the schema's order. A slot of \<open>capture\<close> is a cell of \<open>bs_slots\<close>, true until its \<open>release\<close> ran;
  the store's answer is a parameter of \<open>bs_captured\<close>, which runs inside the store's callback.
\<close>

record fact_observation =
  fo_fact :: runtime_fact
  fo_atSeq :: number

record 'x business_snapshots =
  bs_stream :: "'x event_stream"
  bs_facts :: "(string \<times> fact_observation) list"
  bs_snapshots :: number
  bs_slots :: "bool list"
  bs_closed :: bool

definition LIMIT_concurrentSnapshots :: number where "LIMIT_concurrentSnapshots = 4"

definition fact_of_status :: "run_status \<Rightarrow> runtime_fact" where
  "fact_of_status s = \<lparr>bf_run = st_run s, bf_status = st_status s, bf_geometry = st_geometry s, bf_controlEpoch = st_controlEpoch s,
     bf_controlHolder = st_controlHolder s, bf_recovery = st_recovery s, bf_exitCode = st_exitCode s, bf_signal = st_signal s\<rparr>"

text \<open>What an observation leaves of an older or lower status once a newer one is known.\<close>

definition settle_fact :: "runtime_fact \<Rightarrow> runtime_fact \<Rightarrow> runtime_fact" where
  "settle_fact previous fc =
     (let f = previous\<lparr>bf_status := bf_status fc, bf_recovery := bf_recovery fc\<rparr>
      in if bf_status fc = RunExited then f\<lparr>bf_exitCode := bf_exitCode fc, bf_signal := bf_signal fc\<rparr> else f)"

definition observed_fact :: "fact_observation option \<Rightarrow> run_status \<Rightarrow> runtime_fact" where
  "observed_fact previous status = (case previous of
     None \<Rightarrow> fact_of_status status
   | Some p \<Rightarrow>
       if seq_or_none (st_parsedSeq status) < fo_atSeq p \<or> bf_controlEpoch (fact_of_status status) < bf_controlEpoch (fo_fact p)
       then settle_fact (fo_fact p) (fact_of_status status) else fact_of_status status)"

text \<open>\<^const>\<open>None\<close> when the schema's \<open>parse\<close> throws.\<close>

definition bs_observe :: "'x stream_env \<Rightarrow> run_status \<Rightarrow> 'x business_snapshots \<Rightarrow> 'x business_snapshots option" where
  "bs_observe env status B =
     (let i = businessRunId (st_run status);
          previous = map_of (bs_facts B) i
      in if (case previous of None \<Rightarrow> False | Some p \<Rightarrow> bf_status (fo_fact p) = RunExited) \<and> st_status status \<noteq> RunExited then Some B
         else if \<not> BusinessRuntimeFactSchema (fact_of_status status) then None
         else let fc = observed_fact previous status;
                  atSeq = max (seq_or_none (st_parsedSeq status)) (case previous of None \<Rightarrow> -1 | Some p \<Rightarrow> fo_atSeq p);
                  facts = AList.update i \<lparr>fo_fact = fc, fo_atSeq = atSeq\<rparr> (bs_facts B)
              in if map_option fo_fact previous \<noteq> Some fc
                 then Some (B\<lparr>bs_facts := facts, bs_stream := es_publish env [Upsert (RuntimeRec i fc)] (bs_stream B)\<rparr>)
                 else Some (B\<lparr>bs_facts := facts\<rparr>))"

definition bs_uncertain :: "'x stream_env \<Rightarrow> bool \<Rightarrow> 'x business_snapshots \<Rightarrow> 'x business_snapshots" where
  "bs_uncertain env failed B = B\<lparr>bs_stream := es_invalidate env RsPublicationUncertain failed (bs_stream B)\<rparr>"

text \<open>The store's observer: a publication, or \<^const>\<open>None\<close> for a reset.\<close>

definition bs_publication :: "'x stream_env \<Rightarrow> bool \<Rightarrow> 'x business_change list option \<Rightarrow> 'x business_snapshots \<Rightarrow> 'x business_snapshots" where
  "bs_publication env failed p B =
     (case p of None \<Rightarrow> bs_uncertain env failed B | Some changes \<Rightarrow> B\<lparr>bs_stream := es_publish env changes (bs_stream B)\<rparr>)"

text \<open>The registry's observer, with the \<open>catch\<close> of \<open>RunRegistry.notify\<close> around it.\<close>

definition bs_changed :: "'x stream_env \<Rightarrow> bool \<Rightarrow> run_fact \<Rightarrow> 'x business_snapshots \<Rightarrow> 'x business_snapshots" where
  "bs_changed env failed f B = (case f of (run, _, status) \<Rightarrow>
     (case status of
        Some s \<Rightarrow> (case bs_observe env s B of None \<Rightarrow> bs_uncertain env failed B | Some B' \<Rightarrow> B')
      | None \<Rightarrow>
          let i = businessRunId run in
          if map_of (bs_facts B) i = None then B
          else B\<lparr>bs_facts := AList.delete i (bs_facts B), bs_stream := es_publish env [Delete KRuntime i] (bs_stream B)\<rparr>))"

text \<open>The listener on terminal events; \<open>placed\<close> is the worker of \<open>registry.get(event.run)\<close>.\<close>

definition terminal_status :: "runtime_fact \<Rightarrow> run_event \<Rightarrow> run_status option" where
  "terminal_status fc event =
     (let base = (\<lambda>geometry seq. \<lparr>st_run = bf_run fc, st_status = RunLive, st_geometry = geometry, st_controlEpoch = bf_controlEpoch fc,
        st_controlHolder = bf_controlHolder fc, st_receivedSeq = Some seq, st_parsedSeq = Some seq, st_recovery = bf_recovery fc, st_reason = None,
        st_exitCode = bf_exitCode fc, st_signal = bf_signal fc\<rparr>)
      in case event of
        RevControl _ seq epoch holder geometry \<Rightarrow> Some ((base geometry seq)\<lparr>st_controlEpoch := epoch, st_controlHolder := holder\<rparr>)
      | RevResize _ seq geometry _ \<Rightarrow> Some (base geometry seq)
      | _ \<Rightarrow> None)"

definition bs_event ::
  "'x stream_env \<Rightarrow> bool \<Rightarrow> run_ref \<Rightarrow> worker_ref \<Rightarrow> run_event \<Rightarrow> worker_ref option \<Rightarrow> 'x business_snapshots \<Rightarrow> 'x business_snapshots" where
  "bs_event env failed run worker event placed B =
     (case (map_of (bs_facts B) (businessRunId run), placed) of
        (Some current, Some w) \<Rightarrow>
          (case terminal_status (fo_fact current) event of
             None \<Rightarrow> B
           | Some status \<Rightarrow>
               if \<not> sameWorkerRef w worker \<or> \<not> sameRunRef (bf_run (fo_fact current)) run \<or> bf_status (fo_fact current) = RunExited \<or>
                  re_seq event < fo_atSeq current then B
               else case bs_observe env status B of None \<Rightarrow> bs_uncertain env failed B | Some B' \<Rightarrow> B')
      | _ \<Rightarrow> B)"

text \<open>\<open>capture\<close>: a slot, or busy.\<close>

definition bs_capture :: "'x business_snapshots \<Rightarrow> handle option \<times> 'x business_snapshots" where
  "bs_capture B =
     (if bs_closed B \<or> bs_snapshots B \<ge> LIMIT_concurrentSnapshots then (None, B)
      else (Some (length (bs_slots B)), B\<lparr>bs_snapshots := bs_snapshots B + 1, bs_slots := bs_slots B @ [True]\<rparr>))"

definition bs_release :: "handle \<Rightarrow> 'x business_snapshots \<Rightarrow> 'x business_snapshots" where
  "bs_release h B =
     (if h < length (bs_slots B) \<and> bs_slots B ! h then B\<lparr>bs_slots := (bs_slots B)[h := False], bs_snapshots := bs_snapshots B - 1\<rparr> else B)"

definition fact_records :: "'x business_snapshots \<Rightarrow> 'x business_record list" where
  "fact_records B = map (\<lambda>(i, ob). RuntimeRec i (fo_fact ob)) (bs_facts B)"

datatype capture_error = StoreError | SnapshotTooLarge | CaptureThrows

definition bs_captured ::
  "'x stream_env \<Rightarrow> ('x business_record list \<Rightarrow> number) \<Rightarrow> handle \<Rightarrow> 'x business_record list option \<Rightarrow> business_filter \<Rightarrow> 'x business_snapshots \<Rightarrow>
     (capture_error + ('x business_record list \<times> business_cursor)) \<times> 'x business_snapshots" where
  "bs_captured env bytesOf h result f B =
     (case result of
        None \<Rightarrow> (Inl StoreError, bs_release h B)
      | Some records \<Rightarrow>
          (case es_capture env records (fact_records B) f (bs_stream B) of
             Inl _ \<Rightarrow> (Inl CaptureThrows, bs_release h B)
           | Inr (kept, cursor) \<Rightarrow>
               if bytesOf kept > LIMIT_snapshotBytes \<or> int (length kept) > LIMIT_snapshotItems then (Inl SnapshotTooLarge, bs_release h B)
               else (Inr (kept, cursor), B)))"

definition bs_fact :: "run_ref \<Rightarrow> 'x business_snapshots \<Rightarrow> runtime_fact option" where
  "bs_fact run B = map_option fo_fact (map_of (bs_facts B) (businessRunId run))"

definition bs_close :: "'x stream_env \<Rightarrow> 'x business_snapshots \<Rightarrow> 'x business_snapshots" where
  "bs_close env B = (if bs_closed B then B else B\<lparr>bs_closed := True, bs_stream := es_close env (bs_stream B), bs_facts := []\<rparr>)"

definition new_business_snapshots ::
  "'x stream_env \<Rightarrow> ident \<Rightarrow> ident \<Rightarrow> window_limits \<Rightarrow> run_status list \<Rightarrow> 'x business_snapshots option" where
  "new_business_snapshots env serverId relayInstanceId limits listed =
     (case new_event_stream env serverId relayInstanceId limits of
        Inl _ \<Rightarrow> None
      | Inr s \<Rightarrow> fold (\<lambda>status B. Option.bind B (bs_observe env status)) listed
          (Some \<lparr>bs_stream = s, bs_facts = [], bs_snapshots = 0, bs_slots = [], bs_closed = False\<rparr>))"

subsection \<open>What a step publishes\<close>

datatype 'x bs_op =
    BsChanged bool run_fact
  | BsPublication bool "'x business_change list option"
  | BsEvent bool run_ref worker_ref run_event "worker_ref option"
  | BsCapture
  | BsCaptured "'x business_record list \<Rightarrow> number" handle "'x business_record list option" business_filter
  | BsRelease handle
  | BsSubscribe business_filter business_cursor
  | BsUnsubscribe handle
  | BsClose

fun bs_step :: "'x stream_env \<Rightarrow> 'x bs_op \<Rightarrow> 'x business_snapshots \<Rightarrow> 'x business_snapshots" where
  "bs_step env (BsChanged failed f) B = bs_changed env failed f B"
| "bs_step env (BsPublication failed p) B = bs_publication env failed p B"
| "bs_step env (BsEvent failed run worker event placed) B = bs_event env failed run worker event placed B"
| "bs_step env BsCapture B = snd (bs_capture B)"
| "bs_step env (BsCaptured bytesOf h result f) B = snd (bs_captured env bytesOf h result f B)"
| "bs_step env (BsRelease h) B = bs_release h B"
| "bs_step env (BsSubscribe f since) B = B\<lparr>bs_stream := snd (es_subscribe env f since (bs_stream B))\<rparr>"
| "bs_step env (BsUnsubscribe h) B = B\<lparr>bs_stream := es_dispose h (bs_stream B)\<rparr>"
| "bs_step env BsClose B = bs_close env B"

definition fact_map :: "'x business_snapshots \<Rightarrow> (business_kind \<times> string) \<rightharpoonup> 'x business_record" where
  "fact_map B p = (if fst p = KRuntime then map_option (\<lambda>ob. RuntimeRec (snd p) (fo_fact ob)) (map_of (bs_facts B) (snd p)) else None)"

text \<open>
  The ways a step can go: it publishes changes that say what happened to the facts, it starts a new generation, or the facts stay
  and only the subscriptions may change.
\<close>

fun subscription_op :: "'x es_op \<Rightarrow> bool" where
  "subscription_op (EsSubscribe f since) \<longleftrightarrow> True"
| "subscription_op (EsDispose h) \<longleftrightarrow> True"
| "subscription_op _ \<longleftrightarrow> False"

inductive bs_effect :: "'x stream_env \<Rightarrow> 'x business_snapshots \<Rightarrow> 'x business_snapshots \<Rightarrow> bool"
  for env B where
  publishes: "bs_stream B' = es_publish env cs (bs_stream B) \<Longrightarrow> (\<And>i. fact_map B' (KRuntime, i) = fold change_spec cs (fact_map B) (KRuntime, i)) \<Longrightarrow> bs_effect env B B'"
| invalidates: "bs_stream B' = es_invalidate env r u (bs_stream B) \<Longrightarrow> bs_effect env B B'"
| subscribes: "bs_stream B' = es_step env op (bs_stream B) \<Longrightarrow> subscription_op op \<Longrightarrow> fact_map B' = fact_map B \<Longrightarrow> bs_effect env B B'"
| keeps: "bs_stream B' = bs_stream B \<Longrightarrow> fact_map B' = fact_map B \<Longrightarrow> bs_effect env B B'"

lemma effect_refl [intro]: "bs_effect env B B"
  by (rule keeps) simp_all

lemma bs_observe_cases:
  assumes "bs_observe env status B = Some B'"
  obtains "B' = B"
  | fc atSeq where "bs_facts B' = AList.update (businessRunId (st_run status)) \<lparr>fo_fact = fc, fo_atSeq = atSeq\<rparr> (bs_facts B)"
      and "fc = observed_fact (map_of (bs_facts B) (businessRunId (st_run status))) status"
      and "atSeq = max (seq_or_none (st_parsedSeq status)) (case map_of (bs_facts B) (businessRunId (st_run status)) of None \<Rightarrow> -1 | Some p \<Rightarrow> fo_atSeq p)"
      and "\<And>p. map_of (bs_facts B) (businessRunId (st_run status)) = Some p \<Longrightarrow> bf_status (fo_fact p) = RunExited \<Longrightarrow> st_status status = RunExited"
      and "bs_stream B' = (if map_option fo_fact (map_of (bs_facts B) (businessRunId (st_run status))) \<noteq> Some fc
        then es_publish env [Upsert (RuntimeRec (businessRunId (st_run status)) fc)] (bs_stream B) else bs_stream B)"
  using assms that(1) by (auto simp: bs_observe_def Let_def split: if_splits intro!: that(2))

lemma RuntimeRec_fresh: "\<not> outdated v (RuntimeRec i fc)"
  by (auto simp: outdated_def split: option.splits)

lemma bs_observe_effect:
  assumes "bs_observe env status B = Some B'"
  shows "bs_effect env B B'"
  using assms
proof (cases rule: bs_observe_cases)
  case (2 fc atSeq)
  let ?i = "businessRunId (st_run status)"
  have fm: "fact_map B' = (fact_map B)((KRuntime, ?i) \<mapsto> RuntimeRec ?i fc)" by (auto simp: fact_map_def fun_eq_iff 2(1))
  show ?thesis
  proof (cases "map_option fo_fact (map_of (bs_facts B) ?i) = Some fc")
    case True
    then have "fact_map B (KRuntime, ?i) = Some (RuntimeRec ?i fc)" by (auto simp: fact_map_def)
    then show ?thesis using 2(5) True by (intro keeps) (auto simp: fm)
  next
    case False
    then have "bs_stream B' = es_publish env [Upsert (RuntimeRec ?i fc)] (bs_stream B)" using 2(5) by simp
    then show ?thesis by (rule publishes) (simp add: fm RuntimeRec_fresh)
  qed
qed auto

text \<open>The store publishes durable records only.\<close>

fun durable_op :: "'x bs_op \<Rightarrow> bool" where
  "durable_op (BsPublication failed (Some changes)) \<longleftrightarrow> list_all (\<lambda>c. change_kind c \<noteq> KRuntime) changes"
| "durable_op _ \<longleftrightarrow> True"

lemma durable_changes: "list_all (\<lambda>c. change_kind c \<noteq> KRuntime) cs \<Longrightarrow> fold change_spec cs m (KRuntime, i) = m (KRuntime, i)"
proof (induction cs arbitrary: m)
  case (Cons c cs)
  have "change_spec c m (KRuntime, i) = m (KRuntime, i)" using Cons.prems by (cases c) auto
  then show ?case using Cons by simp
qed simp

lemma bs_changed_effect: "bs_effect env B (bs_changed env failed f B)"
proof -
  obtain run worker status where f: "f = (run, worker, status)" by (cases f)
  show ?thesis
  proof (cases status)
    case None
    show ?thesis
    proof (cases "map_of (bs_facts B) (businessRunId run) = None")
      case False
      then have "bs_stream (bs_changed env failed f B) = es_publish env [Delete KRuntime (businessRunId run)] (bs_stream B)"
        using f None by (auto simp: bs_changed_def Let_def)
      then show ?thesis by (rule publishes) (use f None False in \<open>auto simp: bs_changed_def Let_def fact_map_def\<close>)
    qed (use f None in \<open>auto simp: bs_changed_def\<close>)
  next
    case (Some st)
    show ?thesis
    proof (cases "bs_observe env st B")
      case None
      then show ?thesis using f Some by (intro invalidates) (simp add: bs_changed_def bs_uncertain_def)
    next
      case ob: (Some B')
      then show ?thesis using bs_observe_effect [OF ob] f Some by (simp add: bs_changed_def)
    qed
  qed
qed

lemma bs_event_cases:
  obtains "bs_event env failed run worker event placed B = B"
  | current status where "map_of (bs_facts B) (businessRunId run) = Some current" and "terminal_status (fo_fact current) event = Some status"
      and "bs_event env failed run worker event placed B = (case bs_observe env status B of None \<Rightarrow> bs_uncertain env failed B | Some B' \<Rightarrow> B')"
proof (cases "bs_event env failed run worker event placed B = B")
  case False
  then obtain current w status where "map_of (bs_facts B) (businessRunId run) = Some current" "placed = Some w"
    "terminal_status (fo_fact current) event = Some status"
    "bs_event env failed run worker event placed B = (case bs_observe env status B of None \<Rightarrow> bs_uncertain env failed B | Some B' \<Rightarrow> B')"
    by (auto simp: bs_event_def split: option.splits if_splits)
  then show ?thesis using that(2) by blast
qed (use that(1) in blast)

lemma bs_event_effect: "bs_effect env B (bs_event env failed run worker event placed B)"
proof (cases rule: bs_event_cases [of env failed run worker event placed B])
  case 1
  then show ?thesis by auto
next
  case (2 current status)
  show ?thesis
  proof (cases "bs_observe env status B")
    case None
    then show ?thesis using 2(3) by (intro invalidates) (simp add: bs_uncertain_def)
  next
    case (Some B')
    then show ?thesis using bs_observe_effect [OF Some] 2 by simp
  qed
qed

lemma bs_step_effect:
  assumes "durable_op op"
  shows "bs_effect env B (bs_step env op B)"
proof (cases op)
  case (BsPublication failed p)
  show ?thesis
  proof (cases p)
    case None
    then show ?thesis using BsPublication by (intro invalidates) (simp add: bs_publication_def bs_uncertain_def)
  next
    case (Some changes)
    then have "bs_stream (bs_step env op B) = es_publish env changes (bs_stream B)" using BsPublication by (simp add: bs_publication_def)
    then show ?thesis by (rule publishes) (use BsPublication Some assms in \<open>simp add: bs_publication_def durable_changes\<close>, simp add: fact_map_def)
  qed
next
  case (BsSubscribe f since)
  then show ?thesis by (intro subscribes [of _ env "EsSubscribe f since"]) (simp_all add: fact_map_def fun_eq_iff)
next
  case (BsUnsubscribe h)
  then show ?thesis by (intro subscribes [of _ env "EsDispose h"]) (simp_all add: fact_map_def fun_eq_iff)
next
  case BsClose
  show ?thesis
  proof (cases "bs_closed B")
    case False
    then show ?thesis using BsClose by (intro invalidates) (simp add: bs_close_def es_close_def)
  qed (use BsClose in \<open>auto simp: bs_close_def\<close>)
next
  case BsCapture
  then show ?thesis by (intro keeps) (simp_all add: bs_capture_def fact_map_def fun_eq_iff)
next
  case (BsRelease h)
  then show ?thesis by (intro keeps) (simp_all add: bs_release_def fact_map_def fun_eq_iff)
next
  case (BsCaptured bytesOf h result f)
  then show ?thesis by (intro keeps) (simp_all add: bs_captured_def bs_release_def fact_map_def fun_eq_iff split: option.split sum.split)
qed (use bs_changed_effect bs_event_effect in simp_all)

lemma es_invalidate_ids: "es_ids (es_invalidate env r u s) = Suc (es_ids s)"
proof -
  have "es_ids (fold (es_reset env r) hs t) = es_ids t" for hs and t :: "'a event_stream"
    by (induction hs arbitrary: t) (simp_all add: es_reset_def Let_def)
  then show ?thesis by (simp add: es_invalidate_def Let_def)
qed

definition es_quiet :: "'x event_stream \<Rightarrow> 'x event_stream \<Rightarrow> bool" where
  "es_quiet s s' \<longleftrightarrow> es_ids s' = es_ids s \<and> es_sequence s' = es_sequence s \<and> es_unavailable s' = es_unavailable s"

lemma es_append_facts: "es_ids (es_append b s) = es_ids s \<and> es_sequence (es_append b s) = ba_sequence b \<and> es_unavailable (es_append b s) = es_unavailable s"
proof -
  have "es_quiet t (es_trim t)" for t :: "'a event_stream"
  proof (induction t rule: es_trim.induct)
    case (1 t)
    then show ?case by (subst es_trim.simps) (auto simp: es_quiet_def)
  qed
  then show ?thesis by (simp add: es_append_def es_quiet_def)
qed

lemma es_publish_outcome:
  obtains "es_publish env cs s = s" and "es_unavailable s \<or> cs = []"
  | "es_ids (es_publish env cs s) = Suc (es_ids s)"
  | "es_ids (es_publish env cs s) = es_ids s" and "es_sequence (es_publish env cs s) = es_sequence s + 1" and "es_unavailable (es_publish env cs s) = es_unavailable s"
proof -
  have "es_same t (fold (es_deliver env b) hs t)" for b hs and t :: "'a event_stream"
  proof (induction hs arbitrary: t)
    case (Cons h hs)
    show ?case using Cons.IH [of "es_deliver env b h t"] es_same_trans [OF es_deliver_same] by simp
  qed simp
  then have "es_quiet t (fold (es_deliver env b) hs t)" for b hs and t :: "'a event_stream" by (simp add: es_same_def es_quiet_def)
  then have app: "es_ids (fold (es_deliver env b) hs (es_append b s)) = es_ids s \<and> es_sequence (fold (es_deliver env b) hs (es_append b s)) = ba_sequence b \<and>
      es_unavailable (fold (es_deliver env b) hs (es_append b s)) = es_unavailable s" for b hs
    using es_append_facts [of b s] by (simp add: es_quiet_def)
  show ?thesis
  proof (cases "es_unavailable s \<or> cs = []")
    case True
    then show ?thesis using that(1) by (auto simp: es_publish_def)
  next
    case False
    let ?b = "\<lparr>ba_sequence = es_sequence s + 1, ba_changes = cs, ba_bytes = ev_encodedBytes env cs\<rparr>"
    have "es_publish env cs s \<in> {es_invalidate env RsPublicationUncertain False s, es_invalidate env RsOverflow False s,
        fold (es_deliver env ?b) (es_subscribers s) (es_append ?b s)}" using False by (simp add: es_publish_def Let_def)
    then consider r where "es_publish env cs s = es_invalidate env r False s" | "es_publish env cs s = fold (es_deliver env ?b) (es_subscribers s) (es_append ?b s)"
      by blast
    then show ?thesis
    proof cases
      case 1
      then show ?thesis using that(2) es_invalidate_ids by metis
    next
      case 2
      then show ?thesis using that(3) app [of ?b "es_subscribers s"] by simp
    qed
  qed
qed

subsection \<open>The facts and the history of the stream\<close>

definition same_runtime :: "((business_kind \<times> string) \<rightharpoonup> 'x business_record) \<Rightarrow> ((business_kind \<times> string) \<rightharpoonup> 'x business_record) \<Rightarrow> bool" where
  "same_runtime m m' \<longleftrightarrow> (\<forall>i. m (KRuntime, i) = m' (KRuntime, i))"

lemma change_spec_runtime: "same_runtime m m' \<Longrightarrow> same_runtime (change_spec c m) (change_spec c m')"
  by (cases c) (auto simp: same_runtime_def)

lemma change_spec_runtime_fold: "same_runtime m m' \<Longrightarrow> same_runtime (fold change_spec cs m) (fold change_spec cs m')"
  by (induction cs arbitrary: m m') (simp_all add: change_spec_runtime)

lemma same_runtime_refl [simp]: "same_runtime m m"
  by (simp add: same_runtime_def)

lemma same_runtime_trans: "same_runtime m m' \<Longrightarrow> same_runtime m' m'' \<Longrightarrow> same_runtime m m''"
  by (simp add: same_runtime_def)

text \<open>
  One step on the state and on the history of its stream: within a generation the history grows by batches whose changes turn the old
  facts into the new ones.
\<close>

definition extends :: "'x batch list \<Rightarrow> 'x business_snapshots \<Rightarrow> 'x batch list \<Rightarrow> 'x business_snapshots \<Rightarrow> bool" where
  "extends hist B hist' B' \<longleftrightarrow> es_ids (bs_stream B) \<le> es_ids (bs_stream B') \<and>
     (es_ids (bs_stream B') = es_ids (bs_stream B) \<and> \<not> es_unavailable (bs_stream B) \<longrightarrow> \<not> es_unavailable (bs_stream B') \<and>
       (\<exists>more. hist' = hist @ more \<and> same_runtime (fact_map B') (fold change_spec (concat (map ba_changes more)) (fact_map B))))"

lemma extends_refl: "extends hist B hist B"
  by (simp add: extends_def)

lemma extends_trans:
  assumes "extends hist B hist' B'" and "extends hist' B' hist'' B''"
  shows "extends hist B hist'' B''"
proof -
  have le: "es_ids (bs_stream B) \<le> es_ids (bs_stream B')" "es_ids (bs_stream B') \<le> es_ids (bs_stream B'')" using assms by (simp_all add: extends_def)
  show ?thesis
  proof (cases "es_ids (bs_stream B'') = es_ids (bs_stream B) \<and> \<not> es_unavailable (bs_stream B)")
    case True
    then have ids: "es_ids (bs_stream B') = es_ids (bs_stream B)" using le by simp
    obtain more where more: "\<not> es_unavailable (bs_stream B')" "hist' = hist @ more"
      "same_runtime (fact_map B') (fold change_spec (concat (map ba_changes more)) (fact_map B))" using assms(1) True ids by (auto simp: extends_def)
    obtain more' where more': "\<not> es_unavailable (bs_stream B'')" "hist'' = hist' @ more'"
      "same_runtime (fact_map B'') (fold change_spec (concat (map ba_changes more')) (fact_map B'))" using assms(2) True ids more(1) by (auto simp: extends_def)
    have "same_runtime (fact_map B'') (fold change_spec (concat (map ba_changes (more @ more'))) (fact_map B))"
      using same_runtime_trans [OF more'(3) change_spec_runtime_fold [OF more(3)]] by simp
    then show ?thesis using le more(2) more'(1,2) by (auto simp: extends_def intro!: exI [of _ "more @ more'"])
  qed (use le in \<open>auto simp: extends_def\<close>)
qed

definition facts_inv :: "'x stream_env \<Rightarrow> 'x batch list \<Rightarrow> 'x business_snapshots \<Rightarrow> bool" where
  "facts_inv env hist B \<longleftrightarrow> es_inv hist (bs_stream B) \<and> generation_ok env (bs_stream B) \<and> distinct_keys (bs_facts B)"

lemma es_step_extends:
  assumes inv: "es_inv hist s" and gen: "generation_ok env s"
  obtains hist' where "es_inv hist' (es_step env op s)" and "generation_ok env (es_step env op s)" and "es_ids s \<le> es_ids (es_step env op s)"
    and "hist' = snd (hist_step env op (s, hist))"
proof
  show "es_inv (snd (hist_step env op (s, hist))) (es_step env op s)" using hist_step_inv [OF inv, of env op] by (simp add: hist_step_def Let_def)
  show "generation_ok env (es_step env op s)" "es_ids s \<le> es_ids (es_step env op s)" using es_step_generation [OF gen, of op] by simp_all
qed (rule refl)

lemma es_subscription_quiet:
  assumes "subscription_op op"
  shows "es_sequence (es_step env op s) = es_sequence s \<and> es_unavailable (es_step env op s) = es_unavailable s"
proof -
  have "es_sequence (fold (replay_step env h) bs t) = es_sequence t \<and> es_unavailable (fold (replay_step env h) bs t) = es_unavailable t" for h bs and t :: "'a event_stream"
    by (induction bs arbitrary: t) (simp_all add: replay_step_def es_deliver_eq)
  then show ?thesis using assms by (cases op) (simp_all add: es_subscribe_def Let_def es_replay_eq es_dispose_def)
qed

lemma effect_extends:
  assumes inv: "es_inv hist (bs_stream B)" and gen: "generation_ok env (bs_stream B)" and effect: "bs_effect env B B'"
  shows "\<exists>hist'. es_inv hist' (bs_stream B') \<and> generation_ok env (bs_stream B') \<and> extends hist B hist' B'"
  using effect
proof cases
  case (publishes cs)
  obtain hist' where st: "es_inv hist' (bs_stream B')" "generation_ok env (bs_stream B')" "es_ids (bs_stream B) \<le> es_ids (bs_stream B')"
    and hist': "hist' = snd (hist_step env (EsPublish cs) (bs_stream B, hist))"
    using es_step_extends [OF inv gen, of "EsPublish cs"] publishes(1) by auto
  have "extends hist B hist' B'"
  proof (cases rule: es_publish_outcome [of env cs "bs_stream B"])
    case 1
    then show ?thesis using publishes hist' by (auto simp: extends_def hist_step_def same_runtime_def)
  next
    case 2
    then show ?thesis using publishes(1) by (simp add: extends_def)
  next
    case 3
    then have "hist' = hist @ [\<lparr>ba_sequence = es_sequence (bs_stream B'), ba_changes = cs, ba_bytes = ev_encodedBytes env cs\<rparr>]"
      using hist' publishes(1) by (simp add: hist_step_def Let_def)
    then show ?thesis using publishes 3 by (simp add: extends_def same_runtime_def)
  qed
  then show ?thesis using st by blast
next
  case (invalidates r u)
  have "extends hist B hist' B'" for hist' using es_invalidate_ids [of env r u "bs_stream B"] invalidates by (simp add: extends_def)
  then show ?thesis using es_step_extends [OF inv gen, of "EsInvalidate r u"] invalidates by (metis es_step.simps(4))
next
  case (subscribes op)
  obtain hist' where st: "es_inv hist' (bs_stream B')" "generation_ok env (bs_stream B')" "es_ids (bs_stream B) \<le> es_ids (bs_stream B')"
    and hist': "hist' = snd (hist_step env op (bs_stream B, hist))"
    using es_step_extends [OF inv gen, of op] subscribes(1) by auto
  have "extends hist B hist' B'" using st(3) hist' subscribes es_subscription_quiet [OF subscribes(2), of env "bs_stream B"]
    by (simp add: extends_def hist_step_def Let_def)
  then show ?thesis using st by blast
next
  case keeps
  then show ?thesis using inv gen by (auto simp: extends_def)
qed

text \<open>A later observation never falls behind an earlier one.\<close>

definition ahead :: "fact_observation \<Rightarrow> fact_observation \<Rightarrow> bool" where
  "ahead p q \<longleftrightarrow> fo_atSeq p \<le> fo_atSeq q \<and> bf_controlEpoch (fo_fact p) \<le> bf_controlEpoch (fo_fact q) \<and>
     (bf_status (fo_fact p) = RunExited \<longrightarrow> bf_status (fo_fact q) = RunExited)"

lemma ahead_refl [simp]: "ahead p p"
  by (simp add: ahead_def)

lemma ahead_trans: "ahead p q \<Longrightarrow> ahead q r \<Longrightarrow> ahead p r"
  by (auto simp: ahead_def)

lemma bs_observe_ahead:
  assumes "bs_observe env status B = Some B'" and p: "map_of (bs_facts B) i = Some p"
  shows "\<exists>q. map_of (bs_facts B') i = Some q \<and> ahead p q"
  using assms(1)
proof (cases rule: bs_observe_cases)
  case (2 fc atSeq)
  show ?thesis
  proof (cases "i = businessRunId (st_run status)")
    case True
    have "ahead p \<lparr>fo_fact = fc, fo_atSeq = atSeq\<rparr>"
      using 2(2-4) p True by (auto simp: ahead_def observed_fact_def settle_fact_def fact_of_status_def Let_def)
    then show ?thesis using 2(1) True by simp
  qed (use 2(1) p in simp)
qed (use p in simp)

fun removes_fact :: "string \<Rightarrow> 'x bs_op \<Rightarrow> bool" where
  "removes_fact i (BsChanged failed (run, worker, None)) \<longleftrightarrow> businessRunId run = i"
| "removes_fact i BsClose \<longleftrightarrow> True"
| "removes_fact i _ \<longleftrightarrow> False"

lemma bs_step_ahead:
  assumes p: "map_of (bs_facts B) i = Some p" and no: "\<not> removes_fact i op"
  shows "\<exists>q. map_of (bs_facts (bs_step env op B)) i = Some q \<and> ahead p q"
proof -
  have ob: "\<exists>q. map_of (bs_facts (case bs_observe env st B of None \<Rightarrow> bs_uncertain env failed B | Some B' \<Rightarrow> B')) i = Some q \<and> ahead p q" for st failed
    using bs_observe_ahead [OF _ p, of env st] p by (cases "bs_observe env st B") (simp_all add: bs_uncertain_def)
  have same: "bs_facts B' = bs_facts B \<Longrightarrow> \<exists>q. map_of (bs_facts B') i = Some q \<and> ahead p q" for B' :: "'a business_snapshots" using p by simp
  show ?thesis
  proof (cases op)
    case (BsChanged failed f)
    obtain run worker status where f: "f = (run, worker, status)" by (cases f)
    show ?thesis
    proof (cases status)
      case None
      then show ?thesis using p no BsChanged f by (simp add: bs_changed_def Let_def)
    next
      case (Some st)
      then show ?thesis using ob BsChanged f by (simp add: bs_changed_def)
    qed
  next
    case (BsEvent failed run worker event placed)
    show ?thesis
    proof (cases rule: bs_event_cases [of env failed run worker event placed B])
      case 1
      then show ?thesis using p BsEvent by simp
    next
      case (2 current status)
      then show ?thesis using ob BsEvent by simp
    qed
  next
    case (BsPublication failed changes)
    then show ?thesis by (intro same) (simp add: bs_publication_def bs_uncertain_def split: option.split)
  next
    case (BsCaptured bytesOf h result f)
    then show ?thesis by (intro same) (simp add: bs_captured_def bs_release_def split: option.split sum.split)
  next
    case BsCapture
    then show ?thesis by (intro same) (simp add: bs_capture_def)
  next
    case (BsRelease h)
    then show ?thesis by (intro same) (simp add: bs_release_def)
  qed (use no same in simp_all)
qed

lemma bs_run_ahead:
  "map_of (bs_facts B) i = Some p \<Longrightarrow> list_all (\<lambda>op. \<not> removes_fact i op) ops \<Longrightarrow> \<exists>q. map_of (bs_facts (fold (bs_step env) ops B)) i = Some q \<and> ahead p q"
proof (induction ops arbitrary: B p)
  case (Cons op ops)
  obtain q where q: "map_of (bs_facts (bs_step env op B)) i = Some q" "ahead p q" using bs_step_ahead [OF Cons.prems(1), of op env] Cons.prems(2) by auto
  from Cons.IH [OF q(1)] Cons.prems(2) ahead_trans [OF q(2)] show ?case by auto
qed simp

subsection \<open>The properties\<close>

lemma bs_step_distinct: "distinct_keys (bs_facts B) \<Longrightarrow> distinct_keys (bs_facts (bs_step env op B))"
proof -
  assume d: "distinct_keys (bs_facts B)"
  have ob: "distinct_keys (bs_facts B')" if "bs_observe env st B = Some B'" for st B'
    using that d by (cases rule: bs_observe_cases) (auto intro: distinct_keys_update)
  then have obs: "distinct_keys (bs_facts (case bs_observe env st B of None \<Rightarrow> bs_uncertain env failed B | Some B' \<Rightarrow> B'))" for st failed
    using d by (cases "bs_observe env st B") (simp_all add: bs_uncertain_def)
  show ?thesis
  proof (cases op)
    case (BsChanged failed f)
    then show ?thesis using d obs by (auto simp: bs_changed_def Let_def intro: distinct_keys_delete split: prod.split option.split)
  next
    case (BsEvent failed run worker event placed)
    then show ?thesis using d obs by (cases rule: bs_event_cases [of env failed run worker event placed B]) simp_all
  qed (use d in \<open>simp_all add: bs_publication_def bs_uncertain_def bs_capture_def bs_captured_def bs_release_def bs_close_def split: option.split sum.split\<close>)
qed

lemma bs_run_extends:
  assumes "facts_inv env hist B" and "list_all durable_op ops"
  shows "\<exists>hist'. facts_inv env hist' (fold (bs_step env) ops B) \<and> extends hist B hist' (fold (bs_step env) ops B)"
  using assms
proof (induction ops arbitrary: hist B)
  case Nil
  then show ?case using extends_refl by auto
next
  case (Cons op ops)
  have op: "durable_op op" and ops: "list_all durable_op ops" using Cons.prems(2) by simp_all
  obtain hist' where step: "facts_inv env hist' (bs_step env op B)" "extends hist B hist' (bs_step env op B)"
    using effect_extends [OF _ _ bs_step_effect [OF op, of env B]] bs_step_distinct [of B env op] Cons.prems(1) unfolding facts_inv_def by blast
  from Cons.IH [OF step(1) ops] show ?case using extends_trans [OF step(2)] by auto
qed

lemma new_facts_inv:
  assumes "new_business_snapshots env serverId relayInstanceId limits listed = Some B"
  shows "\<exists>hist. facts_inv env hist B"
proof -
  have ob: "\<exists>hist. facts_inv env hist B'" if "facts_inv env hist C" "bs_observe env st C = Some B'" for hist C st B'
  proof -
    have "distinct_keys (bs_facts B')" using bs_step_distinct [of C env "BsChanged False (st_run st, undefined, Some st)"] that by (simp add: facts_inv_def bs_changed_def)
    then show ?thesis using effect_extends [OF _ _ bs_observe_effect [OF that(2)]] that(1) by (auto simp: facts_inv_def)
  qed
  have "\<exists>hist. facts_inv env hist B'" if "\<exists>hist. facts_inv env hist C" "fold (\<lambda>st B. Option.bind B (bs_observe env st)) sts (Some C) = Some B'" for sts C B'
    using that
  proof (induction sts arbitrary: C)
    case (Cons st sts)
    have none: "fold (\<lambda>st B. Option.bind B (bs_observe env st)) sts None = None" by (induction sts) simp_all
    obtain D where D: "bs_observe env st C = Some D" using Cons.prems(2) none by (cases "bs_observe env st C") auto
    show ?case using Cons.IH [of D] ob [OF _ D] Cons.prems D by auto
  qed simp
  moreover obtain s where s: "new_event_stream env serverId relayInstanceId limits = Inr s" using assms by (auto simp: new_business_snapshots_def split: sum.splits)
  moreover have "facts_inv env [] \<lparr>bs_stream = s, bs_facts = [], bs_snapshots = 0, bs_slots = [], bs_closed = False\<rparr>"
    using new_event_stream_inv [OF s] s by (auto simp: facts_inv_def new_event_stream_def generation_ok_def split: if_splits)
  moreover have "fold (\<lambda>st B. Option.bind B (bs_observe env st)) listed (Some \<lparr>bs_stream = s, bs_facts = [], bs_snapshots = 0, bs_slots = [], bs_closed = False\<rparr>) = Some B"
    using assms s by (simp add: new_business_snapshots_def)
  ultimately show ?thesis by blast
qed

text \<open>A subscriber that is still listed was listed all the time, in one generation.\<close>

definition sub_kept :: "handle \<Rightarrow> 'x event_stream \<Rightarrow> 'x event_stream \<Rightarrow> bool" where
  "sub_kept h s s' \<longleftrightarrow> h < length (es_heap s) \<longrightarrow> h < length (es_heap s') \<and> sb_since (es_heap s' ! h) = sb_since (es_heap s ! h) \<and>
     sb_filter (es_heap s' ! h) = sb_filter (es_heap s ! h) \<and> (h \<in> set (es_subscribers s') \<longrightarrow> h \<in> set (es_subscribers s) \<and> es_ids s' = es_ids s)"

lemma sub_kept_refl [simp]: "sub_kept h s s"
  by (simp add: sub_kept_def)

lemma sub_kept_trans: "sub_kept h s t \<Longrightarrow> sub_kept h t u \<Longrightarrow> sub_kept h s u"
  by (auto simp: sub_kept_def)

lemma sub_kept_fold: "(\<And>x s. sub_kept h s (f x s)) \<Longrightarrow> sub_kept h s (fold f xs s)"
  by (induction xs arbitrary: s) (auto intro: sub_kept_trans)

lemma sub_kept_deliver: "sub_kept h s (es_deliver env b k s)"
  using set_remove1_subset [of k "es_subscribers s"] by (cases "k = h") (auto simp: sub_kept_def es_deliver_eq deliver_sub_def)

lemma sub_kept_append: "sub_kept h s (es_append b s)"
proof -
  have "sub_kept h t (es_trim t)" for t :: "'a event_stream"
  proof (induction t rule: es_trim.induct)
    case (1 t)
    then show ?case by (subst es_trim.simps) (auto simp: sub_kept_def)
  qed
  from this [of "s\<lparr>es_sequence := ba_sequence b, es_window := es_window s @ [b], es_bytes := es_bytes s + ba_bytes b\<rparr>"]
  show ?thesis by (simp add: es_append_def sub_kept_def)
qed

lemma sub_kept_invalidate: "sub_kept h s (es_invalidate env r u s)"
proof -
  let ?s = "s\<lparr>es_subscribers := [], es_window := [], es_bytes := 0, es_sequence := 0, es_streamId := ev_createId env (es_ids s), es_ids := Suc (es_ids s),
    es_unavailable := es_unavailable s \<or> u\<rparr>"
  have "sub_kept h ?s (fold (es_reset env r) (es_subscribers s) ?s)"
  proof (rule sub_kept_fold)
    show "sub_kept h t (es_reset env r k t)" for k and t :: "'a event_stream" by (cases "k = h") (simp_all add: sub_kept_def es_reset_def Let_def)
  qed
  moreover have "sub_kept h s ?s" by (simp add: sub_kept_def)
  ultimately have "sub_kept h s (fold (es_reset env r) (es_subscribers s) ?s)" by (rule sub_kept_trans [rotated])
  then show ?thesis by (simp add: es_invalidate_def Let_def)
qed

lemma sub_kept_step: "sub_kept h s (es_step env op s)"
proof (cases op)
  case (EsPublish cs)
  consider "es_publish env cs s = s" | r where "es_publish env cs s = es_invalidate env r False s"
    | b where "es_publish env cs s = fold (es_deliver env b) (es_subscribers s) (es_append b s)" using es_publish_cases [of env cs s] unfolding Let_def by blast
  then show ?thesis
  proof cases
    case (3 b)
    then show ?thesis using EsPublish sub_kept_trans [OF sub_kept_append sub_kept_fold [OF sub_kept_deliver]] by simp
  qed (use EsPublish sub_kept_invalidate in simp_all)
next
  case (EsSubscribe f since)
  let ?s = "s\<lparr>es_heap := es_heap s @ [\<lparr>sb_filter = f, sb_cursor = since, sb_since = bc_sequence since, sb_log = []\<rparr>], es_subscribers := es_subscribers s @ [length (es_heap s)]\<rparr>"
  have "sub_kept h s ?s" by (auto simp: sub_kept_def nth_append)
  moreover have "sub_kept h ?s (es_replay env (length (es_heap s)) (bc_sequence since) ?s)"
    unfolding es_replay_eq by (rule sub_kept_fold) (simp add: replay_step_def sub_kept_deliver)
  ultimately have "sub_kept h s (es_replay env (length (es_heap s)) (bc_sequence since) ?s)" by (rule sub_kept_trans)
  then show ?thesis using EsSubscribe by (simp add: es_subscribe_def Let_def)
next
  case (EsDispose k)
  then show ?thesis using set_remove1_subset [of k "es_subscribers s"] by (auto simp: sub_kept_def es_dispose_def)
qed (simp_all add: es_close_def sub_kept_invalidate)

lemma bs_run_kept:
  assumes "list_all durable_op ops"
  shows "sub_kept h (bs_stream B) (bs_stream (fold (bs_step env) ops B))"
  using assms
proof (induction ops arbitrary: B)
  case (Cons op ops)
  have "durable_op op" using Cons.prems by simp
  from bs_step_effect [OF this, of env B] have "sub_kept h (bs_stream B) (bs_stream (bs_step env op B))"
    by cases (use sub_kept_step [of h "bs_stream B" env] sub_kept_invalidate in \<open>auto dest: spec [of _ "EsPublish _"] simp flip: es_step.simps(1)\<close>)
  from sub_kept_trans [OF this Cons.IH [of "bs_step env op B"]] Cons.prems show ?case by simp
qed simp

text \<open>What a client makes of a snapshot and of the frames it was given: each record and each change applied in order.\<close>

fun frame_changes :: "'x business_frame \<Rightarrow> 'x business_change list" where
  "frame_changes (Changes a c cs) = cs"
| "frame_changes _ = []"

definition client_view :: "'x business_record list \<Rightarrow> 'x business_frame list \<Rightarrow> (business_kind \<times> string) \<rightharpoonup> 'x business_record" where
  "client_view snapshot frames = fold change_spec (map Upsert snapshot @ concat (map frame_changes frames)) (\<lambda>_. None)"

lemma runtime_filter:
  assumes "\<And>c. change_kind c = KRuntime \<Longrightarrow> P c" and "same_runtime m m'"
  shows "same_runtime (fold change_spec (filter P cs) m) (fold change_spec cs m')"
  using assms(2)
proof (induction cs arbitrary: m m')
  case (Cons c cs)
  have "same_runtime m (change_spec c m')" if "\<not> P c"
  proof -
    have "change_kind c \<noteq> KRuntime" using assms(1) that by blast
    then show ?thesis using Cons.prems durable_changes [of "[c]" m'] by (simp add: same_runtime_def)
  qed
  then show ?case using Cons.IH Cons.prems change_spec_runtime [of m m' c] by simp
qed simp

lemma fact_records_view:
  "distinct_keys al \<Longrightarrow> fold change_spec (map (\<lambda>(i, ob). Upsert (RuntimeRec i (fo_fact ob))) al) m (KRuntime, i) =
     (case map_of al i of None \<Rightarrow> m (KRuntime, i) | Some ob \<Rightarrow> Some (RuntimeRec i (fo_fact ob)))"
proof (induction al arbitrary: m)
  case (Cons p al)
  obtain k ob where p: "p = (k, ob)" by fastforce
  have "map_of al k = None" "distinct_keys al" using Cons.prems p by (simp_all add: map_of_eq_None_iff)
  then show ?case using Cons.IH p by (simp add: RuntimeRec_fresh split: option.split)
qed simp

lemma captured_view:
  assumes cap: "fst (bs_captured env bytesOf slot (Some records) f B) = Inr (kept, cursor)" and d: "distinct_keys (bs_facts B)"
    and durable: "list_all (\<lambda>v. rec_kind v \<noteq> KRuntime) records" and kinds: "KRuntime \<in> set (normalizedBusinessKinds f)"
  shows "same_runtime (fold change_spec (map Upsert kept) (\<lambda>_. None)) (fact_map B)" and "\<not> es_unavailable (bs_stream B)" and "cursor = es_cursor (bs_stream B) f"
proof -
  have c: "es_capture env records (fact_records B) f (bs_stream B) = Inr (kept, cursor)" using cap by (auto simp: bs_captured_def split: sum.splits if_splits)
  then show "\<not> es_unavailable (bs_stream B)" "cursor = es_cursor (bs_stream B) f" by (auto simp: es_capture_def Let_def split: if_splits)
  have kept: "kept = filter (\<lambda>v. rec_kind v \<in> set (normalizedBusinessKinds f)) (records @ fact_records B)"
    using c by (auto simp: es_capture_def Let_def split: if_splits)
  have upserts: "map Upsert kept = filter (\<lambda>c. change_kind c \<in> set (normalizedBusinessKinds f)) (map Upsert (records @ fact_records B))"
    by (simp add: kept filter_map o_def)
  have "same_runtime (fold change_spec (map Upsert kept) (\<lambda>_. None)) (fold change_spec (map Upsert (records @ fact_records B)) (\<lambda>_. None))"
    unfolding upserts by (rule runtime_filter) (simp_all add: kinds same_runtime_def)
  moreover have "same_runtime (fold change_spec (map Upsert (records @ fact_records B)) (\<lambda>_. None)) (fact_map B)"
  proof -
    have "fold change_spec (map Upsert records) (\<lambda>_. None) (KRuntime, i) = None" for i
      using durable_changes [of "map Upsert records" "\<lambda>_. None" i] durable by (simp add: list_all_iff)
    moreover have "map Upsert (fact_records B) = map (\<lambda>(i, ob). Upsert (RuntimeRec i (fo_fact ob))) (bs_facts B)" by (simp add: fact_records_def case_prod_beta')
    ultimately show ?thesis by (simp add: fact_records_view [OF d] same_runtime_def fact_map_def split: option.split)
  qed
  ultimately show "same_runtime (fold change_spec (map Upsert kept) (\<lambda>_. None)) (fact_map B)" by (rule same_runtime_trans)
qed

lemma log_changes:
  assumes kinds: "KRuntime \<in> set (normalizedBusinessKinds f)" and m: "same_runtime m m'"
  shows "same_runtime (fold change_spec (concat (map frame_changes (map (batch_frame c f) bs))) m) (fold change_spec (concat (map ba_changes bs)) m')"
proof -
  have "concat (map frame_changes (map (batch_frame c f) bs)) = filter (\<lambda>ch. change_kind ch \<in> set (normalizedBusinessKinds f)) (concat (map ba_changes bs))"
    by (simp add: filter_concat batch_frame_def o_def)
  then show ?thesis using runtime_filter [OF _ m, of "\<lambda>ch. change_kind ch \<in> set (normalizedBusinessKinds f)"] kinds by simp
qed

lemma subscribed_heap:
  assumes "es_subscribe env f cursor s = (Subscribed h, s')"
  shows "h < length (es_heap s')"
proof -
  have "length (es_heap (fold (replay_step env k) bs t)) = length (es_heap t)" for k bs and t :: "'a event_stream"
    by (induction bs arbitrary: t) (simp_all add: replay_step_def es_deliver_eq)
  then show ?thesis using assms by (auto simp: es_subscribe_def Let_def es_replay_eq split: if_splits)
qed

lemma history_after:
  assumes "es_inv (hist @ since) s'" and "es_inv hist s"
  shows "filter (\<lambda>b. es_sequence s < ba_sequence b) (hist @ since) = since"
proof -
  have seq: "map ba_sequence hist = [1..es_sequence s]" "0 \<le> es_sequence s" "map ba_sequence (hist @ since) = [1..es_sequence s']" "0 \<le> es_sequence s'"
    using assms by (simp_all add: es_inv_def es_window_ok_def)
  have "length hist = nat (es_sequence s)" "length (hist @ since) = nat (es_sequence s')" using arg_cong [OF seq(1), of length] arg_cong [OF seq(3), of length] by simp_all
  then have "es_sequence s \<le> es_sequence s'" "drop (nat (es_sequence s)) (hist @ since) = since" using seq(2,4) by simp_all
  then show ?thesis using hist_after(3) [OF seq(3,2)] by simp
qed

lemma same_generation_ids:
  assumes "inj (ev_createId env)" and "generation_ok env s" and "generation_ok env t" and "es_streamId s = es_streamId t"
  shows "es_ids s = es_ids t"
proof -
  have "es_ids s - 1 = es_ids t - 1" using assms by (simp add: generation_ok_def inj_eq)
  moreover have "0 < es_ids s" "0 < es_ids t" using assms(2,3) by (simp_all add: generation_ok_def)
  ultimately show ?thesis by arith
qed

text \<open>
  C27. A snapshot and the stream carry the runtime facts to the client. Let a snapshot be captured at some moment with the runtime kind in
  its filter, and a subscription be opened from its cursor at any later moment, whatever statuses, terminal events, publications,
  removals and other subscriptions happen before, between and after. As long as the subscription is live, the snapshot with the frames
  the subscriber was given, applied in order, has for every run exactly the server's present fact, and the subscriber's cursor is the stream's.
  Ids from \<open>createId\<close> are taken to be unique and the store to hold no runtime records.
\<close>

theorem facts_follow_stream:
  assumes ids: "inj (ev_createId env)" and start: "new_business_snapshots env serverId relayInstanceId limits listed = Some B0"
    and ops: "list_all durable_op (before @ between @ later)" and B1: "B1 = fold (bs_step env) before B0"
    and cap: "fst (bs_captured env bytesOf slot (Some records) f B1) = Inr (kept, cursor)"
    and durable: "list_all (\<lambda>v. rec_kind v \<noteq> KRuntime) records" and kinds: "KRuntime \<in> set (normalizedBusinessKinds f)"
    and B2: "B2 = fold (bs_step env) between B1" and sub: "es_subscribe env f cursor (bs_stream B2) = (Subscribed h, s)"
    and B3: "B3 = fold (bs_step env) later (B2\<lparr>bs_stream := s\<rparr>)" and live: "h \<in> set (es_subscribers (bs_stream B3))"
  shows "client_view kept (sb_log (es_heap (bs_stream B3) ! h)) (KRuntime, businessRunId run) =
      map_option (RuntimeRec (businessRunId run)) (bs_fact run B3) \<and>
    sb_cursor (es_heap (bs_stream B3) ! h) = es_cursor (bs_stream B3) f"
proof -
  let ?C = "B2\<lparr>bs_stream := s\<rparr>"
  have d: "list_all durable_op before" "list_all durable_op between" "list_all durable_op later" using ops by simp_all
  obtain hist1 where i1: "facts_inv env hist1 B1" using new_facts_inv [OF start] bs_run_extends [OF _ d(1)] B1 by blast
  obtain hist2 where i2: "facts_inv env hist2 B2" "extends hist1 B1 hist2 B2" using bs_run_extends [OF i1 d(2)] B2 by blast
  have subs: "es_inv hist2 s" "es_ids s = es_ids (bs_stream B2)" "cursor = (es_cursor (bs_stream B2) f)\<lparr>bc_sequence := bc_sequence cursor\<rparr>"
    "sb_since (es_heap s ! h) = bc_sequence cursor" "sb_filter (es_heap s ! h) = f" using es_subscribe_inv [OF _ sub, of hist2] i2(1) by (simp_all add: facts_inv_def)
  have step: "s = es_step env (EsSubscribe f cursor) (bs_stream B2)" using sub by simp
  have C: "facts_inv env hist2 ?C" using subs(1) i2(1) es_step_generation [of env "bs_stream B2" "EsSubscribe f cursor"] step by (simp add: facts_inv_def)
  have ext: "extends hist2 B2 hist2 ?C" using subs(2) es_subscription_quiet [of "EsSubscribe f cursor" env "bs_stream B2"] step
    by (simp add: extends_def same_runtime_def fact_map_def)
  obtain hist3 where i3: "facts_inv env hist3 B3" "extends hist2 ?C hist3 B3" using bs_run_extends [OF C d(3)] B3 by blast
  have keep: "es_ids (bs_stream B3) = es_ids s" "sb_since (es_heap (bs_stream B3) ! h) = bc_sequence cursor" "sb_filter (es_heap (bs_stream B3) ! h) = f"
    using bs_run_kept [OF d(3), of h ?C env] live subs(4,5) subscribed_heap [OF sub] by (simp_all add: sub_kept_def B3)
  have "distinct_keys (bs_facts B1)" using i1 by (simp add: facts_inv_def)
  note view = captured_view [OF cap this durable kinds]
  have "bc_streamId cursor = es_streamId (bs_stream B1)" "bc_streamId cursor = es_streamId (bs_stream B2)"
    using view(3) arg_cong [OF subs(3), of bc_streamId] by (simp_all add: es_cursor_def)
  then have "es_ids (bs_stream B1) = es_ids (bs_stream B2)" using same_generation_ids [OF ids, of "bs_stream B1" "bs_stream B2"] i1 i2(1) by (simp add: facts_inv_def)
  then obtain since where since: "hist3 = hist1 @ since" "same_runtime (fact_map B3) (fold change_spec (concat (map ba_changes since)) (fact_map B1))"
    using extends_trans [OF i2(2) extends_trans [OF ext i3(2)]] keep(1) subs(2) view(2) by (auto simp: extends_def)
  have "sub_ok hist3 (bs_stream B3) (es_heap (bs_stream B3) ! h)" using i3(1) live by (simp add: facts_inv_def es_inv_def)
  moreover have "filter (\<lambda>b. bc_sequence cursor < ba_sequence b) hist3 = since"
    using history_after [of hist1 since "bs_stream B3" "bs_stream B1"] i1 i3(1) since(1) view(3) by (simp add: facts_inv_def es_cursor_def)
  ultimately have log: "sb_log (es_heap (bs_stream B3) ! h) = map (batch_frame (es_cursor (bs_stream B3) f) f) since"
    "sb_cursor (es_heap (bs_stream B3) ! h) = es_cursor (bs_stream B3) f" using keep(2,3) by (simp_all add: sub_ok_def)
  have "same_runtime (client_view kept (sb_log (es_heap (bs_stream B3) ! h))) (fold change_spec (concat (map ba_changes since)) (fact_map B1))"
    unfolding client_view_def log fold_append comp_apply by (rule log_changes [OF kinds view(1)])
  then have "client_view kept (sb_log (es_heap (bs_stream B3) ! h)) (KRuntime, businessRunId run) = fact_map B3 (KRuntime, businessRunId run)"
    using since(2) by (simp add: same_runtime_def)
  then show ?thesis using log(2) by (simp add: fact_map_def bs_fact_def option.map_comp o_def)
qed

definition sample_facts :: "unit business_snapshots" where
  "sample_facts = (case new_business_snapshots sample_env ''s'' ''r'' sample_limits [live_status 5] of Some B \<Rightarrow> B)"

definition sample_facts_ops :: "unit bs_op list" where
  "sample_facts_ops = [BsEvent False (sample_run ''1'') (sample_worker ''w'') (RevControl (sample_run ''1'') 7 3 None sample_geometry) (Some (sample_worker ''w'')),
     BsPublication False (Some [sample_change 2]), BsChanged False (sample_run ''1'', sample_worker ''w'', Some (live_status 6))]"

theorem facts_follow_stream_witness:
  "let B1 = bs_step sample_env (hd sample_facts_ops) sample_facts;
       (kept, cursor) = projr (fst (bs_captured sample_env (\<lambda>_. 0) 0 (Some []) (Some [KRuntime]) B1));
       B2 = bs_step sample_env (sample_facts_ops ! 1) B1;
       s = snd (es_subscribe sample_env (Some [KRuntime]) cursor (bs_stream B2));
       B3 = bs_step sample_env (sample_facts_ops ! 2) (B2\<lparr>bs_stream := s\<rparr>) in
   client_view kept (sb_log (es_heap (bs_stream B3) ! 0)) (KRuntime, businessRunId (sample_run ''1'')) =
     map_option (RuntimeRec (businessRunId (sample_run ''1''))) (bs_fact (sample_run ''1'') B3)"
proof -
  let ?f = "Some [KRuntime]"
  let ?B1 = "fold (bs_step sample_env) [hd sample_facts_ops] sample_facts"
  let ?c = "projr (fst (bs_captured sample_env (\<lambda>_. 0) 0 (Some []) ?f ?B1))"
  let ?B2 = "fold (bs_step sample_env) [sample_facts_ops ! 1] ?B1"
  let ?s = "snd (es_subscribe sample_env ?f (snd ?c) (bs_stream ?B2))"
  let ?B3 = "fold (bs_step sample_env) [sample_facts_ops ! 2] (?B2\<lparr>bs_stream := ?s\<rparr>)"
  have ids: "inj (ev_createId sample_env)" by (auto simp: inj_def sample_env_def replicate_eq_replicate)
  have new: "new_business_snapshots sample_env ''s'' ''r'' sample_limits [live_status 5] = Some sample_facts" by code_simp
  have ops: "list_all durable_op ([hd sample_facts_ops] @ [sample_facts_ops ! 1] @ [sample_facts_ops ! 2])" by code_simp
  have cap: "fst (bs_captured sample_env (\<lambda>_. 0) 0 (Some []) ?f ?B1) = Inr (fst ?c, snd ?c)" by code_simp
  have "fst (es_subscribe sample_env ?f (snd ?c) (bs_stream ?B2)) = Subscribed 0" by code_simp
  then have sub: "es_subscribe sample_env ?f (snd ?c) (bs_stream ?B2) = (Subscribed 0, ?s)" by (simp add: prod_eq_iff)
  have live: "0 \<in> set (es_subscribers (bs_stream ?B3))" by code_simp
  have kinds: "list_all (\<lambda>v. rec_kind v \<noteq> KRuntime) []" "KRuntime \<in> set (normalizedBusinessKinds ?f)" by code_simp+
  show ?thesis
    using facts_follow_stream [OF ids new ops refl cap kinds refl sub refl live, of "sample_run ''1''"]
    by (simp add: Let_def case_prod_beta)
qed

text \<open>
  C38. A runtime fact never goes back. While a run is not removed, whatever statuses, terminal events and publications arrive in
  whatever order, the position of its fact and its control epoch never decrease, and once it says the run exited it keeps saying so.
\<close>

theorem facts_monotone:
  assumes "map_of (bs_facts B) (businessRunId run) = Some p" and "list_all (\<lambda>op. \<not> removes_fact (businessRunId run) op) ops"
  shows "\<exists>q. map_of (bs_facts (fold (bs_step env) ops B)) (businessRunId run) = Some q \<and> fo_atSeq p \<le> fo_atSeq q \<and>
    bf_controlEpoch (fo_fact p) \<le> bf_controlEpoch (fo_fact q) \<and> (bf_status (fo_fact p) = RunExited \<longrightarrow> bf_status (fo_fact q) = RunExited)"
  using bs_run_ahead [OF assms, of env] by (auto simp: ahead_def)

theorem facts_monotone_witness:
  "\<exists>q. map_of (bs_facts (fold (bs_step sample_env) sample_facts_ops sample_facts)) (businessRunId (sample_run ''1'')) = Some q \<and> 5 \<le> fo_atSeq q \<and>
     0 \<le> bf_controlEpoch (fo_fact q)"
proof -
  let ?p = "\<lparr>fo_fact = fact_of_status (live_status 5), fo_atSeq = 5\<rparr>"
  have p: "map_of (bs_facts sample_facts) (businessRunId (sample_run ''1'')) = Some ?p" "bf_controlEpoch (fo_fact ?p) = 0"
    "list_all (\<lambda>op. \<not> removes_fact (businessRunId (sample_run ''1'')) op) sample_facts_ops" by code_simp+
  from facts_monotone [OF p(1,3), of sample_env] p(2) show ?thesis by auto
qed

end
