(* ===== verification/Worker_Health.thy ===== *)
theory Worker_Health
  imports Pipe_Protocol
begin

text \<open>
  \<open>WorkerHealthMonitor\<close> (\<^verbatim>\<open>apps/server/src/terminal/worker-health.ts\<close>): the overload report of one worker, with hysteresis.
  Times are the integral milliseconds of \<open>LocalRuntimeClock.now\<close>, so \<open>Math.round\<close> of an elapsed time is the time itself.

  The history an evaluation sees is a ghost list of the evaluations so far, newest first, each with its time and
  the conditions that held; \<open>held_for\<close> reads off it since when a condition has held without interruption.
\<close>

definition THRESHOLD_eventLoopDelayP99Ms :: number where "THRESHOLD_eventLoopDelayP99Ms = 200"
definition THRESHOLD_heartbeatGapMs :: number where "THRESHOLD_heartbeatGapMs = 3000"
definition THRESHOLD_commandAgeMs :: number where "THRESHOLD_commandAgeMs = 5000"
definition OVERLOAD_ENTER_MS :: number where "OVERLOAD_ENTER_MS = 5000"
definition OVERLOAD_LEAVE_MS :: number where "OVERLOAD_LEAVE_MS = 10000"

record health_signals =
  hs_heartbeatGapMs :: number
  hs_oldestCommandAgeMs :: "number option"

record health_monitor =
  hm_state :: health_state
  hm_reasons :: "health_reason list"
  hm_stateSince :: number
  hm_heldSince :: "(health_reason \<times> number) list"
  hm_clearSince :: "number option"
  hm_load :: "worker_load option"
  hm_signals :: health_signals

definition new_health_monitor :: "number \<Rightarrow> health_monitor" where
  "new_health_monitor now = \<lparr>hm_state = HealthNormal, hm_reasons = [], hm_stateSince = now, hm_heldSince = [], hm_clearSince = Some now,
     hm_load = None, hm_signals = \<lparr>hs_heartbeatGapMs = 0, hs_oldestCommandAgeMs = None\<rparr>\<rparr>"

definition hm_heartbeat :: "worker_load \<Rightarrow> health_monitor \<Rightarrow> health_monitor" where
  "hm_heartbeat load m = m\<lparr>hm_load := Some load\<rparr>"

definition hm_health :: "health_monitor \<Rightarrow> worker_health" where
  "hm_health m = \<lparr>wh_state = hm_state m, wh_reasons = hm_reasons m\<rparr>"

text \<open>The conditions that hold at an evaluation.\<close>

definition condition_holds :: "worker_load option \<Rightarrow> health_signals \<Rightarrow> health_reason \<Rightarrow> bool" where
  "condition_holds load signals r = (case r of
     EventLoopDelay \<Rightarrow> (case load of None \<Rightarrow> 0 | Some l \<Rightarrow> ld_eventLoopDelayP99Ms l) > THRESHOLD_eventLoopDelayP99Ms
   | HeartbeatGap \<Rightarrow> hs_heartbeatGapMs signals > THRESHOLD_heartbeatGapMs
   | CommandAge \<Rightarrow> (case hs_oldestCommandAgeMs signals of None \<Rightarrow> 0 | Some age \<Rightarrow> age) > THRESHOLD_commandAgeMs)"

definition hm_holding :: "worker_load option \<Rightarrow> health_signals \<Rightarrow> health_reason list" where
  "hm_holding load signals = filter (condition_holds load signals) WORKER_HEALTH_REASONS"

text \<open>The loop that keeps \<open>heldSince\<close>.\<close>

definition note_held :: "number \<Rightarrow> health_reason list \<Rightarrow> health_reason \<Rightarrow> (health_reason \<times> number) list \<Rightarrow> (health_reason \<times> number) list" where
  "note_held now holding reason held =
     (if reason \<notin> set holding then AList.delete reason held
      else if map_of held reason = None then AList.update reason now held else held)"

definition hm_sustained :: "number \<Rightarrow> (health_reason \<times> number) list \<Rightarrow> health_reason list" where
  "hm_sustained now held =
     filter (\<lambda>reason. now - (case map_of held reason of None \<Rightarrow> now + 1 | Some t \<Rightarrow> t) \<ge> OVERLOAD_ENTER_MS) WORKER_HEALTH_REASONS"

definition hm_evaluate :: "number \<Rightarrow> health_signals \<Rightarrow> health_monitor \<Rightarrow> worker_health option \<times> health_monitor" where
  "hm_evaluate now signals m =
     (let holding = hm_holding (hm_load m) signals;
          held = fold (note_held now holding) WORKER_HEALTH_REASONS (hm_heldSince m);
          clear = (if holding \<noteq> [] then None else case hm_clearSince m of None \<Rightarrow> Some now | Some t \<Rightarrow> Some t);
          m = m\<lparr>hm_signals := signals, hm_heldSince := held, hm_clearSince := clear\<rparr>;
          sustained = hm_sustained now held
      in if hm_state m = HealthNormal then
           if sustained = [] then (None, m)
           else let m = m\<lparr>hm_state := HealthOverloaded, hm_stateSince := now, hm_reasons := sustained\<rparr> in (Some (hm_health m), m)
         else if (case clear of None \<Rightarrow> False | Some t \<Rightarrow> now - t \<ge> OVERLOAD_LEAVE_MS) then
           let m = m\<lparr>hm_state := HealthNormal, hm_stateSince := now, hm_reasons := []\<rparr> in (Some (hm_health m), m)
         else let added = filter (\<lambda>reason. reason \<notin> set (hm_reasons m)) sustained in
           if added = [] then (None, m)
           else let m = m\<lparr>hm_reasons := filter (\<lambda>reason. reason \<in> set (hm_reasons m) \<or> reason \<in> set added) WORKER_HEALTH_REASONS\<rparr>
                in (Some (hm_health m), m))"

record worker_status =
  wk_workerId :: ident
  wk_health :: worker_health
  wk_stateAgeMs :: number
  wk_eventLoopDelayP99Ms :: "number option"
  wk_eventLoopDelayMaxMs :: "number option"
  wk_cpuPercent :: "number option"
  wk_parseBacklogBytes :: "number option"
  wk_executingCommands :: "number option"
  wk_heartbeatGapMs :: number
  wk_oldestCommandAgeMs :: "number option"

definition hm_status :: "number \<Rightarrow> ident \<Rightarrow> health_monitor \<Rightarrow> worker_status" where
  "hm_status now workerId m = \<lparr>wk_workerId = workerId, wk_health = hm_health m, wk_stateAgeMs = max 0 (now - hm_stateSince m),
     wk_eventLoopDelayP99Ms = map_option ld_eventLoopDelayP99Ms (hm_load m), wk_eventLoopDelayMaxMs = map_option ld_eventLoopDelayMaxMs (hm_load m),
     wk_cpuPercent = Option.bind (hm_load m) ld_cpuPercent, wk_parseBacklogBytes = map_option ld_parseBacklogBytes (hm_load m),
     wk_executingCommands = map_option ld_executingCommands (hm_load m), wk_heartbeatGapMs = max 0 (hs_heartbeatGapMs (hm_signals m)),
     wk_oldestCommandAgeMs = map_option (max 0) (hs_oldestCommandAgeMs (hm_signals m))\<rparr>"

subsection \<open>What the history says\<close>

type_synonym health_history = "(number \<times> health_reason list) list"

fun held_for :: "(health_reason list \<Rightarrow> bool) \<Rightarrow> health_history \<Rightarrow> number option" where
  "held_for P [] = None"
| "held_for P ((t, holding) # older) =
     (if P holding then (case held_for P older of None \<Rightarrow> Some t | Some u \<Rightarrow> Some u) else None)"

text \<open>\<open>held_for\<close> is the start of the longest uninterrupted stretch up to now.\<close>

lemma held_for_stretch:
  "held_for P hist = Some t \<Longrightarrow> \<exists>n. n < length hist \<and> fst (hist ! n) = t \<and> (\<forall>k \<le> n. P (snd (hist ! k))) \<and> (Suc n < length hist \<longrightarrow> \<not> P (snd (hist ! Suc n)))"
proof (induction P hist arbitrary: t rule: held_for.induct)
  case (2 P t' holding older)
  show ?case
  proof (cases "held_for P older")
    case None
    then have "older = [] \<or> \<not> P (snd (older ! 0))" by (cases older) (auto split: option.splits if_splits)
    then show ?thesis using 2 None by (intro exI [of _ 0]) (auto split: if_splits)
  next
    case (Some u)
    then obtain n where n: "n < length older" "fst (older ! n) = u" "\<forall>k \<le> n. P (snd (older ! k))" "Suc n < length older \<longrightarrow> \<not> P (snd (older ! Suc n))"
      using 2 by (auto split: if_splits)
    have "\<forall>k \<le> Suc n. P (snd (((t', holding) # older) ! k))" using n(3) 2(2) by (auto simp: nth_Cons' split: if_splits)
    then show ?thesis using n 2(2) Some by (intro exI [of _ "Suc n"]) (auto split: if_splits)
  qed
qed simp

definition sorted_times :: "health_history \<Rightarrow> bool" where
  "sorted_times hist \<longleftrightarrow> sorted_wrt (\<lambda>newer older. fst older \<le> fst newer) hist"

definition sustained_in :: "number \<Rightarrow> health_history \<Rightarrow> health_reason \<Rightarrow> bool" where
  "sustained_in now hist r \<longleftrightarrow> (case held_for (\<lambda>holding. r \<in> set holding) hist of None \<Rightarrow> False | Some t \<Rightarrow> now - t \<ge> OVERLOAD_ENTER_MS)"

definition clear_in :: "number \<Rightarrow> health_history \<Rightarrow> bool" where
  "clear_in now hist \<longleftrightarrow> (case held_for (\<lambda>holding. holding = []) hist of None \<Rightarrow> False | Some t \<Rightarrow> now - t \<ge> OVERLOAD_LEAVE_MS)"

text \<open>The health an evaluation should report, from the health before it and the history including it.\<close>

definition health_spec :: "number \<Rightarrow> health_history \<Rightarrow> worker_health \<Rightarrow> worker_health" where
  "health_spec now hist h =
     (let sustained = filter (sustained_in now hist) WORKER_HEALTH_REASONS in
      if wh_state h = HealthNormal then
        \<lparr>wh_state = (if sustained = [] then HealthNormal else HealthOverloaded), wh_reasons = sustained\<rparr>
      else if clear_in now hist then \<lparr>wh_state = HealthNormal, wh_reasons = []\<rparr>
      else \<lparr>wh_state = HealthOverloaded, wh_reasons = filter (\<lambda>r. r \<in> set (wh_reasons h) \<or> r \<in> set sustained) WORKER_HEALTH_REASONS\<rparr>)"

subsection \<open>The invariant\<close>

definition health_ok :: "worker_health \<Rightarrow> bool" where
  "health_ok h \<longleftrightarrow> wh_reasons h = filter (\<lambda>r. r \<in> set (wh_reasons h)) WORKER_HEALTH_REASONS \<and>
     ((wh_state h = HealthOverloaded) = (wh_reasons h \<noteq> []))"

definition monitor_ok :: "health_history \<Rightarrow> health_monitor \<Rightarrow> bool" where
  "monitor_ok hist m \<longleftrightarrow> sorted_times hist \<and> health_ok (hm_health m) \<and>
     (\<forall>r. map_of (hm_heldSince m) r = held_for (\<lambda>holding. r \<in> set holding) hist) \<and>
     hm_clearSince m = held_for (\<lambda>holding. holding = []) hist \<and>
     (\<forall>r t. hm_state m = HealthNormal \<and> held_for (\<lambda>holding. r \<in> set holding) hist = Some t \<longrightarrow> hm_stateSince m \<le> t) \<and>
     (\<forall>t. hm_state m = HealthOverloaded \<and> held_for (\<lambda>holding. holding = []) hist = Some t \<longrightarrow> hm_stateSince m \<le> t) \<and>
     (\<forall>e \<in> set (take 1 hist). hm_stateSince m \<le> fst e)"

lemma reasons_all [simp]: "r \<in> set WORKER_HEALTH_REASONS"
  by (cases r) (simp_all add: WORKER_HEALTH_REASONS_def)

lemma note_held_map:
  "map_of (note_held now holding reason held) r =
     (if r \<noteq> reason then map_of held r
      else if r \<in> set holding then (case map_of held r of None \<Rightarrow> Some now | Some t \<Rightarrow> Some t) else None)"
  by (auto simp: note_held_def map_of_update delete_conv' split: option.split)

lemma note_held_fold:
  "map_of (fold (note_held now holding) WORKER_HEALTH_REASONS held) r =
     (if r \<in> set holding then (case map_of held r of None \<Rightarrow> Some now | Some t \<Rightarrow> Some t) else None)"
  by (cases r) (simp_all add: WORKER_HEALTH_REASONS_def note_held_map)

lemma hm_sustained_spec:
  assumes "\<And>r. map_of held r = held_for (\<lambda>holding. r \<in> set holding) hist"
  shows "hm_sustained now held = filter (sustained_in now hist) WORKER_HEALTH_REASONS"
  unfolding hm_sustained_def
proof (rule filter_cong [OF refl])
  fix r
  show "(now - (case map_of held r of None \<Rightarrow> now + 1 | Some t \<Rightarrow> t) \<ge> OVERLOAD_ENTER_MS) = sustained_in now hist r"
    unfolding assms sustained_in_def by (cases "held_for (\<lambda>holding. r \<in> set holding) hist") (simp_all add: OVERLOAD_ENTER_MS_def)
qed

lemma held_for_bound: "sorted_times hist \<Longrightarrow> held_for P hist = Some t \<Longrightarrow> e \<in> set (take 1 hist) \<Longrightarrow> t \<le> fst e"
proof (induction P hist arbitrary: t e rule: held_for.induct)
  case (2 P t' holding older)
  show ?case
  proof (cases "held_for P older")
    case (Some u)
    then obtain e' rest where older: "older = e' # rest" by (cases older) auto
    have "u \<le> fst e'" using 2 Some older by (auto simp: sorted_times_def split: if_splits)
    then show ?thesis using 2 Some older by (auto simp: sorted_times_def split: if_splits)
  qed (use 2 in \<open>auto split: if_splits\<close>)
qed simp

lemma sustained_holding: "sustained_in now ((t, holding) # hist) r \<Longrightarrow> r \<in> set holding"
  by (simp add: sustained_in_def split: if_splits)

lemma clear_holding: "clear_in now ((t, holding) # hist) \<Longrightarrow> holding = []"
  by (simp add: clear_in_def split: if_splits)

definition evaluated :: "number \<Rightarrow> health_history \<Rightarrow> health_signals \<Rightarrow> health_monitor \<Rightarrow> health_history" where
  "evaluated now hist signals m = (now, hm_holding (hm_load m) signals) # hist"

lemma health_spec_ok:
  assumes "health_ok h"
  shows "health_ok (health_spec now hist h)"
proof -
  have idem: "filter (\<lambda>r. r \<in> set (filter P xs)) xs = filter P xs" for P and xs :: "health_reason list" by (rule filter_cong) auto
  have "wh_state h = HealthOverloaded \<Longrightarrow> \<exists>r. r \<in> set (wh_reasons h)" using assms by (simp add: health_ok_def ex_in_conv)
  then show ?thesis unfolding health_ok_def health_spec_def Let_def
    by (cases "wh_state h") (auto simp: idem filter_empty_conv)
qed

text \<open>What one evaluation reports and remembers, on every branch.\<close>

lemma hm_evaluate_exact:
  assumes ok: "monitor_ok hist m" and ev: "hm_evaluate now signals m = (res, m')"
  shows "hm_health m' = health_spec now (evaluated now hist signals m) (hm_health m) \<and>
    res = (if hm_health m' = hm_health m then None else Some (hm_health m')) \<and>
    hm_stateSince m' = (if hm_state m' = hm_state m then hm_stateSince m else now) \<and>
    (\<forall>r. map_of (hm_heldSince m') r = held_for (\<lambda>holding. r \<in> set holding) (evaluated now hist signals m)) \<and>
    hm_clearSince m' = held_for (\<lambda>holding. holding = []) (evaluated now hist signals m)"
proof -
  let ?holding = "hm_holding (hm_load m) signals" and ?hist = "evaluated now hist signals m"
  define held where "held = fold (note_held now ?holding) WORKER_HEALTH_REASONS (hm_heldSince m)"
  define clear where "clear = (if ?holding \<noteq> [] then None else case hm_clearSince m of None \<Rightarrow> Some now | Some t \<Rightarrow> Some t)"
  have heldf: "map_of held r = held_for (\<lambda>holding. r \<in> set holding) ?hist" for r
    using ok unfolding held_def note_held_fold evaluated_def by (simp add: monitor_ok_def)
  have clearf: "clear = held_for (\<lambda>holding. holding = []) ?hist"
    using ok unfolding clear_def evaluated_def by (simp add: monitor_ok_def)
  let ?sus = "filter (sustained_in now ?hist) WORKER_HEALTH_REASONS"
  have sus: "hm_sustained now held = ?sus" by (rule hm_sustained_spec) (rule heldf)
  have cl: "(case clear of None \<Rightarrow> False | Some t \<Rightarrow> now - t \<ge> OVERLOAD_LEAVE_MS) = clear_in now ?hist" by (simp only: clearf clear_in_def)
  have ho: "health_ok (hm_health m)" using ok by (simp add: monitor_ok_def)
  note body = ev [unfolded hm_evaluate_def Let_def, folded held_def clear_def, simplified sus cl]
  show ?thesis
  proof (cases "hm_state m")
    case HealthNormal
    then have "hm_reasons m = []" using ho by (simp add: health_ok_def hm_health_def)
    then show ?thesis using body heldf clearf HealthNormal
      by (auto simp: hm_health_def health_spec_def sus split: if_splits)
  next
    case HealthOverloaded
    let ?rs = "filter (\<lambda>r. r \<in> set (hm_reasons m) \<or> r \<in> set ?sus) WORKER_HEALTH_REASONS"
    have eq: "filter (\<lambda>r. r \<in> set (hm_reasons m) \<or> r \<in> set (filter (\<lambda>r. r \<notin> set (hm_reasons m)) ?sus)) WORKER_HEALTH_REASONS = ?rs"
      by (rule filter_cong) auto
    have rs: "hm_reasons m = filter (\<lambda>r. r \<in> set (hm_reasons m)) WORKER_HEALTH_REASONS" using ho by (simp add: health_ok_def hm_health_def)
    have none: "?rs = hm_reasons m" if "filter (\<lambda>r. r \<notin> set (hm_reasons m)) ?sus = []"
    proof -
      have "?rs = filter (\<lambda>r. r \<in> set (hm_reasons m)) WORKER_HEALTH_REASONS" using that by (intro filter_cong) (auto simp: filter_empty_conv)
      then show ?thesis using rs by simp
    qed
    have some: "?rs \<noteq> hm_reasons m" if "filter (\<lambda>r. r \<notin> set (hm_reasons m)) ?sus \<noteq> []"
    proof
      assume "?rs = hm_reasons m"
      then have "set ?rs = set (hm_reasons m)" by simp
      then show False using that by (auto simp: filter_empty_conv)
    qed
    show ?thesis
    proof (cases "clear_in now ?hist")
      case True
      then show ?thesis using body heldf clearf HealthOverloaded by (auto simp: hm_health_def health_spec_def Let_def sus cl)
    next
      case False
      then show ?thesis using body heldf clearf HealthOverloaded none some eq
        by (auto simp: hm_health_def health_spec_def Let_def sus cl split: if_splits)
    qed
  qed
qed

lemma hm_evaluate_change:
  assumes ok: "monitor_ok hist m" and ev: "hm_evaluate now signals m = (res, m')" and change: "hm_state m' \<noteq> hm_state m"
    and sorted: "sorted_times (evaluated now hist signals m)"
  shows "now - hm_stateSince m \<ge> (if hm_state m' = HealthOverloaded then OVERLOAD_ENTER_MS else OVERLOAD_LEAVE_MS)"
proof -
  let ?hist = "evaluated now hist signals m"
  have h: "hm_health m' = health_spec now ?hist (hm_health m)" using hm_evaluate_exact [OF ok ev] by blast
  have now: "hm_stateSince m \<le> now" if "hist \<noteq> []"
    using ok sorted that by (cases hist) (auto simp: monitor_ok_def sorted_times_def evaluated_def)
  have base: "hm_stateSince m \<le> t" if "held_for P ?hist = Some t" "\<And>u. held_for P hist = Some u \<Longrightarrow> hm_stateSince m \<le> u" "hist \<noteq> []" for P t
    using that now by (auto simp: evaluated_def split: if_splits option.splits)
  have ne: "hist = [] \<Longrightarrow> now - t < OVERLOAD_ENTER_MS" if "held_for P ?hist = Some t" for P t
    using that by (auto simp: evaluated_def OVERLOAD_ENTER_MS_def split: if_splits)
  have lt: "OVERLOAD_ENTER_MS < OVERLOAD_LEAVE_MS" by (simp add: OVERLOAD_ENTER_MS_def OVERLOAD_LEAVE_MS_def)
  show ?thesis
  proof (cases "hm_state m")
    case HealthNormal
    then have st: "hm_state m' = HealthOverloaded" using change by (cases "hm_state m'") auto
    then have "filter (sustained_in now ?hist) WORKER_HEALTH_REASONS \<noteq> []"
      using h HealthNormal by (auto simp: health_spec_def Let_def hm_health_def split: if_splits)
    then obtain r t where t: "held_for (\<lambda>holding. r \<in> set holding) ?hist = Some t" "now - t \<ge> OVERLOAD_ENTER_MS"
      by (auto simp: filter_empty_conv sustained_in_def split: option.splits)
    then have "hist \<noteq> []" using ne by fastforce
    then have "hm_stateSince m \<le> t" using base [OF t(1)] ok HealthNormal by (simp add: monitor_ok_def)
    then show ?thesis using t(2) st by simp
  next
    case HealthOverloaded
    then have st: "hm_state m' = HealthNormal" using change by (cases "hm_state m'") auto
    then have "clear_in now ?hist" using h HealthOverloaded by (auto simp: health_spec_def Let_def hm_health_def split: if_splits)
    then obtain t where t: "held_for (\<lambda>holding. holding = []) ?hist = Some t" "now - t \<ge> OVERLOAD_LEAVE_MS"
      by (auto simp: clear_in_def split: option.splits)
    then have "hist \<noteq> []" using ne lt by fastforce
    then have "hm_stateSince m \<le> t" using base [OF t(1)] ok HealthOverloaded by (simp add: monitor_ok_def)
    then show ?thesis using t(2) st by simp
  qed
qed

lemma hm_evaluate_ok:
  assumes ok: "monitor_ok hist m" and ev: "hm_evaluate now signals m = (res, m')" and ne: "hist \<noteq> []"
    and sorted: "sorted_times (evaluated now hist signals m)"
  shows "monitor_ok (evaluated now hist signals m) m'"
proof -
  let ?hist = "evaluated now hist signals m"
  note ex = hm_evaluate_exact [OF ok ev]
  have ho: "health_ok (hm_health m')" using ex health_spec_ok [of "hm_health m"] ok by (simp add: monitor_ok_def)
  have old: "hm_stateSince m \<le> now" using ok sorted ne by (cases hist) (auto simp: monitor_ok_def sorted_times_def evaluated_def)
  have now: "hm_stateSince m' \<le> now" using ex old by auto
  have normal: "hm_stateSince m' \<le> t" if "hm_state m' = HealthNormal" "held_for (\<lambda>holding. r \<in> set holding) ?hist = Some t" for r t
  proof (cases "hm_state m")
    case HealthNormal
    then show ?thesis using ex that ok old by (auto simp: monitor_ok_def evaluated_def split: if_splits option.splits)
  next
    case HealthOverloaded
    then have "clear_in now ?hist" using ex that by (auto simp: health_spec_def Let_def hm_health_def split: if_splits)
    then have "hm_holding (hm_load m) signals = []" unfolding evaluated_def by (rule clear_holding)
    then show ?thesis using that by (simp add: evaluated_def)
  qed
  have over: "hm_stateSince m' \<le> t" if "hm_state m' = HealthOverloaded" "held_for (\<lambda>holding. holding = []) ?hist = Some t" for t
  proof (cases "hm_state m")
    case HealthOverloaded
    then show ?thesis using ex that ok old by (auto simp: monitor_ok_def evaluated_def split: if_splits option.splits)
  next
    case HealthNormal
    then have "filter (sustained_in now ?hist) WORKER_HEALTH_REASONS \<noteq> []"
      using ex that by (auto simp: health_spec_def Let_def hm_health_def split: if_splits)
    then show ?thesis using sustained_holding that by (fastforce simp: evaluated_def filter_empty_conv split: if_splits)
  qed
  have clause: "\<forall>e \<in> set (take 1 ?hist). hm_stateSince m' \<le> fst e" using now by (simp add: evaluated_def)
  show ?thesis unfolding monitor_ok_def using ex ho sorted normal over clause by blast
qed

datatype hm_op = HmHeartbeat worker_load | HmEvaluate number health_signals

fun hm_step :: "hm_op \<Rightarrow> health_monitor \<times> health_history \<Rightarrow> health_monitor \<times> health_history" where
  "hm_step (HmHeartbeat load) S = (hm_heartbeat load (fst S), snd S)"
| "hm_step (HmEvaluate now signals) S = (snd (hm_evaluate now signals (fst S)), evaluated now (snd S) signals (fst S))"

definition hm_run :: "number \<Rightarrow> hm_op list \<Rightarrow> health_monitor \<times> health_history" where
  "hm_run start ops = fold hm_step ops (new_health_monitor start, [(start, [])])"

lemma hm_run_ok: "sorted_times (snd (hm_run start ops)) \<Longrightarrow> monitor_ok (snd (hm_run start ops)) (fst (hm_run start ops)) \<and> snd (hm_run start ops) \<noteq> []"
proof (induction ops rule: rev_induct)
  case Nil
  show ?case by (simp add: hm_run_def monitor_ok_def new_health_monitor_def sorted_times_def health_ok_def hm_health_def)
next
  case (snoc op ops)
  obtain m hist where S: "hm_run start ops = (m, hist)" by fastforce
  have step: "hm_run start (ops @ [op]) = hm_step op (m, hist)" using S by (simp add: hm_run_def)
  show ?case
  proof (cases op)
    case (HmHeartbeat load)
    have "monitor_ok hist (hm_heartbeat load m) = monitor_ok hist m" by (simp add: monitor_ok_def hm_heartbeat_def hm_health_def)
    then show ?thesis using snoc S step HmHeartbeat by simp
  next
    case (HmEvaluate now signals)
    have "sorted_times hist" using snoc.prems step HmEvaluate by (simp add: sorted_times_def evaluated_def)
    then have ok: "monitor_ok hist m" "hist \<noteq> []" using snoc.IH S by simp_all
    show ?thesis using hm_evaluate_ok [OF ok(1) _ ok(2), of now signals "fst (hm_evaluate now signals m)" "snd (hm_evaluate now signals m)"]
        snoc.prems step HmEvaluate by (simp add: evaluated_def)
  qed
qed

lemma health_ok_schema: "health_ok h \<Longrightarrow> WorkerHealthSchema h"
proof -
  assume ok: "health_ok h"
  have d: "distinct (filter P WORKER_HEALTH_REASONS)" for P by (simp add: WORKER_HEALTH_REASONS_def)
  have rs: "wh_reasons h = filter (\<lambda>r. r \<in> set (wh_reasons h)) WORKER_HEALTH_REASONS" using ok by (simp add: health_ok_def)
  have "distinct (wh_reasons h)" using d [of "\<lambda>r. r \<in> set (wh_reasons h)"] rs by simp
  moreover have "length (wh_reasons h) \<le> length WORKER_HEALTH_REASONS"
    using length_filter_le [of "\<lambda>r. r \<in> set (wh_reasons h)" WORKER_HEALTH_REASONS] rs by simp
  ultimately show ?thesis using ok by (simp add: WorkerHealthSchema_def health_ok_def distinct_remdups_id)
qed

text \<open>
  C22. The overload report has hysteresis and cannot flap. On a clock that does not run backwards, a normal worker becomes overloaded at an
  evaluation exactly when some condition has held at every evaluation of the last five seconds or more, and the report then names
  exactly those conditions; an overloaded worker becomes normal exactly when no condition has held for ten seconds, and until then the named
  conditions only accumulate. Hence a worker stays normal for at least five seconds and overloaded for at least ten. A
  change is reported once, and the reported health always satisfies the protocol's schema.
\<close>

theorem worker_health_hysteresis:
  assumes "hm_run start ops = (m, hist)" and "hm_evaluate now signals m = (res, m')"
    and "hist' = (now, hm_holding (hm_load m) signals) # hist" and "sorted_times hist'"
  shows "hm_health m' = health_spec now hist' (hm_health m) \<and>
    res = (if hm_health m' = hm_health m then None else Some (hm_health m')) \<and> WorkerHealthSchema (hm_health m') \<and>
    (hm_state m' \<noteq> hm_state m \<longrightarrow>
       now - hm_stateSince m \<ge> (if hm_state m' = HealthOverloaded then OVERLOAD_ENTER_MS else OVERLOAD_LEAVE_MS))"
proof -
  have hist': "hist' = evaluated now hist signals m" by (simp add: assms(3) evaluated_def)
  have "sorted_times hist" using assms(3,4) by (simp add: sorted_times_def)
  then have ok: "monitor_ok hist m" "hist \<noteq> []" using hm_run_ok [of start ops] assms(1) by simp_all
  have "health_ok (hm_health m')" using hm_evaluate_ok [OF ok(1) assms(2) ok(2)] assms(4) hist' by (simp add: monitor_ok_def)
  then show ?thesis
    using hm_evaluate_exact [OF ok(1) assms(2)] hm_evaluate_change [OF ok(1) assms(2)] assms(4) health_ok_schema hist' by simp
qed

text \<open>A worker that is silent for eight seconds while the runtime evaluates every second.\<close>

definition sample_signals :: "number \<Rightarrow> health_signals" where
  "sample_signals gap = \<lparr>hs_heartbeatGapMs = gap, hs_oldestCommandAgeMs = None\<rparr>"

definition sample_health_ops :: "hm_op list" where
  "sample_health_ops = map (\<lambda>n. HmEvaluate (1000 * n) (sample_signals (1000 * n))) [1..8]"

theorem worker_health_hysteresis_witness:
  "hm_state (fst (hm_run 0 sample_health_ops)) = HealthNormal \<and>
   fst (hm_evaluate 9000 (sample_signals 9000) (fst (hm_run 0 sample_health_ops))) = Some \<lparr>wh_state = HealthOverloaded, wh_reasons = [HeartbeatGap]\<rparr> \<and>
   9000 - hm_stateSince (fst (hm_run 0 sample_health_ops)) \<ge> OVERLOAD_ENTER_MS"
proof -
  let ?m = "fst (hm_run 0 sample_health_ops)" and ?hist = "snd (hm_run 0 sample_health_ops)"
  let ?e = "hm_evaluate 9000 (sample_signals 9000) ?m"
  have run: "hm_run 0 sample_health_ops = (?m, ?hist)" and ev: "?e = (fst ?e, snd ?e)" by simp_all
  have sorted: "sorted_times ((9000, hm_holding (hm_load ?m) (sample_signals 9000)) # ?hist)" by code_simp
  have st: "hm_state ?m = HealthNormal" "hm_state (snd ?e) = HealthOverloaded"
    "fst ?e = Some \<lparr>wh_state = HealthOverloaded, wh_reasons = [HeartbeatGap]\<rparr>" by code_simp+
  from worker_health_hysteresis [OF run ev refl sorted] st show ?thesis by simp
qed

end
