(* ===== verification/Control_Arbiter.thy ===== *)
theory Control_Arbiter
  imports Run_Registry Terminal_Frames
begin

text \<open>
  \<open>ControlArbiter\<close> (\<^verbatim>\<open>apps/server/src/terminal/control-arbiter.ts\<close>): the one queue per run that decides who controls a
  terminal. Focus, blur, resize, appearance and input of the attached views, and programmatic input of the business RPC, are
  admitted into the queue of their run and performed one after the other against the worker.

  Runs, counters and jobs are objects shared by reference: cells of \<open>ca_runHeap\<close>, \<open>ca_counterHeap\<close> and \<open>ca_jobHeap\<close>. The methods
  are asynchronous. Between two \<open>await\<close>s the code runs without interruption, so a step of the model is one such segment, and
  \<open>ar_phase\<close> says at which \<open>await\<close> the \<open>drain\<close> loop of a run is suspended, with the local variables the code still needs
  (\<open>Idle\<close>: \<open>running\<close> is false; \<open>PhRunning\<close>: the loop is executing). \<open>ca_resume\<close> continues it with the \<open>answer\<close> the awaited promise settled with; an \<open>await\<close> of an
  \<open>async\<close> method that already returned is continued by \<open>AnsTick\<close>. Everything else can happen in between: further admissions,
  retirements, events of the worker, \<open>tick\<close> and \<open>dispose\<close>.

  \<open>arbiter_env\<close> is what the code reads of its surroundings during a segment: the closures of the route contexts and the
  runtime's pool and registry. \<open>ca_sent\<close> records the calls made to the runtime port, in order.
\<close>

subsection \<open>State\<close>

datatype runtime_result = RtResult pipe_result | RtError pipe_error

datatype control_body =
    CcFocus number geometry "appearance option"
  | CcBlur number
  | CcResize number geometry
  | CcAppearance number appearance
  | CcInput number number

record control_command =
  cc_requestId :: ident
  cc_run :: run_ref
  cc_subscription :: subscription_ref
  cc_body :: control_body

fun control_command_body :: "subscription_ref \<Rightarrow> control_body \<Rightarrow> command_body" where
  "control_command_body s (CcFocus focusSeq geometry appearance) = CFocus s focusSeq geometry appearance"
| "control_command_body s (CcBlur epoch) = CBlur s epoch"
| "control_command_body s (CcResize epoch geometry) = CResize s epoch geometry"
| "control_command_body s (CcAppearance epoch appearance) = CAppearance s epoch appearance"
| "control_command_body s (CcInput epoch inputSeq) = CInput s epoch inputSeq"

text \<open>\<open>ControlCommand\<close> is a part of the union \<open>TerminalCommand\<close>.\<close>

definition terminal_of :: "control_command \<Rightarrow> terminal_command" where
  "terminal_of c = \<lparr>tc_requestId = cc_requestId c, tc_run = cc_run c, tc_body = control_command_body (cc_subscription c) (cc_body c)\<rparr>"

datatype reply = ReplyResult terminal_result | ReplyError terminal_error

record route_context =
  cx_subscription :: subscription_ref
  cx_worker :: worker_ref
  cx_requestId :: ident
  cx_releaseId :: ident
  cx_route :: handle

record arbiter_env =
  ae_current :: "route_context \<Rightarrow> bool"
  ae_installed :: "route_context \<Rightarrow> number option \<Rightarrow> bool"
  ae_earlierPending :: "route_context \<Rightarrow> bool"
  ae_pool :: worker_pool
  ae_registry :: run_registry

datatype cleanup_state = CleanupNone | CleanupPending | CleanupUnknown

record arb_counter =
  ct_ref :: subscription_ref
  ct_worker :: worker_ref
  ct_focus :: number
  ct_input :: number
  ct_grantEpoch :: number
  ct_grantAtSeq :: number
  ct_retired :: bool
  ct_releaseId :: ident
  ct_cleanup :: cleanup_state
  ct_cleanupEpoch :: number
  ct_lease :: handle

record boundary =
  by_epoch :: number
  by_holder :: "control_holder option"
  by_geometry :: geometry
  by_atSeq :: number

datatype phase =
    Idle
  | PhRunning
  | PhStatus
  | PhBoundary "domain_error option"
  | PhPipe boundary
  | PhReturned "reply option"
  | PhProgramStatus
  | PhProgramAccept
  | PhProgramWrite
  | PhProgramReturned "tab_input_receipt option"
  | PhCleanup nat handle boundary
  | PhCleaned

record arb_run =
  ar_ref :: run_ref
  ar_worker :: worker_ref
  ar_boundary :: "boundary option"
  ar_uncertain :: bool
  ar_queue :: "handle list"
  ar_programFailure :: "string option"
  ar_counters :: "(subscription_ref \<times> handle) list"
  ar_phase :: phase
  ar_lease :: handle

record program_command =
  pg_worker :: worker_ref
  pg_run :: run_ref
  pg_requestId :: ident
  pg_operationId :: ident
  pg_epoch :: number
  pg_textBytes :: number
  pg_submit :: bool

definition pipe_of_program :: "program_command \<Rightarrow> pipe_command" where
  "pipe_of_program c = \<lparr>pc_worker = pg_worker c, pc_run = pg_run c, pc_requestId = pg_requestId c,
     pc_body = PProgrammatic (pg_operationId c) (pg_epoch c) (pg_textBytes c) (pg_submit c)\<rparr>"

text \<open>\<open>ControlJob\<close> with its command, context and counter; \<open>ProgrammaticJob\<close> with its command, \<open>cancelled\<close> and whether \<open>accept\<close> is set.\<close>

datatype job_kind =
    ControlJob control_command route_context handle
  | ProgramJob program_command "string option" bool

text \<open>\<open>ByteReservation\<close>: a lease of the account or a hold on a backing buffer.\<close>

datatype job_lease = JobLease handle | JobHold handle

datatype job_reply = ControlReply reply | ProgramReply tab_input_receipt

text \<open>\<open>jb_reply\<close> is the value the job's promise was resolved with.\<close>

record arb_job =
  jb_kind :: job_kind
  jb_run :: handle
  jb_payload :: "byte list"
  jb_leases :: "job_lease list"
  jb_ready :: bool
  jb_dispatched :: bool
  jb_reply :: "job_reply option"

record sent_command =
  sn_job :: "handle option"
  sn_command :: pipe_command
  sn_payload :: "byte list"

record arbiter =
  ca_composition :: runtime_composition
  ca_runs :: "(ident \<times> handle) list"
  ca_pending :: number
  ca_disposed :: bool
  ca_runHeap :: "arb_run list"
  ca_counterHeap :: "arb_counter list"
  ca_jobHeap :: "arb_job list"
  ca_sent :: "sent_command list"

datatype arbiter_error = RuntimeAlreadyHasArbiter

definition new_arbiter :: "bool \<Rightarrow> runtime_composition \<Rightarrow> arbiter_error + arbiter" where
  "new_arbiter owned composition =
     (if owned then Inl RuntimeAlreadyHasArbiter
      else Inr \<lparr>ca_composition = composition, ca_runs = [], ca_pending = 0, ca_disposed = False, ca_runHeap = [], ca_counterHeap = [],
             ca_jobHeap = [], ca_sent = []\<rparr>)"

text \<open>Mutation of one object.\<close>

definition on_run :: "handle \<Rightarrow> (arb_run \<Rightarrow> arb_run) \<Rightarrow> arbiter \<Rightarrow> arbiter" where
  "on_run r f a = a\<lparr>ca_runHeap := (ca_runHeap a)[r := f (ca_runHeap a ! r)]\<rparr>"

definition on_counter :: "handle \<Rightarrow> (arb_counter \<Rightarrow> arb_counter) \<Rightarrow> arbiter \<Rightarrow> arbiter" where
  "on_counter c f a = a\<lparr>ca_counterHeap := (ca_counterHeap a)[c := f (ca_counterHeap a ! c)]\<rparr>"

definition on_job :: "handle \<Rightarrow> (arb_job \<Rightarrow> arb_job) \<Rightarrow> arbiter \<Rightarrow> arbiter" where
  "on_job j f a = a\<lparr>ca_jobHeap := (ca_jobHeap a)[j := f (ca_jobHeap a ! j)]\<rparr>"

definition at_phase :: "handle \<Rightarrow> phase \<Rightarrow> arbiter \<Rightarrow> arbiter" where
  "at_phase r p = on_run r (\<lambda>run. run\<lparr>ar_phase := p\<rparr>)"

definition ca_send :: "handle option \<Rightarrow> pipe_command \<Rightarrow> byte list \<Rightarrow> arbiter \<Rightarrow> arbiter" where
  "ca_send job command payload a = a\<lparr>ca_sent := ca_sent a @ [\<lparr>sn_job = job, sn_command = command, sn_payload = payload\<rparr>]\<rparr>"

text \<open>The module's helpers. An empty string is false in a condition.\<close>

definition truthy :: "string option \<Rightarrow> bool" where
  "truthy s \<longleftrightarrow> s \<noteq> None \<and> s \<noteq> Some []"

definition notSent :: "program_command \<Rightarrow> string \<Rightarrow> bool \<Rightarrow> tab_input_receipt" where
  "notSent command reason unknown =
     \<lparr>ti_text = inputPartReceipt (pg_textBytes command) 0 (if unknown then pg_textBytes command else 0) (Some reason),
      ti_submit = (if pg_submit command then Some (inputPartReceipt 1 0 (if unknown then 1 else 0) (Some reason)) else None)\<rparr>"

definition holder :: "subscription_ref \<Rightarrow> control_holder" where
  "holder ref = \<lparr>ch_connection = sr_connection ref, ch_viewId = sr_viewId ref, ch_subscriptionId = sr_subscriptionId ref\<rparr>"

definition matches :: "control_holder option \<Rightarrow> subscription_ref \<Rightarrow> bool" where
  "matches v ref \<longleftrightarrow> (case v of None \<Rightarrow> False
     | Some h \<Rightarrow> sameConnectionRef (ch_connection h) (sr_connection ref) \<and> ch_viewId h = sr_viewId ref \<and> ch_subscriptionId h = sr_subscriptionId ref)"

definition plainError :: "ident \<Rightarrow> domain_error" where
  "plainError kind = projr (domainError kind NotAccepted None None)"

fun is_input :: "control_body \<Rightarrow> bool" where
  "is_input (CcInput _ _) = True"
| "is_input _ = False"

definition unknownResult :: "control_body \<Rightarrow> domain_error" where
  "unknownResult body = projr (domainError ''RESULT_UNKNOWN'' AcceptanceUnknown (if is_input body then Some SubjectInput else None) None)"

definition ca_error :: "control_command \<Rightarrow> domain_error \<Rightarrow> reply" where
  "ca_error command e = ReplyError \<lparr>tx_requestId = cc_requestId command, tx_run = cc_run command,
     tx_commandType = command_type_of (tc_body (terminal_of command)), tx_error = e\<rparr>"

text \<open>What the code asks of the pool: the worker the run is placed on is the expected one.\<close>

definition placed_on :: "arbiter_env \<Rightarrow> run_ref \<Rightarrow> worker_ref \<Rightarrow> bool" where
  "placed_on env run worker \<longleftrightarrow> (case wp_get run (ae_pool env) of None \<Rightarrow> False | Some p \<Rightarrow> sameWorkerRef (pl_worker p) worker)"

subsection \<open>Admission\<close>

fun body_geometry :: "control_body \<Rightarrow> geometry option" where
  "body_geometry (CcFocus _ g _) = Some g"
| "body_geometry (CcResize _ g) = Some g"
| "body_geometry _ = None"

fun body_appearance :: "control_body \<Rightarrow> appearance option" where
  "body_appearance (CcFocus _ _ ap) = ap"
| "body_appearance (CcAppearance _ ap) = Some ap"
| "body_appearance _ = None"

text \<open>A \<open>Uint8Array\<close> with the identity and the length of its buffer.\<close>

record byte_view =
  vw_bytes :: "byte list"
  vw_buffer :: handle
  vw_bufferBytes :: number

definition payload_refused :: "budgets \<Rightarrow> control_body \<Rightarrow> byte_view \<Rightarrow> bool" where
  "payload_refused budgets body v \<longleftrightarrow>
     (let n = int (length (vw_bytes v)) in
      if is_input body then n < 1 \<or> n > min 65536 (budgets inputQueueBytes) \<or> vw_bufferBytes v > int MAX_FRAME_BYTES
      else n \<noteq> 0)"

text \<open>An object found in its map, or a new one whose lease was just taken.\<close>

datatype opened = Found handle | Fresh handle

definition rollback :: "opened \<Rightarrow> runtime_bytes \<Rightarrow> runtime_bytes" where
  "rollback w b = (case w of Found _ \<Rightarrow> b | Fresh lease \<Rightarrow> rb_release b lease)"

definition other_run :: "arbiter \<Rightarrow> run_ref \<Rightarrow> worker_ref \<Rightarrow> bool" where
  "other_run a run worker \<longleftrightarrow> (case map_of (ca_runs a) (rr_runId run) of None \<Rightarrow> False
     | Some r \<Rightarrow> \<not> sameRunRef (ar_ref (ca_runHeap a ! r)) run \<or> \<not> sameWorkerRef (ar_worker (ca_runHeap a ! r)) worker)"

definition open_run :: "arbiter \<Rightarrow> run_ref \<Rightarrow> runtime_bytes \<Rightarrow> opened option \<times> runtime_bytes" where
  "open_run a run b = (case map_of (ca_runs a) (rr_runId run) of
     Some r \<Rightarrow> (Some (Found r), b)
   | None \<Rightarrow>
       if int (length (ca_runs a)) \<ge> co_budgets (ca_composition a) maxRuns then (None, b)
       else case rb_reserve False b 8192 of (None, b) \<Rightarrow> (None, b) | (Some lease, b) \<Rightarrow> (Some (Fresh lease), b))"

definition run_counters :: "arbiter \<Rightarrow> opened \<Rightarrow> (subscription_ref \<times> handle) list" where
  "run_counters a w = (case w of Found r \<Rightarrow> ar_counters (ca_runHeap a ! r) | Fresh _ \<Rightarrow> [])"

definition open_counter :: "arbiter \<Rightarrow> opened \<Rightarrow> subscription_ref \<Rightarrow> runtime_bytes \<Rightarrow> opened option \<times> runtime_bytes" where
  "open_counter a w ref b = (case map_of (run_counters a w) ref of
     Some c \<Rightarrow> (Some (Found c), b)
   | None \<Rightarrow>
       let budgets = co_budgets (ca_composition a) in
       if int (length (run_counters a w)) \<ge> budgets authenticatedSockets * budgets subscriptionsPerConnection then (None, b)
       else case rb_reserve False b 4096 of (None, b) \<Rightarrow> (None, b) | (Some lease, b) \<Rightarrow> (Some (Fresh lease), b))"

text \<open>The counter refuses a command that repeats or goes back in its sequence.\<close>

definition counter_refuses :: "arbiter \<Rightarrow> opened \<Rightarrow> control_body \<Rightarrow> bool" where
  "counter_refuses a w body = (case w of
     Fresh _ \<Rightarrow> (case body of CcFocus focusSeq _ _ \<Rightarrow> focusSeq \<le> 0 | CcInput _ inputSeq \<Rightarrow> inputSeq \<le> 0 | _ \<Rightarrow> False)
   | Found c \<Rightarrow> let counter = ca_counterHeap a ! c in
       ct_retired counter \<or>
       (case body of CcFocus focusSeq _ _ \<Rightarrow> focusSeq \<le> ct_focus counter | CcInput _ inputSeq \<Rightarrow> inputSeq \<le> ct_input counter | _ \<Rightarrow> False))"

definition release_lease :: "job_lease \<Rightarrow> runtime_bytes \<Rightarrow> runtime_bytes" where
  "release_lease l b = (case l of JobLease l \<Rightarrow> rb_release b l | JobHold h \<Rightarrow> rb_releaseHold b h)"

text \<open>The leases of a control job: \<^const>\<open>None\<close> when the account refuses one, with those taken before released again.\<close>

definition take_leases :: "control_body \<Rightarrow> byte_view \<Rightarrow> runtime_bytes \<Rightarrow> job_lease list option \<times> runtime_bytes" where
  "take_leases body v b = (case rb_reserve False b 1024 of
     (None, b) \<Rightarrow> (None, b)
   | (Some lease, b) \<Rightarrow>
       if \<not> is_input body then (Some [JobLease lease], b)
       else case rb_retainBacking b (vw_buffer v) (vw_bufferBytes v) False of
         (None, b) \<Rightarrow> (None, rb_release b lease)
       | (Some backing, b) \<Rightarrow> (case rb_reserve False b (int (length (vw_bytes v)) + 256) of
           (None, b) \<Rightarrow> (None, rb_releaseHold (rb_release b lease) backing)
         | (Some copy, b) \<Rightarrow> (Some [JobLease lease, JobHold backing, JobLease copy], b)))"

definition new_run :: "run_ref \<Rightarrow> worker_ref \<Rightarrow> handle \<Rightarrow> arb_run" where
  "new_run run worker lease = \<lparr>ar_ref = run, ar_worker = worker, ar_boundary = None, ar_uncertain = False, ar_queue = [],
     ar_programFailure = None, ar_counters = [], ar_phase = Idle, ar_lease = lease\<rparr>"

definition new_counter :: "route_context \<Rightarrow> handle \<Rightarrow> arb_counter" where
  "new_counter cx lease = \<lparr>ct_ref = cx_subscription cx, ct_worker = cx_worker cx, ct_focus = 0, ct_input = 0, ct_grantEpoch = 0,
     ct_grantAtSeq = 0, ct_retired = False, ct_releaseId = cx_releaseId cx, ct_cleanup = CleanupNone, ct_cleanupEpoch = 0,
     ct_lease = lease\<rparr>"

definition enter_run :: "opened \<Rightarrow> run_ref \<Rightarrow> worker_ref \<Rightarrow> arbiter \<Rightarrow> handle \<times> arbiter" where
  "enter_run w run worker a = (case w of
     Found r \<Rightarrow> (r, a)
   | Fresh lease \<Rightarrow> (length (ca_runHeap a),
       a\<lparr>ca_runHeap := ca_runHeap a @ [new_run run worker lease], ca_runs := AList.update (rr_runId run) (length (ca_runHeap a)) (ca_runs a)\<rparr>))"

definition enter_counter :: "opened \<Rightarrow> handle \<Rightarrow> route_context \<Rightarrow> arbiter \<Rightarrow> handle \<times> arbiter" where
  "enter_counter w r cx a = (case w of
     Found c \<Rightarrow> (c, a)
   | Fresh lease \<Rightarrow> let c = length (ca_counterHeap a) in
       (c, on_run r (\<lambda>run. run\<lparr>ar_counters := AList.update (cx_subscription cx) c (ar_counters run)\<rparr>)
             (a\<lparr>ca_counterHeap := ca_counterHeap a @ [new_counter cx lease]\<rparr>)))"

definition count_command :: "control_body \<Rightarrow> arb_counter \<Rightarrow> arb_counter" where
  "count_command body counter = (case body of
     CcFocus focusSeq _ _ \<Rightarrow> counter\<lparr>ct_focus := focusSeq\<rparr>
   | CcInput _ inputSeq \<Rightarrow> counter\<lparr>ct_input := inputSeq\<rparr>
   | _ \<Rightarrow> counter)"

definition push_job :: "handle \<Rightarrow> job_kind \<Rightarrow> byte list \<Rightarrow> job_lease list \<Rightarrow> arbiter \<Rightarrow> handle \<times> arbiter" where
  "push_job r kind payload leases a =
     (let j = length (ca_jobHeap a);
          job = \<lparr>jb_kind = kind, jb_run = r, jb_payload = payload, jb_leases = leases, jb_ready = False, jb_dispatched = False, jb_reply = None\<rparr>;
          a = on_run r (\<lambda>run. run\<lparr>ar_queue := ar_queue run @ [j]\<rparr>) (a\<lparr>ca_jobHeap := ca_jobHeap a @ [job]\<rparr>)
      in (j, a\<lparr>ca_pending := ca_pending a + 1\<rparr>))"

text \<open>The end of \<open>admit\<close>, when every check passed.\<close>

definition enter_control ::
  "opened \<Rightarrow> opened \<Rightarrow> control_command \<Rightarrow> route_context \<Rightarrow> byte list \<Rightarrow> job_lease list \<Rightarrow> arbiter \<Rightarrow> handle \<times> arbiter" where
  "enter_control run counter command cx payload leases a =
     (case enter_run run (cc_run command) (cx_worker cx) a of (r, a) \<Rightarrow>
      case enter_counter counter r cx a of (c, a) \<Rightarrow>
      push_job r (ControlJob command cx c) payload leases (on_counter c (count_command (cc_body command)) a))"

text \<open>\<open>still\<close> is the second reading of \<open>context.current()\<close>.\<close>

definition ca_admit ::
  "arbiter_env \<Rightarrow> bool \<Rightarrow> control_command \<Rightarrow> route_context \<Rightarrow> byte_view \<Rightarrow> arbiter \<times> runtime_bytes \<Rightarrow>
     (domain_error + handle) \<times> arbiter \<times> runtime_bytes" where
  "ca_admit env still command cx v S = (case S of (a, b) \<Rightarrow>
     let budgets = co_budgets (ca_composition a); body = cc_body command in
     if ca_disposed a \<or> \<not> ae_current env cx then (Inl (plainError ''STALE_CONNECTION''), a, b)
     else if \<not> ae_earlierPending env cx \<and> \<not> ae_installed env cx None then (Inl (plainError ''RESYNC_REQUIRED''), a, b)
     else if (case body_geometry body of None \<Rightarrow> False | Some g \<Rightarrow> ge_cols g > budgets maxCols \<or> ge_rows g > budgets maxRows)
     then (Inl (plainError ''INVALID_SIZE''), a, b)
     else if (case body_appearance body of None \<Rightarrow> False | Some ap \<Rightarrow> validateAppearance ap = None)
     then (Inl (plainError ''CAPABILITY_UNAVAILABLE''), a, b)
     else if payload_refused budgets body v then (Inl (plainError ''INPUT_REJECTED''), a, b)
     else if ca_pending a \<ge> budgets pendingWorkerCommands then (Inl (plainError ''BUSY''), a, b)
     else if other_run a (cc_run command) (cx_worker cx) then (Inl (plainError ''WORKER_UNAVAILABLE''), a, b)
     else case open_run a (cc_run command) b of
       (None, b) \<Rightarrow> (Inl (plainError ''BUSY''), a, b)
     | (Some run, b) \<Rightarrow> (case open_counter a run (cx_subscription cx) b of
         (None, b) \<Rightarrow> (Inl (plainError ''BUSY''), a, rollback run b)
       | (Some counter, b) \<Rightarrow>
           if counter_refuses a counter body then (Inl (plainError ''COUNTER_EXHAUSTED''), a, rollback run (rollback counter b))
           else case take_leases body v b of
             (None, b) \<Rightarrow> (Inl (plainError ''BUSY''), a, rollback run (rollback counter b))
           | (Some leases, b) \<Rightarrow>
               if \<not> still then (Inl (plainError ''STALE_CONNECTION''), a, rollback run (rollback counter (fold release_lease leases b)))
               else case enter_control run counter command cx (if is_input body then vw_bytes v else []) leases a of
                 (j, a) \<Rightarrow> (Inr j, a, b)))"

fun is_program :: "job_kind \<Rightarrow> bool" where
  "is_program (ProgramJob _ _ _) = True"
| "is_program (ControlJob _ _ _) = False"

fun submit_bytes :: "job_kind \<Rightarrow> number" where
  "submit_bytes (ProgramJob command _ _) = (if pg_submit command then 1 else 0)"
| "submit_bytes (ControlJob _ _ _) = 0"

definition TAB_SEND_PENDING_PER_RUN :: number where "TAB_SEND_PENDING_PER_RUN = 32"

definition known_run :: "arbiter \<Rightarrow> run_ref \<Rightarrow> arb_run option" where
  "known_run a run = map_option (\<lambda>r. ca_runHeap a ! r) (map_of (ca_runs a) (rr_runId run))"

definition queue_jobs :: "arbiter \<Rightarrow> arb_run option \<Rightarrow> arb_job list" where
  "queue_jobs a run = (case run of None \<Rightarrow> [] | Some run \<Rightarrow> map (\<lambda>j. ca_jobHeap a ! j) (ar_queue run))"

definition program_busy :: "arbiter \<Rightarrow> program_command \<Rightarrow> byte list \<Rightarrow> bool" where
  "program_busy a command bytes \<longleftrightarrow>
     (let budgets = co_budgets (ca_composition a); jobs = queue_jobs a (known_run a (pg_run command)) in
      ca_pending a \<ge> budgets pendingWorkerCommands \<or>
      int (length (filter (\<lambda>job. is_program (jb_kind job)) jobs)) \<ge> TAB_SEND_PENDING_PER_RUN \<or>
      int (length bytes) + (if pg_submit command then 1 else 0) +
        sum_list (map (\<lambda>job. int (length (jb_payload job)) + submit_bytes (jb_kind job)) jobs) > budgets inputQueueBytes)"

definition ca_admitProgrammatic ::
  "arbiter_env \<Rightarrow> program_command \<Rightarrow> byte list \<Rightarrow> arbiter \<times> runtime_bytes \<Rightarrow> (domain_error + handle) \<times> arbiter \<times> runtime_bytes" where
  "ca_admitProgrammatic env command bytes S = (case S of (a, b) \<Rightarrow>
     if ca_disposed a \<or> \<not> placed_on env (pg_run command) (pg_worker command) then (Inl (plainError ''WORKER_UNAVAILABLE''), a, b)
     else if other_run a (pg_run command) (pg_worker command) then (Inl (plainError ''WORKER_UNAVAILABLE''), a, b)
     else if program_busy a command bytes then (Inl (plainError ''BUSY''), a, b)
     else if (case known_run a (pg_run command) of None \<Rightarrow> False | Some run \<Rightarrow> truthy (ar_programFailure run))
     then (Inl (plainError ''INPUT_REJECTED''), a, b)
     else case open_run a (pg_run command) b of
       (None, b) \<Rightarrow> (Inl (plainError ''BUSY''), a, b)
     | (Some run, b) \<Rightarrow> (case rb_reserve False b (2048 + 2 * int (length bytes)) of
         (None, b) \<Rightarrow> (Inl (plainError ''BUSY''), a, rollback run b)
       | (Some lease, b) \<Rightarrow>
           (case enter_run run (pg_run command) (pg_worker command) a of (r, a) \<Rightarrow>
            case push_job r (ProgramJob command None False) bytes [JobLease lease] a of (j, a) \<Rightarrow> (Inr j, a, b))))"

subsection \<open>Performing a control command\<close>

definition ca_current :: "arbiter_env \<Rightarrow> arbiter \<Rightarrow> control_command \<Rightarrow> route_context \<Rightarrow> handle \<Rightarrow> bool" where
  "ca_current env a command cx c \<longleftrightarrow> \<not> ca_disposed a \<and> \<not> ct_retired (ca_counterHeap a ! c) \<and> ae_current env cx \<and>
     placed_on env (cc_run command) (cx_worker cx)"

definition status_command :: "worker_ref \<Rightarrow> run_ref \<Rightarrow> ident \<Rightarrow> pipe_command" where
  "status_command worker run requestId = \<lparr>pc_worker = worker, pc_run = run, pc_requestId = requestId @ ''.s'', pc_body = PStatus\<rparr>"

text \<open>A live status with its position, from an accepted result.\<close>

definition live_report :: "pipe_result \<Rightarrow> (run_status \<times> number) option" where
  "live_report result =
     (if pr_outcome result \<noteq> OutcomeAccepted then None
      else case pr_runStatus result of None \<Rightarrow> None
        | Some status \<Rightarrow> if st_status status \<noteq> RunLive then None else map_option (Pair status) (st_parsedSeq status))"

definition reported_boundary :: "run_status \<Rightarrow> number \<Rightarrow> boundary" where
  "reported_boundary status atSeq = \<lparr>by_epoch = st_controlEpoch status, by_holder = st_controlHolder status, by_geometry = st_geometry status,
     by_atSeq = atSeq\<rparr>"

definition boundary_after :: "arb_run \<Rightarrow> number \<Rightarrow> bool" where
  "boundary_after run seq \<longleftrightarrow> (case ar_boundary run of None \<Rightarrow> False | Some b \<Rightarrow> by_atSeq b > seq)"

text \<open>\<open>perform\<close> up to the \<open>await\<close> of \<open>boundary\<close>, with the part of \<open>boundary\<close> before its own \<open>await\<close>.\<close>

definition start_control :: "arbiter_env \<Rightarrow> handle \<Rightarrow> handle \<Rightarrow> control_command \<Rightarrow> route_context \<Rightarrow> handle \<Rightarrow> arbiter \<Rightarrow> arbiter" where
  "start_control env r j command cx c a =
     (let run = ca_runHeap a ! r in
      if \<not> ca_current env a command cx c then at_phase r (PhReturned (Some (ca_error command (plainError ''STALE_CONNECTION'')))) a
      else if \<not> ae_installed env cx None then at_phase r (PhReturned (Some (ca_error command (plainError ''RESYNC_REQUIRED'')))) a
      else if ar_boundary run \<noteq> None \<and> \<not> ar_uncertain run then at_phase r (PhBoundary None) a
      else at_phase r PhStatus (ca_send (Some j) (status_command (ar_worker run) (ar_ref run) (cx_requestId cx)) [] a))"

text \<open>The rest of \<open>boundary\<close>.\<close>

definition boundary_read ::
  "arbiter_env \<Rightarrow> handle \<Rightarrow> control_command \<Rightarrow> route_context \<Rightarrow> handle \<Rightarrow> runtime_result \<Rightarrow> arbiter \<Rightarrow> arbiter" where
  "boundary_read env r command cx c result a =
     (if \<not> ca_current env a command cx c then at_phase r (PhBoundary (Some (plainError ''STALE_CONNECTION''))) a
      else case result of
        RtError e \<Rightarrow> at_phase r (PhBoundary (Some (px_error e))) a
      | RtResult p \<Rightarrow> (case live_report p of
          None \<Rightarrow> at_phase r (PhBoundary (Some (plainError ''WORKER_UNAVAILABLE''))) a
        | Some (status, seq) \<Rightarrow>
            if boundary_after (ca_runHeap a ! r) seq then at_phase r (PhBoundary (Some (plainError ''STALE_CONTROL''))) a
            else at_phase r (PhBoundary None)
                   (on_run r (\<lambda>run. run\<lparr>ar_boundary := Some (reported_boundary status seq), ar_uncertain := False\<rparr>) a)))"

text \<open>The worker command for a control command, or the kind of the refusal.\<close>

definition holds_control :: "arbiter \<Rightarrow> route_context \<Rightarrow> handle \<Rightarrow> boundary \<Rightarrow> number \<Rightarrow> bool" where
  "holds_control a cx c b epoch \<longleftrightarrow> matches (by_holder b) (cx_subscription cx) \<and> by_epoch b = epoch \<and> ct_grantEpoch (ca_counterHeap a ! c) = epoch"

definition seen_boundary :: "arbiter_env \<Rightarrow> arbiter \<Rightarrow> route_context \<Rightarrow> handle \<Rightarrow> boundary \<Rightarrow> bool" where
  "seen_boundary env a cx c b \<longleftrightarrow> ae_installed env cx (Some (max (by_atSeq b) (ct_grantAtSeq (ca_counterHeap a ! c))))"

fun control_pipe :: "arbiter_env \<Rightarrow> arbiter \<Rightarrow> route_context \<Rightarrow> handle \<Rightarrow> boundary \<Rightarrow> control_body \<Rightarrow> ident + pipe_body" where
  "control_pipe env a cx c b (CcFocus focusSeq geometry appearance) =
     (if by_epoch b = MAX_SAFE_INTEGER then Inl ''COUNTER_EXHAUSTED''
      else Inr (PSetControl (by_epoch b) (by_epoch b + 1) (Some (holder (cx_subscription cx))) geometry appearance))"
| "control_pipe env a cx c b (CcBlur epoch) =
     (if \<not> holds_control a cx c b epoch then Inl ''STALE_CONTROL''
      else Inr (PSetControl (by_epoch b) (by_epoch b) None (by_geometry b) None))"
| "control_pipe env a cx c b (CcInput epoch inputSeq) =
     (if \<not> holds_control a cx c b epoch then Inl ''STALE_CONTROL''
      else if \<not> seen_boundary env a cx c b then Inl ''RESYNC_REQUIRED''
      else Inr (PInput (cx_subscription cx) epoch inputSeq))"
| "control_pipe env a cx c b (CcResize epoch geometry) =
     (if \<not> holds_control a cx c b epoch then Inl ''STALE_CONTROL''
      else if \<not> seen_boundary env a cx c b then Inl ''RESYNC_REQUIRED''
      else Inr (PResize (cx_subscription cx) epoch geometry))"
| "control_pipe env a cx c b (CcAppearance epoch appearance) =
     (if \<not> holds_control a cx c b epoch then Inl ''STALE_CONTROL''
      else if \<not> seen_boundary env a cx c b then Inl ''RESYNC_REQUIRED''
      else Inr (PAppearance (cx_subscription cx) epoch appearance))"

fun focus_or_blur :: "control_body \<Rightarrow> bool" where
  "focus_or_blur (CcFocus _ _ _) = True"
| "focus_or_blur (CcBlur _) = True"
| "focus_or_blur _ = False"

text \<open>\<open>perform\<close> from the return of \<open>boundary\<close> to the dispatch.\<close>

definition dispatch_control ::
  "arbiter_env \<Rightarrow> handle \<Rightarrow> handle \<Rightarrow> control_command \<Rightarrow> route_context \<Rightarrow> handle \<Rightarrow> domain_error option \<Rightarrow> arbiter \<Rightarrow> arbiter" where
  "dispatch_control env r j command cx c failed a =
     (let run = ca_runHeap a ! r; refuse = (\<lambda>e. at_phase r (PhReturned (Some (ca_error command e))) a) in
      case failed of
        Some e \<Rightarrow> refuse e
      | None \<Rightarrow>
          if \<not> ca_current env a command cx c then refuse (plainError ''STALE_CONNECTION'')
          else let b = the (ar_boundary run) in
            case control_pipe env a cx c b (cc_body command) of
              Inl kind \<Rightarrow> refuse (plainError kind)
            | Inr body \<Rightarrow>
                if \<not> ca_current env a command cx c \<or>
                   \<not> ae_installed env cx (if focus_or_blur (cc_body command) then None else Some (by_atSeq b))
                then refuse (plainError ''STALE_CONNECTION'')
                else at_phase r (PhPipe b) (ca_send (Some j)
                       \<lparr>pc_worker = ar_worker run, pc_run = ar_ref run, pc_requestId = cx_requestId cx, pc_body = body\<rparr>
                       (if is_input (cc_body command) then jb_payload (ca_jobHeap a ! j) else [])
                       (on_job j (\<lambda>job. job\<lparr>jb_dispatched := True\<rparr>) a)))"

definition ca_failure :: "runtime_result \<Rightarrow> control_body \<Rightarrow> domain_error option" where
  "ca_failure result body = (case result of
     RtError e \<Rightarrow> Some (px_error e)
   | RtResult p \<Rightarrow> (case pr_outcome p of
       OutcomeAccepted \<Rightarrow> None
     | OutcomeUnknown \<Rightarrow> Some (unknownResult body)
     | OutcomeRejected \<Rightarrow> Some (plainError ''STALE_CONTROL'')))"

definition input_reply :: "control_command \<Rightarrow> route_context \<Rightarrow> number \<Rightarrow> number \<Rightarrow> number \<Rightarrow> pipe_result \<Rightarrow> reply" where
  "input_reply command cx epoch inputSeq payloadBytes p = (case pr_writtenBytes p of
     None \<Rightarrow> ca_error command (unknownResult (cc_body command))
   | Some written \<Rightarrow>
       if written = 0 \<or> written > payloadBytes \<or> pr_inputSeq p \<noteq> Some inputSeq then ca_error command (unknownResult (cc_body command))
       else ReplyResult \<lparr>tr_requestId = cc_requestId command, tr_run = cc_run command,
              tr_body = RInput (cx_subscription cx) epoch inputSeq written\<rparr>)"

fun result_body_of :: "control_body \<Rightarrow> subscription_ref \<Rightarrow> number \<Rightarrow> number \<Rightarrow> result_body" where
  "result_body_of (CcFocus _ _ _) s epoch atSeq = RFocus s epoch atSeq"
| "result_body_of (CcBlur _) s epoch atSeq = RBlur s epoch atSeq"
| "result_body_of (CcResize _ _) s epoch atSeq = RResize s epoch atSeq"
| "result_body_of (CcAppearance _ _) s epoch atSeq = RAppearance s epoch atSeq"
| "result_body_of (CcInput _ _) s epoch atSeq = RInput s epoch 0 atSeq"

text \<open>The boundary after an accepted command; \<open>b\<close> is the boundary the command was dispatched under.\<close>

fun next_boundary :: "control_body \<Rightarrow> subscription_ref \<Rightarrow> boundary \<Rightarrow> number \<Rightarrow> boundary" where
  "next_boundary (CcFocus _ geometry _) s b atSeq =
     \<lparr>by_epoch = by_epoch b + 1, by_holder = Some (holder s), by_geometry = geometry, by_atSeq = atSeq\<rparr>"
| "next_boundary (CcBlur _) s b atSeq = b\<lparr>by_holder := None, by_atSeq := atSeq\<rparr>"
| "next_boundary (CcResize _ geometry) s b atSeq = b\<lparr>by_geometry := geometry, by_atSeq := atSeq\<rparr>"
| "next_boundary _ s b atSeq = b\<lparr>by_atSeq := atSeq\<rparr>"

fun grant :: "control_body \<Rightarrow> boundary \<Rightarrow> arb_counter \<Rightarrow> arb_counter" where
  "grant (CcFocus _ _ _) b counter =
     (let counter = counter\<lparr>ct_grantEpoch := by_epoch b, ct_grantAtSeq := by_atSeq b\<rparr>
      in if ct_retired counter then counter\<lparr>ct_cleanup := CleanupPending, ct_cleanupEpoch := by_epoch b\<rparr> else counter)"
| "grant _ b counter = counter"

text \<open>\<open>perform\<close> from the worker's answer to its return.\<close>

definition control_answered ::
  "arbiter_env \<Rightarrow> handle \<Rightarrow> handle \<Rightarrow> control_command \<Rightarrow> route_context \<Rightarrow> handle \<Rightarrow> boundary \<Rightarrow> runtime_result \<Rightarrow> arbiter \<Rightarrow> arbiter" where
  "control_answered env r j command cx c b result a =
     (let body = cc_body command;
          return = (\<lambda>reply. at_phase r (PhReturned (Some reply)));
          doubt = on_run r (\<lambda>run. run\<lparr>ar_uncertain := True\<rparr>)
      in case ca_failure result body of
        Some e \<Rightarrow> return (ca_error command e)
          (if \<not> is_input body \<and> (de_acceptance e = AcceptanceUnknown \<or> de_kind e = ''STALE_CONTROL'') then doubt a else a)
      | None \<Rightarrow> (case result of
          RtError _ \<Rightarrow> return (ca_error command (plainError ''RESULT_UNKNOWN'')) a
        | RtResult p \<Rightarrow> (case body of
            CcInput epoch inputSeq \<Rightarrow>
              return (input_reply command cx epoch inputSeq (int (length (jb_payload (ca_jobHeap a ! j)))) p) a
          | _ \<Rightarrow> (case pr_atSeq p of
              None \<Rightarrow> return (ca_error command (unknownResult body)) (doubt a)
            | Some atSeq \<Rightarrow>
                if atSeq < by_atSeq b then return (ca_error command (unknownResult body)) (doubt a)
                else if boundary_after (ca_runHeap a ! r) atSeq then return (ca_error command (plainError ''STALE_CONTROL'')) a
                else
                  let nb = next_boundary body (cx_subscription cx) b atSeq;
                      a = on_counter c (grant body nb) (on_run r (\<lambda>run. run\<lparr>ar_boundary := Some nb\<rparr>) a)
                  in if \<not> ca_current env a command cx c then return (ca_error command (plainError ''STALE_CONNECTION'')) a
                     else return (ReplyResult \<lparr>tr_requestId = cc_requestId command, tr_run = cc_run command,
                            tr_body = result_body_of body (cx_subscription cx) (by_epoch nb) atSeq\<rparr>) a))))"

subsection \<open>Performing programmatic input\<close>

definition program_current :: "arbiter_env \<Rightarrow> arbiter \<Rightarrow> program_command \<Rightarrow> bool" where
  "program_current env a command \<longleftrightarrow> \<not> ca_disposed a \<and> placed_on env (pg_run command) (pg_worker command) \<and>
     (case rg_get (pg_run command) (ae_registry env) of None \<Rightarrow> False | Some (_, status, _) \<Rightarrow> st_status status \<noteq> RunExited)"

definition program_return :: "handle \<Rightarrow> tab_input_receipt \<Rightarrow> arbiter \<Rightarrow> arbiter" where
  "program_return r receipt = at_phase r (PhProgramReturned (Some receipt))"

definition start_program :: "arbiter_env \<Rightarrow> handle \<Rightarrow> handle \<Rightarrow> program_command \<Rightarrow> string option \<Rightarrow> arbiter \<Rightarrow> arbiter" where
  "start_program env r j command cancelled a =
     (let failed = ar_programFailure (ca_runHeap a ! r) in
      if truthy cancelled \<or> truthy failed
      then program_return r (notSent command (case cancelled of Some s \<Rightarrow> s | None \<Rightarrow> the failed) False) a
      else if \<not> program_current env a command then program_return r (notSent command ''run-not-live'' False) a
      else at_phase r PhProgramStatus
             (ca_send (Some j) (status_command (pg_worker command) (pg_run command) (pg_requestId command)) [] a))"

definition program_read ::
  "arbiter_env \<Rightarrow> handle \<Rightarrow> program_command \<Rightarrow> bool \<Rightarrow> runtime_result \<Rightarrow> arbiter \<Rightarrow> arbiter" where
  "program_read env r command accepts result a =
     (case (if program_current env a command then case result of RtError _ \<Rightarrow> None | RtResult p \<Rightarrow> live_report p else None) of
        None \<Rightarrow> program_return r (notSent command ''control-unverifiable'' False) a
      | Some (status, seq) \<Rightarrow>
          if boundary_after (ca_runHeap a ! r) seq then program_return r (notSent command ''control-unverifiable'' False) a
          else let a = on_run r (\<lambda>run. run\<lparr>ar_boundary := Some (reported_boundary status seq), ar_uncertain := False\<rparr>) a in
            if st_controlHolder status \<noteq> None then program_return r (notSent command ''controller-present'' False) a
            else if st_controlEpoch status \<noteq> pg_epoch command then program_return r (notSent command ''stale-control'' False) a
            else if \<not> accepts then program_return r (notSent command ''receipt-not-confirmed'' False) a
            else at_phase r PhProgramAccept a)"

definition program_accepted :: "arbiter_env \<Rightarrow> handle \<Rightarrow> handle \<Rightarrow> program_command \<Rightarrow> bool \<Rightarrow> arbiter \<Rightarrow> arbiter" where
  "program_accepted env r j command confirmed a =
     (if \<not> confirmed then program_return r (notSent command ''receipt-not-confirmed'' False) a
      else if \<not> program_current env a command then program_return r (notSent command ''run-not-live'' False) a
      else at_phase r PhProgramWrite (ca_send (Some j) (pipe_of_program command) (jb_payload (ca_jobHeap a ! j))
             (on_job j (\<lambda>job. job\<lparr>jb_dispatched := True\<rparr>) a)))"

definition program_written :: "program_command \<Rightarrow> runtime_result \<Rightarrow> tab_input_receipt" where
  "program_written command result = (case result of
     RtResult p \<Rightarrow> (case pr_input p of Some receipt \<Rightarrow> receipt | None \<Rightarrow> notSent command ''runtime-result-unknown'' True)
   | RtError e \<Rightarrow> notSent command (de_kind (px_error e)) (de_acceptance (px_error e) = AcceptanceUnknown))"

subsection \<open>The drain loop\<close>

text \<open>Removing the head job of a run and resolving its promise; the loop goes on.\<close>

definition settle_job :: "handle \<Rightarrow> handle \<Rightarrow> job_reply \<Rightarrow> arbiter \<times> runtime_bytes \<Rightarrow> arbiter \<times> runtime_bytes" where
  "settle_job r j reply S = (case S of (a, b) \<Rightarrow>
     let leases = jb_leases (ca_jobHeap a ! j);
         a = on_run r (\<lambda>run. run\<lparr>ar_queue := tl (ar_queue run), ar_phase := PhRunning\<rparr>) a;
         a = a\<lparr>ca_pending := ca_pending a - 1\<rparr>;
         a = on_job j (\<lambda>job. job\<lparr>jb_leases := [], jb_payload := [], jb_reply := Some reply\<rparr>) a
     in (a, fold release_lease leases b))"

definition settle_control :: "handle \<Rightarrow> handle \<Rightarrow> control_command \<Rightarrow> reply option \<Rightarrow> arbiter \<times> runtime_bytes \<Rightarrow> arbiter \<times> runtime_bytes" where
  "settle_control r j command reply S = (case reply of
     Some reply \<Rightarrow> settle_job r j (ControlReply reply) S
   | None \<Rightarrow> settle_job r j (ControlReply (ca_error command (unknownResult (cc_body command))))
       (case S of (a, b) \<Rightarrow> (on_run r (\<lambda>run. run\<lparr>ar_uncertain := True\<rparr>) a, b)))"

definition input_complete :: "tab_input_receipt \<Rightarrow> bool" where
  "input_complete receipt \<longleftrightarrow> ir_status (ti_text receipt) = PartWritten \<and>
     (case ti_submit receipt of None \<Rightarrow> True | Some part \<Rightarrow> ir_status part = PartWritten)"

definition failure_reason :: "tab_input_receipt \<Rightarrow> string" where
  "failure_reason receipt = (case ir_reason (ti_text receipt) of
     Some reason \<Rightarrow> reason
   | None \<Rightarrow> (case (case ti_submit receipt of None \<Rightarrow> None | Some part \<Rightarrow> ir_reason part) of
       Some reason \<Rightarrow> reason | None \<Rightarrow> ''earlier-input-not-complete''))"

definition note_failure :: "tab_input_receipt \<Rightarrow> arb_run \<Rightarrow> arb_run" where
  "note_failure receipt run =
     (if input_complete receipt \<or> ar_programFailure run \<noteq> None then run
      else run\<lparr>ar_programFailure := Some (failure_reason receipt)\<rparr>)"

definition programs_queued :: "handle \<Rightarrow> arbiter \<Rightarrow> bool" where
  "programs_queued r a \<longleftrightarrow> list_ex (\<lambda>j. is_program (jb_kind (ca_jobHeap a ! j))) (ar_queue (ca_runHeap a ! r))"

definition settle_program ::
  "handle \<Rightarrow> handle \<Rightarrow> program_command \<Rightarrow> tab_input_receipt option \<Rightarrow> arbiter \<times> runtime_bytes \<Rightarrow> arbiter \<times> runtime_bytes" where
  "settle_program r j command receipt S = (case S of (a, b) \<Rightarrow>
     let input = (case receipt of Some input \<Rightarrow> input
           | None \<Rightarrow> notSent command ''runtime-result-unknown'' (jb_dispatched (ca_jobHeap a ! j)))
     in case settle_job r j (ProgramReply input) (on_run r (note_failure input) a, b) of (a, b) \<Rightarrow>
          (if programs_queued r a then a else on_run r (\<lambda>run. run\<lparr>ar_programFailure := None\<rparr>) a, b))"

definition head_ready :: "handle \<Rightarrow> arbiter \<Rightarrow> bool" where
  "head_ready r a \<longleftrightarrow> (case ar_queue (ca_runHeap a ! r) of [] \<Rightarrow> False | j # _ \<Rightarrow> jb_ready (ca_jobHeap a ! j))"

text \<open>The head of the loop with a ready job: the call of \<open>perform\<close> or \<open>performProgrammatic\<close>.\<close>

definition start_head :: "arbiter_env \<Rightarrow> handle \<Rightarrow> arbiter \<Rightarrow> arbiter" where
  "start_head env r a = (case ar_queue (ca_runHeap a ! r) of
     [] \<Rightarrow> a
   | j # _ \<Rightarrow> (case jb_kind (ca_jobHeap a ! j) of
       ControlJob command cx c \<Rightarrow> start_control env r j command cx c a
     | ProgramJob command cancelled _ \<Rightarrow> start_program env r j command cancelled a))"

text \<open>\<open>cleanup\<close> from the counter at position \<open>i\<close> of the map to its next \<open>await\<close>.\<close>

definition set_cleanup :: "handle \<Rightarrow> cleanup_state \<Rightarrow> arbiter \<Rightarrow> arbiter" where
  "set_cleanup c s = on_counter c (\<lambda>counter. counter\<lparr>ct_cleanup := s\<rparr>)"

lemma runHeap_set_cleanup [simp]: "ca_runHeap (set_cleanup c s a) = ca_runHeap a"
  by (simp add: set_cleanup_def on_counter_def)

definition release_command :: "arb_counter \<Rightarrow> run_ref \<Rightarrow> boundary \<Rightarrow> pipe_command" where
  "release_command counter run b = \<lparr>pc_worker = ct_worker counter, pc_run = run, pc_requestId = ct_releaseId counter,
     pc_body = PSetControl (by_epoch b) (by_epoch b) None (by_geometry b) None\<rparr>"

function cleanup_from :: "arbiter_env \<Rightarrow> handle \<Rightarrow> nat \<Rightarrow> arbiter \<Rightarrow> arbiter" where
  "cleanup_from env r i a =
     (let run = ca_runHeap a ! r in
      if i \<ge> length (ar_counters run) then at_phase r PhCleaned a
      else let c = snd (ar_counters run ! i); counter = ca_counterHeap a ! c in
        if ct_cleanup counter \<noteq> CleanupPending then cleanup_from env r (i + 1) a
        else case ar_boundary run of
          None \<Rightarrow> cleanup_from env r (i + 1) (set_cleanup c CleanupNone a)
        | Some b \<Rightarrow>
            if \<not> matches (by_holder b) (ct_ref counter) \<or> by_epoch b \<noteq> ct_cleanupEpoch counter
            then cleanup_from env r (i + 1) (set_cleanup c CleanupNone a)
            else if ar_uncertain run \<or> ca_disposed a then cleanup_from env r (i + 1) a
            else if \<not> placed_on env (ar_ref run) (ct_worker counter) then cleanup_from env r (i + 1) a
            else at_phase r (PhCleanup i c b) (ca_send None (release_command counter (ar_ref run) b) [] a))"
  by pat_completeness auto
termination by (relation "measure (\<lambda>(env, r, i, a). length (ar_counters (ca_runHeap a ! r)) - i)") auto

declare cleanup_from.simps [simp del]

definition busy_error :: "runtime_result \<Rightarrow> bool" where
  "busy_error result = (case result of RtResult _ \<Rightarrow> False
     | RtError e \<Rightarrow> de_acceptance (px_error e) = NotAccepted \<and> de_kind (px_error e) = ''BUSY'')"

definition released_at :: "runtime_result \<Rightarrow> boundary \<Rightarrow> number option" where
  "released_at result b = (case result of RtError _ \<Rightarrow> None
     | RtResult p \<Rightarrow> if pr_outcome p \<noteq> OutcomeAccepted then None
         else case pr_atSeq p of None \<Rightarrow> None | Some n \<Rightarrow> if n \<ge> by_atSeq b then Some n else None)"

definition cleanup_unknown :: "handle \<Rightarrow> handle \<Rightarrow> arbiter \<Rightarrow> arbiter" where
  "cleanup_unknown r c a = on_run r (\<lambda>run. run\<lparr>ar_uncertain := True\<rparr>) (set_cleanup c CleanupUnknown a)"

definition cleanup_answered :: "handle \<Rightarrow> handle \<Rightarrow> boundary \<Rightarrow> runtime_result option \<Rightarrow> arbiter \<Rightarrow> arbiter" where
  "cleanup_answered r c b result a =
     (let run = ca_runHeap a ! r in
      case result of
        None \<Rightarrow> cleanup_unknown r c a
      | Some result \<Rightarrow>
          if busy_error result then a
          else case released_at result b of
            None \<Rightarrow> cleanup_unknown r c a
          | Some n \<Rightarrow>
              let a = set_cleanup c CleanupNone a in
              if ar_boundary run = Some b \<or> \<not> boundary_after run n
              then on_run r (\<lambda>run. run\<lparr>ar_boundary := Some (b\<lparr>by_holder := None, by_atSeq := n\<rparr>)\<rparr>) a
              else a)"

definition release_run :: "handle \<Rightarrow> arbiter \<times> runtime_bytes \<Rightarrow> arbiter \<times> runtime_bytes" where
  "release_run r S = (case S of (a, b) \<Rightarrow>
     let run = ca_runHeap a ! r in
     if map_of (ca_runs a) (rr_runId (ar_ref run)) = None then (a, b)
     else (on_run r (\<lambda>run. run\<lparr>ar_counters := []\<rparr>) (a\<lparr>ca_runs := AList.delete (rr_runId (ar_ref run)) (ca_runs a)\<rparr>),
           rb_release (fold (\<lambda>(_, c) b. rb_release b (ct_lease (ca_counterHeap a ! c))) (ar_counters run) b) (ar_lease run)))"

definition counter_queued :: "handle \<Rightarrow> handle \<Rightarrow> arbiter \<Rightarrow> bool" where
  "counter_queued r c a \<longleftrightarrow>
     list_ex (\<lambda>j. case jb_kind (ca_jobHeap a ! j) of ControlJob _ _ d \<Rightarrow> d = c | ProgramJob _ _ _ \<Rightarrow> False) (ar_queue (ca_runHeap a ! r))"

definition prunable :: "handle \<Rightarrow> arbiter \<Rightarrow> handle \<Rightarrow> bool" where
  "prunable r a c \<longleftrightarrow> ct_retired (ca_counterHeap a ! c) \<and> ct_cleanup (ca_counterHeap a ! c) \<noteq> CleanupPending \<and> \<not> counter_queued r c a"

definition prune :: "handle \<Rightarrow> arbiter \<times> runtime_bytes \<Rightarrow> arbiter \<times> runtime_bytes" where
  "prune r S = (case S of (a, b) \<Rightarrow>
     let run = ca_runHeap a ! r in
     if ca_disposed a \<or> ar_phase run \<noteq> Idle \<or> map_of (ca_runs a) (rr_runId (ar_ref run)) \<noteq> Some r then (a, b)
     else (on_run r (\<lambda>run. run\<lparr>ar_counters := filter (\<lambda>(_, c). \<not> prunable r a c) (ar_counters run)\<rparr>) a,
           fold (\<lambda>(_, c) b. rb_release b (ct_lease (ca_counterHeap a ! c))) (filter (\<lambda>(_, c). prunable r a c) (ar_counters run)) b))"

text \<open>The \<open>finally\<close> block of \<open>drain\<close>. A ready head starts the loop again, which runs to its first \<open>await\<close>.\<close>

definition finish_drain :: "arbiter_env \<Rightarrow> handle \<Rightarrow> arbiter \<times> runtime_bytes \<Rightarrow> arbiter \<times> runtime_bytes" where
  "finish_drain env r S = (case S of (a, b) \<Rightarrow>
     let a = at_phase r Idle a in
     if ca_disposed a \<and> ar_queue (ca_runHeap a ! r) = [] then release_run r (a, b)
     else if head_ready r a then (start_head env r a, b)
     else prune r (a, b))"

definition drain_loop :: "arbiter_env \<Rightarrow> handle \<Rightarrow> arbiter \<times> runtime_bytes \<Rightarrow> arbiter \<times> runtime_bytes" where
  "drain_loop env r S = (case S of (a, b) \<Rightarrow>
     if head_ready r a then (start_head env r a, b)
     else if ar_queue (ca_runHeap a ! r) = [] then (cleanup_from env r 0 a, b)
     else finish_drain env r (a, b))"

definition ca_drain :: "arbiter_env \<Rightarrow> handle \<Rightarrow> arbiter \<times> runtime_bytes \<Rightarrow> arbiter \<times> runtime_bytes" where
  "ca_drain env r S = (case S of (a, b) \<Rightarrow>
     if ar_phase (ca_runHeap a ! r) \<noteq> Idle then S else drain_loop env r (at_phase r PhRunning a, b))"

datatype answer = AnsTick | AnsResult runtime_result | AnsAccept bool | AnsThrow

text \<open>The continuation of a control job at its \<open>await\<close>. An answer of the wrong kind is no step.\<close>

fun resume_control ::
  "arbiter_env \<Rightarrow> handle \<Rightarrow> handle \<Rightarrow> control_command \<Rightarrow> route_context \<Rightarrow> handle \<Rightarrow> phase \<Rightarrow> answer \<Rightarrow> arbiter \<times> runtime_bytes \<Rightarrow> arbiter \<times> runtime_bytes" where
  "resume_control env r j command cx c PhStatus (AnsResult result) (a, b) = (boundary_read env r command cx c result a, b)"
| "resume_control env r j command cx c PhStatus AnsThrow (a, b) = (at_phase r (PhReturned None) a, b)"
| "resume_control env r j command cx c (PhBoundary failed) AnsTick (a, b) = (dispatch_control env r j command cx c failed a, b)"
| "resume_control env r j command cx c (PhPipe bd) (AnsResult result) (a, b) = (control_answered env r j command cx c bd result a, b)"
| "resume_control env r j command cx c (PhPipe bd) AnsThrow (a, b) = (at_phase r (PhReturned None) a, b)"
| "resume_control env r j command cx c (PhReturned reply) AnsTick S = drain_loop env r (settle_control r j command reply S)"
| "resume_control env r j command cx c _ _ S = S"

fun resume_program ::
  "arbiter_env \<Rightarrow> handle \<Rightarrow> handle \<Rightarrow> program_command \<Rightarrow> bool \<Rightarrow> phase \<Rightarrow> answer \<Rightarrow> arbiter \<times> runtime_bytes \<Rightarrow> arbiter \<times> runtime_bytes" where
  "resume_program env r j command accepts PhProgramStatus (AnsResult result) (a, b) = (program_read env r command accepts result a, b)"
| "resume_program env r j command accepts PhProgramStatus AnsThrow (a, b) = (at_phase r (PhProgramReturned None) a, b)"
| "resume_program env r j command accepts PhProgramAccept (AnsAccept confirmed) (a, b) = (program_accepted env r j command confirmed a, b)"
| "resume_program env r j command accepts PhProgramAccept AnsThrow (a, b) = (at_phase r (PhProgramReturned None) a, b)"
| "resume_program env r j command accepts PhProgramWrite (AnsResult result) (a, b) = (program_return r (program_written command result) a, b)"
| "resume_program env r j command accepts PhProgramWrite AnsThrow (a, b) = (at_phase r (PhProgramReturned None) a, b)"
| "resume_program env r j command accepts (PhProgramReturned receipt) AnsTick S = drain_loop env r (settle_program r j command receipt S)"
| "resume_program env r j command accepts _ _ S = S"

fun resume_cleanup :: "arbiter_env \<Rightarrow> handle \<Rightarrow> phase \<Rightarrow> answer \<Rightarrow> arbiter \<times> runtime_bytes \<Rightarrow> arbiter \<times> runtime_bytes" where
  "resume_cleanup env r (PhCleanup i c bd) (AnsResult result) (a, b) = (cleanup_from env r (i + 1) (cleanup_answered r c bd (Some result) a), b)"
| "resume_cleanup env r (PhCleanup i c bd) AnsThrow (a, b) = (cleanup_from env r (i + 1) (cleanup_answered r c bd None a), b)"
| "resume_cleanup env r PhCleaned AnsTick S = finish_drain env r S"
| "resume_cleanup env r _ _ S = S"

fun cleaning :: "phase \<Rightarrow> bool" where
  "cleaning (PhCleanup _ _ _) = True"
| "cleaning PhCleaned = True"
| "cleaning _ = False"

definition ca_resume :: "arbiter_env \<Rightarrow> handle \<Rightarrow> answer \<Rightarrow> arbiter \<times> runtime_bytes \<Rightarrow> arbiter \<times> runtime_bytes" where
  "ca_resume env r answer S =
     (let a = fst S; run = ca_runHeap a ! r; p = ar_phase run in
      if cleaning p then resume_cleanup env r p answer S
      else case ar_queue run of
        [] \<Rightarrow> S
      | j # _ \<Rightarrow> (case jb_kind (ca_jobHeap a ! j) of
          ControlJob command cx c \<Rightarrow> resume_control env r j command cx c p answer S
        | ProgramJob command _ accepts \<Rightarrow> resume_program env r j command accepts p answer S))"

subsection \<open>The other methods\<close>

definition set_ready :: "arb_job \<Rightarrow> arb_job" where
  "set_ready job = job\<lparr>jb_ready := True\<rparr>"

definition ca_execute :: "arbiter_env \<Rightarrow> handle \<Rightarrow> arbiter \<times> runtime_bytes \<Rightarrow> arbiter \<times> runtime_bytes" where
  "ca_execute env j S = (case S of (a, b) \<Rightarrow> ca_drain env (jb_run (ca_jobHeap a ! j)) (on_job j set_ready a, b))"

fun set_accept :: "job_kind \<Rightarrow> job_kind" where
  "set_accept (ProgramJob command cancelled _) = ProgramJob command cancelled True"
| "set_accept kind = kind"

fun set_cancelled :: "string \<Rightarrow> job_kind \<Rightarrow> job_kind" where
  "set_cancelled reason (ProgramJob command _ accepts) = ProgramJob command (Some reason) accepts"
| "set_cancelled reason kind = kind"

definition ca_executeProgrammatic :: "arbiter_env \<Rightarrow> handle \<Rightarrow> arbiter \<times> runtime_bytes \<Rightarrow> arbiter \<times> runtime_bytes" where
  "ca_executeProgrammatic env j S = (case S of (a, b) \<Rightarrow>
     ca_drain env (jb_run (ca_jobHeap a ! j)) (on_job j (\<lambda>job. set_ready (job\<lparr>jb_kind := set_accept (jb_kind job)\<rparr>)) a, b))"

definition ca_cancelProgrammatic :: "arbiter_env \<Rightarrow> handle \<Rightarrow> string \<Rightarrow> arbiter \<times> runtime_bytes \<Rightarrow> arbiter \<times> runtime_bytes" where
  "ca_cancelProgrammatic env j reason S = (case S of (a, b) \<Rightarrow>
     ca_drain env (jb_run (ca_jobHeap a ! j)) (on_job j (\<lambda>job. set_ready (job\<lparr>jb_kind := set_cancelled reason (jb_kind job)\<rparr>)) a, b))"

definition ready_counter :: "handle \<Rightarrow> handle \<Rightarrow> arbiter \<Rightarrow> arbiter" where
  "ready_counter c j a = (case jb_kind (ca_jobHeap a ! j) of
     ControlJob _ _ d \<Rightarrow> if d = c then on_job j set_ready a else a
   | ProgramJob _ _ _ \<Rightarrow> a)"

definition retire_counter :: "boundary option \<Rightarrow> subscription_ref \<Rightarrow> arb_counter \<Rightarrow> arb_counter" where
  "retire_counter bd ref counter =
     (let counter = counter\<lparr>ct_retired := True\<rparr> in
      case bd of None \<Rightarrow> counter
      | Some b \<Rightarrow> if matches (by_holder b) ref then counter\<lparr>ct_cleanup := CleanupPending, ct_cleanupEpoch := by_epoch b\<rparr> else counter)"

definition ca_retire :: "arbiter_env \<Rightarrow> subscription_ref \<Rightarrow> arbiter \<times> runtime_bytes \<Rightarrow> arbiter \<times> runtime_bytes" where
  "ca_retire env ref S = (case S of (a, b) \<Rightarrow>
     case map_of (ca_runs a) (rr_runId (sr_run ref)) of
       None \<Rightarrow> S
     | Some r \<Rightarrow> (case map_of (ar_counters (ca_runHeap a ! r)) ref of
         None \<Rightarrow> S
       | Some c \<Rightarrow>
           if \<not> sameSubscriptionRef (ct_ref (ca_counterHeap a ! c)) ref then S
           else ca_drain env r
                  (on_counter c (retire_counter (ar_boundary (ca_runHeap a ! r)) ref) (fold (ready_counter c) (ar_queue (ca_runHeap a ! r)) a), b)))"

text \<open>The listener of the runtime's events; \<open>dispose\<close> removes it.\<close>

definition observe_fact :: "run_event \<Rightarrow> arb_run \<Rightarrow> arb_run" where
  "observe_fact e run =
     (if (case ar_boundary run of None \<Rightarrow> False | Some b \<Rightarrow> re_seq e \<le> by_atSeq b) then run
      else case e of
        RevControl _ seq epoch h geometry \<Rightarrow>
          run\<lparr>ar_boundary := Some \<lparr>by_epoch = epoch, by_holder = h, by_geometry = geometry, by_atSeq = seq\<rparr>\<rparr>
      | RevResize _ seq geometry _ \<Rightarrow> (case ar_boundary run of
          None \<Rightarrow> run | Some b \<Rightarrow> run\<lparr>ar_boundary := Some (b\<lparr>by_geometry := geometry, by_atSeq := seq\<rparr>)\<rparr>)
      | RevExit _ _ _ _ \<Rightarrow> run\<lparr>ar_uncertain := True\<rparr>
      | _ \<Rightarrow> run)"

definition ca_event :: "pipe_event \<Rightarrow> arbiter \<Rightarrow> arbiter" where
  "ca_event event a =
     (if ca_disposed a then a
      else case map_of (ca_runs a) (rr_runId (pv_run event)) of
        None \<Rightarrow> a
      | Some r \<Rightarrow>
          if \<not> sameRunRef (ar_ref (ca_runHeap a ! r)) (pv_run event) \<or> \<not> sameWorkerRef (ar_worker (ca_runHeap a ! r)) (pv_worker event) then a
          else case pv_terminal event of TeRun e \<Rightarrow> on_run r (observe_fact e) a | _ \<Rightarrow> a)"

definition ca_tick :: "arbiter_env \<Rightarrow> arbiter \<times> runtime_bytes \<Rightarrow> arbiter \<times> runtime_bytes" where
  "ca_tick env S = fold (\<lambda>(_, r). ca_drain env r) (ca_runs (fst S)) S"

definition dispose_run :: "arbiter_env \<Rightarrow> handle \<Rightarrow> arbiter \<times> runtime_bytes \<Rightarrow> arbiter \<times> runtime_bytes" where
  "dispose_run env r S = (case S of (a, b) \<Rightarrow>
     let a = fold (\<lambda>j. on_job j set_ready) (ar_queue (ca_runHeap a ! r)) a in
     if ar_phase (ca_runHeap a ! r) = Idle \<and> ar_queue (ca_runHeap a ! r) = [] then release_run r (a, b)
     else ca_drain env r (a, b))"

definition ca_dispose :: "arbiter_env \<Rightarrow> arbiter \<times> runtime_bytes \<Rightarrow> arbiter \<times> runtime_bytes" where
  "ca_dispose env S = (case S of (a, b) \<Rightarrow>
     if ca_disposed a then S
     else fold (\<lambda>(_, r). dispose_run env r) (ca_runs a) (a\<lparr>ca_disposed := True\<rparr>, b))"

record arbiter_snapshot =
  as_pending :: number
  as_runs :: number
  as_boundary :: "boundary option"
  as_uncertain :: "bool option"
  as_counters :: "number option"
  as_cleanup :: number

definition ca_snapshot :: "ident \<Rightarrow> arbiter \<Rightarrow> arbiter_snapshot" where
  "ca_snapshot runId a =
     (let run = map_option (\<lambda>r. ca_runHeap a ! r) (map_of (ca_runs a) runId) in
      \<lparr>as_pending = ca_pending a, as_runs = int (length (ca_runs a)), as_boundary = Option.bind run ar_boundary,
       as_uncertain = map_option ar_uncertain run, as_counters = map_option (\<lambda>run. int (length (ar_counters run))) run,
       as_cleanup = (case run of None \<Rightarrow> 0
         | Some run \<Rightarrow> int (length (filter (\<lambda>(_, c). ct_cleanup (ca_counterHeap a ! c) = CleanupPending) (ar_counters run))))\<rparr>)"

end
