(* ===== verification/Control_Moves.thy ===== *)
theory Control_Moves
  imports Control_Arbiter
begin

text \<open>
  What the queues of \<open>ControlArbiter\<close> guarantee, whatever the interleaving of its methods with the worker's answers. Every method
  is shown to be a sequence of the moves of \<open>arb_move\<close>, each of which changes one object; the invariant \<open>arb_inv\<close> is kept by every
  move. The properties read it: commands go to the worker in the order of their admission and each at most once, the sequence
  numbers of one counter rise, a reply belongs to its command, and a job whose calls are answered is settled.
\<close>

subsection \<open>Runs of the arbiter\<close>

datatype arb_op =
    AoAdmit arbiter_env bool control_command route_context byte_view
  | AoAdmitProgrammatic arbiter_env program_command "byte list"
  | AoExecute arbiter_env handle
  | AoExecuteProgrammatic arbiter_env handle
  | AoCancelProgrammatic arbiter_env handle string
  | AoRetire arbiter_env subscription_ref
  | AoEvent pipe_event
  | AoTick arbiter_env
  | AoDispose arbiter_env
  | AoResume arbiter_env handle answer

text \<open>A job or a run that does not exist cannot be named by a caller: such a call is no step.\<close>

fun arb_step :: "arb_op \<Rightarrow> arbiter \<times> runtime_bytes \<Rightarrow> arbiter \<times> runtime_bytes" where
  "arb_step (AoAdmit env still command cx v) S = snd (ca_admit env still command cx v S)"
| "arb_step (AoAdmitProgrammatic env command bytes) S = snd (ca_admitProgrammatic env command bytes S)"
| "arb_step (AoExecute env j) S = (if j < length (ca_jobHeap (fst S)) then ca_execute env j S else S)"
| "arb_step (AoExecuteProgrammatic env j) S = (if j < length (ca_jobHeap (fst S)) then ca_executeProgrammatic env j S else S)"
| "arb_step (AoCancelProgrammatic env j reason) S = (if j < length (ca_jobHeap (fst S)) then ca_cancelProgrammatic env j reason S else S)"
| "arb_step (AoRetire env ref) S = ca_retire env ref S"
| "arb_step (AoEvent event) S = (ca_event event (fst S), snd S)"
| "arb_step (AoTick env) S = ca_tick env S"
| "arb_step (AoDispose env) S = ca_dispose env S"
| "arb_step (AoResume env r answer) S = (if r < length (ca_runHeap (fst S)) then ca_resume env r answer S else S)"

definition arb_run_ops :: "arb_op list \<Rightarrow> arbiter \<times> runtime_bytes \<Rightarrow> arbiter \<times> runtime_bytes" where
  "arb_run_ops ops S = fold arb_step ops S"

subsection \<open>What the jobs and the phases promise\<close>

text \<open>A reply to a control command; \<open>sent\<close> says whether the command went to the worker.\<close>

definition reply_ok :: "control_command \<Rightarrow> route_context \<Rightarrow> bool \<Rightarrow> reply \<Rightarrow> bool" where
  "reply_ok command cx sent r = (case r of
     ReplyResult result \<Rightarrow> sent \<and> (cx_subscription cx = cc_subscription command \<longrightarrow> validateTerminalResultForCommand (terminal_of command) result)
   | ReplyError e \<Rightarrow> tx_requestId e = cc_requestId command \<and> tx_run e = cc_run command \<and>
       tx_commandType e = command_type_of (tc_body (terminal_of command)))"

definition receipt_ok :: "program_command \<Rightarrow> bool \<Rightarrow> tab_input_receipt \<Rightarrow> bool" where
  "receipt_ok command sent receipt \<longleftrightarrow> sent \<or> (\<exists>reason. receipt = notSent command reason False)"

fun answers :: "job_kind \<Rightarrow> bool \<Rightarrow> job_reply \<Rightarrow> bool" where
  "answers (ControlJob command cx c) sent (ControlReply r) = reply_ok command cx sent r"
| "answers (ProgramJob command cancelled accepts) sent (ProgramReply receipt) = receipt_ok command sent receipt"
| "answers _ _ _ = False"

fun pipe_epoch :: "control_body \<Rightarrow> boundary \<Rightarrow> bool" where
  "pipe_epoch (CcBlur epoch) b \<longleftrightarrow> by_epoch b = epoch"
| "pipe_epoch (CcResize epoch _) b \<longleftrightarrow> by_epoch b = epoch"
| "pipe_epoch (CcAppearance epoch _) b \<longleftrightarrow> by_epoch b = epoch"
| "pipe_epoch _ b \<longleftrightarrow> True"

text \<open>The head of the queue fits the \<open>await\<close> the loop is suspended at.\<close>

fun phase_kind :: "boundary option \<Rightarrow> phase \<Rightarrow> bool \<Rightarrow> job_kind \<Rightarrow> bool" where
  "phase_kind bd PhStatus sent kind \<longleftrightarrow> \<not> sent \<and> \<not> is_program kind"
| "phase_kind bd (PhBoundary failed) sent kind \<longleftrightarrow> \<not> sent \<and> \<not> is_program kind \<and> (failed = None \<longrightarrow> bd \<noteq> None)"
| "phase_kind bd (PhPipe b) sent kind \<longleftrightarrow> sent \<and> (case kind of ControlJob command _ _ \<Rightarrow> pipe_epoch (cc_body command) b | _ \<Rightarrow> False)"
| "phase_kind bd (PhReturned r) sent kind \<longleftrightarrow> (case kind of
     ControlJob command cx _ \<Rightarrow> (case r of None \<Rightarrow> True | Some r \<Rightarrow> reply_ok command cx sent r) | _ \<Rightarrow> False)"
| "phase_kind bd PhProgramStatus sent kind \<longleftrightarrow> \<not> sent \<and> is_program kind"
| "phase_kind bd PhProgramAccept sent kind \<longleftrightarrow> \<not> sent \<and> is_program kind"
| "phase_kind bd PhProgramWrite sent kind \<longleftrightarrow> sent \<and> is_program kind"
| "phase_kind bd (PhProgramReturned r) sent kind \<longleftrightarrow> (case kind of
     ProgramJob command _ _ \<Rightarrow> (case r of None \<Rightarrow> True | Some receipt \<Rightarrow> receipt_ok command sent receipt) | _ \<Rightarrow> False)"
| "phase_kind bd _ sent kind \<longleftrightarrow> \<not> sent"

fun busy :: "phase \<Rightarrow> bool" where
  "busy Idle = False"
| "busy PhRunning = False"
| "busy (PhCleanup _ _ _) = False"
| "busy PhCleaned = False"
| "busy _ = True"

definition head_job :: "handle \<Rightarrow> arbiter \<Rightarrow> arb_job option" where
  "head_job r a = (if ar_queue (ca_runHeap a ! r) = [] then None else Some (ca_jobHeap a ! hd (ar_queue (ca_runHeap a ! r))))"

definition phase_ok :: "boundary option \<Rightarrow> phase \<Rightarrow> arb_job option \<Rightarrow> bool" where
  "phase_ok bd p h = (case h of None \<Rightarrow> \<not> busy p | Some job \<Rightarrow> phase_kind bd p (jb_dispatched job) (jb_kind job))"

text \<open>Commands that a job sends, as opposed to the status reads before it and the releases of \<open>cleanup\<close>.\<close>

definition is_write :: "sent_command \<Rightarrow> bool" where
  "is_write w \<longleftrightarrow> sn_job w \<noteq> None \<and> pc_body (sn_command w) \<noteq> PStatus"

fun control_shape :: "subscription_ref \<Rightarrow> control_body \<Rightarrow> pipe_body \<Rightarrow> bool" where
  "control_shape s (CcFocus _ geometry appearance) p \<longleftrightarrow> (\<exists>e. p = PSetControl e (e + 1) (Some (holder s)) geometry appearance)"
| "control_shape s (CcBlur epoch) p \<longleftrightarrow> (\<exists>geometry. p = PSetControl epoch epoch None geometry None)"
| "control_shape s (CcResize epoch geometry) p \<longleftrightarrow> p = PResize s epoch geometry"
| "control_shape s (CcAppearance epoch appearance) p \<longleftrightarrow> p = PAppearance s epoch appearance"
| "control_shape s (CcInput epoch inputSeq) p \<longleftrightarrow> p = PInput s epoch inputSeq"

fun sends :: "job_kind \<Rightarrow> pipe_command \<Rightarrow> bool" where
  "sends (ControlJob command cx c) p \<longleftrightarrow> pc_requestId p = cx_requestId cx \<and> control_shape (cx_subscription cx) (cc_body command) (pc_body p)"
| "sends (ProgramJob command cancelled accepts) p \<longleftrightarrow> p = pipe_of_program command"

text \<open>A later command of a counter has a larger sequence number.\<close>

fun passes :: "control_body \<Rightarrow> control_body \<Rightarrow> bool" where
  "passes (CcInput _ n) (CcInput _ m) \<longleftrightarrow> n < m"
| "passes (CcFocus n _ _) (CcFocus m _ _) \<longleftrightarrow> n < m"
| "passes _ _ \<longleftrightarrow> True"

fun counted :: "control_body \<Rightarrow> arb_counter \<Rightarrow> bool" where
  "counted (CcInput _ n) counter \<longleftrightarrow> n \<le> ct_input counter"
| "counted (CcFocus n _ _) counter \<longleftrightarrow> n \<le> ct_focus counter"
| "counted _ counter \<longleftrightarrow> True"

fun passes_counter :: "control_body \<Rightarrow> arb_counter \<Rightarrow> bool" where
  "passes_counter (CcInput _ n) counter \<longleftrightarrow> ct_input counter < n"
| "passes_counter (CcFocus n _ _) counter \<longleftrightarrow> ct_focus counter < n"
| "passes_counter _ counter \<longleftrightarrow> True"

fun rises :: "job_kind \<Rightarrow> job_kind \<Rightarrow> bool" where
  "rises (ControlJob command _ c) (ControlJob command' _ c') \<longleftrightarrow> (c = c' \<longrightarrow> passes (cc_body command) (cc_body command'))"
| "rises _ _ \<longleftrightarrow> True"

subsection \<open>The invariant\<close>

text \<open>A queue holds the unsettled jobs of its run in the order of their admission; the settled ones were admitted before them.\<close>

definition queue_order :: "handle \<Rightarrow> handle list \<Rightarrow> arb_job list \<Rightarrow> bool" where
  "queue_order r queue jobs \<longleftrightarrow> sorted_wrt (<) queue \<and>
     (\<forall>j. j \<in> set queue \<longleftrightarrow> j < length jobs \<and> jb_run (jobs ! j) = r \<and> jb_reply (jobs ! j) = None) \<and>
     (\<forall>k < length jobs. \<forall>j \<in> set queue. jb_run (jobs ! k) = r \<longrightarrow> jb_reply (jobs ! k) \<noteq> None \<longrightarrow> k < j)"

definition queue_ok :: "handle \<Rightarrow> arbiter \<Rightarrow> bool" where
  "queue_ok r a \<longleftrightarrow> queue_order r (ar_queue (ca_runHeap a ! r)) (ca_jobHeap a) \<and>
     (\<forall>j \<in> set (tl (ar_queue (ca_runHeap a ! r))). \<not> jb_dispatched (ca_jobHeap a ! j)) \<and>
     phase_ok (ar_boundary (ca_runHeap a ! r)) (ar_phase (ca_runHeap a ! r)) (head_job r a) \<and>
     (\<forall>c \<in> snd ` set (ar_counters (ca_runHeap a ! r)). c < length (ca_counterHeap a))"

definition job_ok :: "arbiter \<Rightarrow> arb_job \<Rightarrow> bool" where
  "job_ok a job \<longleftrightarrow> jb_run job < length (ca_runHeap a) \<and>
     (\<forall>r. jb_reply job = Some r \<longrightarrow> answers (jb_kind job) (jb_dispatched job) r) \<and>
     (\<forall>command cx c. jb_kind job = ControlJob command cx c \<longrightarrow> c < length (ca_counterHeap a) \<and> counted (cc_body command) (ca_counterHeap a ! c))"

definition write_ok :: "arbiter \<Rightarrow> sent_command \<Rightarrow> bool" where
  "write_ok a w \<longleftrightarrow> (is_write w \<longrightarrow> (\<exists>j < length (ca_jobHeap a). sn_job w = Some j \<and> jb_dispatched (ca_jobHeap a ! j) \<and>
     sends (jb_kind (ca_jobHeap a ! j)) (sn_command w)))"

definition sent_after :: "arbiter \<Rightarrow> sent_command \<Rightarrow> sent_command \<Rightarrow> bool" where
  "sent_after a w w' \<longleftrightarrow> (\<forall>j j'. is_write w \<longrightarrow> is_write w' \<longrightarrow> sn_job w = Some j \<longrightarrow> sn_job w' = Some j' \<longrightarrow>
     jb_run (ca_jobHeap a ! j) = jb_run (ca_jobHeap a ! j') \<longrightarrow> j < j')"

definition unresolved :: "arb_job \<Rightarrow> int" where
  "unresolved job = (if jb_reply job = None then 1 else 0)"

definition arb_inv :: "arbiter \<Rightarrow> bool" where
  "arb_inv a \<longleftrightarrow> (\<forall>r < length (ca_runHeap a). queue_ok r a) \<and> (\<forall>job \<in> set (ca_jobHeap a). job_ok a job) \<and>
     (\<forall>r \<in> snd ` set (ca_runs a). r < length (ca_runHeap a)) \<and>
     sorted_wrt rises (map jb_kind (ca_jobHeap a)) \<and>
     (\<forall>w \<in> set (ca_sent a). write_ok a w) \<and> sorted_wrt (sent_after a) (ca_sent a) \<and>
     ca_pending a = cell_sum unresolved (ca_jobHeap a)"

subsection \<open>Moves\<close>

definition boundary_le :: "boundary option \<Rightarrow> boundary option \<Rightarrow> bool" where
  "boundary_le b b' = (case b of None \<Rightarrow> True | Some x \<Rightarrow> (case b' of None \<Rightarrow> False | Some y \<Rightarrow> by_atSeq x \<le> by_atSeq y))"

definition run_quiet :: "arbiter \<Rightarrow> arb_run \<Rightarrow> arb_run \<Rightarrow> bool" where
  "run_quiet a run run' \<longleftrightarrow> ar_ref run' = ar_ref run \<and> ar_worker run' = ar_worker run \<and> ar_queue run' = ar_queue run \<and>
     ar_phase run' = ar_phase run \<and> boundary_le (ar_boundary run) (ar_boundary run') \<and>
     (\<forall>c \<in> snd ` set (ar_counters run'). c < length (ca_counterHeap a))"

definition counter_quiet :: "arb_counter \<Rightarrow> arb_counter \<Rightarrow> bool" where
  "counter_quiet counter counter' \<longleftrightarrow> ct_ref counter' = ct_ref counter \<and> ct_input counter' = ct_input counter \<and> ct_focus counter' = ct_focus counter"

fun same_kind :: "job_kind \<Rightarrow> job_kind \<Rightarrow> bool" where
  "same_kind (ProgramJob command _ _) (ProgramJob command' _ _) \<longleftrightarrow> command = command'"
| "same_kind k k' \<longleftrightarrow> k = k'"

definition job_quiet :: "arb_job \<Rightarrow> arb_job \<Rightarrow> bool" where
  "job_quiet job job' \<longleftrightarrow> same_kind (jb_kind job) (jb_kind job') \<and> jb_run job' = jb_run job \<and> jb_payload job' = jb_payload job \<and>
     jb_leases job' = jb_leases job \<and> jb_dispatched job' = jb_dispatched job \<and> jb_reply job' = jb_reply job \<and> (jb_ready job \<longrightarrow> jb_ready job')"

definition settled :: "handle \<Rightarrow> handle \<Rightarrow> job_reply \<Rightarrow> arbiter \<Rightarrow> arbiter" where
  "settled r j reply a = fst (settle_job r j reply (a, undefined))"

definition push_counters :: "job_kind \<Rightarrow> arbiter \<Rightarrow> arb_counter list \<Rightarrow> bool" where
  "push_counters kind a counters = (case kind of
     ProgramJob _ _ _ \<Rightarrow> counters = ca_counterHeap a
   | ControlJob command cx c \<Rightarrow> c < length (ca_counterHeap a) \<and> passes_counter (cc_body command) (ca_counterHeap a ! c) \<and>
       counters = (ca_counterHeap a)[c := count_command (cc_body command) (ca_counterHeap a ! c)])"

inductive arb_move :: "arbiter \<Rightarrow> arbiter \<Rightarrow> bool" where
  mv_run: "r < length (ca_runHeap a) \<Longrightarrow> run_quiet a (ca_runHeap a ! r) run' \<Longrightarrow>
     arb_move a (a\<lparr>ca_runHeap := (ca_runHeap a)[r := run']\<rparr>)"
| mv_phase: "r < length (ca_runHeap a) \<Longrightarrow> phase_ok (ar_boundary (ca_runHeap a ! r)) p (head_job r a) \<Longrightarrow> arb_move a (at_phase r p a)"
| mv_counter: "c < length (ca_counterHeap a) \<Longrightarrow> counter_quiet (ca_counterHeap a ! c) counter' \<Longrightarrow>
     arb_move a (a\<lparr>ca_counterHeap := (ca_counterHeap a)[c := counter']\<rparr>)"
| mv_job: "j < length (ca_jobHeap a) \<Longrightarrow> job_quiet (ca_jobHeap a ! j) job' \<Longrightarrow> arb_move a (a\<lparr>ca_jobHeap := (ca_jobHeap a)[j := job']\<rparr>)"
| mv_send: "\<not> is_write w \<Longrightarrow> arb_move a (a\<lparr>ca_sent := ca_sent a @ [w]\<rparr>)"
| mv_dispatch: "r < length (ca_runHeap a) \<Longrightarrow> ar_queue (ca_runHeap a ! r) = j # js \<Longrightarrow> \<not> jb_dispatched (ca_jobHeap a ! j) \<Longrightarrow>
     sends (jb_kind (ca_jobHeap a ! j)) (sn_command w) \<Longrightarrow> sn_job w = Some j \<Longrightarrow>
     phase_kind (ar_boundary (ca_runHeap a ! r)) p True (jb_kind (ca_jobHeap a ! j)) \<Longrightarrow>
     arb_move a (at_phase r p (on_job j (\<lambda>job. job\<lparr>jb_dispatched := True\<rparr>) (a\<lparr>ca_sent := ca_sent a @ [w]\<rparr>)))"
| mv_settle: "r < length (ca_runHeap a) \<Longrightarrow> ar_queue (ca_runHeap a ! r) = j # js \<Longrightarrow>
     answers (jb_kind (ca_jobHeap a ! j)) (jb_dispatched (ca_jobHeap a ! j)) reply \<Longrightarrow> arb_move a (settled r j reply a)"
| mv_new_run: "arb_move a (a\<lparr>ca_runHeap := ca_runHeap a @ [new_run ref worker lease]\<rparr>)"
| mv_new_counter: "arb_move a (a\<lparr>ca_counterHeap := ca_counterHeap a @ [counter]\<rparr>)"
| mv_push: "r < length (ca_runHeap a) \<Longrightarrow>
push_counters kind a counters \<Longrightarrow>
     arb_move a (snd (push_job r kind payload leases (a\<lparr>ca_counterHeap := counters\<rparr>)))"
| mv_runs: "\<forall>r \<in> snd ` set runs. r < length (ca_runHeap a) \<Longrightarrow> arb_move a (a\<lparr>ca_runs := runs\<rparr>)"
| mv_disposed: "arb_move a (a\<lparr>ca_disposed := True\<rparr>)"


subsection \<open>Every move keeps the invariant\<close>

lemma on_run_simps [simp]:
  "ca_runHeap (on_run r f a) = (ca_runHeap a)[r := f (ca_runHeap a ! r)]" "ca_counterHeap (on_run r f a) = ca_counterHeap a"
  "ca_jobHeap (on_run r f a) = ca_jobHeap a" "ca_sent (on_run r f a) = ca_sent a" "ca_runs (on_run r f a) = ca_runs a"
  "ca_pending (on_run r f a) = ca_pending a" "ca_disposed (on_run r f a) = ca_disposed a" "ca_composition (on_run r f a) = ca_composition a"
  by (simp_all add: on_run_def)

lemma on_counter_simps [simp]:
  "ca_counterHeap (on_counter c f a) = (ca_counterHeap a)[c := f (ca_counterHeap a ! c)]" "ca_runHeap (on_counter c f a) = ca_runHeap a"
  "ca_jobHeap (on_counter c f a) = ca_jobHeap a" "ca_sent (on_counter c f a) = ca_sent a" "ca_runs (on_counter c f a) = ca_runs a"
  "ca_pending (on_counter c f a) = ca_pending a" "ca_disposed (on_counter c f a) = ca_disposed a" "ca_composition (on_counter c f a) = ca_composition a"
  by (simp_all add: on_counter_def)

lemma on_job_simps [simp]:
  "ca_jobHeap (on_job j f a) = (ca_jobHeap a)[j := f (ca_jobHeap a ! j)]" "ca_runHeap (on_job j f a) = ca_runHeap a"
  "ca_counterHeap (on_job j f a) = ca_counterHeap a" "ca_sent (on_job j f a) = ca_sent a" "ca_runs (on_job j f a) = ca_runs a"
  "ca_pending (on_job j f a) = ca_pending a" "ca_disposed (on_job j f a) = ca_disposed a" "ca_composition (on_job j f a) = ca_composition a"
  by (simp_all add: on_job_def)

lemma ca_send_simps [simp]:
  "ca_jobHeap (ca_send w p b a) = ca_jobHeap a" "ca_runHeap (ca_send w p b a) = ca_runHeap a" "ca_counterHeap (ca_send w p b a) = ca_counterHeap a"
  "ca_sent (ca_send w p b a) = ca_sent a @ [\<lparr>sn_job = w, sn_command = p, sn_payload = b\<rparr>]" "ca_runs (ca_send w p b a) = ca_runs a"
  "ca_pending (ca_send w p b a) = ca_pending a" "ca_disposed (ca_send w p b a) = ca_disposed a" "ca_composition (ca_send w p b a) = ca_composition a"
  by (simp_all add: ca_send_def)

lemma at_phase_simps [simp]:
  "ca_runHeap (at_phase r p a) = (ca_runHeap a)[r := (ca_runHeap a ! r)\<lparr>ar_phase := p\<rparr>]" "ca_counterHeap (at_phase r p a) = ca_counterHeap a"
  "ca_jobHeap (at_phase r p a) = ca_jobHeap a" "ca_sent (at_phase r p a) = ca_sent a" "ca_runs (at_phase r p a) = ca_runs a"
  "ca_pending (at_phase r p a) = ca_pending a" "ca_disposed (at_phase r p a) = ca_disposed a" "ca_composition (at_phase r p a) = ca_composition a"
  by (simp_all add: at_phase_def)

lemma same_kind_simps:
  assumes "same_kind k k'"
  shows "is_program k' = is_program k" "answers k' d x = answers k d x" "phase_kind bd p d k' = phase_kind bd p d k"
    "sends k' cmd = sends k cmd" "rises k' m = rises k m" "rises m k' = rises m k"
    "k' = ControlJob command cx c \<longleftrightarrow> k = ControlJob command cx c"
proof -
  consider (control) command cx c where "k = ControlJob command cx c" "k' = k"
    | (program) command x y x' y' where "k = ProgramJob command x y" "k' = ProgramJob command x' y'"
    using assms by (cases k; cases k') auto
  note cases = this
  show "is_program k' = is_program k" "sends k' cmd = sends k cmd" by (rule cases; simp)+
  show "answers k' d x = answers k d x" by (rule cases; cases x) simp_all
  show "phase_kind bd p d k' = phase_kind bd p d k" by (rule cases; cases p) simp_all
  show "rises k' m = rises k m" "rises m k' = rises m k" by (rule cases; cases m; simp)+
  show "k' = ControlJob command cx c \<longleftrightarrow> k = ControlJob command cx c" by (rule cases) simp_all
qed

lemma phase_ok_mono: "phase_ok b p h \<Longrightarrow> boundary_le b b' \<Longrightarrow> phase_ok b' p h"
  by (cases p) (auto simp: phase_ok_def boundary_le_def split: option.splits)

lemma head_job_cong:
  "ar_queue (ca_runHeap a ! r) = ar_queue (ca_runHeap a' ! r) \<Longrightarrow> ca_jobHeap a = ca_jobHeap a' \<Longrightarrow> head_job r a = head_job r a'"
  by (simp add: head_job_def)

lemma head_job_phase [simp]: "r < length (ca_runHeap a) \<Longrightarrow> head_job q (at_phase r p a) = head_job q a"
  by (rule head_job_cong) (auto simp: nth_list_update)

lemma set_tlD: "x \<in> set (tl xs) \<Longrightarrow> x \<in> set xs"
  by (cases xs) auto

lemma queue_order_cong:
  assumes "length jobs' = length jobs" and "\<And>k. jb_run (jobs' ! k) = jb_run (jobs ! k)" and "\<And>k. jb_reply (jobs' ! k) = jb_reply (jobs ! k)"
  shows "queue_order r queue jobs' = queue_order r queue jobs"
  unfolding queue_order_def assms ..

lemma queue_order_settle:
  assumes "queue_order r (j # js) jobs" and "jb_run job = r" and "jb_reply job \<noteq> None"
  shows "queue_order r js (jobs[j := job])"
proof -
  have j: "j < length jobs" "jb_run (jobs ! j) = r" using assms(1) unfolding queue_order_def by (meson list.set_intros(1))+
  have sorted: "\<forall>k \<in> set js. j < k" "sorted_wrt (<) js" using assms(1) by (auto simp: queue_order_def)
  have "k \<in> set js \<longleftrightarrow> k < length jobs \<and> jb_run (jobs[j := job] ! k) = r \<and> jb_reply (jobs[j := job] ! k) = None" for k
    using assms j sorted by (cases "k = j") (auto simp: queue_order_def)
  moreover have "k < i" if "k < length jobs" "i \<in> set js" "jb_run (jobs[j := job] ! k) = r" "jb_reply (jobs[j := job] ! k) \<noteq> None" for k i
    using that assms sorted by (cases "k = j") (auto simp: queue_order_def)
  ultimately show ?thesis using sorted(2) by (simp add: queue_order_def)
qed

lemma queue_order_other:
  assumes "j < length jobs" and "jb_run (jobs ! j) \<noteq> r" and "jb_run job \<noteq> r"
  shows "queue_order r queue (jobs[j := job]) = queue_order r queue jobs"
proof -
  have "(jb_run (jobs[j := job] ! k) = r \<and> jb_reply (jobs[j := job] ! k) = None) = (jb_run (jobs ! k) = r \<and> jb_reply (jobs ! k) = None)"
    "(jb_run (jobs[j := job] ! k) = r \<longrightarrow> jb_reply (jobs[j := job] ! k) \<noteq> None \<longrightarrow> P) =
     (jb_run (jobs ! k) = r \<longrightarrow> jb_reply (jobs ! k) \<noteq> None \<longrightarrow> P)" for k P
    using assms by (auto simp: nth_list_update)
  then show ?thesis unfolding queue_order_def length_list_update by presburger
qed

lemma queue_order_push:
  assumes "queue_order r queue jobs" and "jb_reply job = None"
  shows "queue_order r (if jb_run job = r then queue @ [length jobs] else queue) (jobs @ [job])"
proof -
  let ?queue = "if jb_run job = r then queue @ [length jobs] else queue"
  have old: "j \<in> set queue \<Longrightarrow> j < length jobs" for j using assms(1) by (simp add: queue_order_def)
  then have "sorted_wrt (<) ?queue" using assms(1) by (auto simp: queue_order_def sorted_wrt_append)
  moreover have "j \<in> set ?queue \<longleftrightarrow> j < length (jobs @ [job]) \<and> jb_run ((jobs @ [job]) ! j) = r \<and> jb_reply ((jobs @ [job]) ! j) = None" for j
  proof (cases "j < length jobs")
    case True
    then show ?thesis using assms(1) by (simp add: queue_order_def nth_append)
  next
    case False
    then show ?thesis using assms(2) old [of j] by (auto simp: nth_append)
  qed
  moreover have "k < j" if "k < length (jobs @ [job])" "j \<in> set ?queue" "jb_run ((jobs @ [job]) ! k) = r" "jb_reply ((jobs @ [job]) ! k) \<noteq> None" for k j
  proof -
    have k: "k < length jobs" using that(1,4) assms(2) by (cases "k = length jobs") auto
    then show ?thesis using that assms(1) by (cases "j = length jobs") (auto simp: queue_order_def nth_append split: if_splits)
  qed
  ultimately show ?thesis unfolding queue_order_def by blast
qed

lemma inv_run:
  assumes "arb_inv a" and "r < length (ca_runHeap a)" and "run_quiet a (ca_runHeap a ! r) run'"
  shows "arb_inv (a\<lparr>ca_runHeap := (ca_runHeap a)[r := run']\<rparr>)"
proof -
  let ?a = "a\<lparr>ca_runHeap := (ca_runHeap a)[r := run']\<rparr>"
  have "queue_ok q ?a" if q: "q < length (ca_runHeap a)" for q
  proof (cases "q = r")
    case True
    have "queue_ok r a" using assms(1,2) by (simp add: arb_inv_def)
    then show ?thesis using assms(2,3) True
      by (auto simp: queue_ok_def run_quiet_def head_job_def intro: phase_ok_mono)
  next
    case False
    have "queue_ok q a" using assms(1) q by (simp add: arb_inv_def)
    then show ?thesis using False by (auto simp: queue_ok_def head_job_def)
  qed
  moreover have "job_ok ?a job = job_ok a job" "write_ok ?a w = write_ok a w" "sent_after ?a = sent_after a" for job w
    by (simp_all add: job_ok_def write_ok_def sent_after_def fun_eq_iff)
  ultimately show ?thesis using assms(1) unfolding arb_inv_def by simp
qed

lemma inv_phase:
  assumes "arb_inv a" and "r < length (ca_runHeap a)" and "phase_ok (ar_boundary (ca_runHeap a ! r)) p (head_job r a)"
  shows "arb_inv (at_phase r p a)"
proof -
  let ?a = "at_phase r p a"
  have "queue_ok q ?a" if q: "q < length (ca_runHeap a)" for q
  proof -
    have "queue_ok q a" using assms(1) q by (simp add: arb_inv_def)
    then show ?thesis using assms(2,3) by (cases "q = r") (simp_all add: queue_ok_def)
  qed
  moreover have "job_ok ?a job = job_ok a job" "write_ok ?a w = write_ok a w" "sent_after ?a = sent_after a" for job w
    by (simp_all add: job_ok_def write_ok_def sent_after_def fun_eq_iff)
  ultimately show ?thesis using assms(1) unfolding arb_inv_def by simp
qed

lemma inv_counter:
  assumes "arb_inv a" and "c < length (ca_counterHeap a)" and "counter_quiet (ca_counterHeap a ! c) counter'"
  shows "arb_inv (a\<lparr>ca_counterHeap := (ca_counterHeap a)[c := counter']\<rparr>)"
proof -
  let ?a = "a\<lparr>ca_counterHeap := (ca_counterHeap a)[c := counter']\<rparr>"
  have counted: "counted body counter' = counted body (ca_counterHeap a ! c)" for body
    using assms(3) by (cases body) (auto simp: counter_quiet_def)
  have "job_ok ?a job = job_ok a job" for job
    using assms(2) by (auto simp: job_ok_def nth_list_update counted)
  moreover have "queue_ok q ?a = queue_ok q a" "write_ok ?a w = write_ok a w" "sent_after ?a = sent_after a" for q w
    by (simp_all add: queue_ok_def head_job_def write_ok_def sent_after_def fun_eq_iff)
  ultimately show ?thesis using assms(1) unfolding arb_inv_def by simp
qed

lemma inv_job:
  assumes "arb_inv a" and "j < length (ca_jobHeap a)" and "job_quiet (ca_jobHeap a ! j) job'"
  shows "arb_inv (a\<lparr>ca_jobHeap := (ca_jobHeap a)[j := job']\<rparr>)"
proof -
  let ?a = "a\<lparr>ca_jobHeap := (ca_jobHeap a)[j := job']\<rparr>"
  have kind: "same_kind (jb_kind (ca_jobHeap a ! j)) (jb_kind job')" using assms(3) by (simp add: job_quiet_def)
  have nth: "jb_run (ca_jobHeap ?a ! k) = jb_run (ca_jobHeap a ! k)" "jb_reply (ca_jobHeap ?a ! k) = jb_reply (ca_jobHeap a ! k)"
    "jb_dispatched (ca_jobHeap ?a ! k) = jb_dispatched (ca_jobHeap a ! k)" for k
    using assms(2,3) by (auto simp: nth_list_update job_quiet_def)
  have nk: "phase_kind bd p d (jb_kind (ca_jobHeap ?a ! k)) = phase_kind bd p d (jb_kind (ca_jobHeap a ! k))"
    "sends (jb_kind (ca_jobHeap ?a ! k)) cmd = sends (jb_kind (ca_jobHeap a ! k)) cmd"
    "rises (jb_kind (ca_jobHeap ?a ! k)) m = rises (jb_kind (ca_jobHeap a ! k)) m"
    "rises m (jb_kind (ca_jobHeap ?a ! k)) = rises m (jb_kind (ca_jobHeap a ! k))" for bd p d k cmd m
    using assms(2) by (auto simp: nth_list_update same_kind_simps [OF kind])
  have ph: "phase_ok bd p (head_job q ?a) = phase_ok bd p (head_job q a)" for bd p q
    using nk nth by (simp add: phase_ok_def head_job_def)
  have "queue_order q queue (ca_jobHeap ?a) = queue_order q queue (ca_jobHeap a)" for q queue
    by (rule queue_order_cong) (use nth in simp_all)
  then have "queue_ok q ?a = queue_ok q a" for q
    unfolding queue_ok_def ph using nth by simp
  moreover have "job_ok ?a job' = job_ok a (ca_jobHeap a ! j)"
    using assms(3) by (simp add: job_ok_def job_quiet_def same_kind_simps [OF kind])
  moreover have "job_ok ?a job = job_ok a job" for job by (simp add: job_ok_def)
  moreover have "write_ok ?a w = write_ok a w" "sent_after ?a = sent_after a" for w
    unfolding write_ok_def sent_after_def fun_eq_iff using nth nk by simp_all
  moreover have "sorted_wrt rises (map jb_kind (ca_jobHeap ?a)) = sorted_wrt rises (map jb_kind (ca_jobHeap a))"
    unfolding sorted_wrt_map sorted_wrt_iff_nth_less using nk by simp
  moreover have "cell_sum unresolved (ca_jobHeap ?a) = cell_sum unresolved (ca_jobHeap a)"
    using assms(2,3) by (simp add: cell_sum_update unresolved_def job_quiet_def)
  ultimately show ?thesis using assms(1,2) unfolding arb_inv_def
    by (auto dest!: set_update_subset_insert [THEN subsetD])
qed

lemma inv_send:
  assumes "arb_inv a" and "\<not> is_write w"
  shows "arb_inv (a\<lparr>ca_sent := ca_sent a @ [w]\<rparr>)"
proof -
  let ?a = "a\<lparr>ca_sent := ca_sent a @ [w]\<rparr>"
  have "queue_ok q ?a = queue_ok q a" "job_ok ?a job = job_ok a job" "write_ok ?a v = write_ok a v" "sent_after ?a = sent_after a" for q job v
    by (simp_all add: queue_ok_def head_job_def job_ok_def write_ok_def sent_after_def fun_eq_iff)
  moreover have "write_ok a w" "sent_after a v w" for v using assms(2) by (simp_all add: write_ok_def sent_after_def)
  ultimately show ?thesis using assms(1) unfolding arb_inv_def by (simp add: sorted_wrt_append)
qed

lemma head_queued:
  assumes "arb_inv a" and "r < length (ca_runHeap a)" and "ar_queue (ca_runHeap a ! r) = j # js"
  shows "j < length (ca_jobHeap a)" "jb_run (ca_jobHeap a ! j) = r" "jb_reply (ca_jobHeap a ! j) = None"
    "phase_kind (ar_boundary (ca_runHeap a ! r)) (ar_phase (ca_runHeap a ! r)) (jb_dispatched (ca_jobHeap a ! j)) (jb_kind (ca_jobHeap a ! j))"
    "\<And>k. k < length (ca_jobHeap a) \<Longrightarrow> jb_run (ca_jobHeap a ! k) = r \<Longrightarrow> jb_dispatched (ca_jobHeap a ! k) \<Longrightarrow> k \<le> j"
    "j \<notin> set js" "\<And>k. k \<in> set js \<Longrightarrow> \<not> jb_dispatched (ca_jobHeap a ! k)"
proof -
  have "queue_ok r a" using assms(1,2) by (simp add: arb_inv_def)
  then have order: "queue_order r (j # js) (ca_jobHeap a)" and waiting: "\<forall>k \<in> set js. \<not> jb_dispatched (ca_jobHeap a ! k)"
    and "phase_ok (ar_boundary (ca_runHeap a ! r)) (ar_phase (ca_runHeap a ! r)) (head_job r a)"
    using assms(3) by (simp_all add: queue_ok_def)
  then show "phase_kind (ar_boundary (ca_runHeap a ! r)) (ar_phase (ca_runHeap a ! r)) (jb_dispatched (ca_jobHeap a ! j)) (jb_kind (ca_jobHeap a ! j))"
    using assms(3) by (simp add: head_job_def phase_ok_def)
  show "j < length (ca_jobHeap a)" "jb_run (ca_jobHeap a ! j) = r" "jb_reply (ca_jobHeap a ! j) = None"
    using order unfolding queue_order_def by (meson list.set_intros(1))+
  show "j \<notin> set js" "\<And>k. k \<in> set js \<Longrightarrow> \<not> jb_dispatched (ca_jobHeap a ! k)" using order waiting by (auto simp: queue_order_def)
  fix k assume k: "k < length (ca_jobHeap a)" "jb_run (ca_jobHeap a ! k) = r" "jb_dispatched (ca_jobHeap a ! k)"
  show "k \<le> j"
  proof (cases "jb_reply (ca_jobHeap a ! k)")
    case None
    then have "k \<in> set (j # js)" using k order unfolding queue_order_def by blast
    then show ?thesis using k(3) waiting by auto
  next
    case (Some reply)
    then have "k < j" using k order unfolding queue_order_def by (metis list.set_intros(1) option.distinct(1))
    then show ?thesis by simp
  qed
qed

lemma inv_dispatch:
  assumes inv: "arb_inv a" and r: "r < length (ca_runHeap a)" and q: "ar_queue (ca_runHeap a ! r) = j # js"
    and nd: "\<not> jb_dispatched (ca_jobHeap a ! j)" and sends: "sends (jb_kind (ca_jobHeap a ! j)) (sn_command w)" and w: "sn_job w = Some j"
    and p: "phase_kind (ar_boundary (ca_runHeap a ! r)) p True (jb_kind (ca_jobHeap a ! j))"
  shows "arb_inv (at_phase r p (on_job j (\<lambda>job. job\<lparr>jb_dispatched := True\<rparr>) (a\<lparr>ca_sent := ca_sent a @ [w]\<rparr>)))" (is "arb_inv ?a")
proof -
  note hd = head_queued [OF inv r q]
  have nth: "jb_run (ca_jobHeap ?a ! k) = jb_run (ca_jobHeap a ! k)" "jb_reply (ca_jobHeap ?a ! k) = jb_reply (ca_jobHeap a ! k)"
    "jb_kind (ca_jobHeap ?a ! k) = jb_kind (ca_jobHeap a ! k)"
    "jb_dispatched (ca_jobHeap ?a ! k) \<longleftrightarrow> k = j \<or> jb_dispatched (ca_jobHeap a ! k)" for k
    using hd(1) by (auto simp: nth_list_update)
  have order: "queue_order q queue (ca_jobHeap ?a) = queue_order q queue (ca_jobHeap a)" for q queue
    by (rule queue_order_cong) (use nth in simp_all)
  have "queue_ok q ?a" if "q < length (ca_runHeap a)" for q
  proof (cases "q = r")
    case True
    have "queue_ok r a" using inv r by (simp add: arb_inv_def)
    then show ?thesis unfolding queue_ok_def order True using q r p hd(1,6) nth
      by (auto simp: head_job_def phase_ok_def)
  next
    case False
    have ok: "queue_ok q a" using inv that by (simp add: arb_inv_def)
    then have "j \<notin> set (ar_queue (ca_runHeap a ! q))" using hd(2) False by (auto simp: queue_ok_def queue_order_def)
    then have "j \<notin> set (tl (ar_queue (ca_runHeap a ! q)))" "head_job q ?a = head_job q a"
      using False by (auto simp: head_job_def dest: set_tlD intro!: nth_list_update_neq)
    then show ?thesis using ok False nth unfolding queue_ok_def order by auto
  qed
  moreover have "job_ok ?a job" if "job \<in> set (ca_jobHeap ?a)" for job
  proof -
    have jobs: "job_ok a (ca_jobHeap a ! j)" "\<And>job. job \<in> set (ca_jobHeap a) \<Longrightarrow> job_ok a job" using inv hd(1) by (auto simp: arb_inv_def)
    have "job_ok ?a ((ca_jobHeap a ! j)\<lparr>jb_dispatched := True\<rparr>)" "job \<in> set (ca_jobHeap a) \<Longrightarrow> job_ok ?a job"
      using jobs hd(1,3) by (auto simp: job_ok_def)
    then show ?thesis using that by (auto dest!: set_update_subset_insert [THEN subsetD])
  qed
  moreover have "write_ok ?a v" if "v \<in> set (ca_sent ?a)" for v
    using that inv sends w hd(1) nth unfolding arb_inv_def write_ok_def by auto
  moreover have "sorted_wrt (sent_after ?a) (ca_sent ?a)"
  proof -
    have "sent_after ?a = sent_after a" unfolding sent_after_def fun_eq_iff nth by simp
    moreover have "sent_after a v w" if "v \<in> set (ca_sent a)" for v
    proof -
      have "i < j" if "is_write v" "sn_job v = Some i" "jb_run (ca_jobHeap a ! i) = jb_run (ca_jobHeap a ! j)" for i
      proof -
        have "write_ok a v" using inv \<open>v \<in> set (ca_sent a)\<close> by (simp add: arb_inv_def)
        then have i: "i < length (ca_jobHeap a)" "jb_dispatched (ca_jobHeap a ! i)" using that by (auto simp: write_ok_def)
        then have "i \<le> j" using that(3) hd(2) by (intro hd(5)) simp_all
        moreover have "i \<noteq> j" using nd i(2) by auto
        ultimately show ?thesis by simp
      qed
      then show ?thesis using w by (auto simp: sent_after_def)
    qed
    ultimately show ?thesis using inv by (simp add: arb_inv_def sorted_wrt_append)
  qed
  moreover have "map jb_kind (ca_jobHeap ?a) = map jb_kind (ca_jobHeap a)" "cell_sum unresolved (ca_jobHeap ?a) = cell_sum unresolved (ca_jobHeap a)"
    using hd(1) by (simp_all add: cell_sum_update unresolved_def map_update list_update_same_conv)
  ultimately show ?thesis using inv unfolding arb_inv_def by simp
qed

lemma settled_simps [simp]:
  "ca_runHeap (settled r j reply a) = (ca_runHeap a)[r := (ca_runHeap a ! r)\<lparr>ar_queue := tl (ar_queue (ca_runHeap a ! r)), ar_phase := PhRunning\<rparr>]"
  "ca_counterHeap (settled r j reply a) = ca_counterHeap a" "ca_sent (settled r j reply a) = ca_sent a" "ca_runs (settled r j reply a) = ca_runs a"
  "ca_jobHeap (settled r j reply a) = (ca_jobHeap a)[j := (ca_jobHeap a ! j)\<lparr>jb_leases := [], jb_payload := [], jb_reply := Some reply\<rparr>]"
  "ca_pending (settled r j reply a) = ca_pending a - 1" "ca_disposed (settled r j reply a) = ca_disposed a"
  by (simp_all add: settled_def settle_job_def Let_def)

lemma fst_settle_job: "fst (settle_job r j reply S) = settled r j reply (fst S)"
  by (cases S) (simp add: settled_def settle_job_def Let_def)

lemma inv_settle:
  assumes inv: "arb_inv a" and r: "r < length (ca_runHeap a)" and q: "ar_queue (ca_runHeap a ! r) = j # js"
    and reply: "answers (jb_kind (ca_jobHeap a ! j)) (jb_dispatched (ca_jobHeap a ! j)) reply"
  shows "arb_inv (settled r j reply a)" (is "arb_inv ?a")
proof -
  note hd = head_queued [OF inv r q]
  have nth: "jb_run (ca_jobHeap ?a ! k) = jb_run (ca_jobHeap a ! k)" "jb_reply (ca_jobHeap ?a ! k) = (if k = j then Some reply else jb_reply (ca_jobHeap a ! k))"
    "jb_kind (ca_jobHeap ?a ! k) = jb_kind (ca_jobHeap a ! k)" "jb_dispatched (ca_jobHeap ?a ! k) \<longleftrightarrow> jb_dispatched (ca_jobHeap a ! k)" for k
    using hd(1) by (auto simp: nth_list_update)
  have "queue_ok q ?a" if "q < length (ca_runHeap a)" for q
  proof (cases "q = r")
    case True
    have "phase_ok bd PhRunning (head_job r ?a)" for bd
      using hd(6,7) q r by (cases js) (auto simp: head_job_def phase_ok_def nth_list_update)
    moreover have "queue_order r (j # js) (ca_jobHeap a)" using inv r unfolding arb_inv_def queue_ok_def q [symmetric] by blast
    then have "queue_order r js (ca_jobHeap ?a)" using hd(2) by (simp add: queue_order_settle)
    ultimately show ?thesis using inv q r hd(7) nth True
      by (auto simp: arb_inv_def queue_ok_def dest: set_tlD)
  next
    case False
    have ok: "queue_ok q a" using inv that by (simp add: arb_inv_def)
    then have "j \<notin> set (ar_queue (ca_runHeap a ! q))" using hd(2) False by (auto simp: queue_ok_def queue_order_def)
    then have "head_job q ?a = head_job q a" using False by (auto simp: head_job_def intro!: nth_list_update_neq)
    moreover have "queue_order q queue (ca_jobHeap ?a) = queue_order q queue (ca_jobHeap a)" for queue
      using hd(1,2) False by (simp add: queue_order_other)
    ultimately show ?thesis using ok nth False by (simp add: queue_ok_def)
  qed
  moreover have "job_ok ?a job" if "job \<in> set (ca_jobHeap ?a)" for job
  proof -
    have jobs: "job_ok a (ca_jobHeap a ! j)" "\<And>job. job \<in> set (ca_jobHeap a) \<Longrightarrow> job_ok a job" using inv hd(1) by (auto simp: arb_inv_def)
    have "job_ok ?a ((ca_jobHeap a ! j)\<lparr>jb_leases := [], jb_payload := [], jb_reply := Some reply\<rparr>)" "job \<in> set (ca_jobHeap a) \<Longrightarrow> job_ok ?a job"
      using jobs reply by (auto simp: job_ok_def)
    then show ?thesis using that by (auto dest!: set_update_subset_insert [THEN subsetD])
  qed
  moreover have "write_ok ?a v = write_ok a v" "sent_after ?a = sent_after a" for v
    unfolding write_ok_def sent_after_def fun_eq_iff nth by simp_all
  moreover have "map jb_kind (ca_jobHeap ?a) = map jb_kind (ca_jobHeap a)" "cell_sum unresolved (ca_jobHeap ?a) = cell_sum unresolved (ca_jobHeap a) - 1"
    using hd(1,3) by (simp_all add: cell_sum_update unresolved_def map_update list_update_same_conv)
  ultimately show ?thesis using inv unfolding arb_inv_def by simp
qed

lemma inv_runs:
  assumes "arb_inv a" and "\<forall>r \<in> snd ` set runs. r < length (ca_runHeap a)"
  shows "arb_inv (a\<lparr>ca_runs := runs, ca_disposed := d\<rparr>)"
proof -
  let ?a = "a\<lparr>ca_runs := runs, ca_disposed := d\<rparr>"
  have "queue_ok q ?a = queue_ok q a" "job_ok ?a job = job_ok a job" "write_ok ?a v = write_ok a v" "sent_after ?a = sent_after a" for q job v
    by (simp_all add: queue_ok_def head_job_def job_ok_def write_ok_def sent_after_def fun_eq_iff)
  then show ?thesis using assms unfolding arb_inv_def by simp
qed

lemma inv_new_counter:
  assumes "arb_inv a"
  shows "arb_inv (a\<lparr>ca_counterHeap := ca_counterHeap a @ [counter]\<rparr>)"
proof -
  let ?a = "a\<lparr>ca_counterHeap := ca_counterHeap a @ [counter]\<rparr>"
  have "queue_ok q a \<Longrightarrow> queue_ok q ?a" "job_ok a job \<Longrightarrow> job_ok ?a job" "write_ok ?a v = write_ok a v" "sent_after ?a = sent_after a" for q job v
    by (auto simp: queue_ok_def head_job_def job_ok_def write_ok_def sent_after_def fun_eq_iff nth_append intro: less_SucI)
  then show ?thesis using assms unfolding arb_inv_def by simp
qed

lemma inv_new_run:
  assumes "arb_inv a"
  shows "arb_inv (a\<lparr>ca_runHeap := ca_runHeap a @ [new_run ref worker lease]\<rparr>)" (is "arb_inv ?a")
proof -
  have jobs: "jb_run (ca_jobHeap a ! j) \<noteq> length (ca_runHeap a)" if "j < length (ca_jobHeap a)" for j
  proof -
    have "job_ok a (ca_jobHeap a ! j)" using assms that by (simp add: arb_inv_def)
    then show ?thesis by (simp add: job_ok_def)
  qed
  have "queue_ok q ?a" if "q < Suc (length (ca_runHeap a))" for q
  proof (cases "q = length (ca_runHeap a)")
    case True
    then show ?thesis using jobs by (auto simp: queue_ok_def queue_order_def head_job_def phase_ok_def new_run_def)
  next
    case False
    then have "q < length (ca_runHeap a)" "queue_ok q a" using that assms by (auto simp: arb_inv_def)
    then show ?thesis by (auto simp: queue_ok_def head_job_def nth_append)
  qed
  moreover have "job_ok a job \<Longrightarrow> job_ok ?a job" "write_ok ?a v = write_ok a v" "sent_after ?a = sent_after a" for job v
    by (simp_all add: job_ok_def write_ok_def sent_after_def fun_eq_iff)
  ultimately show ?thesis using assms unfolding arb_inv_def by (simp add: less_SucI)
qed

text \<open>Counting a command keeps what was counted before; the command passes everything its counter has counted.\<close>

lemma counted_count: "passes_counter body counter \<Longrightarrow> counted body' counter \<Longrightarrow> counted body' (count_command body counter)"
  by (cases body; cases body') (auto simp: count_command_def)

lemma counted_self: "counted body (count_command body counter)"
  by (cases body) (auto simp: count_command_def)

lemma counted_passes: "counted body' counter \<Longrightarrow> passes_counter body counter \<Longrightarrow> passes body' body"
  by (cases body; cases body') auto

lemma inv_push:
  assumes inv: "arb_inv a" and r: "r < length (ca_runHeap a)" and counters: "push_counters kind a counters"
  shows "arb_inv (snd (push_job r kind payload leases (a\<lparr>ca_counterHeap := counters\<rparr>)))" (is "arb_inv ?a")
proof -
  define job where "job = \<lparr>jb_kind = kind, jb_run = r, jb_payload = payload, jb_leases = leases, jb_ready = False, jb_dispatched = False, jb_reply = None\<rparr>"
  have a: "ca_jobHeap ?a = ca_jobHeap a @ [job]" "ca_counterHeap ?a = counters" "ca_sent ?a = ca_sent a" "ca_runs ?a = ca_runs a" "ca_pending ?a = ca_pending a + 1"
    "ca_runHeap ?a = (ca_runHeap a)[r := (ca_runHeap a ! r)\<lparr>ar_queue := ar_queue (ca_runHeap a ! r) @ [length (ca_jobHeap a)]\<rparr>]"
    by (simp_all add: push_job_def Let_def job_def)
  have len: "length counters = length (ca_counterHeap a)" using counters by (auto simp: push_counters_def split: job_kind.splits)
  have old: "job_ok ?a job'" if "job_ok a job'" for job'
    using that counters len a unfolding job_ok_def push_counters_def
    by (auto simp: nth_list_update counted_count split: job_kind.splits)
  have new: "job_ok ?a job" using r counters a by (auto simp: job_ok_def job_def push_counters_def counted_self)
  have rises: "rises (jb_kind job') kind" if "job' \<in> set (ca_jobHeap a)" for job'
  proof -
    have "job_ok a job'" using inv that by (simp add: arb_inv_def)
    then show ?thesis using counters by (cases kind; cases "jb_kind job'") (auto simp: job_ok_def push_counters_def intro: counted_passes)
  qed
  have "queue_ok q ?a" if q: "q < length (ca_runHeap a)" for q
  proof -
    have ok: "queue_ok q a" using inv q by (simp add: arb_inv_def)
    then have order: "queue_order q (ar_queue (ca_runHeap ?a ! q)) (ca_jobHeap ?a)" and queued: "\<forall>j \<in> set (ar_queue (ca_runHeap a ! q)). j < length (ca_jobHeap a)"
      using queue_order_push [of q "ar_queue (ca_runHeap a ! q)" "ca_jobHeap a" job] r
      by (auto simp: queue_ok_def a job_def nth_list_update queue_order_def [of _ _ "ca_jobHeap a"])
    have "phase_ok (ar_boundary (ca_runHeap a ! q)) (ar_phase (ca_runHeap a ! q)) (head_job q ?a)"
    proof (cases "ar_queue (ca_runHeap a ! q) = []")
      case True
      have "phase_kind bd p False kind" if "\<not> busy p" for bd p using that by (cases p) auto
      then show ?thesis using ok True r by (auto simp: queue_ok_def phase_ok_def head_job_def a nth_list_update job_def)
    next
      case False
      then have "hd (ar_queue (ca_runHeap a ! q)) < length (ca_jobHeap a)" using queued by simp
      then have "head_job q ?a = head_job q a" using False r by (auto simp: head_job_def a nth_list_update nth_append)
      then show ?thesis using ok by (simp add: queue_ok_def)
    qed
    moreover have "\<not> jb_dispatched (ca_jobHeap ?a ! j)" if "j \<in> set (tl (ar_queue (ca_runHeap ?a ! q)))" for j
    proof (cases "j = length (ca_jobHeap a)")
      case True
      then show ?thesis by (simp add: a job_def)
    next
      case False
      then have "j \<in> set (tl (ar_queue (ca_runHeap a ! q)))" using that r by (cases "ar_queue (ca_runHeap a ! q)") (auto simp: a nth_list_update split: if_splits)
      then show ?thesis using ok queued by (auto simp: queue_ok_def a nth_append dest: set_tlD)
    qed
    ultimately show ?thesis using ok order len r unfolding queue_ok_def by (auto simp: a nth_list_update)
  qed
  moreover have "write_ok a v \<Longrightarrow> write_ok ?a v" for v by (auto simp: write_ok_def a nth_append)
  moreover have "sorted_wrt (sent_after ?a) (ca_sent a)"
  proof (rule sorted_wrt_mono_rel [of _ "sent_after a"])
    fix v w assume "v \<in> set (ca_sent a)" "w \<in> set (ca_sent a)" "sent_after a v w"
    moreover from this have "write_ok a v" "write_ok a w" using inv by (auto simp: arb_inv_def)
    ultimately show "sent_after ?a v w" by (auto simp: sent_after_def write_ok_def a nth_append)
  qed (use inv in \<open>simp add: arb_inv_def\<close>)
  ultimately show ?thesis using inv old new rises unfolding arb_inv_def
    by (auto simp: a sorted_wrt_append job_def unresolved_def)
qed

lemma arb_move_inv: "arb_move a a' \<Longrightarrow> arb_inv a \<Longrightarrow> arb_inv a'"
proof (induction rule: arb_move.induct)
  case (mv_runs runs a)
  then show ?case using inv_runs [of a runs "ca_disposed a"] by simp
next
  case (mv_disposed a)
  then show ?case using inv_runs [of a "ca_runs a" True] by (simp add: arb_inv_def)
qed (rule inv_run inv_phase inv_counter inv_job inv_send inv_dispatch inv_settle inv_new_run inv_new_counter inv_push; assumption)+

abbreviation arb_moves :: "arbiter \<Rightarrow> arbiter \<Rightarrow> bool" where
  "arb_moves \<equiv> arb_move\<^sup>*\<^sup>*"

lemma moves_inv: "arb_moves a a' \<Longrightarrow> arb_inv a \<Longrightarrow> arb_inv a'"
  by (induction rule: rtranclp_induct) (auto intro: arb_move_inv)

text \<open>Objects are never removed, a run keeps its identity and its boundary never goes back.\<close>

definition grows :: "arbiter \<Rightarrow> arbiter \<Rightarrow> bool" where
  "grows a a' \<longleftrightarrow> length (ca_runHeap a) \<le> length (ca_runHeap a') \<and> length (ca_counterHeap a) \<le> length (ca_counterHeap a') \<and>
     length (ca_jobHeap a) \<le> length (ca_jobHeap a') \<and>
     (\<forall>r < length (ca_runHeap a). ar_ref (ca_runHeap a' ! r) = ar_ref (ca_runHeap a ! r) \<and> ar_worker (ca_runHeap a' ! r) = ar_worker (ca_runHeap a ! r) \<and>
        boundary_le (ar_boundary (ca_runHeap a ! r)) (ar_boundary (ca_runHeap a' ! r)))"

lemma boundary_le_refl [simp]: "boundary_le b b"
  by (simp add: boundary_le_def split: option.splits)

lemma boundary_le_trans: "boundary_le b c \<Longrightarrow> boundary_le c d \<Longrightarrow> boundary_le b d"
  by (auto simp: boundary_le_def split: option.splits)

lemma arb_move_grows: "arb_move a a' \<Longrightarrow> grows a a'"
  by (induction rule: arb_move.induct)
    (auto simp: grows_def run_quiet_def nth_list_update nth_append push_job_def Let_def push_counters_def split: job_kind.splits)

lemma grows_trans:
  assumes "grows a b" and "grows b c"
  shows "grows a c"
proof -
  have "ar_ref (ca_runHeap c ! r) = ar_ref (ca_runHeap a ! r) \<and> ar_worker (ca_runHeap c ! r) = ar_worker (ca_runHeap a ! r) \<and>
      boundary_le (ar_boundary (ca_runHeap a ! r)) (ar_boundary (ca_runHeap c ! r))" if "r < length (ca_runHeap a)" for r
  proof -
    have "r < length (ca_runHeap b)" using that assms(1) by (simp add: grows_def)
    then show ?thesis using that assms boundary_le_trans [of "ar_boundary (ca_runHeap a ! r)" "ar_boundary (ca_runHeap b ! r)"] by (simp add: grows_def)
  qed
  then show ?thesis using assms by (auto simp: grows_def)
qed

lemma moves_grow: "arb_moves a a' \<Longrightarrow> grows a a'"
  by (induction rule: rtranclp_induct) (simp add: grows_def, blast intro: grows_trans arb_move_grows)

subsection \<open>Every method is a sequence of moves\<close>

lemmas moves_trans [trans] = rtranclp_trans [of arb_move]

lemma moves_run: "r < length (ca_runHeap a) \<Longrightarrow> run_quiet a (ca_runHeap a ! r) (f (ca_runHeap a ! r)) \<Longrightarrow> arb_moves a (on_run r f a)"
  unfolding on_run_def by (intro r_into_rtranclp mv_run)

lemma moves_counter: "c < length (ca_counterHeap a) \<Longrightarrow> counter_quiet (ca_counterHeap a ! c) (f (ca_counterHeap a ! c)) \<Longrightarrow> arb_moves a (on_counter c f a)"
  unfolding on_counter_def by (intro r_into_rtranclp mv_counter)

lemma moves_job: "j < length (ca_jobHeap a) \<Longrightarrow> job_quiet (ca_jobHeap a ! j) (f (ca_jobHeap a ! j)) \<Longrightarrow> arb_moves a (on_job j f a)"
  unfolding on_job_def by (intro r_into_rtranclp mv_job)

lemma moves_phase: "r < length (ca_runHeap a) \<Longrightarrow> phase_ok (ar_boundary (ca_runHeap a ! r)) p (head_job r a) \<Longrightarrow> arb_moves a (at_phase r p a)"
  by (intro r_into_rtranclp mv_phase)

lemma moves_send: "job = None \<or> pc_body command = PStatus \<Longrightarrow> arb_moves a (ca_send job command payload a)"
  unfolding ca_send_def by (intro r_into_rtranclp mv_send) (auto simp: is_write_def)

text \<open>The head of a run, at the point where the loop handles it.\<close>

definition at_head :: "handle \<Rightarrow> handle \<Rightarrow> job_kind \<Rightarrow> arbiter \<Rightarrow> bool" where
  "at_head r j kind a \<longleftrightarrow> r < length (ca_runHeap a) \<and> ar_queue (ca_runHeap a ! r) \<noteq> [] \<and> hd (ar_queue (ca_runHeap a ! r)) = j \<and>
     jb_kind (ca_jobHeap a ! j) = kind"

lemma at_head_phase_ok: "at_head r j kind a \<Longrightarrow> phase_ok b p (head_job r a) = phase_kind b p (jb_dispatched (ca_jobHeap a ! j)) kind"
  by (auto simp: at_head_def phase_ok_def head_job_def)

lemma at_head_run: "at_head r j kind a \<Longrightarrow> ar_queue (f (ca_runHeap a ! r)) = ar_queue (ca_runHeap a ! r) \<Longrightarrow> at_head r j kind (on_run r f a)"
  by (simp add: at_head_def)

lemma reply_ok_error [simp]: "reply_ok command cx sent (ca_error command e)"
  by (simp add: reply_ok_def ca_error_def)

lemma moves_return:
  assumes "at_head r j (ControlJob command cx c) a" and "reply_ok command cx (jb_dispatched (ca_jobHeap a ! j)) reply"
  shows "arb_moves a (at_phase r (PhReturned (Some reply)) a)"
  using assms by (intro moves_phase) (auto simp: at_head_phase_ok, simp add: at_head_def)

lemma moves_program_return:
  assumes "at_head r j (ProgramJob command x y) a" and "receipt_ok command (jb_dispatched (ca_jobHeap a ! j)) receipt"
  shows "arb_moves a (program_return r receipt a)"
  using assms unfolding program_return_def by (intro moves_phase) (auto simp: at_head_phase_ok, simp add: at_head_def)

lemma receipt_ok_notSent [simp]: "receipt_ok command sent (notSent command reason False)"
  by (auto simp: receipt_ok_def)

lemma moves_start_control:
  assumes "at_head r j (ControlJob command cx c) a" and "\<not> jb_dispatched (ca_jobHeap a ! j)"
  shows "arb_moves a (start_control env r j command cx c a)"
proof -
  have r: "r < length (ca_runHeap a)" using assms(1) by (simp add: at_head_def)
  define b where "b = ca_send (Some j) (status_command (ar_worker (ca_runHeap a ! r)) (ar_ref (ca_runHeap a ! r)) (cx_requestId cx)) [] a"
  have "arb_moves a b" unfolding b_def by (rule moves_send) (simp add: status_command_def)
  also have "at_head r j (ControlJob command cx c) b" using assms(1) by (simp add: b_def at_head_def)
  then have "arb_moves b (at_phase r PhStatus b)" using r assms(2) by (intro moves_phase) (auto simp: at_head_phase_ok, simp_all add: b_def)
  finally have status: "arb_moves a (at_phase r PhStatus b)" .
  have "arb_moves a (at_phase r (PhBoundary None) a)" if "ar_boundary (ca_runHeap a ! r) \<noteq> None"
    using that r assms by (intro moves_phase) (auto simp: at_head_phase_ok)
  then show ?thesis using status moves_return [OF assms(1)] by (simp add: start_control_def Let_def b_def)
qed

definition boundary_set :: "handle \<Rightarrow> run_status \<Rightarrow> number \<Rightarrow> arbiter \<Rightarrow> arbiter" where
  "boundary_set r status seq = on_run r (\<lambda>run. run\<lparr>ar_boundary := Some (reported_boundary status seq), ar_uncertain := False\<rparr>)"

lemma moves_boundary_set:
  assumes "arb_inv a" and "r < length (ca_runHeap a)" and "\<not> boundary_after (ca_runHeap a ! r) seq"
  shows "arb_moves a (boundary_set r status seq a)"
  using assms unfolding boundary_set_def
  by (intro moves_run) (auto simp: run_quiet_def boundary_after_def boundary_le_def reported_boundary_def arb_inv_def queue_ok_def split: option.splits)

lemma moves_boundary_read:
  assumes inv: "arb_inv a" and hd: "at_head r j (ControlJob command cx c) a" and nd: "\<not> jb_dispatched (ca_jobHeap a ! j)"
  shows "arb_moves a (boundary_read env r command cx c result a)"
proof -
  have r: "r < length (ca_runHeap a)" using hd by (simp add: at_head_def)
  have failed: "arb_moves a (at_phase r (PhBoundary (Some e)) a)" for e
    using r nd by (intro moves_phase) (auto simp: at_head_phase_ok [OF hd])
  have read: "arb_moves a (at_phase r (PhBoundary None) (boundary_set r status seq a))" if "\<not> boundary_after (ca_runHeap a ! r) seq" for status seq
  proof -
    have "at_head r j (ControlJob command cx c) (boundary_set r status seq a)" using hd by (simp add: boundary_set_def at_head_run)
    then have "arb_moves (boundary_set r status seq a) (at_phase r (PhBoundary None) (boundary_set r status seq a))"
      using r nd by (intro moves_phase) (auto simp: at_head_phase_ok, simp_all add: boundary_set_def)
    with moves_boundary_set [OF inv r that] show ?thesis by (rule moves_trans)
  qed
  show ?thesis using failed read unfolding boundary_set_def
    by (simp add: boundary_read_def split: runtime_result.split option.split prod.split)
qed

lemma control_pipe_shape: "control_pipe env a cx c b body = Inr p \<Longrightarrow> control_shape (cx_subscription cx) body p \<and> pipe_epoch body b"
  by (cases body) (auto simp: holds_control_def split: if_splits)

lemma moves_dispatch:
  assumes "at_head r j kind a" and "\<not> jb_dispatched (ca_jobHeap a ! j)" and "sends kind command"
    and "phase_kind (ar_boundary (ca_runHeap a ! r)) p True kind"
  shows "arb_moves a (at_phase r p (ca_send (Some j) command payload (on_job j (\<lambda>job. job\<lparr>jb_dispatched := True\<rparr>) a)))"
proof -
  let ?w = "\<lparr>sn_job = Some j, sn_command = command, sn_payload = payload\<rparr>"
  obtain js where "r < length (ca_runHeap a)" "ar_queue (ca_runHeap a ! r) = j # js" "jb_kind (ca_jobHeap a ! j) = kind"
    using assms(1) by (cases "ar_queue (ca_runHeap a ! r)") (auto simp: at_head_def)
  then have move: "arb_move a (at_phase r p (on_job j (\<lambda>job. job\<lparr>jb_dispatched := True\<rparr>) (a\<lparr>ca_sent := ca_sent a @ [?w]\<rparr>)))"
    using assms(2-4) by (intro mv_dispatch) simp_all
  have eq: "ca_send (Some j) command payload (on_job j f a) = on_job j f (a\<lparr>ca_sent := ca_sent a @ [?w]\<rparr>)" for f
    by (cases a) (simp add: ca_send_def on_job_def)
  show ?thesis unfolding eq by (rule r_into_rtranclp [of arb_move, OF move])
qed

lemma moves_dispatch_control:
  assumes hd: "at_head r j (ControlJob command cx c) a" and nd: "\<not> jb_dispatched (ca_jobHeap a ! j)"
  shows "arb_moves a (dispatch_control env r j command cx c failed a)"
proof -
  have "arb_moves a (at_phase r (PhPipe b) (ca_send (Some j) \<lparr>pc_worker = x, pc_run = y, pc_requestId = cx_requestId cx, pc_body = body\<rparr> payload
      (on_job j (\<lambda>job. job\<lparr>jb_dispatched := True\<rparr>) a)))" if "control_pipe env a cx c b (cc_body command) = Inr body" for b x y body payload
    using control_pipe_shape [OF that] by (intro moves_dispatch [OF hd nd]) simp_all
  then show ?thesis using moves_return [OF hd] by (auto simp: dispatch_control_def Let_def split: option.split sum.split)
qed

lemma control_result_valid:
  assumes "cx_subscription cx = cc_subscription command" and "pipe_epoch (cc_body command) b" and "\<not> is_input (cc_body command)"
  shows "validateTerminalResultForCommand (terminal_of command) \<lparr>tr_requestId = cc_requestId command, tr_run = cc_run command,
     tr_body = result_body_of (cc_body command) (cx_subscription cx) (by_epoch (next_boundary (cc_body command) (cx_subscription cx) b seq)) atSeq\<rparr>"
  using assms by (cases "cc_body command") (simp_all add: validateTerminalResultForCommand_def terminal_of_def Let_def)

lemma reply_ok_input:
  "cc_body command = CcInput epoch inputSeq \<Longrightarrow> reply_ok command cx True (input_reply command cx epoch inputSeq n p)"
  by (auto simp: input_reply_def reply_ok_def ca_error_def validateTerminalResultForCommand_def terminal_of_def Let_def split: option.splits)

lemma counter_of_head: "arb_inv a \<Longrightarrow> at_head r j (ControlJob command cx c) a \<Longrightarrow> c < length (ca_counterHeap a)"
proof -
  assume inv: "arb_inv a" and hd: "at_head r j (ControlJob command cx c) a"
  then obtain js where q: "ar_queue (ca_runHeap a ! r) = j # js" "r < length (ca_runHeap a)"
    by (cases "ar_queue (ca_runHeap a ! r)") (auto simp: at_head_def)
  have "job_ok a (ca_jobHeap a ! j)" using inv head_queued(1) [OF inv q(2,1)] by (simp add: arb_inv_def)
  then show ?thesis using hd by (simp add: job_ok_def at_head_def)
qed

lemma counters_of_run: "arb_inv a \<Longrightarrow> r < length (ca_runHeap a) \<Longrightarrow> x \<in> set (ar_counters (ca_runHeap a ! r)) \<Longrightarrow> snd x < length (ca_counterHeap a)"
  by (auto simp: arb_inv_def queue_ok_def)

lemma moves_quiet_run:
  assumes "arb_inv a" and "r < length (ca_runHeap a)" and "ar_ref (f (ca_runHeap a ! r)) = ar_ref (ca_runHeap a ! r)"
    and "ar_worker (f (ca_runHeap a ! r)) = ar_worker (ca_runHeap a ! r)" and "ar_queue (f (ca_runHeap a ! r)) = ar_queue (ca_runHeap a ! r)"
    and "ar_phase (f (ca_runHeap a ! r)) = ar_phase (ca_runHeap a ! r)" and "boundary_le (ar_boundary (ca_runHeap a ! r)) (ar_boundary (f (ca_runHeap a ! r)))"
    and "set (ar_counters (f (ca_runHeap a ! r))) \<subseteq> set (ar_counters (ca_runHeap a ! r))"
  shows "arb_moves a (on_run r f a)"
  using assms counters_of_run [OF assms(1,2)] by (intro moves_run) (auto simp: run_quiet_def)

lemma moves_doubt: "arb_inv a \<Longrightarrow> r < length (ca_runHeap a) \<Longrightarrow> arb_moves a (on_run r (\<lambda>run. run\<lparr>ar_uncertain := True\<rparr>) a)"
  by (rule moves_quiet_run) simp_all

lemma counter_quiet_grant: "counter_quiet counter (grant body b counter)"
  by (cases body) (simp_all add: counter_quiet_def Let_def)

lemma moves_control_answered:
  assumes inv: "arb_inv a" and hd: "at_head r j (ControlJob command cx c) a" and sent: "jb_dispatched (ca_jobHeap a ! j)"
    and epoch: "pipe_epoch (cc_body command) b"
  shows "arb_moves a (control_answered env r j command cx c b result a)"
proof -
  let ?body = "cc_body command"
  have r: "r < length (ca_runHeap a)" and c: "c < length (ca_counterHeap a)" using hd counter_of_head [OF inv hd] by (simp_all add: at_head_def)
  have return: "arb_moves a' (at_phase r (PhReturned (Some reply)) a')"
    if "reply_ok command cx True reply" "at_head r j (ControlJob command cx c) a'" "ca_jobHeap a' = ca_jobHeap a" for a' reply
    using moves_return [OF that(2)] that sent by simp
  note here = return [OF _ hd refl]
  let ?doubt = "on_run r (\<lambda>run. run\<lparr>ar_uncertain := True\<rparr>) a"
  have doubt: "arb_moves a (at_phase r (PhReturned (Some reply)) ?doubt)" if "reply_ok command cx True reply" for reply
    by (rule moves_trans [OF moves_doubt [OF inv r] return [OF that]]) (simp_all add: at_head_run [OF hd])
  have granted: "arb_moves a (at_phase r (PhReturned (Some reply)) (on_counter c (grant ?body nb) (on_run r (\<lambda>run. run\<lparr>ar_boundary := Some nb\<rparr>) a)))"
    if "reply_ok command cx True reply" "\<not> boundary_after (ca_runHeap a ! r) (by_atSeq nb)" for reply nb
  proof -
    have "arb_moves a (on_run r (\<lambda>run. run\<lparr>ar_boundary := Some nb\<rparr>) a)"
      using that(2) by (intro moves_quiet_run inv r) (auto simp: boundary_le_def boundary_after_def split: option.splits)
    also have "arb_moves \<dots> (on_counter c (grant ?body nb) \<dots>)" by (rule moves_counter) (simp_all add: c counter_quiet_grant)
    also have "arb_moves \<dots> (at_phase r (PhReturned (Some reply)) \<dots>)"
      by (rule return [OF that(1)]) (use hd in \<open>simp_all add: at_head_def\<close>)
    finally show ?thesis .
  qed
  have at: "by_atSeq (next_boundary ?body s b n) = n" for s n by (cases ?body) simp_all
  have valid: "reply_ok command cx True (ReplyResult \<lparr>tr_requestId = cc_requestId command, tr_run = cc_run command,
      tr_body = result_body_of ?body (cx_subscription cx) (by_epoch (next_boundary ?body (cx_subscription cx) b n)) n\<rparr>)" if "\<not> is_input ?body" for n
    using control_result_valid [of cx command b n n] epoch that by (simp add: reply_ok_def)
  show ?thesis
  proof (cases "ca_failure result ?body")
    case (Some e)
    then show ?thesis using here doubt by (simp add: control_answered_def Let_def)
  next
    case None
    then obtain p where p: "result = RtResult p" by (cases result) (auto simp: ca_failure_def)
    show ?thesis
    proof (cases "is_input ?body")
      case True
      then obtain e n where "?body = CcInput e n" by (cases ?body) auto
      then show ?thesis using None p here reply_ok_input by (simp add: control_answered_def Let_def)
    next
      case False
      then show ?thesis using None p here doubt granted [OF _ ] valid [OF False] at
        by (cases ?body) (auto simp: control_answered_def Let_def split: option.split)
    qed
  qed
qed

lemma moves_start_program:
  assumes hd: "at_head r j (ProgramJob command cancelled accepts) a" and nd: "\<not> jb_dispatched (ca_jobHeap a ! j)"
  shows "arb_moves a (start_program env r j command cancelled a)"
proof -
  have r: "r < length (ca_runHeap a)" using hd by (simp add: at_head_def)
  define b where "b = ca_send (Some j) (status_command (pg_worker command) (pg_run command) (pg_requestId command)) [] a"
  have "arb_moves a b" unfolding b_def by (rule moves_send) (simp add: status_command_def)
  also have "at_head r j (ProgramJob command cancelled accepts) b" using hd by (simp add: b_def at_head_def)
  then have "arb_moves b (at_phase r PhProgramStatus b)" using r nd by (intro moves_phase) (auto simp: at_head_phase_ok, simp_all add: b_def)
  finally show ?thesis using moves_program_return [OF hd] by (simp add: start_program_def Let_def b_def)
qed

lemma moves_program_read:
  assumes inv: "arb_inv a" and hd: "at_head r j (ProgramJob command cancelled accepts) a" and nd: "\<not> jb_dispatched (ca_jobHeap a ! j)"
  shows "arb_moves a (program_read env r command accepts result a)"
proof -
  have r: "r < length (ca_runHeap a)" using hd by (simp add: at_head_def)
  have "arb_moves a (program_return r (notSent command reason False) (boundary_set r status seq a))"
    and "arb_moves a (at_phase r PhProgramAccept (boundary_set r status seq a))" if "\<not> boundary_after (ca_runHeap a ! r) seq" for status seq reason
  proof -
    note set = moves_boundary_set [OF inv r that, of status]
    have hd': "at_head r j (ProgramJob command cancelled accepts) (boundary_set r status seq a)" using hd by (simp add: boundary_set_def at_head_run)
    show "arb_moves a (program_return r (notSent command reason False) (boundary_set r status seq a))"
      by (rule moves_trans [OF set moves_program_return [OF hd']]) simp
    have "arb_moves (boundary_set r status seq a) (at_phase r PhProgramAccept (boundary_set r status seq a))"
      using r nd by (intro moves_phase) (auto simp: at_head_phase_ok [OF hd'], simp_all add: boundary_set_def)
    then show "arb_moves a (at_phase r PhProgramAccept (boundary_set r status seq a))" by (rule moves_trans [OF set])
  qed
  then show ?thesis using moves_program_return [OF hd] unfolding boundary_set_def
    by (simp add: program_read_def Let_def split: option.split prod.split)
qed

lemma moves_program_accepted:
  assumes hd: "at_head r j (ProgramJob command cancelled accepts) a" and nd: "\<not> jb_dispatched (ca_jobHeap a ! j)"
  shows "arb_moves a (program_accepted env r j command confirmed a)"
  using moves_dispatch [OF hd nd, of "pipe_of_program command" PhProgramWrite] moves_program_return [OF hd]
  by (simp add: program_accepted_def)

lemma fst_settle_control:
  "fst (settle_control r j command reply S) = (case reply of
     Some x \<Rightarrow> settled r j (ControlReply x) (fst S)
   | None \<Rightarrow> settled r j (ControlReply (ca_error command (unknownResult (cc_body command)))) (on_run r (\<lambda>run. run\<lparr>ar_uncertain := True\<rparr>) (fst S)))"
  by (cases S) (simp add: settle_control_def fst_settle_job split: option.split)

lemma moves_settle:
  assumes "at_head r j kind a" and "answers kind (jb_dispatched (ca_jobHeap a ! j)) reply"
  shows "arb_moves a (settled r j reply a)"
proof -
  obtain js where "r < length (ca_runHeap a)" "ar_queue (ca_runHeap a ! r) = j # js" "jb_kind (ca_jobHeap a ! j) = kind"
    using assms(1) by (cases "ar_queue (ca_runHeap a ! r)") (auto simp: at_head_def)
  then show ?thesis using assms(2) by (intro r_into_rtranclp mv_settle) simp_all
qed

lemma moves_settle_control:
  assumes inv: "arb_inv a" and hd: "at_head r j (ControlJob command cx c) a"
    and reply: "case reply of None \<Rightarrow> True | Some x \<Rightarrow> reply_ok command cx (jb_dispatched (ca_jobHeap a ! j)) x"
  shows "arb_moves a (fst (settle_control r j command reply (a, b)))"
proof (cases reply)
  case None
  have r: "r < length (ca_runHeap a)" using hd by (simp add: at_head_def)
  have "arb_moves a (on_run r (\<lambda>run. run\<lparr>ar_uncertain := True\<rparr>) a)" by (rule moves_doubt [OF inv r])
  also have "arb_moves \<dots> (settled r j (ControlReply (ca_error command (unknownResult (cc_body command)))) \<dots>)"
    by (rule moves_settle [OF at_head_run [OF hd]]) simp_all
  finally show ?thesis by (simp add: fst_settle_control None)
next
  case (Some x)
  then show ?thesis using moves_settle [OF hd, of "ControlReply x"] reply by (simp add: fst_settle_control)
qed

lemma note_failure_simps [simp]:
  "ar_queue (note_failure x run) = ar_queue run" "ar_ref (note_failure x run) = ar_ref run" "ar_worker (note_failure x run) = ar_worker run"
  "ar_phase (note_failure x run) = ar_phase run" "ar_boundary (note_failure x run) = ar_boundary run" "ar_counters (note_failure x run) = ar_counters run"
  by (simp_all add: note_failure_def)

lemma moves_settle_program:
  assumes inv: "arb_inv a" and hd: "at_head r j (ProgramJob command cancelled accepts) a"
    and receipt: "case receipt of None \<Rightarrow> True | Some x \<Rightarrow> receipt_ok command (jb_dispatched (ca_jobHeap a ! j)) x"
  shows "arb_moves a (fst (settle_program r j command receipt (a, b)))"
proof -
  have r: "r < length (ca_runHeap a)" using hd by (simp add: at_head_def)
  define input where "input = (case receipt of Some x \<Rightarrow> x | None \<Rightarrow> notSent command ''runtime-result-unknown'' (jb_dispatched (ca_jobHeap a ! j)))"
  have ok: "receipt_ok command (jb_dispatched (ca_jobHeap a ! j)) input"
    using receipt by (auto simp: input_def receipt_ok_def split: option.splits)
  define a1 where "a1 = on_run r (note_failure input) a"
  define a2 where "a2 = settled r j (ProgramReply input) a1"
  have "arb_moves a a1" unfolding a1_def by (rule moves_quiet_run [OF inv r]) simp_all
  also have "arb_moves a1 a2" unfolding a2_def
    by (rule moves_settle [of _ _ "ProgramJob command cancelled accepts"]) (use hd ok in \<open>simp_all add: a1_def at_head_run\<close>)
  finally have a2: "arb_moves a a2" .
  then have "arb_moves a2 (on_run r (\<lambda>run. run\<lparr>ar_programFailure := None\<rparr>) a2)"
    by (intro moves_quiet_run moves_inv [OF a2 inv]) (use r moves_grow [OF a2] in \<open>auto simp: grows_def\<close>)
  with a2 have "arb_moves a (on_run r (\<lambda>run. run\<lparr>ar_programFailure := None\<rparr>) a2)" by (rule moves_trans)
  moreover obtain b' where "settle_job r j (ProgramReply input) (a1, b) = (a2, b')"
    using fst_settle_job [of r j "ProgramReply input" "(a1, b)"] by (cases "settle_job r j (ProgramReply input) (a1, b)") (simp add: a2_def)
  ultimately show ?thesis using a2 by (simp add: settle_program_def Let_def input_def [symmetric] a1_def [symmetric])
qed

text \<open>No command of the head has been sent yet: true whenever the loop is between two jobs.\<close>

definition waiting :: "handle \<Rightarrow> arbiter \<Rightarrow> bool" where
  "waiting r a \<longleftrightarrow> ar_queue (ca_runHeap a ! r) = [] \<or> \<not> jb_dispatched (ca_jobHeap a ! hd (ar_queue (ca_runHeap a ! r)))"

lemma waiting_phase_ok: "waiting r a \<Longrightarrow> \<not> busy p \<Longrightarrow> phase_ok b p (head_job r a)"
  by (cases p) (auto simp: waiting_def phase_ok_def head_job_def)

lemma waiting_inv: "arb_inv a \<Longrightarrow> r < length (ca_runHeap a) \<Longrightarrow> \<not> busy (ar_phase (ca_runHeap a ! r)) \<Longrightarrow> waiting r a"
  by (cases "ar_phase (ca_runHeap a ! r)") (auto simp: arb_inv_def queue_ok_def waiting_def phase_ok_def head_job_def)

lemma moves_start_head:
  assumes "r < length (ca_runHeap a)" and "waiting r a"
  shows "arb_moves a (start_head env r a)"
proof (cases "ar_queue (ca_runHeap a ! r)")
  case (Cons j js)
  then have "at_head r j (jb_kind (ca_jobHeap a ! j)) a" "\<not> jb_dispatched (ca_jobHeap a ! j)" using assms by (simp_all add: at_head_def waiting_def)
  then show ?thesis using Cons moves_start_control moves_start_program
    by (cases "jb_kind (ca_jobHeap a ! j)") (simp_all add: start_head_def)
qed (simp add: start_head_def)

lemma moves_set_cleanup: "arb_moves a (set_cleanup c s a)"
proof (cases "c < length (ca_counterHeap a)")
  case True
  then show ?thesis unfolding set_cleanup_def by (rule moves_counter) (simp add: counter_quiet_def)
qed (simp add: set_cleanup_def on_counter_def list_update_beyond)

lemma waiting_frame: "ca_runHeap a' = ca_runHeap a \<Longrightarrow> ca_jobHeap a' = ca_jobHeap a \<Longrightarrow> waiting r a' = waiting r a"
  by (simp add: waiting_def)

lemma set_cleanup_simps [simp]: "ca_jobHeap (set_cleanup c s a) = ca_jobHeap a" "length (ca_counterHeap (set_cleanup c s a)) = length (ca_counterHeap a)"
  by (simp_all add: set_cleanup_def)

lemma moves_cleanup_from:
  assumes "arb_inv a" and "r < length (ca_runHeap a)" and "waiting r a"
  shows "arb_moves a (cleanup_from env r i a)"
  using assms
proof (induction env r i a rule: cleanup_from.induct)
  case (1 env r i a)
  let ?run = "ca_runHeap a ! r"
  let ?c = "snd (ar_counters ?run ! i)"
  have cleaned: "arb_moves a (at_phase r PhCleaned a)" using 1 by (intro moves_phase waiting_phase_ok) simp_all
  show ?case
  proof (cases "i \<ge> length (ar_counters ?run)")
    case True
    then show ?thesis using cleaned by (simp add: cleanup_from.simps [of env r i a] Let_def)
  next
    case False
    have set: "arb_moves a (set_cleanup ?c CleanupNone a)" by (rule moves_set_cleanup)
    let ?a = "set_cleanup ?c CleanupNone a"
    have next_set: "arb_moves a (cleanup_from env r (i + 1) ?a)" if "arb_moves ?a (cleanup_from env r (i + 1) ?a)"
      by (rule moves_trans [OF set that])
    have send: "arb_moves a (at_phase r (PhCleanup i ?c b) (ca_send None p [] a))" for b p
    proof -
      have "arb_moves a (ca_send None p [] a)" by (rule moves_send) simp
      also have "arb_moves \<dots> (at_phase r (PhCleanup i ?c b) \<dots>)"
        using 1 by (intro moves_phase waiting_phase_ok) (simp_all add: waiting_def)
      finally show ?thesis .
    qed
    have inv: "arb_inv ?a" by (rule moves_inv [OF set "1.prems"(1)])
    have w: "waiting r ?a" using "1.prems"(3) by (simp add: waiting_frame [of ?a a])
    show ?thesis
      using False send next_set 1 inv w
      by (simp add: cleanup_from.simps [of env r i a] Let_def split: option.split)
  qed
qed

lemma moves_cleanup_answered:
  assumes inv: "arb_inv a" and r: "r < length (ca_runHeap a)"
  shows "arb_moves a (cleanup_answered r c b result a)"
proof -
  let ?run = "ca_runHeap a ! r"
  note set = moves_set_cleanup [of a c]
  have unknown: "arb_moves a (cleanup_unknown r c a)"
    unfolding cleanup_unknown_def by (rule moves_trans [OF set moves_doubt]) (simp_all add: moves_inv [OF set inv] r)
  have "arb_moves a (on_run r (\<lambda>run. run\<lparr>ar_boundary := Some (b\<lparr>by_holder := None, by_atSeq := n\<rparr>)\<rparr>) (set_cleanup c CleanupNone a))"
    if "ar_boundary ?run = Some b \<and> by_atSeq b \<le> n \<or> \<not> boundary_after ?run n" for n
    using that by (intro moves_trans [OF set moves_quiet_run] moves_inv [OF set inv])
      (auto simp: r boundary_le_def boundary_after_def split: option.splits)
  moreover have "by_atSeq b \<le> n" if "released_at x b = Some n" for x n
    using that by (auto simp: released_at_def split: runtime_result.splits if_splits option.splits)
  ultimately show ?thesis using unknown set by (simp add: cleanup_answered_def Let_def split: option.split)
qed

lemma moves_release_run:
  assumes inv: "arb_inv a" and r: "r < length (ca_runHeap a)"
  shows "arb_moves a (fst (release_run r (a, b)))"
proof -
  let ?a = "a\<lparr>ca_runs := AList.delete (rr_runId (ar_ref (ca_runHeap a ! r))) (ca_runs a)\<rparr>"
  have "\<forall>q \<in> snd ` set (AList.delete k (ca_runs a)). q < length (ca_runHeap a)" for k
    using inv by (auto simp: arb_inv_def AList.delete_eq)
  then have runs: "arb_moves a ?a" by (intro r_into_rtranclp mv_runs)
  have "arb_moves ?a (on_run r (\<lambda>run. run\<lparr>ar_counters := []\<rparr>) ?a)"
    using r by (intro moves_quiet_run moves_inv [OF runs inv]) simp_all
  with runs have "arb_moves a (on_run r (\<lambda>run. run\<lparr>ar_counters := []\<rparr>) ?a)" by (rule moves_trans)
  then show ?thesis by (simp add: release_run_def Let_def)
qed

lemma moves_prune:
  assumes inv: "arb_inv a" and r: "r < length (ca_runHeap a)"
  shows "arb_moves a (fst (prune r (a, b)))"
  using moves_quiet_run [OF inv r, of "\<lambda>run. run\<lparr>ar_counters := filter (\<lambda>(_, c). \<not> prunable r a c) (ar_counters run)\<rparr>"]
  by (auto simp: prune_def Let_def)

lemma moves_between:
  assumes "r < length (ca_runHeap a)" and "waiting r a" and "\<not> busy p"
  shows "arb_moves a (at_phase r p a)" "waiting r (at_phase r p a)"
  using assms by (auto intro: moves_phase waiting_phase_ok) (simp add: waiting_def)

lemma moves_finish_drain:
  assumes inv: "arb_inv a" and r: "r < length (ca_runHeap a)" and w: "waiting r a"
  shows "arb_moves a (fst (finish_drain env r (a, b)))"
proof -
  let ?a = "at_phase r Idle a"
  note idle = moves_between [OF r w, of Idle, simplified]
  have inv': "arb_inv ?a" and r': "r < length (ca_runHeap ?a)" using moves_inv [OF idle(1) inv] r by simp_all
  show ?thesis
    using moves_trans [OF idle(1) moves_release_run [OF inv' r']] moves_trans [OF idle(1) moves_prune [OF inv' r']]
      moves_trans [OF idle(1) moves_start_head [OF r' idle(2)]]
    by (simp add: finish_drain_def Let_def)
qed

lemma moves_drain_loop:
  assumes "arb_inv a" and "r < length (ca_runHeap a)" and "waiting r a"
  shows "arb_moves a (fst (drain_loop env r (a, b)))"
  using moves_start_head [OF assms(2,3)] moves_cleanup_from [OF assms] moves_finish_drain [OF assms] by (simp add: drain_loop_def)

lemma moves_ca_drain:
  assumes inv: "arb_inv a" and r: "r < length (ca_runHeap a)"
  shows "arb_moves a (fst (ca_drain env r (a, b)))"
proof (cases "ar_phase (ca_runHeap a ! r) = Idle")
  case True
  then have w: "waiting r a" using waiting_inv [OF inv r] by simp
  note running = moves_between [OF r w, of PhRunning, simplified]
  have "arb_moves (at_phase r PhRunning a) (fst (drain_loop env r (at_phase r PhRunning a, b)))"
    by (rule moves_drain_loop [OF moves_inv [OF running(1) inv] _ running(2)]) (simp add: r)
  with running(1) have "arb_moves a (fst (drain_loop env r (at_phase r PhRunning a, b)))" by (rule moves_trans)
  then show ?thesis using True by (simp add: ca_drain_def)
qed (simp add: ca_drain_def)

lemma moves_resume_control:
  assumes inv: "arb_inv a" and hd: "at_head r j (ControlJob command cx c) a" and p: "ar_phase (ca_runHeap a ! r) = p"
  shows "arb_moves a (fst (resume_control env r j command cx c p answer (a, b)))"
proof -
  have r: "r < length (ca_runHeap a)" using hd by (simp add: at_head_def)
  have "phase_ok (ar_boundary (ca_runHeap a ! r)) p (head_job r a)" using inv r p by (auto simp: arb_inv_def queue_ok_def)
  then have kind: "phase_kind (ar_boundary (ca_runHeap a ! r)) p (jb_dispatched (ca_jobHeap a ! j)) (ControlJob command cx c)"
    by (simp add: at_head_phase_ok [OF hd])
  have thrown: "arb_moves a (at_phase r (PhReturned None) a)" using r by (intro moves_phase) (simp_all add: at_head_phase_ok [OF hd])
  have settle: "arb_moves a (fst (drain_loop env r (settle_control r j command reply (a, b))))" if "p = PhReturned reply" for reply
  proof -
    obtain a' b' where S: "settle_control r j command reply (a, b) = (a', b')" by fastforce
    have settled: "arb_moves a a'" using moves_settle_control [OF inv hd, of reply b] kind that S by (simp split: option.splits)
    have "ar_phase (ca_runHeap a' ! r) = PhRunning"
      using fst_settle_control [of r j command reply "(a, b)"] r S by (auto split: option.splits)
    moreover have r': "r < length (ca_runHeap a')" using moves_grow [OF settled] r by (simp add: grows_def)
    ultimately have "waiting r a'" using waiting_inv [OF moves_inv [OF settled inv]] by simp
    then show ?thesis unfolding S by (rule moves_trans [OF settled moves_drain_loop [OF moves_inv [OF settled inv] r']])
  qed
  show ?thesis
    using kind thrown settle moves_boundary_read [OF inv hd] moves_dispatch_control [OF hd] moves_control_answered [OF inv hd]
    by (cases p; cases answer) simp_all
qed

lemma fst_settle_program_phase:
  "r < length (ca_runHeap a) \<Longrightarrow> ar_phase (ca_runHeap (fst (settle_program r j command receipt (a, b))) ! r) = PhRunning"
  by (simp add: settle_program_def settle_job_def Let_def)

lemma moves_resume_program:
  assumes inv: "arb_inv a" and hd: "at_head r j (ProgramJob command cancelled accepts) a" and p: "ar_phase (ca_runHeap a ! r) = p"
  shows "arb_moves a (fst (resume_program env r j command accepts p answer (a, b)))"
proof -
  have r: "r < length (ca_runHeap a)" using hd by (simp add: at_head_def)
  have "phase_ok (ar_boundary (ca_runHeap a ! r)) p (head_job r a)" using inv r p by (auto simp: arb_inv_def queue_ok_def)
  then have kind: "phase_kind (ar_boundary (ca_runHeap a ! r)) p (jb_dispatched (ca_jobHeap a ! j)) (ProgramJob command cancelled accepts)"
    by (simp add: at_head_phase_ok [OF hd])
  have thrown: "arb_moves a (at_phase r (PhProgramReturned None) a)" using r by (intro moves_phase) (simp_all add: at_head_phase_ok [OF hd])
  have settle: "arb_moves a (fst (drain_loop env r (settle_program r j command receipt (a, b))))" if "p = PhProgramReturned receipt" for receipt
  proof -
    obtain a' b' where S: "settle_program r j command receipt (a, b) = (a', b')" by fastforce
    have settled: "arb_moves a a'" using moves_settle_program [OF inv hd, of receipt b] kind that S by (simp split: option.splits)
    have "ar_phase (ca_runHeap a' ! r) = PhRunning" using fst_settle_program_phase [OF r, of j command receipt b] S by simp
    moreover have r': "r < length (ca_runHeap a')" using moves_grow [OF settled] r by (simp add: grows_def)
    ultimately have "waiting r a'" using waiting_inv [OF moves_inv [OF settled inv]] by simp
    then show ?thesis unfolding S by (rule moves_trans [OF settled moves_drain_loop [OF moves_inv [OF settled inv] r']])
  qed
  have written: "arb_moves a (program_return r receipt a)" if "p = PhProgramWrite" for receipt
    using moves_program_return [OF hd] kind that by (simp add: receipt_ok_def)
  show ?thesis
    using kind thrown settle written moves_program_read [OF inv hd] moves_program_accepted [OF hd]
    by (cases p; cases answer) simp_all
qed

lemma moves_resume_cleanup:
  assumes inv: "arb_inv a" and r: "r < length (ca_runHeap a)" and p: "ar_phase (ca_runHeap a ! r) = p"
  shows "arb_moves a (fst (resume_cleanup env r p answer (a, b)))"
proof -
  have "arb_moves a (cleanup_from env r i (cleanup_answered r c bd result a))" if "\<not> busy p" for i c bd result
  proof -
    note answered = moves_cleanup_answered [OF inv r, of c bd result]
    have "ar_queue (ca_runHeap (cleanup_answered r c bd result a) ! r) = ar_queue (ca_runHeap a ! r)"
      "ca_jobHeap (cleanup_answered r c bd result a) = ca_jobHeap a"
      using r by (simp_all add: cleanup_answered_def cleanup_unknown_def set_cleanup_def Let_def split: option.split)
    then have "waiting r (cleanup_answered r c bd result a)" using waiting_inv [OF inv r] p that by (simp add: waiting_def)
    then show ?thesis
      using moves_grow [OF answered] r by (intro moves_trans [OF answered moves_cleanup_from [OF moves_inv [OF answered inv]]]) (simp_all add: grows_def)
  qed
  moreover have "\<not> busy p \<Longrightarrow> arb_moves a (fst (finish_drain env r (a, b)))"
    using moves_finish_drain [OF inv r] waiting_inv [OF inv r] p by simp
  ultimately show ?thesis by (cases p; cases answer) simp_all
qed

lemma moves_ca_resume:
  assumes inv: "arb_inv a" and r: "r < length (ca_runHeap a)"
  shows "arb_moves a (fst (ca_resume env r answer (a, b)))"
proof (cases "ar_queue (ca_runHeap a ! r)")
  case Nil
  then show ?thesis using moves_resume_cleanup [OF inv r refl] by (simp add: ca_resume_def Let_def)
next
  case (Cons j js)
  then have hd: "at_head r j (jb_kind (ca_jobHeap a ! j)) a" using r by (simp add: at_head_def)
  show ?thesis using Cons hd moves_resume_cleanup [OF inv r refl] moves_resume_control [OF inv _ refl] moves_resume_program [OF inv _ refl]
    by (cases "jb_kind (ca_jobHeap a ! j)") (simp_all add: ca_resume_def Let_def)
qed

text \<open>A first group of moves followed by \<open>drain\<close>.\<close>

lemma moves_then_drain:
  assumes inv: "arb_inv a" and first: "arb_moves a a'" and r: "r < length (ca_runHeap a)"
  shows "arb_moves a (fst (ca_drain env r (a', b)))"
  using moves_grow [OF first] r by (intro moves_trans [OF first moves_ca_drain [OF moves_inv [OF first inv]]]) (simp add: grows_def)

lemma run_of_job: "arb_inv a \<Longrightarrow> j < length (ca_jobHeap a) \<Longrightarrow> jb_run (ca_jobHeap a ! j) < length (ca_runHeap a)"
  by (simp add: arb_inv_def job_ok_def)

lemma same_kind_set [simp]: "same_kind k k" "same_kind k (set_accept k)" "same_kind k (set_cancelled reason k)"
  by (cases k; simp)+

lemma moves_executes:
  assumes "arb_inv a" and "j < length (ca_jobHeap a)"
  shows "arb_moves a (fst (ca_execute env j (a, b)))" "arb_moves a (fst (ca_executeProgrammatic env j (a, b)))"
    "arb_moves a (fst (ca_cancelProgrammatic env j reason (a, b)))"
  unfolding ca_execute_def ca_executeProgrammatic_def ca_cancelProgrammatic_def prod.case
  by (intro moves_then_drain moves_job run_of_job assms; simp add: job_quiet_def set_ready_def)+

lemma moves_ready_counter: "j < length (ca_jobHeap a) \<Longrightarrow> arb_moves a (ready_counter c j a)"
  by (auto simp: ready_counter_def job_quiet_def set_ready_def intro: moves_job split: job_kind.split)

lemma moves_fold_jobs:
  assumes "\<And>a j. j < length (ca_jobHeap a) \<Longrightarrow> arb_moves a (f j a)" and "\<forall>j \<in> set js. j < length (ca_jobHeap a)"
  shows "arb_moves a (fold f js a)"
  using assms(2)
proof (induction js arbitrary: a)
  case (Cons j js)
  have first: "arb_moves a (f j a)" using Cons.prems by (intro assms(1)) simp
  have "arb_moves (f j a) (fold f js (f j a))" using Cons.prems moves_grow [OF first] by (intro Cons.IH) (auto simp: grows_def)
  from moves_trans [OF first this] show ?case by simp
qed simp

lemma queue_valid: "arb_inv a \<Longrightarrow> r < length (ca_runHeap a) \<Longrightarrow> \<forall>j \<in> set (ar_queue (ca_runHeap a ! r)). j < length (ca_jobHeap a)"
proof -
  assume "arb_inv a" and "r < length (ca_runHeap a)"
  then have "queue_ok r a" by (simp add: arb_inv_def)
  then show ?thesis by (simp add: queue_ok_def queue_order_def)
qed

lemma listed_runs: "arb_inv a \<Longrightarrow> \<forall>x \<in> set (ca_runs a). snd x < length (ca_runHeap a)"
  by (simp add: arb_inv_def)

lemma listed_run: "arb_inv a \<Longrightarrow> map_of (ca_runs a) k = Some r \<Longrightarrow> r < length (ca_runHeap a)"
  using listed_runs [of a] map_of_SomeD [of "ca_runs a" k r] by auto

lemma moves_ca_retire:
  assumes inv: "arb_inv a"
  shows "arb_moves a (fst (ca_retire env ref (a, b)))"
proof -
  have "arb_moves a (fst (ca_drain env r (on_counter c (retire_counter bd ref) (fold (ready_counter c) (ar_queue (ca_runHeap a ! r)) a), b)))"
    if r: "map_of (ca_runs a) k = Some r" and c: "map_of (ar_counters (ca_runHeap a ! r)) ref = Some c" for k r c bd
  proof -
    note r' = listed_run [OF inv r]
    have c': "c < length (ca_counterHeap a)" using counters_of_run [OF inv r'] map_of_SomeD [OF c] by fastforce
    have ready: "arb_moves a (fold (ready_counter c) (ar_queue (ca_runHeap a ! r)) a)" (is "arb_moves a ?a")
      by (rule moves_fold_jobs [OF moves_ready_counter queue_valid [OF inv r']])
    also have "arb_moves ?a (on_counter c (retire_counter bd ref) ?a)"
      using c' moves_grow [OF ready] by (intro moves_counter) (auto simp: grows_def counter_quiet_def retire_counter_def Let_def split: option.split)
    finally show ?thesis by (rule moves_then_drain [OF inv _ r'])
  qed
  then show ?thesis by (simp add: ca_retire_def split: option.split)
qed

lemma observe_fact_simps [simp]:
  "ar_queue (observe_fact e run) = ar_queue run" "ar_ref (observe_fact e run) = ar_ref run" "ar_worker (observe_fact e run) = ar_worker run"
  "ar_phase (observe_fact e run) = ar_phase run" "ar_counters (observe_fact e run) = ar_counters run"
  "boundary_le (ar_boundary run) (ar_boundary (observe_fact e run))"
  by (auto simp: observe_fact_def boundary_le_def split: run_event.splits option.splits)

lemma moves_ca_event:
  assumes inv: "arb_inv a"
  shows "arb_moves a (ca_event event a)"
proof (cases "map_of (ca_runs a) (rr_runId (pv_run event))")
  case (Some r)
  have "arb_moves a (on_run r (observe_fact e) a)" for e by (rule moves_quiet_run [OF inv listed_run [OF inv Some]]) simp_all
  then show ?thesis using Some by (simp add: ca_event_def split: terminal_event.split)
qed (simp add: ca_event_def)

lemma moves_fold_runs:
  assumes step: "\<And>a b x. arb_inv a \<Longrightarrow> snd x < length (ca_runHeap a) \<Longrightarrow> arb_moves a (fst (f x (a, b)))"
    and "arb_inv a" and "\<forall>x \<in> set xs. snd x < length (ca_runHeap a)"
  shows "arb_moves a (fst (fold f xs (a, b)))"
  using assms(2,3)
proof (induction xs arbitrary: a b)
  case (Cons x xs)
  obtain a' b' where S: "f x (a, b) = (a', b')" by fastforce
  have first: "arb_moves a a'" using step [of a x b] Cons.prems S by simp
  have "arb_moves a' (fst (fold f xs (a', b')))"
    using Cons.prems moves_grow [OF first] by (intro Cons.IH moves_inv [OF first]) (auto simp: grows_def)
  from moves_trans [OF first this] show ?case by (simp add: S)
qed simp

lemma moves_ca_tick: "arb_inv a \<Longrightarrow> arb_moves a (fst (ca_tick env (a, b)))"
  unfolding ca_tick_def fst_conv
  by (intro moves_fold_runs listed_runs) (auto simp: moves_ca_drain split: prod.split)

lemma moves_dispose_run:
  assumes inv: "arb_inv a" and r: "r < length (ca_runHeap a)"
  shows "arb_moves a (fst (dispose_run env r (a, b)))"
proof -
  have ready: "arb_moves a (fold (\<lambda>j. on_job j set_ready) (ar_queue (ca_runHeap a ! r)) a)" (is "arb_moves a ?a")
    by (rule moves_fold_jobs [OF moves_job queue_valid [OF inv r]]) (simp_all add: job_quiet_def set_ready_def)
  have "arb_moves ?a (fst (release_run r (?a, b)))"
    using moves_grow [OF ready] r by (intro moves_release_run moves_inv [OF ready inv]) (simp add: grows_def)
  with ready have "arb_moves a (fst (release_run r (?a, b)))" by (rule moves_trans)
  then show ?thesis using moves_then_drain [OF inv ready r] by (simp add: dispose_run_def Let_def)
qed

lemma moves_ca_dispose:
  assumes inv: "arb_inv a"
  shows "arb_moves a (fst (ca_dispose env (a, b)))"
proof -
  let ?a = "a\<lparr>ca_disposed := True\<rparr>"
  have disposed: "arb_moves a ?a" by (rule r_into_rtranclp) (rule mv_disposed)
  have "arb_moves ?a (fst (fold (\<lambda>(_, r). dispose_run env r) (ca_runs a) (?a, b)))"
    using listed_runs [OF inv] by (intro moves_fold_runs moves_inv [OF disposed inv]) (auto simp: moves_dispose_run split: prod.split)
  with disposed have "arb_moves a (fst (fold (\<lambda>(_, r). dispose_run env r) (ca_runs a) (?a, b)))" by (rule moves_trans)
  then show ?thesis by (simp add: ca_dispose_def)
qed

text \<open>Admission: the objects it found are those of the maps, the ones it made are appended.\<close>

definition opened_run :: "arbiter \<Rightarrow> run_ref \<Rightarrow> opened \<Rightarrow> bool" where
  "opened_run a run w = (case w of Found r \<Rightarrow> map_of (ca_runs a) (rr_runId run) = Some r | Fresh _ \<Rightarrow> True)"

lemma open_run_opened: "open_run a run b = (Some w, b') \<Longrightarrow> opened_run a run w"
  by (auto simp: open_run_def opened_run_def split: option.splits if_splits prod.splits)

lemma in_alist_update: "x \<in> set (AList.update k v xs) \<Longrightarrow> x = (k, v) \<or> x \<in> set xs"
  by (induction xs) (auto split: if_splits)

lemma moves_enter_run:
  assumes inv: "arb_inv a" and w: "opened_run a run w" and enter: "enter_run w run worker a = (r, a')"
  shows "arb_moves a a' \<and> r < length (ca_runHeap a') \<and> ca_counterHeap a' = ca_counterHeap a \<and> ar_counters (ca_runHeap a' ! r) = run_counters a w"
proof (cases w)
  case (Found q)
  then show ?thesis using enter w listed_run [OF inv] by (auto simp: enter_run_def opened_run_def run_counters_def)
next
  case (Fresh lease)
  let ?h = "ca_runHeap a @ [new_run run worker lease]"
  let ?runs = "AList.update (rr_runId run) (length (ca_runHeap a)) (ca_runs a)"
  have a': "a' = a\<lparr>ca_runHeap := ?h, ca_runs := ?runs\<rparr>" and r: "r = length (ca_runHeap a)" using enter Fresh by (auto simp: enter_run_def)
  have "arb_moves a (a\<lparr>ca_runHeap := ?h\<rparr>)" by (rule r_into_rtranclp) (rule mv_new_run)
  also have "\<forall>q \<in> snd ` set ?runs. q < length ?h" using listed_runs [OF inv] by (auto dest!: in_alist_update)
  then have "arb_moves (a\<lparr>ca_runHeap := ?h\<rparr>) (a\<lparr>ca_runHeap := ?h, ca_runs := ?runs\<rparr>)"
    by (intro r_into_rtranclp mv_runs [of ?runs "a\<lparr>ca_runHeap := ?h\<rparr>"]) simp
  finally show ?thesis by (simp add: a' r Fresh run_counters_def new_run_def)
qed

definition opened_counter :: "arbiter \<Rightarrow> opened \<Rightarrow> subscription_ref \<Rightarrow> opened \<Rightarrow> bool" where
  "opened_counter a run ref w = (case w of Found c \<Rightarrow> map_of (run_counters a run) ref = Some c | Fresh _ \<Rightarrow> True)"

lemma open_counter_opened: "open_counter a run ref b = (Some w, b') \<Longrightarrow> opened_counter a run ref w"
  by (auto simp: open_counter_def opened_counter_def Let_def split: option.splits if_splits prod.splits)

lemma moves_enter_counter:
  assumes inv: "arb_inv a" and r: "r < length (ca_runHeap a)" and w: "case w of Found c \<Rightarrow> c < length (ca_counterHeap a) | Fresh _ \<Rightarrow> True"
    and enter: "enter_counter w r cx a = (c, a')"
  shows "arb_moves a a' \<and> c < length (ca_counterHeap a') \<and>
    ca_counterHeap a' ! c = (case w of Found c \<Rightarrow> ca_counterHeap a ! c | Fresh lease \<Rightarrow> new_counter cx lease)"
proof (cases w)
  case (Found d)
  then show ?thesis using enter w by (auto simp: enter_counter_def)
next
  case (Fresh lease)
  let ?a = "a\<lparr>ca_counterHeap := ca_counterHeap a @ [new_counter cx lease]\<rparr>"
  let ?f = "\<lambda>run. run\<lparr>ar_counters := AList.update (cx_subscription cx) c (ar_counters run)\<rparr>"
  have a': "a' = on_run r ?f ?a" and c: "c = length (ca_counterHeap a)" using enter Fresh by (auto simp: enter_counter_def Let_def)
  have "arb_moves a ?a" by (rule r_into_rtranclp) (rule mv_new_counter)
  also have "run_quiet ?a (ca_runHeap ?a ! r) (?f (ca_runHeap ?a ! r))"
    using counters_of_run [OF inv r] by (auto simp: run_quiet_def c dest!: in_alist_update intro: less_SucI)
  then have "arb_moves ?a (on_run r ?f ?a)" using r by (intro moves_run) simp_all
  finally show ?thesis by (simp add: a' c Fresh)
qed

lemma moves_enter_control:
  assumes inv: "arb_inv a" and run: "opened_run a (cc_run command) run" and counter: "opened_counter a run (cx_subscription cx) counter"
    and passes: "\<not> counter_refuses a counter (cc_body command)"
  shows "arb_moves a (snd (enter_control run counter command cx payload leases a))"
proof -
  obtain r a1 where e1: "enter_run run (cc_run command) (cx_worker cx) a = (r, a1)" by fastforce
  obtain c a2 where e2: "enter_counter counter r cx a1 = (c, a2)" by fastforce
  note m1 = moves_enter_run [OF inv run e1]
  have inv1: "arb_inv a1" using m1 moves_inv [OF _ inv] by blast
  have found: "case counter of Found c \<Rightarrow> c < length (ca_counterHeap a1) | Fresh _ \<Rightarrow> True"
  proof (cases counter)
    case (Found d)
    then have "(cx_subscription cx, d) \<in> set (ar_counters (ca_runHeap a1 ! r))" using counter m1 by (auto simp: opened_counter_def dest: map_of_SomeD)
    then show ?thesis using Found counters_of_run [OF inv1, of r] m1 by fastforce
  qed simp
  note m2 = moves_enter_counter [OF inv1 _ found e2]
  have "push_counters (ControlJob command cx c) a2 ((ca_counterHeap a2)[c := count_command (cc_body command) (ca_counterHeap a2 ! c)])"
    using passes m1 m2 by (cases counter; cases "cc_body command") (auto simp: push_counters_def counter_refuses_def new_counter_def Let_def)
  moreover have "r < length (ca_runHeap a2)" using m1 m2 moves_grow [of a1 a2] by (auto simp: grows_def)
  ultimately have "arb_moves a2 (snd (push_job r (ControlJob command cx c) payload leases (on_counter c (count_command (cc_body command)) a2)))"
    unfolding on_counter_def by (intro r_into_rtranclp mv_push)
  then have "arb_moves a (snd (push_job r (ControlJob command cx c) payload leases (on_counter c (count_command (cc_body command)) a2)))"
    using m1 m2 by (meson moves_trans)
  then show ?thesis by (simp add: enter_control_def e1 e2)
qed

lemma if_moves:
  "(c \<Longrightarrow> arb_moves a (fst (snd x))) \<Longrightarrow> (\<not> c \<Longrightarrow> arb_moves a (fst (snd y))) \<Longrightarrow> arb_moves a (fst (snd (if c then x else y)))"
  by simp

lemma moves_ca_admit:
  assumes inv: "arb_inv a"
  shows "arb_moves a (fst (snd (ca_admit env still command cx v (a, b))))"
proof -
  obtain w b1 where e1: "open_run a (cc_run command) b = (w, b1)" by fastforce
  show ?thesis
  proof (cases w)
    case None
    show ?thesis unfolding ca_admit_def prod.case Let_def e1 None option.case by (intro if_moves) simp_all
  next
    case (Some run)
    obtain u b2 where e2: "open_counter a run (cx_subscription cx) b1 = (u, b2)" by fastforce
    show ?thesis
    proof (cases u)
      case None
      show ?thesis unfolding ca_admit_def prod.case Let_def e1 Some option.case e2 None by (intro if_moves) simp_all
    next
      case (Some counter)
      obtain l b3 where e3: "take_leases (cc_body command) v b2 = (l, b3)" by fastforce
      have "arb_moves a (snd (enter_control run counter command cx payload leases a))" if "\<not> counter_refuses a counter (cc_body command)" for payload leases
        using moves_enter_control [OF inv open_run_opened open_counter_opened that] e1 e2 \<open>w = Some run\<close> Some by blast
      then show ?thesis unfolding ca_admit_def prod.case Let_def e1 \<open>w = Some run\<close> option.case e2 Some e3
        by (intro if_moves; (cases l)?) (simp_all add: case_prod_beta if_moves)
    qed
  qed
qed

lemma moves_ca_admitProgrammatic:
  assumes inv: "arb_inv a"
  shows "arb_moves a (fst (snd (ca_admitProgrammatic env command bytes (a, b))))"
proof -
  have "arb_moves a (snd (push_job (fst (enter_run w (pg_run command) (pg_worker command) a)) (ProgramJob command None False) bytes leases
      (snd (enter_run w (pg_run command) (pg_worker command) a))))"
    if found: "fst (open_run a (pg_run command) b) = Some w" for w leases
  proof -
    obtain r a' where enter: "enter_run w (pg_run command) (pg_worker command) a = (r, a')" by fastforce
    obtain b' where "open_run a (pg_run command) b = (Some w, b')" using found by (cases "open_run a (pg_run command) b") auto
    note m = moves_enter_run [OF inv open_run_opened [OF this] enter]
    then have "arb_moves a' (snd (push_job r (ProgramJob command None False) bytes leases (a'\<lparr>ca_counterHeap := ca_counterHeap a'\<rparr>)))"
      by (intro r_into_rtranclp mv_push) (simp_all add: push_counters_def)
    then show ?thesis using m by (cases a') (auto simp: enter elim: moves_trans)
  qed
  then show ?thesis by (auto simp: ca_admitProgrammatic_def case_prod_beta split: prod.split option.split)
qed

lemma moves_arb_step: "arb_inv (fst S) \<Longrightarrow> arb_moves (fst S) (fst (arb_step op S))"
  by (cases S; cases op)
    (auto simp: moves_ca_admit moves_ca_admitProgrammatic moves_executes moves_ca_retire moves_ca_event moves_ca_tick moves_ca_dispose moves_ca_resume)

lemma new_arbiter_inv: "new_arbiter owned composition = Inr a \<Longrightarrow> arb_inv a"
  by (auto simp: new_arbiter_def arb_inv_def split: if_splits)

lemma moves_arb_run: "arb_inv (fst S) \<Longrightarrow> arb_moves (fst S) (fst (arb_run_ops ops S))"
  unfolding arb_run_ops_def
proof (induction ops arbitrary: S)
  case (Cons op ops)
  have "arb_moves (fst (arb_step op S)) (fst (fold arb_step ops (arb_step op S)))"
    by (rule Cons.IH [OF moves_inv [OF moves_arb_step [OF Cons.prems] Cons.prems]])
  from moves_trans [OF moves_arb_step [OF Cons.prems] this] show ?case by simp
qed simp

text \<open>The states an arbiter reaches.\<close>

definition arb_reach :: "arbiter \<times> runtime_bytes \<Rightarrow> bool" where
  "arb_reach S \<longleftrightarrow> (\<exists>composition a b ops. new_arbiter False composition = Inr a \<and> S = arb_run_ops ops (a, b))"

lemma arb_reach_inv: "arb_reach S \<Longrightarrow> arb_inv (fst S)"
  using moves_inv [OF moves_arb_run] new_arbiter_inv by (auto simp: arb_reach_def)

lemma arb_reach_run: "arb_reach S \<Longrightarrow> arb_reach (arb_run_ops ops S)"
  unfolding arb_reach_def arb_run_ops_def by (metis fold_append comp_apply)

end
