(* ===== verification/Control_Queue.thy ===== *)
theory Control_Queue
  imports Control_Moves
begin

text \<open>
  The properties of \<open>ControlArbiter\<close> (\<^verbatim>\<open>apps/server/src/terminal/control-arbiter.ts\<close>): what its queues guarantee whatever the
  interleaving of its methods with the worker's answers. The order of the commands, the replies and the settling of jobs read the
  invariant of the moves; the authority of a command is read off the step that sends it.
\<close>

subsection \<open>Settled jobs stay settled\<close>

lemma move_keeps_reply:
  assumes "arb_move a a'" and "arb_inv a" and "j < length (ca_jobHeap a)" and "jb_reply (ca_jobHeap a ! j) \<noteq> None"
  shows "jb_reply (ca_jobHeap a' ! j) = jb_reply (ca_jobHeap a ! j)"
  using assms
proof (induction rule: arb_move.induct)
  case (mv_settle r a i js reply)
  have "jb_reply (ca_jobHeap a ! i) = None" using head_queued(3) [OF mv_settle.prems(1) mv_settle.hyps(1,2)] .
  then have "i \<noteq> j" using mv_settle.prems(3) by auto
  then show ?case by simp
next
  case (mv_dispatch r a i js w p)
  then show ?case by (cases "i = j") simp_all
qed (auto simp: nth_list_update nth_append job_quiet_def push_job_def Let_def)

lemma moves_keep_reply:
  assumes "arb_moves a a'" and "arb_inv a" and "j < length (ca_jobHeap a)" and "jb_reply (ca_jobHeap a ! j) \<noteq> None"
  shows "jb_reply (ca_jobHeap a' ! j) = jb_reply (ca_jobHeap a ! j)"
  using assms
proof (induction rule: rtranclp_induct)
  case (step b c)
  have "arb_inv b" "j < length (ca_jobHeap b)" using moves_inv [OF step.hyps(1)] moves_grow [OF step.hyps(1)] step.prems by (simp_all add: grows_def)
  then show ?case using move_keeps_reply [OF step.hyps(2)] step.IH [OF step.prems] step.prems(3) by simp
qed simp

lemma queue_exact:
  assumes "arb_inv a" and "r < length (ca_runHeap a)"
  shows "ar_queue (ca_runHeap a ! r) = filter (\<lambda>j. jb_run (ca_jobHeap a ! j) = r \<and> jb_reply (ca_jobHeap a ! j) = None) [0..<length (ca_jobHeap a)]"
proof -
  have "queue_order r (ar_queue (ca_runHeap a ! r)) (ca_jobHeap a)" using assms by (simp add: arb_inv_def queue_ok_def)
  then have s: "sorted_wrt (<) (ar_queue (ca_runHeap a ! r))"
    and q: "set (ar_queue (ca_runHeap a ! r)) = set (filter (\<lambda>j. jb_run (ca_jobHeap a ! j) = r \<and> jb_reply (ca_jobHeap a ! j) = None) [0..<length (ca_jobHeap a)])"
    by (auto simp: queue_order_def)
  show ?thesis
    by (rule sorted_distinct_set_unique) (use s q in \<open>auto simp: strict_sorted_iff sorted_wrt_filter\<close>)
qed

subsection \<open>Order\<close>

fun job_counter :: "job_kind \<Rightarrow> handle option" where
  "job_counter (ControlJob _ _ c) = Some c"
| "job_counter (ProgramJob _ _ _) = None"

fun input_seq :: "job_kind \<Rightarrow> number option" where
  "input_seq (ControlJob command _ _) = (case cc_body command of CcInput _ n \<Rightarrow> Some n | _ \<Rightarrow> None)"
| "input_seq (ProgramJob _ _ _) = None"

lemma rises_input:
  "rises k k' \<Longrightarrow> job_counter k = Some c \<Longrightarrow> job_counter k' = Some c \<Longrightarrow> input_seq k = Some n \<Longrightarrow> input_seq k' = Some m \<Longrightarrow> n < m"
  by (cases k; cases k') (auto split: control_body.splits)

text \<open>
  C10. In every reachable state, of two commands that jobs of one run sent to the worker, the earlier one belongs to the job
  admitted earlier: a run's commands go out in the order of their admission and no job sends two. Each command is the one its job
  asks for, and the inputs of one counter carry rising sequence numbers. Later steps never move a run's boundary back.
\<close>

theorem arbiter_order:
  assumes reach: "arb_reach S" and ik: "i < k" "k < length (ca_sent (fst S))"
    and writes: "is_write (ca_sent (fst S) ! i)" "is_write (ca_sent (fst S) ! k)"
  shows "(\<exists>j j'. sn_job (ca_sent (fst S) ! i) = Some j \<and> sn_job (ca_sent (fst S) ! k) = Some j' \<and> j \<noteq> j' \<and>
      sends (jb_kind (ca_jobHeap (fst S) ! j)) (sn_command (ca_sent (fst S) ! i)) \<and>
      sends (jb_kind (ca_jobHeap (fst S) ! j')) (sn_command (ca_sent (fst S) ! k)) \<and>
      (jb_run (ca_jobHeap (fst S) ! j) = jb_run (ca_jobHeap (fst S) ! j') \<longrightarrow> j < j' \<and>
        (\<forall>c n m. job_counter (jb_kind (ca_jobHeap (fst S) ! j)) = Some c \<and> job_counter (jb_kind (ca_jobHeap (fst S) ! j')) = Some c \<and>
           input_seq (jb_kind (ca_jobHeap (fst S) ! j)) = Some n \<and> input_seq (jb_kind (ca_jobHeap (fst S) ! j')) = Some m \<longrightarrow> n < m))) \<and>
    (\<forall>r < length (ca_runHeap (fst S)). boundary_le (ar_boundary (ca_runHeap (fst S) ! r)) (ar_boundary (ca_runHeap (fst (arb_run_ops ops S)) ! r)))"
proof -
  let ?a = "fst S" and ?w = "ca_sent (fst S) ! i" and ?w' = "ca_sent (fst S) ! k"
  have inv: "arb_inv ?a" by (rule arb_reach_inv [OF reach])
  have "write_ok ?a ?w" "write_ok ?a ?w'" using inv ik by (simp_all add: arb_inv_def)
  then obtain j j' where j: "sn_job ?w = Some j" "sends (jb_kind (ca_jobHeap ?a ! j)) (sn_command ?w)"
    and j': "j' < length (ca_jobHeap ?a)" "sn_job ?w' = Some j'" "sends (jb_kind (ca_jobHeap ?a ! j')) (sn_command ?w')"
    using writes by (auto simp: write_ok_def)
  have "sorted_wrt (sent_after ?a) (ca_sent ?a)" using inv by (simp add: arb_inv_def)
  then have "sent_after ?a ?w ?w'" using ik by (simp add: sorted_wrt_iff_nth_less)
  then have order: "jb_run (ca_jobHeap ?a ! j) = jb_run (ca_jobHeap ?a ! j') \<Longrightarrow> j < j'" using writes j(1) j'(2) by (simp add: sent_after_def)
  have "sorted_wrt rises (map jb_kind (ca_jobHeap ?a))" using inv by (simp add: arb_inv_def)
  then have "j < j' \<Longrightarrow> rises (jb_kind (ca_jobHeap ?a ! j)) (jb_kind (ca_jobHeap ?a ! j'))" using j'(1) by (simp add: sorted_wrt_iff_nth_less)
  then have "j < j' \<Longrightarrow> \<forall>c n m. job_counter (jb_kind (ca_jobHeap ?a ! j)) = Some c \<and> job_counter (jb_kind (ca_jobHeap ?a ! j')) = Some c \<and>
      input_seq (jb_kind (ca_jobHeap ?a ! j)) = Some n \<and> input_seq (jb_kind (ca_jobHeap ?a ! j')) = Some m \<longrightarrow> n < m"
    using rises_input by blast
  moreover have "\<forall>r < length (ca_runHeap ?a). boundary_le (ar_boundary (ca_runHeap ?a ! r)) (ar_boundary (ca_runHeap (fst (arb_run_ops ops S)) ! r))"
    using moves_grow [OF moves_arb_run [OF inv]] by (simp add: grows_def)
  moreover have "j \<noteq> j'" using order by auto
  ultimately show ?thesis using order j j'(2,3) by blast
qed

subsection \<open>Replies\<close>

text \<open>
  In every reachable state \<open>pending\<close> counts the admitted jobs that have no reply, each run's queue is exactly its jobs without a
  reply in the order of admission, and a reply belongs to its job: a result passes \<open>validateTerminalResultForCommand\<close> for the command
  of a route's own subscription and only follows a command that was sent, an error names the request, run and command type, and a
  programmatic job that sent nothing reports nothing written and nothing unknown. A reply never changes afterwards.
\<close>

lemma arbiter_replies:
  assumes "arb_reach S"
  shows "ca_pending (fst S) = int (length (filter (\<lambda>job. jb_reply job = None) (ca_jobHeap (fst S)))) \<and>
    (\<forall>r < length (ca_runHeap (fst S)). ar_queue (ca_runHeap (fst S) ! r) =
       filter (\<lambda>j. jb_run (ca_jobHeap (fst S) ! j) = r \<and> jb_reply (ca_jobHeap (fst S) ! j) = None) [0..<length (ca_jobHeap (fst S))]) \<and>
    (\<forall>j < length (ca_jobHeap (fst S)). \<forall>reply. jb_reply (ca_jobHeap (fst S) ! j) = Some reply \<longrightarrow>
       answers (jb_kind (ca_jobHeap (fst S) ! j)) (jb_dispatched (ca_jobHeap (fst S) ! j)) reply \<and>
       jb_reply (ca_jobHeap (fst (arb_run_ops ops S)) ! j) = Some reply)"
proof -
  have inv: "arb_inv (fst S)" by (rule arb_reach_inv [OF assms])
  have "cell_sum unresolved jobs = int (length (filter (\<lambda>job. jb_reply job = None) jobs))" for jobs
    by (induction jobs) (simp_all add: unresolved_def)
  then have "ca_pending (fst S) = int (length (filter (\<lambda>job. jb_reply job = None) (ca_jobHeap (fst S))))" using inv by (simp add: arb_inv_def)
  moreover have "answers (jb_kind (ca_jobHeap (fst S) ! j)) (jb_dispatched (ca_jobHeap (fst S) ! j)) reply \<and>
      jb_reply (ca_jobHeap (fst (arb_run_ops ops S)) ! j) = Some reply"
    if "j < length (ca_jobHeap (fst S))" "jb_reply (ca_jobHeap (fst S) ! j) = Some reply" for j reply
    using inv that moves_keep_reply [OF moves_arb_run [OF inv] inv that(1)] by (simp add: arb_inv_def job_ok_def)
  ultimately show ?thesis using queue_exact [OF inv] by blast
qed

subsection \<open>Authority\<close>

text \<open>The segments that send no command of a job.\<close>

definition quiet_sends :: "arbiter \<Rightarrow> arbiter \<Rightarrow> bool" where
  "quiet_sends a a' \<longleftrightarrow> (\<exists>ws. ca_sent a' = ca_sent a @ ws \<and> (\<forall>w \<in> set ws. \<not> is_write w))"

lemma quiet_same: "ca_sent a' = ca_sent a \<Longrightarrow> quiet_sends a a'"
  by (simp add: quiet_sends_def)

lemma quiet_frame [simp]: "quiet_sends (at_phase r p a) a' = quiet_sends a a'" "quiet_sends (set_cleanup c s a) a' = quiet_sends a a'"
  by (simp_all add: quiet_sends_def set_cleanup_def)

lemma quiet_trans: "quiet_sends a b \<Longrightarrow> quiet_sends b c \<Longrightarrow> quiet_sends a c"
  unfolding quiet_sends_def by (metis append.assoc set_append Un_iff)

lemma quiet_start_control: "quiet_sends a (start_control env r j command cx c a)"
  by (auto simp: start_control_def Let_def quiet_sends_def is_write_def status_command_def)

lemma quiet_start_program: "quiet_sends a (start_program env r j command cancelled a)"
  by (auto simp: start_program_def program_return_def Let_def quiet_sends_def is_write_def status_command_def)

lemma quiet_start_head: "quiet_sends a (start_head env r a)"
  by (simp add: start_head_def quiet_start_control quiet_start_program quiet_same split: list.split job_kind.split)

lemma quiet_cleanup_from: "quiet_sends a (cleanup_from env r i a)"
proof (induction env r i a rule: cleanup_from.induct)
  case (1 env r i a)
  have send: "quiet_sends a (at_phase r p (ca_send None command [] a))" for p command by (simp add: quiet_sends_def is_write_def)
  show ?case
    using 1 send quiet_same [of "at_phase r PhCleaned a" a]
    by (simp add: cleanup_from.simps [of env r i a] Let_def split: option.split)
qed

lemma sent_release_prune [simp]: "ca_sent (fst (release_run r S)) = ca_sent (fst S)" "ca_sent (fst (prune r S)) = ca_sent (fst S)"
  by (cases S; simp add: release_run_def prune_def Let_def)+

lemma quiet_finish_drain: "quiet_sends (fst S) (fst (finish_drain env r S))"
proof -
  have "quiet_sends (fst S) (start_head env r (at_phase r Idle (fst S)))"
    using quiet_start_head [of "at_phase r Idle (fst S)"] by simp
  then show ?thesis by (cases S) (simp add: finish_drain_def Let_def quiet_same)
qed

lemma quiet_drain_loop: "quiet_sends (fst S) (fst (drain_loop env r S))"
  using quiet_finish_drain [of S] by (cases S) (simp add: drain_loop_def quiet_start_head quiet_cleanup_from)

lemma quiet_ca_drain: "quiet_sends (fst S) (fst (ca_drain env r S))"
proof -
  have "quiet_sends (fst S) (fst (drain_loop env r (at_phase r PhRunning (fst S), snd S)))"
    using quiet_drain_loop [of "(at_phase r PhRunning (fst S), snd S)" env r] by simp
  then show ?thesis by (cases S) (simp add: ca_drain_def quiet_same)
qed

lemma sent_settle [simp]:
  "ca_sent (fst (settle_control r j command reply S)) = ca_sent (fst S)" "ca_sent (fst (settle_program r j command' receipt S)) = ca_sent (fst S)"
  by (cases S; simp add: settle_control_def settle_program_def settle_job_def Let_def split: option.split)+

lemma sent_segments [simp]:
  "ca_sent (boundary_read env r command cx c result a) = ca_sent a" "ca_sent (control_answered env r j command cx c b result a) = ca_sent a"
  "ca_sent (program_read env r command' accepts result a) = ca_sent a" "ca_sent (program_return r receipt a) = ca_sent a"
  "ca_sent (cleanup_answered r c b result' a) = ca_sent a"
  by (simp_all add: boundary_read_def control_answered_def program_read_def program_return_def cleanup_answered_def cleanup_unknown_def set_cleanup_def
      Let_def split: runtime_result.split option.split prod.split control_body.split)

lemma quiet_fold:
  assumes "\<And>x S. quiet_sends (fst S) (fst (f x S))"
  shows "quiet_sends (fst S) (fst (fold f xs S))"
proof (induction xs arbitrary: S)
  case (Cons x xs)
  then show ?case using quiet_trans [OF assms Cons] by simp
qed (simp add: quiet_same)

lemma sent_fold_jobs: "(\<And>a j. ca_sent (f j a) = ca_sent a) \<Longrightarrow> ca_sent (fold f js a) = ca_sent a"
  by (induction js arbitrary: a) simp_all

lemma sent_ready_counter [simp]: "ca_sent (ready_counter c j a) = ca_sent a"
  by (simp add: ready_counter_def split: job_kind.split)

lemma quiet_then_drain: "ca_sent a' = ca_sent a \<Longrightarrow> quiet_sends a (fst (ca_drain env r (a', b)))"
  using quiet_ca_drain [of "(a', b)" env r] by (simp add: quiet_sends_def)

lemma quiet_dispose_run: "quiet_sends (fst S) (fst (dispose_run env r S))"
proof -
  have "ca_sent (fold (\<lambda>j. on_job j set_ready) js a) = ca_sent a" for js a by (rule sent_fold_jobs) simp
  then show ?thesis by (cases S) (simp add: dispose_run_def Let_def quiet_then_drain quiet_same)
qed

lemma sent_admits [simp]:
  "ca_sent (fst (snd (ca_admit env still command cx v S))) = ca_sent (fst S)"
  "ca_sent (fst (snd (ca_admitProgrammatic env command' bytes S))) = ca_sent (fst S)"
proof -
  have enter: "ca_sent (snd (enter_run w run worker a)) = ca_sent a" "ca_sent (snd (enter_counter w r cx a)) = ca_sent a"
    "ca_sent (snd (push_job r kind payload leases a)) = ca_sent a" for w run worker a r cx kind payload leases
    by (simp_all add: enter_run_def enter_counter_def push_job_def Let_def split: opened.split)
  have control: "ca_sent (snd (enter_control w u command cx payload leases a)) = ca_sent a" for w u payload leases a
    by (simp add: enter_control_def enter case_prod_beta)
  show "ca_sent (fst (snd (ca_admit env still command cx v S))) = ca_sent (fst S)"
    by (simp add: ca_admit_def control case_prod_beta Let_def split: option.split)
  show "ca_sent (fst (snd (ca_admitProgrammatic env command' bytes S))) = ca_sent (fst S)"
    by (simp add: ca_admitProgrammatic_def enter case_prod_beta split: option.split)
qed

lemma quiet_ca_retire: "quiet_sends (fst S) (fst (ca_retire env ref S))"
proof -
  have "ca_sent (fold (ready_counter c) js a) = ca_sent a" for c js a by (rule sent_fold_jobs) simp
  then show ?thesis by (cases S) (auto simp: ca_retire_def quiet_same intro!: quiet_then_drain split: option.split)
qed

text \<open>Only the continuation of a suspended run can send a job's command.\<close>

lemma quiet_other_ops:
  assumes "\<And>env r answer. op \<noteq> AoResume env r answer"
  shows "quiet_sends (fst S) (fst (arb_step op S))"
proof (cases op)
  case (AoTick env)
  have "quiet_sends (fst S) (fst (fold (\<lambda>(_, r). ca_drain env r) (ca_runs (fst S)) S))"
    by (rule quiet_fold) (simp add: quiet_ca_drain split: prod.split)
  then show ?thesis using AoTick by (simp add: ca_tick_def)
next
  case (AoDispose env)
  have "quiet_sends (fst S) (fst (fold (\<lambda>(_, r). dispose_run env r) (ca_runs (fst S)) ((fst S)\<lparr>ca_disposed := True\<rparr>, snd S)))"
  proof -
    have "quiet_sends ((fst S)\<lparr>ca_disposed := True\<rparr>) (fst (fold (\<lambda>(_, r). dispose_run env r) (ca_runs (fst S)) ((fst S)\<lparr>ca_disposed := True\<rparr>, snd S)))"
      using quiet_fold [of "\<lambda>(_, r). dispose_run env r" "((fst S)\<lparr>ca_disposed := True\<rparr>, snd S)" "ca_runs (fst S)"] by (simp add: quiet_dispose_run split: prod.split)
    then show ?thesis by (simp add: quiet_sends_def)
  qed
  then show ?thesis using AoDispose by (cases S) (simp add: ca_dispose_def quiet_same)
next
  case (AoEvent event)
  then show ?thesis by (simp add: quiet_same ca_event_def split: option.split terminal_event.split)
next
  case (AoResume env r answer)
  then show ?thesis using assms by blast
qed (auto simp: quiet_same quiet_ca_retire ca_execute_def ca_executeProgrammatic_def ca_cancelProgrammatic_def case_prod_beta intro!: quiet_then_drain)

lemma quiet_cleanup_answered: "quiet_sends a (cleanup_from env r i (cleanup_answered r c bd result a))"
proof -
  have "ca_sent (cleanup_answered r c bd result a) = ca_sent a"
    by (simp add: cleanup_answered_def cleanup_unknown_def set_cleanup_def Let_def split: option.splits)
  then show ?thesis using quiet_cleanup_from [of "cleanup_answered r c bd result a" env r i] by (simp add: quiet_sends_def)
qed

text \<open>The right to control: the route is current, the run is placed on its worker, and a command other than focus holds the control epoch.\<close>

fun body_epoch :: "control_body \<Rightarrow> number option" where
  "body_epoch (CcFocus _ _ _) = None"
| "body_epoch (CcBlur epoch) = Some epoch"
| "body_epoch (CcResize epoch _) = Some epoch"
| "body_epoch (CcAppearance epoch _) = Some epoch"
| "body_epoch (CcInput epoch _) = Some epoch"

definition control_authority :: "arbiter_env \<Rightarrow> arbiter \<Rightarrow> control_command \<Rightarrow> route_context \<Rightarrow> arb_counter \<Rightarrow> boundary \<Rightarrow> bool" where
  "control_authority env a command cx counter b \<longleftrightarrow> \<not> ca_disposed a \<and> \<not> ct_retired counter \<and> ae_current env cx \<and>
     placed_on env (cc_run command) (cx_worker cx) \<and>
     (\<forall>epoch. body_epoch (cc_body command) = Some epoch \<longrightarrow>
        by_holder b = Some (holder (cx_subscription cx)) \<and> by_epoch b = epoch \<and> ct_grantEpoch counter = epoch) \<and>
     (\<not> focus_or_blur (cc_body command) \<longrightarrow>
        ae_installed env cx (Some (by_atSeq b)) \<and> ae_installed env cx (Some (max (by_atSeq b) (ct_grantAtSeq counter))))"

lemma matches_holder: "matches v ref \<longleftrightarrow> v = Some (holder ref)"
  by (auto simp: matches_def holder_def split: option.splits)

lemma dispatch_sends:
  assumes "ca_sent (dispatch_control env r j command cx c failed a) = ca_sent a @ ws" and "w \<in> set ws" and "failed = None \<Longrightarrow> ar_boundary (ca_runHeap a ! r) \<noteq> None"
  shows "sn_job w = Some j \<and> pc_worker (sn_command w) = ar_worker (ca_runHeap a ! r) \<and> pc_run (sn_command w) = ar_ref (ca_runHeap a ! r) \<and>
    sn_payload w = (if is_input (cc_body command) then jb_payload (ca_jobHeap a ! j) else []) \<and>
    (\<exists>b. ar_boundary (ca_runHeap a ! r) = Some b \<and> control_authority env a command cx (ca_counterHeap a ! c) b)"
proof (cases failed)
  case None
  then obtain b where b: "ar_boundary (ca_runHeap a ! r) = Some b" using assms(3) by auto
  show ?thesis
  proof (cases "control_pipe env a cx c b (cc_body command)")
    case (Inl kind)
    then show ?thesis using assms(1,2) None b by (simp add: dispatch_control_def Let_def split: if_splits)
  next
    case (Inr body)
    then have cur: "ca_current env a command cx c" "ae_installed env cx (if focus_or_blur (cc_body command) then None else Some (by_atSeq b))"
      and w: "w = \<lparr>sn_job = Some j, sn_command = \<lparr>pc_worker = ar_worker (ca_runHeap a ! r), pc_run = ar_ref (ca_runHeap a ! r), pc_requestId = cx_requestId cx, pc_body = body\<rparr>,
        sn_payload = (if is_input (cc_body command) then jb_payload (ca_jobHeap a ! j) else [])\<rparr>"
      using assms(1,2) None b by (auto simp: dispatch_control_def Let_def split: if_splits)
    have "control_authority env a command cx (ca_counterHeap a ! c) b"
      using cur Inr by (cases "cc_body command") (auto simp: control_authority_def ca_current_def holds_control_def seen_boundary_def matches_holder split: if_splits)
    then show ?thesis using w b by simp
  qed
qed (use assms in \<open>simp add: dispatch_control_def Let_def\<close>)

lemma resume_control_sends:
  assumes "ca_sent (fst (resume_control env r j command cx c p answer (a, b))) = ca_sent a @ ws" and "w \<in> set ws" and "is_write w"
  obtains failed where "p = PhBoundary failed" "ca_sent (dispatch_control env r j command cx c failed a) = ca_sent a @ ws"
proof -
  have quiet: False if "quiet_sends a (fst (resume_control env r j command cx c p answer (a, b)))"
    using that assms by (auto simp: quiet_sends_def)
  have "quiet_sends a (fst (drain_loop env r (settle_control r j command reply (a, b))))" for reply
    using quiet_drain_loop [of "settle_control r j command reply (a, b)" env r] by (simp add: quiet_sends_def)
  then show ?thesis using quiet that assms(1) by (cases p; cases answer) (auto simp: quiet_same)
qed

lemma resume_program_sends:
  assumes "ca_sent (fst (resume_program env r j command accepts p answer (a, b))) = ca_sent a @ ws" and "w \<in> set ws" and "is_write w"
  shows "p = PhProgramAccept \<and> answer = AnsAccept True \<and> program_current env a command \<and> sn_job w = Some j \<and> sn_payload w = jb_payload (ca_jobHeap a ! j)"
proof -
  have quiet: False if "quiet_sends a (fst (resume_program env r j command accepts p answer (a, b)))"
    using that assms by (auto simp: quiet_sends_def)
  have "quiet_sends a (fst (drain_loop env r (settle_program r j command reply (a, b))))" for reply
    using quiet_drain_loop [of "settle_program r j command reply (a, b)" env r] by (simp add: quiet_sends_def)
  then show ?thesis using quiet assms(1,2)
    by (cases p; cases answer) (auto simp: quiet_same program_accepted_def split: if_splits)
qed

text \<open>
  C9. A command of a job reaches the worker only in the step that continues its run, at the head of the queue and not sent before.
  A control command then comes from a current, unretired route whose worker holds the run; input, resize, appearance and blur
  moreover from the subscription that holds control, in the epoch of the command, of the boundary and of its own grant, and (blur
  apart) with the view installed at that boundary; its worker, run and payload are the run's and the job's. Programmatic input is
  sent only after its receipt was confirmed, for a placed run that has not exited.
\<close>

theorem arbiter_authority:
  assumes reach: "arb_reach S" and sent: "ca_sent (fst (arb_step op S)) = ca_sent (fst S) @ ws" and w: "w \<in> set ws" "is_write w"
  shows "\<exists>env r answer j js. op = AoResume env r answer \<and> r < length (ca_runHeap (fst S)) \<and> ar_queue (ca_runHeap (fst S) ! r) = j # js \<and>
    sn_job w = Some j \<and> \<not> jb_dispatched (ca_jobHeap (fst S) ! j) \<and>
    (case jb_kind (ca_jobHeap (fst S) ! j) of
       ControlJob command cx c \<Rightarrow>
         pc_worker (sn_command w) = ar_worker (ca_runHeap (fst S) ! r) \<and> pc_run (sn_command w) = ar_ref (ca_runHeap (fst S) ! r) \<and>
         sn_payload w = (if is_input (cc_body command) then jb_payload (ca_jobHeap (fst S) ! j) else []) \<and>
         (\<exists>b. ar_boundary (ca_runHeap (fst S) ! r) = Some b \<and> control_authority env (fst S) command cx (ca_counterHeap (fst S) ! c) b)
     | ProgramJob command _ _ \<Rightarrow> answer = AnsAccept True \<and> program_current env (fst S) command \<and> sn_payload w = jb_payload (ca_jobHeap (fst S) ! j))"
proof -
  obtain a b where S: "S = (a, b)" by fastforce
  have inv: "arb_inv a" using arb_reach_inv [OF reach] S by simp
  have quiet: "\<not> quiet_sends a (fst (arb_step op S))" using sent w S by (auto simp: quiet_sends_def)
  then obtain env r answer where op: "op = AoResume env r answer" using quiet_other_ops [of op S] S by auto
  have r: "r < length (ca_runHeap a)" using quiet op S by (auto simp: quiet_same split: if_splits)
  have "quiet_sends a (fst (resume_cleanup env r p answer (a, b)))" for p
    using quiet_cleanup_answered quiet_finish_drain [of "(a, b)" env r] by (cases p; cases answer) (simp_all add: quiet_same)
  then have nc: "\<not> cleaning (ar_phase (ca_runHeap a ! r))" using quiet op S r by (auto simp: ca_resume_def Let_def)
  then obtain j js where q: "ar_queue (ca_runHeap a ! r) = j # js"
    using quiet op S r by (cases "ar_queue (ca_runHeap a ! r)") (auto simp: ca_resume_def Let_def quiet_same)
  note kind = head_queued(4) [OF inv r q]
  show ?thesis
  proof (cases "jb_kind (ca_jobHeap a ! j)")
    case (ControlJob command cx c)
    then obtain failed where p: "ar_phase (ca_runHeap a ! r) = PhBoundary failed" "ca_sent (dispatch_control env r j command cx c failed a) = ca_sent a @ ws"
      using sent w op S r q nc resume_control_sends [of env r j command cx c "ar_phase (ca_runHeap a ! r)" answer a b ws w] by (auto simp: ca_resume_def Let_def)
    then show ?thesis using dispatch_sends [OF p(2) w(1)] kind ControlJob op r q S by simp
  next
    case (ProgramJob command cancelled accepts)
    then have "ar_phase (ca_runHeap a ! r) = PhProgramAccept \<and> answer = AnsAccept True \<and> program_current env a command \<and> sn_job w = Some j \<and> sn_payload w = jb_payload (ca_jobHeap a ! j)"
      using sent w op S r q nc resume_program_sends [of env r j command accepts "ar_phase (ca_runHeap a ! r)" answer a b ws w] by (simp add: ca_resume_def Let_def)
    then show ?thesis using kind ProgramJob op r q S by simp
  qed
qed

end
