(* ===== verification/Control_Settle.thy ===== *)
theory Control_Settle
  imports Control_Queue
begin

text \<open>
  Every released job of \<open>ControlArbiter\<close> is answered. A run whose loop is not at work has no released head, so \<open>drain\<close> never
  sleeps on a job it could perform; and a job at the head of a queue is settled after at most four answers of the environment to
  the calls its run is suspended at, whatever the other methods do in between.
\<close>

subsection \<open>Released jobs stay released\<close>

lemma ready_update: "jb_ready job = jb_ready (xs ! i) \<Longrightarrow> jb_ready (xs[i := job] ! k) = jb_ready (xs ! k)"
  by (cases "k = i"; cases "i < length xs") (simp_all add: list_update_beyond)

lemma move_keeps_ready: "arb_move a a' \<Longrightarrow> j < length (ca_jobHeap a) \<Longrightarrow> jb_ready (ca_jobHeap a ! j) \<Longrightarrow> jb_ready (ca_jobHeap a' ! j)"
  by (induction rule: arb_move.induct) (auto simp: ready_update nth_list_update nth_append job_quiet_def push_job_def Let_def)

lemma moves_keep_ready:
  assumes "arb_moves a a'" and "j < length (ca_jobHeap a)" and "jb_ready (ca_jobHeap a ! j)"
  shows "jb_ready (ca_jobHeap a' ! j)"
  using assms
proof (induction rule: rtranclp_induct)
  case (step b c)
  have "j < length (ca_jobHeap b)" using moves_grow [OF step.hyps(1)] step.prems by (simp add: grows_def)
  then show ?case using move_keeps_ready [OF step.hyps(2)] step.IH [OF step.prems] by simp
qed simp

subsection \<open>A loop works on its own run\<close>

text \<open>What the loop of run \<open>q\<close> may change: its own run, and of the jobs anything but their release.\<close>

definition aside :: "handle \<Rightarrow> arbiter \<Rightarrow> arbiter \<Rightarrow> bool" where
  "aside q a a' \<longleftrightarrow> length (ca_runHeap a') = length (ca_runHeap a) \<and> (\<forall>r. r \<noteq> q \<longrightarrow> ca_runHeap a' ! r = ca_runHeap a ! r) \<and>
     (\<forall>j. jb_ready (ca_jobHeap a' ! j) = jb_ready (ca_jobHeap a ! j))"

lemma aside_refl [simp]: "aside q a a"
  by (simp add: aside_def)

lemma aside_trans: "aside q a b \<Longrightarrow> aside q b c \<Longrightarrow> aside q a c"
  by (simp add: aside_def)

lemma aside_update [simp]:
  "aside q a (at_phase q p a') = aside q a a'" "aside q a (on_run q f a') = aside q a a'" "aside q a (ca_send w c bytes a') = aside q a a'"
  "aside q a (on_counter c' g a') = aside q a a'" "aside q a (set_cleanup c' s a') = aside q a a'"
  "aside q a (on_job j (\<lambda>job. job\<lparr>jb_dispatched := True\<rparr>) a') = aside q a a'"
  by (simp_all add: aside_def set_cleanup_def ready_update)

lemma aside_from [simp]: "aside q (at_phase q p a) a' = aside q a a'" "aside q (set_cleanup c s a) a' = aside q a a'"
  by (simp_all add: aside_def set_cleanup_def)

lemma aside_start_head: "aside q a (start_head env q a)"
  by (simp add: start_head_def start_control_def start_program_def program_return_def Let_def split: list.split job_kind.split)

lemma aside_cleanup_from: "aside q a (cleanup_from env q i a)"
proof (induction env q i a rule: cleanup_from.induct)
  case (1 env q i a)
  then show ?case by (simp add: cleanup_from.simps [of env q i a] Let_def split: option.split)
qed

lemma aside_release_prune: "aside q (fst S) (fst (release_run q S))" "aside q (fst S) (fst (prune q S))"
  by (cases S; simp add: release_run_def prune_def Let_def; simp add: aside_def)+

lemma aside_finish_drain: "aside q (fst S) (fst (finish_drain env q S))"
proof -
  obtain a b where S: "S = (a, b)" by fastforce
  show ?thesis
    using aside_start_head [of q "at_phase q Idle a" env] aside_release_prune [of q "(at_phase q Idle a, b)"]
    by (simp add: S finish_drain_def Let_def)
qed

lemma aside_drain_loop: "aside q (fst S) (fst (drain_loop env q S))"
  using aside_finish_drain [of q S] by (cases S) (simp add: drain_loop_def aside_start_head aside_cleanup_from)

lemma aside_ca_drain: "aside q (fst S) (fst (ca_drain env q S))"
proof -
  have "aside q (fst S) (fst (drain_loop env q (at_phase q PhRunning (fst S), snd S)))"
    using aside_drain_loop [of q "(at_phase q PhRunning (fst S), snd S)" env] by simp
  then show ?thesis by (cases S) (simp add: ca_drain_def)
qed

lemma aside_settle:
  "aside q (fst S) (fst (settle_control q j command reply S))" "aside q (fst S) (fst (settle_program q j command' receipt S))"
  by (cases S; simp add: settle_control_def settle_program_def settle_job_def Let_def aside_def ready_update split: option.split)+

lemma aside_segments:
  "aside q a (boundary_read env q command cx c result a)" "aside q a (dispatch_control env q j command cx c failed a)"
  "aside q a (control_answered env q j command cx c bd result a)" "aside q a (program_read env q command' accepts result a)"
  "aside q a (program_accepted env q j command' confirmed a)" "aside q a (program_return q receipt a)" "aside q a (cleanup_answered q c bd result' a)"
  by (simp_all add: boundary_read_def dispatch_control_def control_answered_def program_read_def program_accepted_def program_return_def
      cleanup_answered_def cleanup_unknown_def Let_def split: runtime_result.split option.split prod.split control_body.split sum.split)

lemma aside_ca_resume: "aside q (fst S) (fst (ca_resume env q answer S))"
proof -
  obtain a b where S: "S = (a, b)" by fastforce
  have loop: "aside q a (fst (drain_loop env q T))" if "aside q a (fst T)" for T
    by (rule aside_trans [OF that aside_drain_loop])
  have jobs: "aside q a (fst (resume_control env q j command cx c p answer (a, b)))"
    "aside q a (fst (resume_program env q j command' accepts p answer (a, b)))" for j command command' cx c accepts p
    using aside_settle [of q "(a, b)"] by (cases p; cases answer; simp add: aside_segments loop)+
  have "aside q a (cleanup_from env q i (cleanup_answered q c bd result a))" for i c bd result
    by (rule aside_trans [OF aside_segments(7) aside_cleanup_from])
  then have "aside q a (fst (resume_cleanup env q p answer (a, b)))" for p
    using aside_finish_drain [of q "(a, b)" env] by (cases p; cases answer) simp_all
  then show ?thesis using jobs by (simp add: S ca_resume_def Let_def split: list.split job_kind.split)
qed

subsection \<open>A loop that is not at work has nothing to do\<close>

definition rests :: "handle \<Rightarrow> arbiter \<Rightarrow> bool" where
  "rests r a \<longleftrightarrow> ar_phase (ca_runHeap a ! r) \<noteq> PhRunning \<and> (ar_phase (ca_runHeap a ! r) = Idle \<longrightarrow> \<not> head_ready r a)"

definition at_rest :: "arbiter \<Rightarrow> bool" where
  "at_rest a \<longleftrightarrow> (\<forall>r < length (ca_runHeap a). rests r a)"

lemma head_ready_iff: "head_ready r a \<longleftrightarrow> ar_queue (ca_runHeap a ! r) \<noteq> [] \<and> jb_ready (ca_jobHeap a ! hd (ar_queue (ca_runHeap a ! r)))"
  by (simp add: head_ready_def split: list.split)

lemma rests_cong: "ca_runHeap a' ! r = ca_runHeap a ! r \<Longrightarrow> head_ready r a' = head_ready r a \<Longrightarrow> rests r a' = rests r a"
  by (simp add: rests_def)

lemma rests_working: "busy (ar_phase (ca_runHeap a ! r)) \<or> cleaning (ar_phase (ca_runHeap a ! r)) \<Longrightarrow> rests r a"
  by (auto simp: rests_def)

lemma aside_rests: "aside q a a' \<Longrightarrow> r \<noteq> q \<Longrightarrow> rests r a' = rests r a"
  by (intro rests_cong) (simp_all add: aside_def head_ready_def split: list.split)

lemma aside_at_rest: "aside q a a' \<Longrightarrow> at_rest a \<Longrightarrow> rests q a' \<Longrightarrow> at_rest a'"
  unfolding at_rest_def by (metis aside_rests aside_def)

lemma started: "r < length (ca_runHeap a) \<Longrightarrow> ar_queue (ca_runHeap a ! r) \<noteq> [] \<Longrightarrow> busy (ar_phase (ca_runHeap (start_head env r a) ! r))"
  by (simp add: start_head_def start_control_def start_program_def program_return_def Let_def split: list.split job_kind.split)

lemma cleanup_cleaning: "r < length (ca_runHeap a) \<Longrightarrow> cleaning (ar_phase (ca_runHeap (cleanup_from env r i a) ! r))"
proof (induction env r i a rule: cleanup_from.induct)
  case (1 env r i a)
  then show ?case by (simp add: cleanup_from.simps [of env r i a] Let_def split: option.split)
qed

lemma head_ready_queue: "head_ready r a \<Longrightarrow> ar_queue (ca_runHeap a ! r) \<noteq> []"
  by (auto simp: head_ready_def)

lemma rests_release_prune:
  assumes "r < length (ca_runHeap a)"
  shows "rests r (fst (release_run r (a, b))) = rests r a" "rests r (fst (prune r (a, b))) = rests r a"
  using assms by (simp_all add: release_run_def prune_def Let_def rests_def head_ready_iff)

lemma rests_start_head: "r < length (ca_runHeap a) \<Longrightarrow> head_ready r a \<Longrightarrow> rests r (start_head env r a)"
  using started [of r a env] by (intro rests_working) (simp add: head_ready_queue)

lemma rests_finish_drain:
  assumes "r < length (ca_runHeap (fst S))"
  shows "rests r (fst (finish_drain env r S))"
proof -
  obtain a b where S: "S = (a, b)" by fastforce
  let ?a = "at_phase r Idle a"
  have r: "r < length (ca_runHeap ?a)" using assms by (simp add: S)
  have idle: "rests r ?a" if "\<not> head_ready r ?a" using that assms by (simp add: S rests_def)
  have empty: "\<not> head_ready r ?a" if "ar_queue (ca_runHeap ?a ! r) = []" using that head_ready_queue by blast
  have "rests r (fst (release_run r (?a, b)))" if "ar_queue (ca_runHeap ?a ! r) = []"
    using idle [OF empty [OF that]] rests_release_prune [OF r] by blast
  moreover have "rests r (fst (prune r (?a, b)))" if "\<not> head_ready r ?a" using idle [OF that] rests_release_prune [OF r] by blast
  ultimately show ?thesis using rests_start_head [OF r] by (simp add: S finish_drain_def Let_def del: at_phase_simps)
qed

lemma rests_drain_loop:
  assumes "r < length (ca_runHeap (fst S))"
  shows "rests r (fst (drain_loop env r S))"
proof -
  obtain a b where S: "S = (a, b)" by fastforce
  have r: "r < length (ca_runHeap a)" using assms by (simp add: S)
  have "rests r (cleanup_from env r 0 a)" using cleanup_cleaning [OF r] by (blast intro: rests_working)
  then show ?thesis using rests_finish_drain [OF assms] rests_start_head [OF r] by (simp add: S drain_loop_def)
qed

lemma rests_ca_drain:
  assumes "r < length (ca_runHeap (fst S))" and "ar_phase (ca_runHeap (fst S) ! r) \<noteq> PhRunning"
  shows "rests r (fst (ca_drain env r S))"
proof -
  have "rests r (fst (drain_loop env r (at_phase r PhRunning (fst S), snd S)))" by (rule rests_drain_loop) (use assms(1) in simp)
  then show ?thesis using assms(2) by (cases S) (simp add: ca_drain_def rests_def)
qed

lemma at_rest_drain:
  assumes rest: "at_rest a" and q: "q < length (ca_runHeap a)" and same: "ca_runHeap a' = ca_runHeap a"
    and heads: "\<And>r. r < length (ca_runHeap a) \<Longrightarrow> r \<noteq> q \<Longrightarrow> head_ready r a' = head_ready r a"
  shows "at_rest (fst (ca_drain env q (a', b)))"
proof -
  define c where "c = fst (ca_drain env q (a', b))"
  have aside: "aside q a' c" using aside_ca_drain [of q "(a', b)" env] by (simp add: c_def)
  have own: "rests q c" unfolding c_def using rest q by (intro rests_ca_drain) (simp_all add: same at_rest_def rests_def)
  have "rests r c" if r: "r < length (ca_runHeap a)" for r
  proof (cases "r = q")
    case False
    have "rests r a'" using rests_cong [of a' r a] heads [OF r False] rest r by (simp add: same at_rest_def)
    then show ?thesis using aside_rests [OF aside False] by simp
  qed (use own in simp)
  moreover have "length (ca_runHeap c) = length (ca_runHeap a)" using aside by (simp add: aside_def same)
  ultimately show ?thesis by (simp add: at_rest_def flip: c_def)
qed

text \<open>The methods that release jobs of one run and then drain it.\<close>

lemma head_of_other:
  assumes inv: "arb_inv a" and r: "r < length (ca_runHeap a)" and only: "\<And>j. jb_run (ca_jobHeap a ! j) = r \<Longrightarrow> jb_ready (ca_jobHeap a' ! j) = jb_ready (ca_jobHeap a ! j)"
    and same: "ca_runHeap a' = ca_runHeap a"
  shows "head_ready r a' = head_ready r a"
proof (cases "ar_queue (ca_runHeap a ! r)")
  case (Cons j js)
  then show ?thesis using head_queued(2) [OF inv r Cons] only [of j] by (simp add: head_ready_def same)
qed (simp add: head_ready_def same)

lemma releases_jobs:
  assumes "\<And>a j. ca_runHeap (f j a) = ca_runHeap a" and "\<And>a j. f j a = on_job j set_ready a \<or> f j a = a"
  shows "ca_runHeap (fold f js a) = ca_runHeap a"
    and "j \<notin> set js \<Longrightarrow> ca_jobHeap (fold f js a) ! j = ca_jobHeap a ! j"
proof -
  have "ca_jobHeap (f i a) ! j = ca_jobHeap a ! j" if "i \<noteq> j" for i j a using assms(2) [of i a] that by auto
  then show "j \<notin> set js \<Longrightarrow> ca_jobHeap (fold f js a) ! j = ca_jobHeap a ! j" by (induction js arbitrary: a) auto
  show "ca_runHeap (fold f js a) = ca_runHeap a" by (induction js arbitrary: a) (simp_all add: assms(1))
qed

lemma at_rest_executes:
  assumes inv: "arb_inv a" and rest: "at_rest a" and j: "j < length (ca_jobHeap a)"
  shows "at_rest (fst (ca_execute env j (a, b)))" "at_rest (fst (ca_executeProgrammatic env j (a, b)))"
    "at_rest (fst (ca_cancelProgrammatic env j reason (a, b)))"
proof -
  have "head_ready r (on_job j f a) = head_ready r a" if "r < length (ca_runHeap a)" "r \<noteq> jb_run (ca_jobHeap a ! j)" for r f
  proof (rule head_of_other [OF inv that(1)])
    fix i assume "jb_run (ca_jobHeap a ! i) = r"
    then have "j \<noteq> i" using that(2) by auto
    then show "jb_ready (ca_jobHeap (on_job j f a) ! i) = jb_ready (ca_jobHeap a ! i)" by simp
  qed simp
  then show "at_rest (fst (ca_execute env j (a, b)))" "at_rest (fst (ca_executeProgrammatic env j (a, b)))"
    "at_rest (fst (ca_cancelProgrammatic env j reason (a, b)))"
    unfolding ca_execute_def ca_executeProgrammatic_def ca_cancelProgrammatic_def prod.case
    by (intro at_rest_drain [OF rest run_of_job [OF inv j]]; simp)+
qed

lemma at_rest_release:
  assumes inv: "arb_inv a" and rest: "at_rest a" and q: "q < length (ca_runHeap a)"
    and f: "\<And>a j. ca_runHeap (f j a) = ca_runHeap a" "\<And>a j. f j a = on_job j set_ready a \<or> f j a = a"
    and a': "ca_runHeap a' = ca_runHeap a" "ca_jobHeap a' = ca_jobHeap (fold f (ar_queue (ca_runHeap a ! q)) a)"
  shows "at_rest (fst (ca_drain env q (a', b)))"
proof (rule at_rest_drain [OF rest q a'(1)])
  fix r assume r: "r < length (ca_runHeap a)" "r \<noteq> q"
  have "jb_run (ca_jobHeap a ! j) = q" if "j \<in> set (ar_queue (ca_runHeap a ! q))" for j
    using inv q that queue_exact [OF inv q] by auto
  then have "j \<notin> set (ar_queue (ca_runHeap a ! q))" if "jb_run (ca_jobHeap a ! j) = r" for j using that r(2) by blast
  then show "head_ready r a' = head_ready r a"
    by (intro head_of_other [OF inv r(1) _ a'(1)]) (simp add: a'(2) releases_jobs(2) [OF f])
qed

lemma at_rest_ca_retire:
  assumes "arb_inv a" and "at_rest a"
  shows "at_rest (fst (ca_retire env ref (a, b)))"
proof -
  have f: "ca_runHeap (ready_counter c j a) = ca_runHeap a" "ready_counter c j a = on_job j set_ready a \<or> ready_counter c j a = a" for c j a
    by (simp_all add: ready_counter_def split: job_kind.split)
  have "at_rest (fst (ca_drain env q (on_counter c g (fold (ready_counter c) (ar_queue (ca_runHeap a ! q)) a), b)))"
    if "map_of (ca_runs a) k = Some q" for c g k q
    by (rule at_rest_release [OF assms listed_run [OF assms(1) that] f]) (simp_all add: releases_jobs(1) [OF f])
  then show ?thesis using assms by (simp add: ca_retire_def split: option.split)
qed

lemma at_rest_dispose_run:
  assumes inv: "arb_inv a" and rest: "at_rest a" and r: "r < length (ca_runHeap a)"
  shows "at_rest (fst (dispose_run env r (a, b)))"
proof -
  let ?a = "fold (\<lambda>j. on_job j set_ready) (ar_queue (ca_runHeap a ! r)) a"
  have f: "ca_runHeap (on_job j set_ready a) = ca_runHeap a" "on_job j set_ready a = on_job j set_ready a \<or> on_job j set_ready a = a" for j a
    by simp_all
  have same: "ca_runHeap ?a = ca_runHeap a" by (rule releases_jobs(1) [OF f])
  have "at_rest (fst (release_run r (?a, b)))" if empty: "ar_queue (ca_runHeap a ! r) = []"
  proof (rule aside_at_rest [OF _ rest])
    show "aside r a (fst (release_run r (?a, b)))" using aside_release_prune(1) [of r "(a, b)"] by (simp add: empty)
    show "rests r (fst (release_run r (?a, b)))" using rest r by (simp add: empty rests_release_prune(1) at_rest_def)
  qed
  then show ?thesis using at_rest_release [OF inv rest r f same refl] by (simp add: dispose_run_def Let_def same)
qed

lemma at_rest_fold_runs:
  assumes moves: "\<And>a b x. arb_inv a \<Longrightarrow> snd x < length (ca_runHeap a) \<Longrightarrow> arb_moves a (fst (f x (a, b)))"
    and step: "\<And>a b x. arb_inv a \<Longrightarrow> at_rest a \<Longrightarrow> snd x < length (ca_runHeap a) \<Longrightarrow> at_rest (fst (f x (a, b)))"
    and "arb_inv a" and "at_rest a" and "\<forall>x \<in> set xs. snd x < length (ca_runHeap a)"
  shows "at_rest (fst (fold f xs (a, b)))"
  using assms(3-)
proof (induction xs arbitrary: a b)
  case (Cons x xs)
  obtain a' b' where S: "f x (a, b) = (a', b')" by fastforce
  have first: "arb_moves a a'" and rest: "at_rest a'" using moves [of a x b] step [of a x b] Cons.prems S by simp_all
  have "at_rest (fst (fold f xs (a', b')))"
    using Cons.prems moves_grow [OF first] by (intro Cons.IH moves_inv [OF first] rest) (auto simp: grows_def)
  then show ?case by (simp add: S)
qed simp

lemma at_rest_ca_tick: "arb_inv a \<Longrightarrow> at_rest a \<Longrightarrow> at_rest (fst (ca_tick env (a, b)))"
  unfolding ca_tick_def fst_conv
  by (intro at_rest_fold_runs listed_runs) (auto simp: moves_ca_drain intro: at_rest_drain split: prod.split)

lemma at_rest_ca_dispose:
  assumes inv: "arb_inv a" and rest: "at_rest a"
  shows "at_rest (fst (ca_dispose env (a, b)))"
proof -
  let ?a = "a\<lparr>ca_disposed := True\<rparr>"
  have "arb_inv ?a" by (rule arb_move_inv [OF mv_disposed inv])
  moreover have "at_rest ?a" using rest by (simp add: at_rest_def rests_def head_ready_iff)
  ultimately have "at_rest (fst (fold (\<lambda>(_, r). dispose_run env r) (ca_runs a) (?a, b)))"
    using listed_runs [OF inv] by (intro at_rest_fold_runs) (auto simp: moves_dispose_run at_rest_dispose_run split: prod.split)
  then show ?thesis using rest by (simp add: ca_dispose_def)
qed

lemma rests_update:
  assumes "r < length (ca_runHeap a) \<Longrightarrow> ar_phase (f (ca_runHeap a ! r)) = ar_phase (ca_runHeap a ! r) \<and> ar_queue (f (ca_runHeap a ! r)) = ar_queue (ca_runHeap a ! r)"
  shows "rests q (on_run r f a) = rests q a"
proof -
  have "ar_phase (ca_runHeap (on_run r f a) ! q) = ar_phase (ca_runHeap a ! q) \<and> ar_queue (ca_runHeap (on_run r f a) ! q) = ar_queue (ca_runHeap a ! q)"
    using assms by (cases "q = r"; cases "r < length (ca_runHeap a)") (simp_all add: list_update_beyond)
  then show ?thesis by (simp add: rests_def head_ready_iff)
qed

lemma at_rest_ca_event: "at_rest a \<Longrightarrow> at_rest (ca_event event a)"
  using rests_update [of _ a "observe_fact e" for e] by (simp add: ca_event_def at_rest_def split: option.split terminal_event.split)

subsection \<open>The continuations\<close>

text \<open>How many answers the job at work still waits for, at most, and which answers its call can have.\<close>

fun awaits :: "phase \<Rightarrow> nat" where
  "awaits PhStatus = 4"
| "awaits (PhBoundary _) = 3"
| "awaits (PhPipe _) = 2"
| "awaits (PhReturned _) = 1"
| "awaits PhProgramStatus = 4"
| "awaits PhProgramAccept = 3"
| "awaits PhProgramWrite = 2"
| "awaits (PhProgramReturned _) = 1"
| "awaits _ = 0"

fun fits :: "phase \<Rightarrow> answer \<Rightarrow> bool" where
  "fits PhStatus answer \<longleftrightarrow> (case answer of AnsResult _ \<Rightarrow> True | AnsThrow \<Rightarrow> True | _ \<Rightarrow> False)"
| "fits (PhBoundary _) answer \<longleftrightarrow> answer = AnsTick"
| "fits (PhPipe _) answer \<longleftrightarrow> (case answer of AnsResult _ \<Rightarrow> True | AnsThrow \<Rightarrow> True | _ \<Rightarrow> False)"
| "fits (PhReturned _) answer \<longleftrightarrow> answer = AnsTick"
| "fits PhProgramStatus answer \<longleftrightarrow> (case answer of AnsResult _ \<Rightarrow> True | AnsThrow \<Rightarrow> True | _ \<Rightarrow> False)"
| "fits PhProgramAccept answer \<longleftrightarrow> (case answer of AnsAccept _ \<Rightarrow> True | AnsThrow \<Rightarrow> True | _ \<Rightarrow> False)"
| "fits PhProgramWrite answer \<longleftrightarrow> (case answer of AnsResult _ \<Rightarrow> True | AnsThrow \<Rightarrow> True | _ \<Rightarrow> False)"
| "fits (PhProgramReturned _) answer \<longleftrightarrow> answer = AnsTick"
| "fits _ answer \<longleftrightarrow> False"

lemma awaits_busy: "0 < awaits p \<longleftrightarrow> busy p" "awaits p \<le> 4"
  by (cases p; simp)+

lemma busy_not_cleaning: "busy p \<Longrightarrow> \<not> cleaning p"
  by (cases p) simp_all

definition shifts :: "handle \<Rightarrow> nat \<Rightarrow> arbiter \<Rightarrow> arbiter \<Rightarrow> bool" where
  "shifts r n a a' \<longleftrightarrow> ar_queue (ca_runHeap a' ! r) = ar_queue (ca_runHeap a ! r) \<and>
     0 < awaits (ar_phase (ca_runHeap a' ! r)) \<and> awaits (ar_phase (ca_runHeap a' ! r)) < n"

lemma shifts_segments:
  assumes "r < length (ca_runHeap a)"
  shows "shifts r 4 a (boundary_read env r command cx c result a)" "shifts r 3 a (dispatch_control env r j command cx c failed a)"
    "shifts r 2 a (control_answered env r j command cx c bd result a)" "shifts r 4 a (program_read env r command' accepts result a)"
    "shifts r 3 a (program_accepted env r j command' confirmed a)" "shifts r 2 a (program_return r receipt a)"
    "shifts r 4 a (at_phase r (PhReturned reply) a)" "shifts r 2 a (at_phase r (PhReturned reply) a)"
    "shifts r 4 a (at_phase r (PhProgramReturned receipt') a)" "shifts r 3 a (at_phase r (PhProgramReturned receipt') a)"
    "shifts r 2 a (at_phase r (PhProgramReturned receipt') a)"
  using assms
  by (simp_all add: shifts_def boundary_read_def dispatch_control_def control_answered_def program_read_def program_accepted_def program_return_def
      Let_def split: runtime_result.split option.split prod.split control_body.split sum.split)

text \<open>The state after the head was settled.\<close>

definition settles_head :: "handle \<Rightarrow> handle \<Rightarrow> arbiter \<Rightarrow> arbiter \<Rightarrow> bool" where
  "settles_head r j a a' \<longleftrightarrow> ar_queue (ca_runHeap a' ! r) = tl (ar_queue (ca_runHeap a ! r)) \<and> jb_reply (ca_jobHeap a' ! j) \<noteq> None \<and>
     length (ca_runHeap a') = length (ca_runHeap a)"

definition drained :: "arbiter_env \<Rightarrow> handle \<Rightarrow> handle \<Rightarrow> arbiter \<Rightarrow> arbiter \<times> runtime_bytes \<Rightarrow> bool" where
  "drained env r j a S' \<longleftrightarrow> (\<exists>T. S' = drain_loop env r T \<and> settles_head r j a (fst T))"

lemma drained_settle:
  assumes "r < length (ca_runHeap a)" and "j < length (ca_jobHeap a)"
  shows "drained env r j a (drain_loop env r (settle_control r j command reply (a, b)))"
    "drained env r j a (drain_loop env r (settle_program r j command' receipt (a, b)))"
proof -
  have "settles_head r j a (fst (settle_control r j command reply (a, b)))" "settles_head r j a (fst (settle_program r j command' receipt (a, b)))"
    using assms by (simp_all add: settles_head_def settle_control_def settle_program_def settle_job_def Let_def split: option.split)
  then show "drained env r j a (drain_loop env r (settle_control r j command reply (a, b)))"
    "drained env r j a (drain_loop env r (settle_program r j command' receipt (a, b)))" unfolding drained_def by blast+
qed

lemma resume_fits:
  assumes inv: "arb_inv a" and r: "r < length (ca_runHeap a)" and q: "ar_queue (ca_runHeap a ! r) = j # js" and fits: "fits (ar_phase (ca_runHeap a ! r)) answer"
  shows "shifts r (awaits (ar_phase (ca_runHeap a ! r))) a (fst (ca_resume env r answer (a, b))) \<or>
    awaits (ar_phase (ca_runHeap a ! r)) = 1 \<and> drained env r j a (ca_resume env r answer (a, b))"
proof -
  note j = head_queued(1) [OF inv r q] and kind = head_queued(4) [OF inv r q]
  have nc: "\<not> cleaning (ar_phase (ca_runHeap a ! r))" using fits by (cases "ar_phase (ca_runHeap a ! r)") simp_all
  show ?thesis
  proof (cases "jb_kind (ca_jobHeap a ! j)")
    case (ControlJob command cx c)
    then have "ca_resume env r answer (a, b) = resume_control env r j command cx c (ar_phase (ca_runHeap a ! r)) answer (a, b)" using nc q by (simp add: ca_resume_def)
    then show ?thesis using fits kind ControlJob
      by (cases "ar_phase (ca_runHeap a ! r)"; cases answer) (simp_all add: shifts_segments [OF r] drained_settle [OF r j])
  next
    case (ProgramJob command cancelled accepts)
    then have "ca_resume env r answer (a, b) = resume_program env r j command accepts (ar_phase (ca_runHeap a ! r)) answer (a, b)" using nc q by (simp add: ca_resume_def)
    then show ?thesis using fits kind ProgramJob
      by (cases "ar_phase (ca_runHeap a ! r)"; cases answer) (simp_all add: shifts_segments [OF r] drained_settle [OF r j])
  qed
qed

lemma resume_misfits:
  assumes "busy (ar_phase (ca_runHeap a ! r))" and "\<not> fits (ar_phase (ca_runHeap a ! r)) answer"
  shows "ca_resume env r answer (a, b) = (a, b)"
proof -
  have "resume_control env r j command cx c (ar_phase (ca_runHeap a ! r)) answer (a, b) = (a, b)"
    "resume_program env r j command' accepts (ar_phase (ca_runHeap a ! r)) answer (a, b) = (a, b)" for j command cx c command' accepts
    using assms by (cases "ar_phase (ca_runHeap a ! r)"; cases answer; simp)+
  then show ?thesis using busy_not_cleaning [OF assms(1)] by (simp add: ca_resume_def Let_def split: list.split job_kind.split)
qed

lemma rests_resume:
  assumes inv: "arb_inv a" and rest: "at_rest a" and r: "r < length (ca_runHeap a)"
  shows "rests r (fst (ca_resume env r answer (a, b)))"
proof -
  let ?p = "ar_phase (ca_runHeap a ! r)" and ?S = "ca_resume env r answer (a, b)"
  have here: "rests r a" using rest r by (simp add: at_rest_def)
  consider (idle) "\<not> busy ?p" "\<not> cleaning ?p" | (cleaning) "cleaning ?p" | (busy) "busy ?p" by blast
  then show ?thesis
  proof cases
    case idle
    then have "?S = (a, b)" by (cases ?p; cases answer) (simp_all add: ca_resume_def Let_def split: list.split job_kind.split)
    then show ?thesis using here by simp
  next
    case cleaning
    have "length (ca_runHeap (cleanup_answered r c bd result a)) = length (ca_runHeap a)" for c bd result
      using aside_segments(7) by (simp add: aside_def)
    then have "rests r (cleanup_from env r i (cleanup_answered r c bd result a))" for i c bd result
      using cleanup_cleaning r by (intro rests_working) simp
    then show ?thesis using cleaning here rests_finish_drain [of r "(a, b)" env] r
      by (cases ?p; cases answer) (simp_all add: ca_resume_def Let_def)
  next
    case busy
    show ?thesis
    proof (cases "fits ?p answer")
      case True
      obtain j js where q: "ar_queue (ca_runHeap a ! r) = j # js"
        using inv r busy by (cases "ar_queue (ca_runHeap a ! r)") (auto simp: arb_inv_def queue_ok_def phase_ok_def head_job_def)
      show ?thesis using resume_fits [OF inv r q True, of env b]
      proof
        assume "shifts r (awaits ?p) a (fst ?S)"
        then show ?thesis by (intro rests_working) (simp add: shifts_def awaits_busy)
      next
        assume "awaits ?p = 1 \<and> drained env r j a ?S"
        then show ?thesis using rests_drain_loop r by (auto simp: drained_def settles_head_def)
      qed
    qed (use here resume_misfits [OF busy] in simp)
  qed
qed

text \<open>An admitted job waits for its release, so admission wakes no run.\<close>

definition queues_valid :: "arbiter \<Rightarrow> bool" where
  "queues_valid a \<longleftrightarrow> (\<forall>r < length (ca_runHeap a). \<forall>j \<in> set (ar_queue (ca_runHeap a ! r)). j < length (ca_jobHeap a))"

lemma enter_rest:
  assumes "at_rest a" and "queues_valid a"
  shows "at_rest (snd (enter_run w run worker a)) \<and> queues_valid (snd (enter_run w run worker a))"
    "at_rest (snd (enter_counter w r cx a)) \<and> queues_valid (snd (enter_counter w r cx a))"
    "at_rest (on_counter c g a) \<and> queues_valid (on_counter c g a)"
    "at_rest (snd (push_job r kind payload leases a))"
proof -
  have j: "hd (ar_queue (ca_runHeap a ! q)) < length (ca_jobHeap a)" if "q < length (ca_runHeap a)" "ar_queue (ca_runHeap a ! q) \<noteq> []" for q
    using assms(2) that hd_in_set [OF that(2)] by (simp add: queues_valid_def)
  have counters: "ar_phase ((ca_runHeap a)[r := (ca_runHeap a ! r)\<lparr>ar_counters := xs\<rparr>] ! q) = ar_phase (ca_runHeap a ! q)"
    "ar_queue ((ca_runHeap a)[r := (ca_runHeap a ! r)\<lparr>ar_counters := xs\<rparr>] ! q) = ar_queue (ca_runHeap a ! q)" for xs q
    by (cases "q = r"; cases "r < length (ca_runHeap a)"; simp add: list_update_beyond)+
  show "at_rest (snd (enter_run w run worker a)) \<and> queues_valid (snd (enter_run w run worker a))"
    using assms by (auto simp: enter_run_def at_rest_def rests_def head_ready_iff queues_valid_def new_run_def nth_append split: opened.split)
  show "at_rest (on_counter c g a) \<and> queues_valid (on_counter c g a)"
    using assms by (simp add: at_rest_def rests_def head_ready_iff queues_valid_def)
  show "at_rest (snd (enter_counter w r cx a)) \<and> queues_valid (snd (enter_counter w r cx a))"
    using assms by (auto simp: enter_counter_def Let_def at_rest_def rests_def head_ready_iff queues_valid_def counters split: opened.split)
  have "rests q (snd (push_job r kind payload leases a))" if q: "q < length (ca_runHeap a)" for q
  proof -
    have "rests q a" using assms(1) q by (simp add: at_rest_def)
    then show ?thesis using j [OF q] q
      by (cases "q = r"; cases "ar_queue (ca_runHeap a ! q) = []") (simp_all add: push_job_def Let_def rests_def head_ready_iff nth_append)
  qed
  then show "at_rest (snd (push_job r kind payload leases a))" by (simp add: at_rest_def push_job_def Let_def)
qed

lemma at_rest_admits:
  assumes inv: "arb_inv a" and rest: "at_rest a"
  shows "at_rest (fst (snd (ca_admit env still command cx v (a, b))))" "at_rest (fst (snd (ca_admitProgrammatic env command' bytes (a, b))))"
proof -
  have "queues_valid a" using queue_valid [OF inv] by (simp add: queues_valid_def)
  note run = enter_rest(1) [OF rest this]
  have "at_rest (snd (push_job r kind payload leases (snd (enter_run w run worker a))))" for r kind payload leases w run worker
    using run by (blast intro: enter_rest(4))
  then show "at_rest (fst (snd (ca_admitProgrammatic env command' bytes (a, b))))"
    using rest by (simp add: ca_admitProgrammatic_def case_prod_beta split: option.split)
  have "at_rest (snd (enter_control w u command cx payload leases a))" for w u payload leases
    using run by (simp add: enter_control_def case_prod_beta) (metis enter_rest(2,3,4))
  then show "at_rest (fst (snd (ca_admit env still command cx v (a, b))))"
    using rest by (simp add: ca_admit_def case_prod_beta Let_def split: option.split)
qed

lemma at_rest_step:
  assumes inv: "arb_inv (fst S)" and rest: "at_rest (fst S)"
  shows "at_rest (fst (arb_step op S))"
proof -
  obtain a b where S: "S = (a, b)" by fastforce
  have resume: "at_rest (fst (ca_resume env r answer (a, b)))" if "r < length (ca_runHeap a)" for env r answer
    by (rule aside_at_rest [OF aside_ca_resume [of r "(a, b)", unfolded fst_conv]]) (use inv rest that rests_resume in \<open>simp_all add: S\<close>)
  show ?thesis using inv rest resume
    by (cases op) (simp_all add: S at_rest_admits at_rest_executes at_rest_ca_retire at_rest_ca_event at_rest_ca_tick at_rest_ca_dispose)
qed

lemma arb_reach_rest: "arb_reach S \<Longrightarrow> at_rest (fst S)"
proof -
  assume "arb_reach S"
  then obtain composition a b ops where new: "new_arbiter False composition = Inr a" and S: "S = arb_run_ops ops (a, b)"
    by (auto simp: arb_reach_def)
  have "at_rest a" using new by (auto simp: new_arbiter_def at_rest_def split: if_splits)
  moreover have "at_rest (fst (fold arb_step ops T))" if "arb_inv (fst T)" "at_rest (fst T)" for T
    using that
  proof (induction ops arbitrary: T)
    case (Cons op ops)
    then show ?case using at_rest_step [OF Cons.prems] moves_inv [OF moves_arb_step [OF Cons.prems(1)] Cons.prems(1)] by simp
  qed simp
  ultimately show ?thesis using new_arbiter_inv [OF new] by (simp add: S arb_run_ops_def)
qed

subsection \<open>Other calls leave the job at work\<close>

definition stays :: "handle \<Rightarrow> arbiter \<Rightarrow> arbiter \<Rightarrow> bool" where
  "stays r a a' \<longleftrightarrow> ar_phase (ca_runHeap a' ! r) = ar_phase (ca_runHeap a ! r) \<and> (\<exists>js. ar_queue (ca_runHeap a' ! r) = ar_queue (ca_runHeap a ! r) @ js)"

lemma stays_same: "ca_runHeap a' ! r = ca_runHeap a ! r \<Longrightarrow> stays r a a'"
  by (simp add: stays_def)

lemma stays_refl [simp]: "stays r a a"
  by (simp add: stays_def)

lemma stays_trans: "stays r a b \<Longrightarrow> stays r b c \<Longrightarrow> stays r a c"
  by (auto simp: stays_def)

lemma drain_at_work:
  assumes "busy (ar_phase (ca_runHeap a' ! r))" and "ca_runHeap a' ! r = ca_runHeap a ! r"
  shows "stays r a (fst (ca_drain env q (a', b)))"
proof (cases "q = r")
  case True
  then show ?thesis using assms by (auto simp: ca_drain_def stays_same)
next
  case False
  then show ?thesis using aside_ca_drain [of q "(a', b)" env] assms(2) by (simp add: aside_def stays_same)
qed

lemma stays_update:
  assumes "ar_phase (f (ca_runHeap a ! q)) = ar_phase (ca_runHeap a ! q)" and "\<exists>js. ar_queue (f (ca_runHeap a ! q)) = ar_queue (ca_runHeap a ! q) @ js"
  shows "stays r a (on_run q f a)"
  using assms by (cases "q = r"; cases "q < length (ca_runHeap a)") (simp_all add: stays_def list_update_beyond)

lemma stays_dispose_run:
  assumes "busy (ar_phase (ca_runHeap a ! r))"
  shows "stays r a (fst (dispose_run env q (a, b)))"
proof -
  let ?a = "fold (\<lambda>j. on_job j set_ready) (ar_queue (ca_runHeap a ! q)) a"
  have same: "ca_runHeap ?a = ca_runHeap a" by (rule releases_jobs(1)) simp_all
  have "stays r a (fst (release_run q (a, b)))" if "ar_phase (ca_runHeap a ! q) = Idle"
  proof -
    have "r \<noteq> q" using assms that by auto
    then show ?thesis using aside_release_prune(1) [of q "(a, b)"] by (intro stays_same) (simp add: aside_def)
  qed
  then show ?thesis using drain_at_work [of ?a r a env q b] assms by (simp add: dispose_run_def Let_def same)
qed

lemma stays_fold:
  assumes "\<And>a b x. busy (ar_phase (ca_runHeap a ! r)) \<Longrightarrow> stays r a (fst (f x (a, b)))" and "busy (ar_phase (ca_runHeap (fst S) ! r))"
  shows "stays r (fst S) (fst (fold f xs S))"
  using assms(2)
proof (induction xs arbitrary: S)
  case (Cons x xs)
  have first: "stays r (fst S) (fst (f x S))" using assms(1) [of "fst S" x "snd S"] Cons.prems by simp
  have "stays r (fst (f x S)) (fst (fold f xs (f x S)))" using first Cons.prems by (intro Cons.IH) (simp add: stays_def)
  from stays_trans [OF first this] show ?case by simp
qed (simp add: stays_same)

lemma stays_admits:
  assumes r: "r < length (ca_runHeap a)"
  shows "stays r a (fst (snd (ca_admit env still command cx v (a, b))))" "stays r a (fst (snd (ca_admitProgrammatic env command' bytes (a, b))))"
proof -
  have run: "stays r a (snd (enter_run w run worker a))" for w run worker
    using r by (intro stays_same) (simp add: enter_run_def nth_append split: opened.split)
  have push: "stays r a (snd (push_job q kind payload leases c))" if "stays r a c" for q kind payload leases c
    by (rule stays_trans [OF that])
      (use stays_update [of "\<lambda>run. run\<lparr>ar_queue := ar_queue run @ [length (ca_jobHeap c)]\<rparr>" c q r] in \<open>simp add: push_job_def Let_def stays_def\<close>)
  have entered: "stays r c (on_counter d g (snd (enter_counter w q cx c)))" for w q c d g
    using stays_update [of "\<lambda>run. run\<lparr>ar_counters := xs\<rparr>" c q r for xs] by (simp add: enter_counter_def Let_def stays_def split: opened.split)
  have counter: "stays r a (on_counter d g (snd (enter_counter w q cx (snd (enter_run w' run worker a)))))" for d g w q w' run worker
    by (rule stays_trans [OF run entered])
  show "stays r a (fst (snd (ca_admitProgrammatic env command' bytes (a, b))))"
    by (simp add: ca_admitProgrammatic_def case_prod_beta push run split: option.split)
  have "stays r a (snd (enter_control w u command cx payload leases a))" for w u payload leases
    by (simp add: enter_control_def case_prod_beta) (rule push [OF counter])
  then show "stays r a (fst (snd (ca_admit env still command cx v (a, b))))"
    by (simp add: ca_admit_def case_prod_beta Let_def split: option.split)
qed

lemma stays_ca_retire: "busy (ar_phase (ca_runHeap a ! r)) \<Longrightarrow> stays r a (fst (ca_retire env ref (a, b)))"
proof -
  assume busy: "busy (ar_phase (ca_runHeap a ! r))"
  have same: "ca_runHeap (fold (ready_counter c) js a) = ca_runHeap a" for c js
    by (rule releases_jobs(1)) (simp_all add: ready_counter_def split: job_kind.split)
  have "stays r a (fst (ca_drain env q (on_counter c g (fold (ready_counter c) js a), b)))" for q c g js
    by (rule drain_at_work) (use busy in \<open>simp_all add: same\<close>)
  then show ?thesis by (simp add: ca_retire_def stays_same split: option.split)
qed

lemma stays_ca_event: "stays r a (ca_event event a)"
  using stays_update [of "observe_fact e" a _ r for e] by (simp add: ca_event_def stays_same split: option.split terminal_event.split)

text \<open>Whether a call continues run \<open>r\<close> with an answer its suspended call can have.\<close>

fun answers_run :: "handle \<Rightarrow> arb_op \<Rightarrow> arbiter \<Rightarrow> bool" where
  "answers_run r (AoResume env q answer) a \<longleftrightarrow> q = r \<and> fits (ar_phase (ca_runHeap a ! r)) answer"
| "answers_run r _ a \<longleftrightarrow> False"

lemma stays_step:
  assumes r: "r < length (ca_runHeap a)" and busy: "busy (ar_phase (ca_runHeap a ! r))" and other: "\<not> answers_run r op a"
  shows "stays r a (fst (arb_step op (a, b)))"
proof (cases op)
  case (AoTick env)
  then show ?thesis using stays_fold [of r "\<lambda>(_, q). ca_drain env q" "(a, b)" "ca_runs a"] busy by (simp add: ca_tick_def drain_at_work split: prod.split)
next
  case (AoDispose env)
  have "stays r (a\<lparr>ca_disposed := True\<rparr>) (fst (fold (\<lambda>(_, q). dispose_run env q) (ca_runs a) (a\<lparr>ca_disposed := True\<rparr>, b)))"
    using stays_fold [of r "\<lambda>(_, q). dispose_run env q" "(a\<lparr>ca_disposed := True\<rparr>, b)" "ca_runs a"] busy by (simp add: stays_dispose_run split: prod.split)
  then show ?thesis using AoDispose by (simp add: ca_dispose_def stays_same) (simp add: stays_def)
next
  case (AoResume env q answer)
  show ?thesis
  proof (cases "q = r")
    case True
    then show ?thesis using AoResume other resume_misfits [OF busy] by (simp add: stays_same)
  next
    case False
    then show ?thesis using AoResume aside_ca_resume [of q "(a, b)" env answer] by (simp add: aside_def stays_same)
  qed
qed (use r busy in \<open>simp_all add: stays_admits stays_ca_retire stays_ca_event stays_same ca_execute_def ca_executeProgrammatic_def ca_cancelProgrammatic_def drain_at_work\<close>)

subsection \<open>Every released job is answered\<close>

fun answered :: "handle \<Rightarrow> arb_op list \<Rightarrow> arbiter \<times> runtime_bytes \<Rightarrow> nat" where
  "answered r [] S = 0"
| "answered r (op # ops) S = (if answers_run r op (fst S) then 1 else 0) + answered r ops (arb_step op S)"

lemma drained_next:
  assumes "drained env r j a S'" and "ar_queue (ca_runHeap a ! r) = j # k # js" and "r < length (ca_runHeap a)" and ready: "jb_ready (ca_jobHeap (fst S') ! k)"
  shows "busy (ar_phase (ca_runHeap (fst S') ! r)) \<and> ar_queue (ca_runHeap (fst S') ! r) = k # js"
proof -
  obtain T where T: "S' = drain_loop env r T" "settles_head r j a (fst T)" using assms(1) by (auto simp: drained_def)
  obtain c b where c: "T = (c, b)" by fastforce
  have q: "ar_queue (ca_runHeap c ! r) = k # js" and r: "r < length (ca_runHeap c)" using T assms(2,3) c by (simp_all add: settles_head_def)
  have "jb_ready (ca_jobHeap c ! k)" using aside_drain_loop [of r T env] ready T(1) c by (simp add: aside_def)
  then have S': "fst S' = start_head env r c" using q by (simp add: T(1) c drain_loop_def head_ready_def)
  have "ar_queue (ca_runHeap (start_head env r c) ! r) = ar_queue (ca_runHeap c ! r)"
    using r by (simp add: start_head_def start_control_def start_program_def program_return_def Let_def split: list.split job_kind.split)
  then show ?thesis using started [OF r] q by (simp add: S')
qed

lemma jobs_drain_loop [simp]: "ca_jobHeap (fst (drain_loop env r S)) = ca_jobHeap (fst S)"
proof -
  have start: "ca_jobHeap (start_head env r a) = ca_jobHeap a" for a
    by (simp add: start_head_def start_control_def start_program_def program_return_def Let_def split: list.split job_kind.split)
  have cleanup: "ca_jobHeap (cleanup_from env r i a) = ca_jobHeap a" for i a
  proof (induction env r i a rule: cleanup_from.induct)
    case (1 env r i a)
    then show ?case by (simp add: cleanup_from.simps [of env r i a] Let_def split: option.split)
  qed
  show ?thesis by (cases S) (simp add: drain_loop_def finish_drain_def release_run_def prune_def Let_def start cleanup)
qed

lemma resume_progress:
  assumes inv: "arb_inv a" and r: "r < length (ca_runHeap a)" and q: "ar_queue (ca_runHeap a ! r) = j # js" and fits: "fits (ar_phase (ca_runHeap a ! r)) answer"
    and S': "S' = ca_resume env r answer (a, b)"
  obtains (shift) "shifts r (awaits (ar_phase (ca_runHeap a ! r))) a (fst S')"
  | (settle) "jb_reply (ca_jobHeap (fst S') ! j) \<noteq> None" "awaits (ar_phase (ca_runHeap a ! r)) = 1"
      "\<And>k ks. js = k # ks \<Longrightarrow> jb_ready (ca_jobHeap (fst S') ! k) \<Longrightarrow> busy (ar_phase (ca_runHeap (fst S') ! r)) \<and> ar_queue (ca_runHeap (fst S') ! r) = js"
proof -
  consider "shifts r (awaits (ar_phase (ca_runHeap a ! r))) a (fst S')" | "awaits (ar_phase (ca_runHeap a ! r)) = 1" "drained env r j a S'"
    using resume_fits [OF inv r q fits, of env b] S' by blast
  then show ?thesis
  proof cases
    case 2
    have "jb_reply (ca_jobHeap (fst S') ! j) \<noteq> None" using 2(2) by (auto simp: drained_def settles_head_def)
    then show ?thesis by (rule settle [OF _ 2(1)]) (use drained_next [OF 2(2)] q r in simp)
  qed (rule shift)
qed

text \<open>A job in the line of released jobs of a run at work: its position and the answers it still waits for, at most.\<close>

definition in_line :: "handle \<Rightarrow> handle \<Rightarrow> nat \<Rightarrow> arbiter \<Rightarrow> bool" where
  "in_line r j n a \<longleftrightarrow> r < length (ca_runHeap a) \<and> busy (ar_phase (ca_runHeap a ! r)) \<and>
     (\<exists>m < length (ar_queue (ca_runHeap a ! r)). ar_queue (ca_runHeap a ! r) ! m = j \<and> 4 * m + awaits (ar_phase (ca_runHeap a ! r)) \<le> n \<and>
        (\<forall>i \<le> m. jb_ready (ca_jobHeap a ! (ar_queue (ca_runHeap a ! r) ! i))))"

lemma in_line_stays:
  assumes inv: "arb_inv (fst S)" and line: "in_line r j n (fst S)" and other: "\<not> answers_run r op (fst S)"
  shows "in_line r j n (fst (arb_step op S))"
proof -
  let ?a = "fst (arb_step op S)" and ?q = "ar_queue (ca_runHeap (fst S) ! r)"
  note moves = moves_arb_step [OF inv, of op]
  obtain m where r: "r < length (ca_runHeap (fst S))" "busy (ar_phase (ca_runHeap (fst S) ! r))" and m: "m < length ?q" "?q ! m = j"
    "4 * m + awaits (ar_phase (ca_runHeap (fst S) ! r)) \<le> n" "\<forall>i \<le> m. jb_ready (ca_jobHeap (fst S) ! (?q ! i))"
    using line by (auto simp: in_line_def)
  obtain js where stay: "ar_phase (ca_runHeap ?a ! r) = ar_phase (ca_runHeap (fst S) ! r)" "ar_queue (ca_runHeap ?a ! r) = ?q @ js"
    using stays_step [OF r other, of "snd S"] by (auto simp: stays_def)
  have "jb_ready (ca_jobHeap ?a ! (?q ! i))" if "i \<le> m" for i
    using that m queue_valid [OF inv r(1)] by (intro moves_keep_ready [OF moves]) simp_all
  moreover have "r < length (ca_runHeap ?a)" using moves_grow [OF moves] r(1) by (simp add: grows_def)
  ultimately show ?thesis unfolding in_line_def stay using m r(2) by (auto simp: nth_append intro!: exI [of _ m])
qed

lemma in_line_answer:
  assumes inv: "arb_inv (fst S)" and line: "in_line r j n (fst S)" and answer: "answers_run r op (fst S)"
  shows "jb_reply (ca_jobHeap (fst (arb_step op S)) ! j) \<noteq> None \<or> in_line r j (n - 1) (fst (arb_step op S))"
proof -
  obtain a b where S: "S = (a, b)" by fastforce
  let ?S = "arb_step op S" and ?q = "ar_queue (ca_runHeap a ! r)"
  note moves = moves_arb_step [OF inv, of op]
  obtain m where r: "r < length (ca_runHeap a)" "busy (ar_phase (ca_runHeap a ! r))" and m: "m < length ?q" "?q ! m = j"
    "4 * m + awaits (ar_phase (ca_runHeap a ! r)) \<le> n" "\<forall>i \<le> m. jb_ready (ca_jobHeap a ! (?q ! i))"
    using line by (auto simp: in_line_def S)
  have ready: "jb_ready (ca_jobHeap (fst ?S) ! (?q ! i))" if "i \<le> m" for i
    using that m queue_valid [of a r] inv r(1) by (intro moves_keep_ready [OF moves]) (simp_all add: S)
  have r': "r < length (ca_runHeap (fst ?S))" using moves_grow [OF moves] r(1) by (simp add: S grows_def)
  obtain env ans where op: "op = AoResume env r ans" and fits: "fits (ar_phase (ca_runHeap a ! r)) ans" using answer by (cases op) (simp_all add: S)
  obtain k ks where q: "?q = k # ks" using m(1) by (cases ?q) simp_all
  have step: "?S = ca_resume env r ans (a, b)" using r by (simp add: S op)
  have inv_a: "arb_inv a" using inv by (simp add: S)
  show ?thesis
  proof (rule resume_progress [OF inv_a r(1) q fits step])
    assume "shifts r (awaits (ar_phase (ca_runHeap a ! r))) a (fst ?S)"
    then have "in_line r j (n - 1) (fst ?S)" using r' m ready by (auto simp: in_line_def shifts_def awaits_busy intro!: exI [of _ m])
    then show ?thesis ..
  next
    assume reply: "jb_reply (ca_jobHeap (fst ?S) ! k) \<noteq> None" and one: "awaits (ar_phase (ca_runHeap a ! r)) = 1"
      and rest: "\<And>i ls. ks = i # ls \<Longrightarrow> jb_ready (ca_jobHeap (fst ?S) ! i) \<Longrightarrow> busy (ar_phase (ca_runHeap (fst ?S) ! r)) \<and> ar_queue (ca_runHeap (fst ?S) ! r) = ks"
    show ?thesis
    proof (cases m)
      case (Suc l)
      obtain i ls where ks: "ks = i # ls" using m(1) q Suc by (cases ks) auto
      then have "busy (ar_phase (ca_runHeap (fst ?S) ! r))" "ar_queue (ca_runHeap (fst ?S) ! r) = ks"
        using rest [OF ks] ready [of 1] Suc q by simp_all
      moreover have "jb_ready (ca_jobHeap (fst ?S) ! (ks ! i))" if "i \<le> l" for i using ready [of "Suc i"] that Suc q by simp
      ultimately show ?thesis using r' m one Suc q awaits_busy(2) [of "ar_phase (ca_runHeap (fst ?S) ! r)"] by (auto simp: in_line_def intro!: exI [of _ l])
    qed (use reply m q in simp)
  qed
qed

lemma in_line_settles:
  assumes "arb_inv (fst S)" and "in_line r j n (fst S)" and "n \<le> answered r ops S"
  shows "jb_reply (ca_jobHeap (fst (fold arb_step ops S)) ! j) \<noteq> None"
  using assms
proof (induction ops arbitrary: S n)
  case Nil
  then show ?case using awaits_busy(1) [of "ar_phase (ca_runHeap (fst S) ! r)"] by (auto simp: in_line_def)
next
  case (Cons op ops)
  let ?S = "arb_step op S"
  note moves = moves_arb_step [OF Cons.prems(1), of op]
  have inv: "arb_inv (fst ?S)" by (rule moves_inv [OF moves Cons.prems(1)])
  have j: "j < length (ca_jobHeap (fst ?S))"
  proof -
    have "r < length (ca_runHeap (fst S))" "j \<in> set (ar_queue (ca_runHeap (fst S) ! r))" using Cons.prems(2) by (auto simp: in_line_def)
    then have "j < length (ca_jobHeap (fst S))" using queue_valid [OF Cons.prems(1)] by blast
    then show ?thesis using moves_grow [OF moves] by (simp add: grows_def)
  qed
  consider "jb_reply (ca_jobHeap (fst ?S) ! j) \<noteq> None" | "in_line r j (n - (if answers_run r op (fst S) then 1 else 0)) (fst ?S)"
    using in_line_stays [OF Cons.prems(1,2)] in_line_answer [OF Cons.prems(1,2)] by (cases "answers_run r op (fst S)") auto
  then show ?case
  proof cases
    case 1
    then show ?thesis using moves_keep_reply [OF moves_arb_run [OF inv] inv j 1] by (simp add: arb_run_ops_def)
  next
    case 2
    then show ?thesis using Cons.IH [OF inv 2] Cons.prems(3) by (simp split: if_splits)
  qed
qed


end
