(* ===== verification/Control_Sample.thy ===== *)
theory Control_Sample
  imports Control_Settle
begin

text \<open>
  A session of \<open>ControlArbiter\<close>: one view takes the focus of a run and types one byte. The properties of the arbiter are applied to
  it at the states in which their assumptions hold.
\<close>

definition session_env :: arbiter_env where
  "session_env = \<lparr>ae_current = (\<lambda>_. True), ae_installed = (\<lambda>_ _. True), ae_earlierPending = (\<lambda>_. False),
     ae_pool = fst (fst (fold wp_step [WpAdd 0 \<lparr>sv_composition = 0, sv_worker = sample_worker ''w''\<rparr>, WpReserve (\<lambda>_. True) (sample_run ''1'')]
       ((sample_pool, sample_bytes), []))),
     ae_registry = sample_registry\<rparr>"

definition session_subscription :: subscription_ref where
  "session_subscription = \<lparr>sr_run = sample_run ''1'', sr_connection = \<lparr>cr_connectionId = ''c'', cr_generation = 1\<rparr>, sr_subscriptionId = ''s'', sr_viewId = ''v''\<rparr>"

definition session_context :: "ident \<Rightarrow> route_context" where
  "session_context request = \<lparr>cx_subscription = session_subscription, cx_worker = sample_worker ''w'', cx_requestId = request, cx_releaseId = ''x'', cx_route = 0\<rparr>"

definition session_command :: "ident \<Rightarrow> control_body \<Rightarrow> control_command" where
  "session_command request body = \<lparr>cc_requestId = request, cc_run = sample_run ''1'', cc_subscription = session_subscription, cc_body = body\<rparr>"

definition session_admit :: "ident \<Rightarrow> control_body \<Rightarrow> byte list \<Rightarrow> arb_op" where
  "session_admit request body bytes =
     AoAdmit session_env True (session_command request body) (session_context request) \<lparr>vw_bytes = bytes, vw_buffer = 0, vw_bufferBytes = int (length bytes)\<rparr>"

definition session_result :: "pipe_command_type \<Rightarrow> pipe_result" where
  "session_result type = \<lparr>pr_worker = sample_worker ''w'', pr_run = sample_run ''1'', pr_requestId = ''a'', pr_commandType = type, pr_outcome = OutcomeAccepted,
     pr_recoveryMode = None, pr_operationId = None, pr_atSeq = None, pr_inputSeq = None, pr_input = None, pr_writtenBytes = None, pr_runStatus = None,
     pr_previewVersion = None\<rparr>"

definition session_resume :: "answer \<Rightarrow> arb_op" where
  "session_resume = AoResume session_env 0"

text \<open>The two admissions and their release; the read of the status, the focus and the input with the worker's answers.\<close>

definition session_start :: "arb_op list" where
  "session_start = [session_admit ''a'' (CcFocus 1 sample_geometry None) [], session_admit ''b'' (CcInput 1 1) [65], AoExecute session_env 0, AoExecute session_env 1]"

definition session_focus :: "arb_op list" where
  "session_focus = [session_resume (AnsResult (RtResult ((session_result PTStatus)\<lparr>pr_runStatus := Some (live_status 5)\<rparr>))), session_resume AnsTick,
     session_resume (AnsResult (RtResult ((session_result PTSetControl)\<lparr>pr_atSeq := Some 6\<rparr>))), session_resume AnsTick]"

definition session_input :: "arb_op list" where
  "session_input = [session_resume AnsTick,
     session_resume (AnsResult (RtResult ((session_result PTInput)\<lparr>pr_inputSeq := Some 1, pr_writtenBytes := Some 1\<rparr>))), session_resume AnsTick]"

definition session_begin :: "arbiter \<times> runtime_bytes" where
  "session_begin = (projr (new_arbiter False sample_composition), sample_bytes)"

abbreviation session_at :: "arb_op list \<Rightarrow> arbiter \<times> runtime_bytes" where
  "session_at ops \<equiv> arb_run_ops ops session_begin"

lemma session_reach: "arb_reach (session_at ops)"
  unfolding arb_reach_def session_begin_def by (intro exI [of _ sample_composition]) (auto simp: new_arbiter_def)

lemma session_env_simps [simp]:
  "ae_current session_env cx" "ae_installed session_env cx n" "\<not> ae_earlierPending session_env cx"
  by (simp_all add: session_env_def)

lemma session_placed [simp]: "placed_on session_env (sample_run ''1'') (sample_worker ''w'')"
  by code_simp

lemma session_run_id [simp]: "rr_runId (sample_run ''1'') = ''1''"
  by (simp add: sample_run_def)

definition session_counter :: "number \<Rightarrow> number \<Rightarrow> arb_counter" where
  "session_counter epoch atSeq = \<lparr>ct_ref = session_subscription, ct_worker = sample_worker ''w'', ct_focus = 1, ct_input = 1, ct_grantEpoch = epoch,
     ct_grantAtSeq = atSeq, ct_retired = False, ct_releaseId = ''x'', ct_cleanup = CleanupNone, ct_cleanupEpoch = 0, ct_lease = 1\<rparr>"

definition session_state :: "boundary option \<Rightarrow> handle list \<Rightarrow> phase \<Rightarrow> arb_counter \<Rightarrow> arb_job list \<Rightarrow> sent_command list \<Rightarrow> arbiter" where
  "session_state bd queue ph counter jobs sent = \<lparr>ca_composition = sample_composition, ca_runs = [(''1'', 0)], ca_pending = int (length queue),
     ca_disposed = False, ca_runHeap = [\<lparr>ar_ref = sample_run ''1'', ar_worker = sample_worker ''w'', ar_boundary = bd, ar_uncertain = False,
       ar_queue = queue, ar_programFailure = None, ar_counters = [(session_subscription, 0)], ar_phase = ph, ar_lease = 0\<rparr>],
     ca_counterHeap = [counter], ca_jobHeap = jobs, ca_sent = sent\<rparr>"

definition focus_job :: "bool \<Rightarrow> arb_job" where
  "focus_job dispatched = \<lparr>jb_kind = ControlJob (session_command ''a'' (CcFocus 1 sample_geometry None)) (session_context ''a'') 0, jb_run = 0, jb_payload = [],
     jb_leases = [JobLease 2], jb_ready = True, jb_dispatched = dispatched, jb_reply = None\<rparr>"

definition input_job :: "bool \<Rightarrow> arb_job" where
  "input_job dispatched = \<lparr>jb_kind = ControlJob (session_command ''b'' (CcInput 1 1)) (session_context ''b'') 0, jb_run = 0, jb_payload = [65],
     jb_leases = [JobLease 3, JobHold 0, JobLease 5], jb_ready = True, jb_dispatched = dispatched, jb_reply = None\<rparr>"

definition session_sent :: "handle \<Rightarrow> ident \<Rightarrow> pipe_body \<Rightarrow> byte list \<Rightarrow> sent_command" where
  "session_sent j request body bytes =
     \<lparr>sn_job = Some j, sn_command = \<lparr>pc_worker = sample_worker ''w'', pc_run = sample_run ''1'', pc_requestId = request, pc_body = body\<rparr>, sn_payload = bytes\<rparr>"

definition session_boundary :: "number \<Rightarrow> control_holder option \<Rightarrow> number \<Rightarrow> boundary" where
  "session_boundary epoch h atSeq = \<lparr>by_epoch = epoch, by_holder = h, by_geometry = sample_geometry, by_atSeq = atSeq\<rparr>"

abbreviation focus_reply :: reply where
  "focus_reply \<equiv> ReplyResult \<lparr>tr_requestId = ''a'', tr_run = sample_run ''1'', tr_body = RFocus session_subscription 1 6\<rparr>"

abbreviation focus_sent :: "sent_command list" where
  "focus_sent \<equiv> [session_sent 0 ''a.s'' PStatus [], session_sent 0 ''a'' (PSetControl 0 1 (Some (holder session_subscription)) sample_geometry None) []]"

abbreviation focus_done :: arb_job where
  "focus_done \<equiv> (focus_job True)\<lparr>jb_leases := [], jb_reply := Some (ControlReply focus_reply)\<rparr>"

lemmas session_simps = session_context_def session_command_def session_admit_def session_resume_def session_counter_def session_state_def focus_job_def input_job_def
  session_sent_def session_boundary_def session_result_def live_status_def reserved_status_def arb_run_ops_def on_run_def on_counter_def on_job_def at_phase_def ca_send_def

lemmas admit_simps = new_arbiter_def sample_bytes_def new_runtime_bytes_def isSafeInteger_def MAX_SAFE_INTEGER_def ca_admit_def sample_composition_def
  payload_refused_def frame_limits other_run_def open_run_def rb_reserve_def rb_retainBacking_def rb_hold_def open_counter_def run_counters_def
  counter_refuses_def take_leases_def enter_control_def enter_run_def new_run_def enter_counter_def new_counter_def count_command_def push_job_def

lemmas perform_simps = ca_execute_def set_ready_def ca_drain_def drain_loop_def head_ready_def start_head_def start_control_def ca_current_def status_command_def
  ca_resume_def boundary_read_def live_report_def boundary_after_def reported_boundary_def dispatch_control_def holds_control_def seen_boundary_def matches_def
  control_answered_def ca_failure_def settle_control_def settle_job_def Let_def

text \<open>What the session does: both jobs wait, the status is read, the focus goes out and is answered, then the input goes out.\<close>

lemma session_started:
  "\<exists>b. session_at session_start = (session_state None [0, 1] PhStatus (session_counter 0 0) [focus_job False, input_job False] [session_sent 0 ''a.s'' PStatus []], b)"
proof -
  have geometry: "ge_cols sample_geometry = 80" "ge_rows sample_geometry = 24" by (simp_all add: sample_geometry_def)
  have "\<exists>b. session_at (take 2 session_start) = (session_state None [0, 1] Idle (session_counter 0 0)
      [(focus_job False)\<lparr>jb_ready := False\<rparr>, (input_job False)\<lparr>jb_ready := False\<rparr>] [], b)"
    by (simp add: session_start_def session_begin_def session_simps admit_simps geometry)
  then show ?thesis by (auto simp: session_start_def session_simps perform_simps)
qed

lemma session_focus_1:
  "arb_step (session_focus ! 0) (session_state None [0, 1] PhStatus (session_counter 0 0) [focus_job False, input_job False] sent, b) =
     (session_state (Some (session_boundary 0 None 5)) [0, 1] (PhBoundary None) (session_counter 0 0) [focus_job False, input_job False] sent, b)"
  by (simp add: session_focus_def session_simps perform_simps)

lemma session_focus_2:
  "arb_step (session_focus ! 1) (session_state (Some (session_boundary 0 None 5)) [0, 1] (PhBoundary None) (session_counter 0 0)
       [focus_job False, input_job False] [session_sent 0 ''a.s'' PStatus []], b) =
     (session_state (Some (session_boundary 0 None 5)) [0, 1] (PhPipe (session_boundary 0 None 5)) (session_counter 0 0) [focus_job True, input_job False] focus_sent, b)"
  by (simp add: session_focus_def session_simps perform_simps MAX_SAFE_INTEGER_def)

lemma session_focus_3:
  "arb_step (session_focus ! 2) (session_state (Some (session_boundary 0 None 5)) [0, 1] (PhPipe (session_boundary 0 None 5)) (session_counter 0 0)
       [focus_job True, input_job False] sent, b) =
     (session_state (Some (session_boundary 1 (Some (holder session_subscription)) 6)) [0, 1] (PhReturned (Some focus_reply)) (session_counter 1 6)
       [focus_job True, input_job False] sent, b)"
  by (simp add: session_focus_def session_simps perform_simps)

lemma session_focus_4:
  "\<exists>b'. arb_step (session_focus ! 3) (session_state (Some bd) [0, 1] (PhReturned (Some focus_reply)) (session_counter epoch n) [focus_job True, input_job False] sent, b) =
     (session_state (Some bd) [1] (PhBoundary None) (session_counter epoch n) [focus_done, input_job False] sent, b')"
  by (simp add: session_focus_def session_simps perform_simps)

lemma session_input_1:
  "arb_step (hd session_input) (session_state (Some (session_boundary 1 (Some (holder session_subscription)) 6)) [1] (PhBoundary None) (session_counter 1 6)
       [focus_done, input_job False] focus_sent, b) =
     (session_state (Some (session_boundary 1 (Some (holder session_subscription)) 6)) [1] (PhPipe (session_boundary 1 (Some (holder session_subscription)) 6))
       (session_counter 1 6) [focus_done, input_job True] (focus_sent @ [session_sent 1 ''b'' (PInput session_subscription 1 1) [65]]), b)"
  by (simp add: session_input_def session_simps perform_simps holder_def)

text \<open>The state before the input is dispatched, and the one after it.\<close>

lemma session_focused:
  "\<exists>b. session_at (session_start @ session_focus) =
     (session_state (Some (session_boundary 1 (Some (holder session_subscription)) 6)) [1] (PhBoundary None) (session_counter 1 6) [focus_done, input_job False] focus_sent, b)"
proof -
  obtain b where "session_at session_start =
      (session_state None [0, 1] PhStatus (session_counter 0 0) [focus_job False, input_job False] [session_sent 0 ''a.s'' PStatus []], b)" using session_started by blast
  moreover have "session_focus = [session_focus ! 0, session_focus ! 1, session_focus ! 2, session_focus ! 3]" by (simp add: session_focus_def)
  ultimately have "session_at (session_start @ session_focus) = arb_step (session_focus ! 3)
      (session_state (Some (session_boundary 1 (Some (holder session_subscription)) 6)) [0, 1] (PhReturned (Some focus_reply)) (session_counter 1 6)
        [focus_job True, input_job False] focus_sent, b)"
    unfolding arb_run_ops_def fold_append comp_apply by (metis fold_simps session_focus_1 session_focus_2 session_focus_3)
  then show ?thesis using session_focus_4 by simp
qed

lemma session_typed:
  "\<exists>b. session_at (session_start @ session_focus @ [hd session_input]) =
     (session_state (Some (session_boundary 1 (Some (holder session_subscription)) 6)) [1] (PhPipe (session_boundary 1 (Some (holder session_subscription)) 6))
       (session_counter 1 6) [focus_done, input_job True] (focus_sent @ [session_sent 1 ''b'' (PInput session_subscription 1 1) [65]]), b)"
  using session_focused session_input_1 by (auto simp: arb_run_ops_def)

theorem arbiter_order_witness:
  "\<exists>j j'. map sn_job (drop 1 (ca_sent (fst (session_at (session_start @ session_focus @ [hd session_input]))))) = [Some j, Some j'] \<and> j < j'"
proof -
  let ?S = "session_at (session_start @ session_focus @ [hd session_input])"
  have sent: "ca_sent (fst ?S) = focus_sent @ [session_sent 1 ''b'' (PInput session_subscription 1 1) [65]]"
    and jobs: "map jb_run (ca_jobHeap (fst ?S)) = [0, 0]"
    using session_typed by (auto simp: session_state_def focus_job_def input_job_def)
  have "1 < (2 :: nat)" "2 < length (ca_sent (fst ?S))" "is_write (ca_sent (fst ?S) ! 1)" "is_write (ca_sent (fst ?S) ! 2)"
    by (simp_all add: sent is_write_def session_sent_def)
  from arbiter_order [OF session_reach this, of "[]"] jobs show ?thesis by (auto simp: sent session_sent_def map_eq_Cons_conv)
qed

theorem arbiter_authority_witness:
  "\<exists>b. ar_boundary (ca_runHeap (fst (session_at (session_start @ session_focus))) ! 0) = Some b \<and>
     control_authority session_env (fst (session_at (session_start @ session_focus))) (session_command ''b'' (CcInput 1 1)) (session_context ''b'')
       (ca_counterHeap (fst (session_at (session_start @ session_focus))) ! 0) b"
proof -
  let ?S = "session_at (session_start @ session_focus)" and ?w = "session_sent 1 ''b'' (PInput session_subscription 1 1) [65]"
  have at: "ca_sent (fst ?S) = focus_sent" "ar_queue (ca_runHeap (fst ?S) ! 0) = [1]" "jb_kind (ca_jobHeap (fst ?S) ! 1) = jb_kind (input_job False)"
    using session_focused by (auto simp: session_state_def)
  have "ca_sent (fst (arb_step (hd session_input) ?S)) = ca_sent (fst ?S) @ [?w]"
    using session_focused session_input_1 by (auto simp: session_state_def)
  moreover have "?w \<in> set [?w]" "is_write ?w" by (simp_all add: is_write_def session_sent_def)
  ultimately show ?thesis
    using arbiter_authority [OF session_reach, of "hd session_input" "session_start @ session_focus" "[?w]" ?w] at(2,3)
    by (auto simp: session_input_def session_resume_def input_job_def)
qed


end
