(* ===== verification/Spec2Isabelle.thy ===== *)
theory Spec2Isabelle
  imports Worker_Bytes Runtime_Bytes Pipe_Frames Replay_Window Delivery_Credit Business_Facts Worker_Health Control_Sample
begin

text \<open>
  Cove: a verification development of its protocol, its terminal runtime and its business events.

  \<^bold>\<open>The program.\<close> Cove runs terminals on a server and shows them to clients. A \<^emph>\<open>worker\<close> process owns the pseudo terminals; it keeps a
  replay window of recent run events and accounts the bytes it retains. The \<^emph>\<open>server runtime\<close> talks to its workers over a framed
  pipe, places runs on workers, keeps a registry of the runs and their statuses, decides through one queue per run who controls a
  terminal, watches the health of the workers, and sends each subscribed client a baseline followed by run events under a credit
  scheme. Beside it, \<^emph>\<open>business events\<close> (configuration, tabs, runs, operations and live runtime facts) go from the store and
  the registry over a sequenced stream to mirrors in the clients. Frames of both binary lanes share one codec, and what they carry is
  checked against schemas, budgets and identities before it is used.

  \<^bold>\<open>Which theory models what\<close> (paths are under \<^verbatim>\<open>src/\<close>). Definitions keep the names of the code; a method \<open>m\<close> of a class is \<open>xx_m\<close>, where
  \<open>xx\<close> is the prefix of the class.

  \<^item> \<open>Cove_Prelude\<close>: numbers, heaps and association lists. A JavaScript Number that the code keeps integral is an \<^typ>\<open>int\<close>, an object
    shared by reference is a cell of a list used as a heap, a \<open>Map\<close> is an association list in insertion order.
  \<^item> \<open>Byte_Ledger\<close>: the contract of a byte account as the locale \<open>byte_ledger\<close> (a reservation charges a fresh lease within the limit, a release
    uncharges it once, the total is the sum of the charges) and what its clients derive from it, above all \<open>owns\<close>: a client that knows
    its leases knows the account's total.
  \<^item> \<open>Worker_Bytes\<close>: \<open>WorkerRetainedBytes\<close> of \<^verbatim>\<open>packages/terminal-worker/src/worker-retained-bytes.ts\<close>;
    \<open>Runtime_Bytes\<close>: \<open>RuntimeRetainedBytes\<close> of \<^verbatim>\<open>apps/server/src/terminal/runtime-retained-bytes.ts\<close>. Both interpret \<open>byte_ledger\<close>.
  \<^item> \<open>Frame_Codec\<close>, \<open>Frame_Stream\<close>: \<open>encodeFrame\<close> and \<open>FrameDecoder\<close> of \<^verbatim>\<open>packages/protocol/src/provisional/frame.ts\<close>, byte by byte, and their
    correctness against a reference parser.
  \<^item> \<open>Identity\<close>, \<open>Budgets\<close>, \<open>Domain_Errors\<close>, \<open>Json_Bounds\<close>, \<open>Json_Text\<close>, \<open>Terminal_Recovery\<close>, \<open>Terminal_Protocol\<close>, \<open>Terminal_Frames\<close>: identities, budgets, errors,
    the bound on the structure of untrusted metadata, the baseline transfer, and events, commands, results and frames of the terminal lane
    (\<^verbatim>\<open>packages/protocol/src\<close>: \<^verbatim>\<open>identity.ts\<close>, \<^verbatim>\<open>budgets.ts\<close>, \<^verbatim>\<open>errors.ts\<close>, \<^verbatim>\<open>profile.ts\<close>, \<^verbatim>\<open>terminal-recovery.ts\<close>, \<^verbatim>\<open>terminal-events.ts\<close>, \<^verbatim>\<open>terminal-command.ts\<close>,
    \<^verbatim>\<open>terminal.ts\<close>). \<open>Pipe_Protocol\<close>, \<open>Pipe_Frames\<close>: the worker pipe (\<^verbatim>\<open>pipe-command.ts\<close>, \<^verbatim>\<open>pipe.ts\<close>) and the input receipts of \<^verbatim>\<open>workspace.ts\<close>.
  \<^item> \<open>Replay_Window\<close>: \<open>ReplayWindow\<close> of \<^verbatim>\<open>packages/terminal-worker/src/replay-window.ts\<close>, on the worker's account.
  \<^item> \<open>Delivery_Credit\<close>: \<open>RuntimeComposition\<close> and \<open>TerminalDeliveryCredit\<close> of \<^verbatim>\<open>apps/server/src/terminal\<close>, on the runtime's account.
  \<^item> \<open>Run_Registry\<close>: \<open>LocalRuntimeClock\<close>, \<open>RunRegistry\<close> and \<open>WorkerPool\<close>; \<open>Worker_Health\<close>: \<open>WorkerHealthMonitor\<close> (same directory).
  \<^item> \<open>Control_Arbiter\<close>: \<open>ControlArbiter\<close> (same directory). \<open>Control_Moves\<close>: its methods as sequences of small moves of one object and the invariant the
    moves keep. \<open>Control_Queue\<close>: order, replies and authority. \<open>Control_Settle\<close>: every released job is answered. \<open>Control_Sample\<close>: a session the
    properties are applied to.
  \<^item> \<open>Business_Events\<close>: \<^verbatim>\<open>packages/protocol/src/business-events.ts\<close>. \<open>Business_Stream\<close>: \<open>BusinessEventStream\<close> of \<^verbatim>\<open>apps/server/src/business/event-stream.ts\<close>.
    \<open>Business_Mirror\<close>: \<open>BusinessMirror\<close> of \<^verbatim>\<open>packages/client/src/business-mirror.ts\<close>. \<open>Business_Facts\<close>: \<open>BusinessSnapshots\<close> of
    \<^verbatim>\<open>apps/server/src/business/snapshot.ts\<close>.

  \<^bold>\<open>State and steps.\<close> A class is a record of its fields, a method a function from the state to the result and the new state, an exception or an
  early return a branch of an option or sum. Each class has a datatype of its calls and a step function, and the properties hold
  for every sequence of calls, in every order. Callbacks that may throw, clocks, random ids and what a call reads of other objects are
  parameters or part of the calls. The methods of \<open>ControlArbiter\<close> are asynchronous: a step is the code between two \<open>await\<close>s, \<open>ar_phase\<close> says where the
  loop of a run is suspended, and \<open>ca_resume\<close> continues it with the answer of the awaited call.

  \<^bold>\<open>What the lemmas show.\<close>

  \<^item> Framing: what is encoded is decoded again under any splitting into reads; the decoder yields exactly the frames and the error of the
    reference parser, within its storage and its budget per read, and a failure is permanent.
  \<^item> Validation: a baseline transfer and an error are accepted exactly when they satisfy their specification; the walk over
    untrusted metadata ends also on cyclic values and decides the bounds exactly; accepted frames are about one run, one worker and the
    connection they came on, and accepted results answer their command.
  \<^item> Byte accounts: totals are the sums of what is held, stay within the limits after any sequence of calls, and the control reserve stays available.
    The replay window, the delivery credit, the registry and the pool hold exactly the leases of their entries; a drained window and a retired attempt hold none.
  \<^item> Replay and delivery: a selected slice is the complete run of events asked for; what an attempt admits is a well-formed recovery stream; an
    acknowledgement pays exactly what it covers.
  \<^item> Registry, pool and health: an exit is final, every placed run is on one worker within its capacity, a health report needs its condition for its full time.
  \<^item> Control: a command goes out only with the authority it needs; the commands of a run go out in the order of admission, one per job; a released job is
    answered after a bounded number of answers, with a reply that belongs to it.
  \<^item> Business events: a live subscriber has every batch after its position once and in order; a generation is fenced; a mirror fed by the stream has exactly
    the published records; a snapshot with the frames of its subscription shows exactly the server's runtime facts, which never go back.

  \<^bold>\<open>Bounds and fuel.\<close> The decoder's \<open>while\<close> loop is a \<open>partial_function\<close>, and it is proved to return on every input. The other loops are functions with a
  termination proof (the walk over metadata: tokens left and queue; \<open>es_trim\<close>: length of the window; \<open>cleanup_from\<close>: counters left). The decimal digits
  of a number use fuel one above the number, which its digits never exhaust.

  \<^bold>\<open>Not modelled.\<close> zod's parsing of JSON into shapes, sockets, streams, child processes and timers are parameters or left out. The worker's
  execution over node-pty and the terminal engine (\<^verbatim>\<open>packages/terminal-worker/src/run-session.ts\<close>, \<^verbatim>\<open>packages/terminal-engine\<close>), the promise plumbing
  between the modelled components (\<^verbatim>\<open>terminal-subscriptions.ts\<close>, \<^verbatim>\<open>local-runtime.ts\<close>, the client's sessions), previews, the store and the operations in its
  SQLite transactions, authentication, the RPC tables, the command line, the mobile and web views and the build scripts are not modelled.
\<close>

end
